(* ===== verification/Prelude.thy ===== *)
theory Prelude
  imports Main "HOL-Library.Word" "HOL-Library.List_Lexorder"
begin

text \<open>
  Shared vocabulary of the development: the byte, key and integer types of the model, the error
  values of \<^verbatim>\<open>nebari/src/error.rs\<close>, the result type of every fallible operation, and the generic
  facts on lists, sorted association lists and the slice binary search of the standard library
  that the component theories share.
\<close>

section \<open>Types\<close>

type_synonym u8 = "8 word"
type_synonym u16 = "16 word"
type_synonym u32 = "32 word"
type_synonym u64 = "64 word"

text \<open>\<^verbatim>\<open>ArcBytes\<close>, \<^verbatim>\<open>Vec<u8>\<close> and \<^verbatim>\<open>&[u8]\<close>: byte strings, ordered lexicographically
  (the order of \<^verbatim>\<open>Ord for [u8]\<close>, the order of \<^theory_text>\<open>List_Lexorder\<close> on lists).\<close>

type_synonym bytes = "8 word list"

section \<open>Errors and results\<close>

text \<open>The kinds of \<^verbatim>\<open>std::io::Error\<close> the code distinguishes.\<close>

datatype io_error = NotFoundIo | UnexpectedEof | OtherIo

datatype internal_error = HeaderTooLarge | TransactionManagerStopped | InternalCommunication
  | IncorrectByteLength

datatype error_kind =
    Message string
  | Io io_error
  | DataIntegrity error_kind
  | InvalidTreeName
  | KeyTooLarge
  | ValueTooLarge
  | KeysNotOrdered
  | Internal internal_error
  | TreeCompacted
  | Vault string
  | TransactionPushedOutOfOrder

text \<open>
  The outcome of an operation: a value, an \<^verbatim>\<open>Err\<close> of the code, a panic (\<^verbatim>\<open>unreachable!\<close>,
  \<^verbatim>\<open>unwrap\<close> on \<^verbatim>\<open>None\<close>, an index out of range, an underflow), or the end of the fuel that bounds
  a loop or a recursion of the model.
\<close>

datatype 'a res = Ok (ok_val: 'a) | Err error_kind | Panic | OutOfFuel

fun lift_err :: "'a res \<Rightarrow> 'b res" where
  "lift_err (Err e) = Err e"
| "lift_err Panic = Panic"
| "lift_err OutOfFuel = OutOfFuel"
| "lift_err (Ok x) = Panic"

fun res_bind :: "'a res \<Rightarrow> ('a \<Rightarrow> 'b res) \<Rightarrow> 'b res" where
  "res_bind (Ok x) f = f x"
| "res_bind (Err e) f = Err e"
| "res_bind Panic f = Panic"
| "res_bind OutOfFuel f = OutOfFuel"

definition res_map :: "('a \<Rightarrow> 'b) \<Rightarrow> 'a res \<Rightarrow> 'b res" where
  "res_map f r = res_bind r (\<lambda>x. Ok (f x))"

fun is_ok :: "'a res \<Rightarrow> bool" where
  "is_ok (Ok x) = True"
| "is_ok (Err e) = False"
| "is_ok Panic = False"
| "is_ok OutOfFuel = False"

text \<open>\<^verbatim>\<open>Option::ok_or\<close> with a panic: \<^verbatim>\<open>unwrap\<close>.\<close>

fun unwrap :: "'a option \<Rightarrow> 'a res" where
  "unwrap (Some x) = Ok x"
| "unwrap None = Panic"

text \<open>
  Operations that mutate a state in place and may return early with \<^verbatim>\<open>?\<close>: the state reached
  when the error occurs is part of the result, since the code keeps it.
\<close>

type_synonym ('s, 'a) sres = "'s \<Rightarrow> 'a res \<times> 's"

definition returnS :: "'a \<Rightarrow> ('s, 'a) sres" where
  "returnS x s = (Ok x, s)"

definition failS :: "'a res \<Rightarrow> ('s, 'a) sres" where
  "failS r s = (r, s)"

definition bindS :: "('s, 'a) sres \<Rightarrow> ('a \<Rightarrow> ('s, 'b) sres) \<Rightarrow> ('s, 'b) sres" where
  "bindS m f s = (case m s of (Ok x, s') \<Rightarrow> f x s' | (r, s') \<Rightarrow> (lift_err r, s'))"

text \<open>
  Collections of the development: evaluation rules of the state-and-result combinators, and
  facts on strictly sorted key lists.
\<close>

named_theorems sres_simps
named_theorems sorted_simps

lemma bindS_Ok [sres_simps]: "m s = (Ok x, s') \<Longrightarrow> bindS m f s = f x s'"
  by (simp add: bindS_def)

lemma bindS_OkE:
  assumes "bindS m f s = (Ok y, t)"
  obtains x s' where "m s = (Ok x, s')" and "f x s' = (Ok y, t)"
  using assms
proof (cases "m s")
  case (Pair r s')
  then show ?thesis using assms that by (cases r) (auto simp: bindS_def)
qed

lemma returnS_apply [sres_simps, simp]: "returnS x s = (Ok x, s)"
  by (simp add: returnS_def)

lemma failS_apply [sres_simps, simp]: "failS r s = (r, s)"
  by (simp add: failS_def)

lemma res_bind_eq_Ok [simp]: "res_bind r f = Ok y \<longleftrightarrow> (\<exists>x. r = Ok x \<and> f x = Ok y)"
  by (cases r) auto

lemma lift_err_not_Ok [simp]: "lift_err r \<noteq> Ok x" and "Ok x \<noteq> lift_err r"
  by (cases r; simp)+

lemma is_ok_iff: "is_ok r \<longleftrightarrow> (\<exists>x. r = Ok x)"
  by (cases r) auto

lemma unwrap_eq_Ok [simp]: "unwrap x = Ok y \<longleftrightarrow> x = Some y"
  by (cases x) auto

end
