(* ===== verification/Search.thy ===== *)
theory Search
  imports Prelude
begin

text \<open>
  The slice search the B-Tree uses (\<^verbatim>\<open>slice::binary_search_by\<close> of the standard library) and
  strictly sorted association lists, the abstract view of a B-Tree's contents. The components
  use the two through the lemmas of this theory only.
\<close>

section \<open>Binary search on slices\<close>

text \<open>The two results of \<^verbatim>\<open>binary_search_by\<close>: \<^verbatim>\<open>Ok(index)\<close> and \<^verbatim>\<open>Err(insert_position)\<close>.\<close>

datatype search = Found nat | NotFound nat

function binary_search_loop :: "'a::linorder list \<Rightarrow> 'a \<Rightarrow> nat \<Rightarrow> nat \<Rightarrow> search" where
  "binary_search_loop xs k left right =
     (if left < right then
        let mid = left + (right - left) div 2 in
        if xs ! mid < k then binary_search_loop xs k (mid + 1) right
        else if k < xs ! mid then binary_search_loop xs k left mid
        else Found mid
      else NotFound left)"
  by pat_completeness auto
termination
  by (relation "measure (\<lambda>(xs, k, left, right). right - left)") auto

declare binary_search_loop.simps [simp del]

definition binary_search :: "'a::linorder list \<Rightarrow> 'a \<Rightarrow> search" where
  "binary_search xs k = binary_search_loop xs k 0 (length xs)"

lemma binary_search_loop_spec:
  assumes "sorted_wrt (<) xs" and "left \<le> right" and "right \<le> length xs"
    and "\<And>j. j < left \<Longrightarrow> xs ! j < k" and "\<And>j. right \<le> j \<Longrightarrow> j < length xs \<Longrightarrow> k < xs ! j"
  shows "case binary_search_loop xs k left right of
      Found i \<Rightarrow> i < length xs \<and> xs ! i = k
    | NotFound i \<Rightarrow> i \<le> length xs \<and> (\<forall>j < i. xs ! j < k) \<and> (\<forall>j. i \<le> j \<longrightarrow> j < length xs \<longrightarrow> k < xs ! j)"
  using assms
proof (induction xs k left right rule: binary_search_loop.induct)
  case (1 xs k left right)
  let ?mid = "left + (right - left) div 2"
  show ?case
  proof (cases "left < right")
    case False
    then have "binary_search_loop xs k left right = NotFound left"
      by (simp add: binary_search_loop.simps [of xs k left right])
    with False "1.prems" show ?thesis by simp
  next
    case True
    then have mid: "?mid < right" "?mid < length xs" using "1.prems"(3) by auto
    consider (less) "xs ! ?mid < k" | (greater) "k < xs ! ?mid" | (eq) "xs ! ?mid = k"
      by fastforce
    then show ?thesis
    proof cases
      case less
      have "\<And>j. j < ?mid + 1 \<Longrightarrow> xs ! j < k"
        using less mid "1.prems"(1)
        by (metis Suc_eq_plus1 dual_order.strict_trans less_Suc_eq sorted_wrt_iff_nth_less)
      with True less mid "1.prems" "1.IH"(1) [OF True refl less]
      have "case binary_search_loop xs k (?mid + 1) right of
          Found i \<Rightarrow> i < length xs \<and> xs ! i = k
        | NotFound i \<Rightarrow> i \<le> length xs \<and> (\<forall>j < i. xs ! j < k) \<and>
            (\<forall>j. i \<le> j \<longrightarrow> j < length xs \<longrightarrow> k < xs ! j)"
        by simp
      with True less show ?thesis
        by (simp add: binary_search_loop.simps [of xs k left right] Let_def)
    next
      case greater
      then have ng: "\<not> xs ! ?mid < k" by simp
      have "\<And>j. ?mid \<le> j \<Longrightarrow> j < length xs \<Longrightarrow> k < xs ! j"
        using greater mid "1.prems"(1)
        by (metis dual_order.strict_trans le_neq_implies_less sorted_wrt_iff_nth_less)
      with True greater ng mid "1.prems" "1.IH"(2) [OF True refl ng greater]
      have "case binary_search_loop xs k left ?mid of
          Found i \<Rightarrow> i < length xs \<and> xs ! i = k
        | NotFound i \<Rightarrow> i \<le> length xs \<and> (\<forall>j < i. xs ! j < k) \<and>
            (\<forall>j. i \<le> j \<longrightarrow> j < length xs \<longrightarrow> k < xs ! j)"
        by simp
      with True greater ng show ?thesis
        by (simp add: binary_search_loop.simps [of xs k left right] Let_def)
    next
      case eq
      with True mid show ?thesis
        by (simp add: binary_search_loop.simps [of xs k left right] Let_def)
    qed
  qed
qed

text \<open>
  On a strictly sorted slice the search splits the slice around the key. The rule is used by case
  analysis in every operation that searches a node.
\<close>

lemma binary_search_cases:
  assumes "sorted_wrt (<) xs"
  obtains (found) l r where "xs = l @ k # r" and "binary_search xs k = Found (length l)"
    and "\<forall>x \<in> set l. x < k" and "\<forall>x \<in> set r. k < x"
  | (missing) l r where "xs = l @ r" and "binary_search xs k = NotFound (length l)"
    and "\<forall>x \<in> set l. x < k" and "\<forall>x \<in> set r. k < x"
proof (cases "binary_search xs k")
  case (Found i)
  with binary_search_loop_spec [OF assms, of 0 "length xs" k]
  have i: "i < length xs" "xs ! i = k" by (auto simp: binary_search_def)
  then have eq: "xs = take i xs @ k # drop (Suc i) xs" by (metis id_take_nth_drop)
  with assms have "sorted_wrt (<) (take i xs @ k # drop (Suc i) xs)" by simp
  then have "\<forall>x \<in> set (take i xs). x < k" "\<forall>x \<in> set (drop (Suc i) xs). k < x"
    by (simp_all add: sorted_wrt_append)
  moreover have "binary_search xs k = Found (length (take i xs))" using i Found by simp
  ultimately show ?thesis using eq by (intro found)
next
  case (NotFound i)
  with binary_search_loop_spec [OF assms, of 0 "length xs" k]
  have i: "i \<le> length xs" "\<forall>j < i. xs ! j < k" "\<forall>j. i \<le> j \<longrightarrow> j < length xs \<longrightarrow> k < xs ! j"
    by (auto simp: binary_search_def)
  have "\<forall>x \<in> set (take i xs). x < k" using i by (auto simp: in_set_conv_nth)
  moreover have "\<forall>x \<in> set (drop i xs). k < x"
  proof
    fix x assume "x \<in> set (drop i xs)"
    then obtain j where "j < length xs - i" "x = xs ! (i + j)" by (auto simp: in_set_conv_nth)
    with i show "k < x" by auto
  qed
  ultimately show ?thesis using i NotFound by (intro missing [of "take i xs" "drop i xs"]) auto
qed

section \<open>Strictly sorted association lists\<close>

abbreviation ksorted :: "('k::linorder \<times> 'v) list \<Rightarrow> bool" where
  "ksorted xs \<equiv> sorted_wrt (<) (map fst xs)"

definition upd_sorted :: "'k::linorder \<Rightarrow> 'v \<Rightarrow> ('k \<times> 'v) list \<Rightarrow> ('k \<times> 'v) list" where
  "upd_sorted k v xs = takeWhile (\<lambda>p. fst p < k) xs @ (k, v) # dropWhile (\<lambda>p. fst p \<le> k) xs"

definition del_sorted :: "'k::linorder \<Rightarrow> ('k \<times> 'v) list \<Rightarrow> ('k \<times> 'v) list" where
  "del_sorted k xs = filter (\<lambda>p. fst p \<noteq> k) xs"

lemma upd_sorted_split:
  assumes "\<forall>p \<in> set pre. fst p < k" and "\<forall>p \<in> set post. k < fst p"
  shows "upd_sorted k v (pre @ post) = pre @ (k, v) # post"
    and "upd_sorted k v (pre @ (k, v') # post) = pre @ (k, v) # post"
proof -
  have "takeWhile (\<lambda>p. fst p < k) post = []" using assms(2) by (cases post) auto
  moreover have "dropWhile (\<lambda>p. fst p \<le> k) post = post" using assms(2) by (cases post) auto
  moreover have "dropWhile (\<lambda>p. fst p \<le> k) (pre @ ys) = dropWhile (\<lambda>p. fst p \<le> k) ys" for ys
    using assms(1) by (simp add: order.strict_implies_order)
  ultimately show "upd_sorted k v (pre @ post) = pre @ (k, v) # post"
    and "upd_sorted k v (pre @ (k, v') # post) = pre @ (k, v) # post"
    using assms(1) by (simp_all add: upd_sorted_def)
qed

lemma upd_sorted_frame:
  assumes "\<forall>p \<in> set pre. fst p < k" and "\<forall>p \<in> set post. k < fst p"
  shows "upd_sorted k v (pre @ xs @ post) = pre @ upd_sorted k v xs @ post"
proof -
  have "dropWhile (\<lambda>p. fst p \<le> k) (pre @ ys) = dropWhile (\<lambda>p. fst p \<le> k) ys" for ys
    using assms(1) by (simp add: order.strict_implies_order)
  moreover have "takeWhile (\<lambda>p. fst p < k) (pre @ ys) = pre @ takeWhile (\<lambda>p. fst p < k) ys" for ys
    using assms(1) by simp
  moreover have "takeWhile (\<lambda>p. fst p < k) (xs @ post) = takeWhile (\<lambda>p. fst p < k) xs"
    using assms(2) by (induction xs) (cases post; auto)+
  moreover have "dropWhile (\<lambda>p. fst p \<le> k) (xs @ post) = dropWhile (\<lambda>p. fst p \<le> k) xs @ post"
    using assms(2) by (induction xs) (cases post; auto)+
  ultimately show ?thesis by (simp add: upd_sorted_def)
qed

lemma del_sorted_frame:
  assumes "\<forall>p \<in> set pre. fst p < k" and "\<forall>p \<in> set post. k < fst p"
  shows "del_sorted k (pre @ xs @ post) = pre @ del_sorted k xs @ post"
proof -
  have "filter (\<lambda>p. fst p \<noteq> k) pre = pre" "filter (\<lambda>p. fst p \<noteq> k) post = post"
    using assms by (auto simp: filter_id_conv)
  then show ?thesis by (simp add: del_sorted_def)
qed

lemma map_of_frame:
  assumes "\<forall>p \<in> set pre. fst p < (k::'k::linorder)" and "\<forall>p \<in> set post. k < fst p"
  shows "map_of (pre @ xs @ post) k = map_of xs k"
proof -
  have "map_of pre k = None" "map_of post k = None"
    using assms by (force simp: map_of_eq_None_iff)+
  then show ?thesis by (simp add: map_add_def split: option.splits)
qed

text \<open>Every sorted list is split by a key; the operations act at the split.\<close>

lemma ksorted_cases:
  assumes "ksorted xs"
  obtains (found) pre v post where "xs = pre @ (k, v) # post"
    and "\<forall>p \<in> set pre. fst p < k" and "\<forall>p \<in> set post. k < fst p"
  | (missing) pre post where "xs = pre @ post"
    and "\<forall>p \<in> set pre. fst p < k" and "\<forall>p \<in> set post. k < fst p"
  using assms
proof (cases rule: binary_search_cases [of "map fst xs" k])
  case (found l r)
  then obtain pre q post where "xs = pre @ q # post" "map fst pre = l" "fst q = k" "map fst post = r"
    by (auto simp: map_eq_append_conv map_eq_Cons_conv)
  with found that(1) [of pre "snd q" post] show ?thesis by (cases q) auto
next
  case (missing l r)
  then obtain pre post where "xs = pre @ post" "map fst pre = l" "map fst post = r"
    by (auto simp: map_eq_append_conv)
  with missing that(2) [of pre post] show ?thesis by auto
qed

lemma ksorted_upd_sorted [sorted_simps]: "ksorted xs \<Longrightarrow> ksorted (upd_sorted k v xs)"
  by (cases rule: ksorted_cases [of xs k]; simp) (auto simp: upd_sorted_split sorted_wrt_append)

lemma ksorted_del_sorted [sorted_simps]: "ksorted xs \<Longrightarrow> ksorted (del_sorted k xs)"
  unfolding del_sorted_def by (induction xs) auto

lemma map_of_upd_sorted:
  assumes "ksorted xs"
  shows "map_of (upd_sorted k v xs) = (map_of xs)(k \<mapsto> v)"
  using assms
proof (cases rule: ksorted_cases [of xs k])
  case (found pre v' post)
  then have "map_of pre k = None" by (auto simp: map_of_eq_None_iff)
  with found show ?thesis by (auto simp: upd_sorted_split fun_eq_iff map_add_def split: option.splits)
next
  case (missing pre post)
  then have "map_of pre k = None" by (auto simp: map_of_eq_None_iff)
  with missing show ?thesis by (auto simp: upd_sorted_split fun_eq_iff map_add_def split: option.splits)
qed

lemma map_of_del_sorted: "map_of (del_sorted k xs) = (map_of xs)(k := None)"
  unfolding del_sorted_def by (induction xs) (auto simp: fun_eq_iff)

lemma keys_upd_sorted: "ksorted xs \<Longrightarrow> fst ` set (upd_sorted k v xs) = insert k (fst ` set xs)"
  by (cases rule: ksorted_cases [of xs k]; simp) (auto simp: upd_sorted_split)

lemma keys_del_sorted: "fst ` set (del_sorted k xs) = fst ` set xs - {k}"
  unfolding del_sorted_def by auto

lemma upd_sorted_not_Nil [simp]: "upd_sorted k v xs \<noteq> []"
  by (simp add: upd_sorted_def)

end
