(* ===== verification/Modification.thy ===== *)
theory Modification
  imports Search
begin

text \<open>
  Tree modifications: \<^verbatim>\<open>nebari/src/tree/modify.rs\<close> and the \<^verbatim>\<open>KeyOperation\<close> of
  \<^verbatim>\<open>nebari/src/tree/btree_entry.rs\<close>. A compare-swap callback is a \<^verbatim>\<open>FnMut\<close> closure: here a function
  that takes and returns the state it captured, kept beside it in the operation.
\<close>

type_synonym transaction_id = u64

datatype persistence_mode = Transactional transaction_id | Sync | Flush

fun persistence_transaction_id :: "persistence_mode \<Rightarrow> transaction_id option" where
  "persistence_transaction_id (Transactional i) = Some i"
| "persistence_transaction_id Sync = None"
| "persistence_transaction_id Flush = None"

fun should_synchronize :: "persistence_mode \<Rightarrow> bool" where
  "should_synchronize (Transactional i) = True"
| "should_synchronize Sync = True"
| "should_synchronize Flush = False"

definition persistence_from_option :: "transaction_id option \<Rightarrow> persistence_mode" where
  "persistence_from_option t = (case t of None \<Rightarrow> Sync | Some i \<Rightarrow> Transactional i)"

datatype 'a key_operation = KeySkip | KeySet 'a | KeyRemove

type_synonym ('v, 'i, 's) compare_swap_fn =
  "'s \<Rightarrow> bytes \<Rightarrow> 'i option \<Rightarrow> 'v option \<Rightarrow> 'v key_operation \<times> 's"

datatype ('v, 'i, 's) operation =
    OpSet 'v
  | OpSetEach "'v list"
  | OpRemove
  | OpCompareSwap "('v, 'i, 's) compare_swap_fn" 's

record ('v, 'i, 's) modification =
  persistence_mode :: persistence_mode
  keys :: "bytes list"
  operation :: "('v, 'i, 's) operation"

text \<open>\<^verbatim>\<open>keys.windows(2).all(|w| w[0] < w[1])\<close>\<close>

fun ascending :: "'a::linorder list \<Rightarrow> bool" where
  "ascending (a # b # xs) = (a < b \<and> ascending (b # xs))"
| "ascending _ = True"

definition reverse_operation :: "('v, 'i, 's) operation \<Rightarrow> ('v, 'i, 's) operation" where
  "reverse_operation op = (case op of OpSetEach vs \<Rightarrow> OpSetEach (rev vs) | _ \<Rightarrow> op)"

definition reverse :: "('v, 'i, 's) modification \<Rightarrow> ('v, 'i, 's) modification res" where
  "reverse m =
     (if ascending (keys m)
      then Ok (m\<lparr>keys := rev (keys m), operation := reverse_operation (operation m)\<rparr>)
      else Err KeysNotOrdered)"

lemma ascending_iff [simp]: "ascending xs \<longleftrightarrow> sorted_wrt (<) (xs :: 'a::linorder list)"
proof (induction xs rule: ascending.induct)
  case (1 a b xs)
  then show ?case by (auto intro: less_trans)
qed auto

lemma reverse_eq_Ok:
  "reverse m = Ok m' \<longleftrightarrow> sorted_wrt (<) (keys m) \<and>
     m' = m\<lparr>keys := rev (keys m), operation := reverse_operation (operation m)\<rparr>"
  by (auto simp: reverse_def)

end
