(* ===== verification/BTree.thy ===== *)
theory BTree
  imports Modification
begin

text \<open>
  The B-Tree node operations of \<^verbatim>\<open>nebari/src/tree/btree_entry.rs\<close> with the pointers of
  \<^verbatim>\<open>nebari/src/tree/interior.rs\<close>. A node lives in memory or on disk; \<^verbatim>\<open>Pointer::load\<close> brings it
  into memory through a node reader \<open>rd\<close>, which stands for reading and decoding the chunk at a
  position of the writer's file (it is instantiated with the file model later). Every operation
  returns the nodes as it leaves them, also when it stops with an error.

  The model is that of a release build: \<^verbatim>\<open>assert_children_order!\<close> expands to nothing.
\<close>

section \<open>Data\<close>

datatype 'i key_entry = KeyEntry (ke_key: bytes) (ke_index: 'i)

datatype ('i, 'r) entry = BTreeEntry (dirty: bool) (node: "('i, 'r) node")
and ('i, 'r) node = Uninitialized | Leaf "'i key_entry list" | Interior "('i, 'r) interior list"
and ('i, 'r) interior =
  InteriorEntry (i_key: bytes) (i_position: "('i, 'r) pointer") (i_stats: 'r)
and ('i, 'r) pointer = OnDisk u64 | Loaded "u64 option" "('i, 'r) entry"

datatype change_result = Unchanged | Remove | Absorb | Changed | Split

datatype ('i, 'r) children = Leaves "'i key_entry list" | Interiors "('i, 'r) interior list"

record ('i, 'r) reducer =
  reduce :: "'i list \<Rightarrow> 'r"
  rereduce :: "'r list \<Rightarrow> 'r"

record ('v, 'i, 'r, 'c, 'w) modification_context =
  current_order :: nat
  minimum_children :: nat
  indexer :: "bytes \<Rightarrow> 'v option \<Rightarrow> 'i option \<Rightarrow> 'c \<Rightarrow> 'w \<Rightarrow> 'i key_operation res \<times> 'c \<times> 'w"
  loader :: "'i \<Rightarrow> 'w \<Rightarrow> 'v option res"
  ctx_reducer :: "('i, 'r) reducer"

type_synonym ('i, 'r, 'w) node_reader = "'w \<Rightarrow> u64 \<Rightarrow> ('i, 'r) entry res"

definition from_node :: "('i, 'r) node \<Rightarrow> ('i, 'r) entry" where
  "from_node n = BTreeEntry True n"

definition default_entry :: "('i, 'r) entry" where
  "default_entry = from_node (Leaf [])"

section \<open>Pointers\<close>

fun pointer_load :: "('i, 'r, 'w) node_reader \<Rightarrow> 'w \<Rightarrow> ('i, 'r) pointer \<Rightarrow> ('i, 'r) pointer res" where
  "pointer_load rd w (OnDisk position) = res_map (Loaded (Some position)) (rd w position)"
| "pointer_load rd w (Loaded prev e) = Ok (Loaded prev e)"

fun pointer_get :: "('i, 'r) pointer \<Rightarrow> ('i, 'r) entry option" where
  "pointer_get (OnDisk position) = None"
| "pointer_get (Loaded prev e) = Some e"

fun pointer_position :: "('i, 'r) pointer \<Rightarrow> u64 option" where
  "pointer_position (OnDisk position) = Some position"
| "pointer_position (Loaded prev e) = prev"

text \<open>\<^verbatim>\<open>map_loaded_entry\<close> hands its callback the loaded node or the decoded one, keeping the pointer.\<close>

fun map_loaded_entry ::
    "('i, 'r, 'w) node_reader \<Rightarrow> 'w \<Rightarrow> ('i, 'r) pointer \<Rightarrow> (('i, 'r) entry \<Rightarrow> 'a res) \<Rightarrow> 'a res" where
  "map_loaded_entry rd w (OnDisk position) callback = res_bind (rd w position) callback"
| "map_loaded_entry rd w (Loaded prev e) callback = callback e"

section \<open>Node accessors\<close>

fun entry_count :: "('i, 'r) entry \<Rightarrow> nat res" where
  "entry_count (BTreeEntry d Uninitialized) = Panic"
| "entry_count (BTreeEntry d (Leaf children)) = Ok (length children)"
| "entry_count (BTreeEntry d (Interior children)) = Ok (length children)"

fun stats :: "('i, 'r) reducer \<Rightarrow> ('i, 'r) entry \<Rightarrow> 'r res" where
  "stats red (BTreeEntry d (Leaf children)) = Ok (reduce red (map ke_index children))"
| "stats red (BTreeEntry d (Interior children)) = Ok (rereduce red (map i_stats children))"
| "stats red (BTreeEntry d Uninitialized) = Panic"

fun max_key :: "('i, 'r) entry \<Rightarrow> bytes res" where
  "max_key (BTreeEntry d (Leaf children)) =
     (if children = [] then Panic else Ok (ke_key (last children)))"
| "max_key (BTreeEntry d (Interior children)) =
     (if children = [] then Panic else Ok (i_key (last children)))"
| "max_key (BTreeEntry d Uninitialized) = Panic"

definition interior_new :: "('i, 'r) reducer \<Rightarrow> ('i, 'r) entry \<Rightarrow> ('i, 'r) interior res" where
  "interior_new red e =
     res_bind (max_key e) (\<lambda>key.
     res_bind (stats red e) (\<lambda>st. Ok (InteriorEntry key (Loaded None e) st)))"

definition clean_up_leaf :: "'i key_entry list \<Rightarrow> nat \<Rightarrow> nat \<Rightarrow> change_result" where
  "clean_up_leaf children order min_children =
     (let child_count = length children in
      if child_count > order then Split
      else if child_count = 0 then Remove
      else if child_count < min_children then Absorb
      else Changed)"

definition clean_up_interior :: "('i, 'r) interior list \<Rightarrow> nat \<Rightarrow> nat \<Rightarrow> change_result" where
  "clean_up_interior children order min_children =
     (let child_count = length children in
      if child_count > order then Split
      else if child_count = 0 then Remove
      else if child_count < min_children then Absorb
      else Changed)"

section \<open>Leaf modification\<close>

text \<open>The operation on a key the leaf holds, with its current index.\<close>

fun matched_operation ::
    "('v, 'i, 'r, 'c, 'w) modification_context \<Rightarrow> bytes \<Rightarrow> 'i \<Rightarrow> ('v, 'i, 's) operation \<Rightarrow> 'c \<Rightarrow> 'w \<Rightarrow>
     'i key_operation res \<times> ('v, 'i, 's) operation \<times> 'c \<times> 'w" where
  "matched_operation ctx key current (OpSet v) c w =
     (case indexer ctx key (Some v) (Some current) c w of (r, c', w') \<Rightarrow> (r, OpSet v, c', w'))"
| "matched_operation ctx key current (OpSetEach vs) c w =
     (if vs = [] then (Err (Message ''need the same number of keys as values''), OpSetEach vs, c, w)
      else case indexer ctx key (Some (last vs)) (Some current) c w of
        (r, c', w') \<Rightarrow> (r, OpSetEach (butlast vs), c', w'))"
| "matched_operation ctx key current OpRemove c w =
     (case indexer ctx key None (Some current) c w of (r, c', w') \<Rightarrow> (r, OpRemove, c', w'))"
| "matched_operation ctx key current (OpCompareSwap callback s) c w =
     (case loader ctx current w of
        Ok existing_value \<Rightarrow>
          (case callback s key (Some current) existing_value of
             (KeySkip, s') \<Rightarrow> (Ok KeySkip, OpCompareSwap callback s', c, w)
           | (KeySet new_value, s') \<Rightarrow>
               (case indexer ctx key (Some new_value) (Some current) c w of
                  (r, c', w') \<Rightarrow> (r, OpCompareSwap callback s', c', w'))
           | (KeyRemove, s') \<Rightarrow>
               (case indexer ctx key None (Some current) c w of
                  (r, c', w') \<Rightarrow> (r, OpCompareSwap callback s', c', w')))
      | bad \<Rightarrow> (lift_err bad, OpCompareSwap callback s, c, w))"

text \<open>The operation on a key the leaf does not hold.\<close>

fun unmatched_operation ::
    "('v, 'i, 'r, 'c, 'w) modification_context \<Rightarrow> bytes \<Rightarrow> ('v, 'i, 's) operation \<Rightarrow> 'c \<Rightarrow> 'w \<Rightarrow>
     'i key_operation res \<times> ('v, 'i, 's) operation \<times> 'c \<times> 'w" where
  "unmatched_operation ctx key (OpSet v) c w =
     (case indexer ctx key (Some v) None c w of (r, c', w') \<Rightarrow> (r, OpSet v, c', w'))"
| "unmatched_operation ctx key (OpSetEach vs) c w =
     (if vs = [] then (Err (Message ''need the same number of keys as values''), OpSetEach vs, c, w)
      else case indexer ctx key (Some (last vs)) None c w of
        (r, c', w') \<Rightarrow> (r, OpSetEach (butlast vs), c', w'))"
| "unmatched_operation ctx key OpRemove c w = (Ok KeyRemove, OpRemove, c, w)"
| "unmatched_operation ctx key (OpCompareSwap callback s) c w =
     (case callback s key None None of
        (KeySkip, s') \<Rightarrow> (Ok KeySkip, OpCompareSwap callback s', c, w)
      | (KeySet new_value, s') \<Rightarrow>
          (case indexer ctx key (Some new_value) None c w of
             (r, c', w') \<Rightarrow> (r, OpCompareSwap callback s', c', w'))
      | (KeyRemove, s') \<Rightarrow>
          (case indexer ctx key None None c w of
             (r, c', w') \<Rightarrow> (r, OpCompareSwap callback s', c', w')))"

definition exceeds :: "bytes option \<Rightarrow> bytes \<Rightarrow> bool" where
  "exceeds max_k key = (case max_k of None \<Rightarrow> False | Some mk \<Rightarrow> mk < key)"

definition remove_nth :: "nat \<Rightarrow> 'a list \<Rightarrow> 'a list" where
  "remove_nth i xs = take i xs @ drop (Suc i) xs"

definition insert_nth :: "nat \<Rightarrow> 'a \<Rightarrow> 'a list \<Rightarrow> 'a list" where
  "insert_nth i x xs = take i xs @ x # drop i xs"

text \<open>The loop of \<^verbatim>\<open>modify_leaf\<close>; each round pops one key.\<close>

function modify_leaf_loop ::
    "('v, 'i, 'r, 'c, 'w) modification_context \<Rightarrow> nat \<Rightarrow> bytes option \<Rightarrow> nat \<Rightarrow> bool \<Rightarrow>
     'i key_entry list \<Rightarrow> ('v, 'i, 's) modification \<Rightarrow> 'c \<Rightarrow> 'w \<Rightarrow>
     bool res \<times> 'i key_entry list \<times> ('v, 'i, 's) modification \<times> 'c \<times> 'w" where
  "modify_leaf_loop ctx max_len max_k last_index any_changes children m c w =
     (if keys m = [] \<or> length children > max_len then (Ok any_changes, children, m, c, w)
      else let key = last (keys m) in
      if exceeds max_k key then (Ok any_changes, children, m, c, w)
      else if last_index > length children then (Panic, children, m, c, w)
      else case binary_search (map ke_key (drop last_index children)) key of
        Found i \<Rightarrow>
          (let li = last_index + i in
           case matched_operation ctx key (ke_index (children ! li)) (operation m) c w of
             (r, op', c', w') \<Rightarrow>
               let m' = m\<lparr>keys := butlast (keys m), operation := op'\<rparr> in
               (case r of
                  Ok KeySkip \<Rightarrow> modify_leaf_loop ctx max_len max_k li any_changes children m' c' w'
                | Ok (KeySet index) \<Rightarrow>
                    modify_leaf_loop ctx max_len max_k li True
                      (children[li := KeyEntry key index]) m' c' w'
                | Ok KeyRemove \<Rightarrow>
                    modify_leaf_loop ctx max_len max_k li True (remove_nth li children) m' c' w'
                | bad \<Rightarrow> (lift_err bad, children, m', c', w')))
      | NotFound i \<Rightarrow>
          (let li = last_index + i in
           case unmatched_operation ctx key (operation m) c w of
             (r, op', c', w') \<Rightarrow>
               let m' = m\<lparr>keys := butlast (keys m), operation := op'\<rparr> in
               (case r of
                  Ok (KeySet index) \<Rightarrow>
                    modify_leaf_loop ctx max_len max_k li True
                      (insert_nth li (KeyEntry key index) children) m' c' w'
                | Ok _ \<Rightarrow> modify_leaf_loop ctx max_len max_k li any_changes children m' c' w'
                | bad \<Rightarrow> (lift_err bad, children, m', c', w'))))"
  by pat_completeness auto
termination
  by (relation "measure (\<lambda>(ctx, max_len, max_k, li, ch, children, m, c, w). length (keys m))") auto

declare modify_leaf_loop.simps [simp del]

definition modify_leaf ::
    "('v, 'i, 'r, 'c, 'w) modification_context \<Rightarrow> bytes option \<Rightarrow>
     'i key_entry list \<Rightarrow> ('v, 'i, 's) modification \<Rightarrow> 'c \<Rightarrow> 'w \<Rightarrow>
     bool res \<times> 'i key_entry list \<times> ('v, 'i, 's) modification \<times> 'c \<times> 'w" where
  "modify_leaf ctx max_k children m c w =
     modify_leaf_loop ctx (max (length children) (current_order ctx)) max_k 0 False children m c w"

section \<open>Interior children in place\<close>

text \<open>
  The accesses \<^verbatim>\<open>children[i].position.load(..)\<close>, \<^verbatim>\<open>.get_mut().unwrap()\<close> and the assignments to
  \<^verbatim>\<open>children[i]\<close>, over the list of children as state.
\<close>

definition load_child :: "('i, 'r, 'w) node_reader \<Rightarrow> 'w \<Rightarrow> nat \<Rightarrow> (('i, 'r) interior list, unit) sres" where
  "load_child rd w i cs =
     (if i < length cs then
        (case pointer_load rd w (i_position (cs ! i)) of
           Ok p \<Rightarrow> (Ok (), cs[i := InteriorEntry (i_key (cs ! i)) p (i_stats (cs ! i))])
         | bad \<Rightarrow> (lift_err bad, cs))
      else (Panic, cs))"

definition child_entry :: "nat \<Rightarrow> (('i, 'r) interior list, ('i, 'r) entry) sres" where
  "child_entry i cs =
     (if i < length cs then (unwrap (pointer_get (i_position (cs ! i))), cs) else (Panic, cs))"

definition set_child_entry :: "nat \<Rightarrow> ('i, 'r) entry \<Rightarrow> (('i, 'r) interior list, unit) sres" where
  "set_child_entry i e cs =
     (if i < length cs then
        (Ok (), cs[i := InteriorEntry (i_key (cs ! i))
           (Loaded (pointer_position (i_position (cs ! i))) e) (i_stats (cs ! i))])
      else (Panic, cs))"

text \<open>\<^verbatim>\<open>children[i].key = entry.max_key(); children[i].stats = entry.stats(reducer)\<close>\<close>

definition refresh_child :: "('i, 'r) reducer \<Rightarrow> nat \<Rightarrow> (('i, 'r) interior list, unit) sres" where
  "refresh_child red i =
     bindS (child_entry i) (\<lambda>e.
     bindS (failS (max_key e)) (\<lambda>k.
     bindS (failS (stats red e)) (\<lambda>st cs.
       (Ok (), cs[i := InteriorEntry k (i_position (cs ! i)) st]))))"

definition child_count :: "nat \<Rightarrow> (('i, 'r) interior list, nat) sres" where
  "child_count i = bindS (child_entry i) (\<lambda>e. failS (entry_count e))"

section \<open>Stealing, splitting and absorbing\<close>

text \<open>\<^verbatim>\<open>splice(0..amount, empty())\<close> on the node that must be split.\<close>

definition steal_front :: "nat \<Rightarrow> nat \<Rightarrow> ('i, 'r) entry \<Rightarrow> (('i, 'r) children \<times> ('i, 'r) entry) res" where
  "steal_front min_children free_space e =
     (case node e of
        Leaf cs \<Rightarrow>
          (let amount = min free_space (length cs - min_children) in
           Ok (Leaves (take amount cs), BTreeEntry (dirty e) (Leaf (drop amount cs))))
      | Interior cs \<Rightarrow>
          (let amount = max free_space (length cs - min_children) in
           if amount > length cs then Panic
           else Ok (Interiors (take amount cs), BTreeEntry (dirty e) (Interior (drop amount cs))))
      | Uninitialized \<Rightarrow> Panic)"

text \<open>\<^verbatim>\<open>splice(children.len() - amount.., empty())\<close>\<close>

definition steal_back :: "nat \<Rightarrow> nat \<Rightarrow> ('i, 'r) entry \<Rightarrow> (('i, 'r) children \<times> ('i, 'r) entry) res" where
  "steal_back min_children free_space e =
     (case node e of
        Leaf cs \<Rightarrow>
          (let amount = min free_space (length cs - min_children); keep = length cs - amount in
           Ok (Leaves (drop keep cs), BTreeEntry (dirty e) (Leaf (take keep cs))))
      | Interior cs \<Rightarrow>
          (let amount = max free_space (length cs - min_children); keep = length cs - amount in
           if amount > length cs then Panic
           else Ok (Interiors (drop keep cs), BTreeEntry (dirty e) (Interior (take keep cs))))
      | Uninitialized \<Rightarrow> Panic)"

fun extend_node :: "('i, 'r) entry \<Rightarrow> ('i, 'r) children \<Rightarrow> ('i, 'r) entry res" where
  "extend_node (BTreeEntry d (Leaf cs)) (Leaves new) = Ok (BTreeEntry True (Leaf (cs @ new)))"
| "extend_node (BTreeEntry d (Interior cs)) (Interiors new) = Ok (BTreeEntry True (Interior (cs @ new)))"
| "extend_node e new = Panic"

fun prepend_node :: "('i, 'r) entry \<Rightarrow> ('i, 'r) children \<Rightarrow> ('i, 'r) entry res" where
  "prepend_node (BTreeEntry d (Leaf cs)) (Leaves new) = Ok (BTreeEntry True (Leaf (new @ cs)))"
| "prepend_node (BTreeEntry d (Interior cs)) (Interiors new) = Ok (BTreeEntry True (Interior (new @ cs)))"
| "prepend_node e new = Panic"

definition steal_children_from_start ::
    "('v, 'i, 'r, 'c, 'w) modification_context \<Rightarrow> ('i, 'r, 'w) node_reader \<Rightarrow> 'w \<Rightarrow> nat \<Rightarrow>
     (('i, 'r) interior list, change_result \<times> bool) sres" where
  "steal_children_from_start ctx rd w i =
     bindS (load_child rd w (i - 1)) (\<lambda>_.
     bindS (child_count (i - 1)) (\<lambda>previous_child_count.
     if previous_child_count \<le> current_order ctx \<and> current_order ctx - previous_child_count > 0 then
       bindS (child_entry i) (\<lambda>e.
       bindS (failS (steal_front (minimum_children ctx) (current_order ctx - previous_child_count) e))
         (\<lambda>(stolen, e').
       bindS (set_child_entry i (BTreeEntry True (node e'))) (\<lambda>_.
       bindS (child_entry (i - 1)) (\<lambda>prev.
       bindS (failS (extend_node prev stolen)) (\<lambda>prev'.
       bindS (set_child_entry (i - 1) prev') (\<lambda>_.
       bindS (refresh_child (ctx_reducer ctx) (i - 1)) (\<lambda>_.
       bindS (refresh_child (ctx_reducer ctx) i) (\<lambda>_.
       bindS (child_count i) (\<lambda>count.
         if count \<le> current_order ctx then returnS (Changed, True)
         else returnS (Unchanged, True))))))))))
     else returnS (Unchanged, False)))"

definition steal_children_from_end ::
    "('v, 'i, 'r, 'c, 'w) modification_context \<Rightarrow> ('i, 'r, 'w) node_reader \<Rightarrow> 'w \<Rightarrow> nat \<Rightarrow>
     (('i, 'r) interior list, change_result) sres" where
  "steal_children_from_end ctx rd w i =
     bindS (load_child rd w (i + 1)) (\<lambda>_.
     bindS (child_count (i + 1)) (\<lambda>next_child_count.
     if next_child_count \<le> current_order ctx \<and> current_order ctx - next_child_count > 0 then
       bindS (child_entry i) (\<lambda>e.
       bindS (failS (steal_back (minimum_children ctx) (current_order ctx - next_child_count) e))
         (\<lambda>(stolen, e').
       bindS (set_child_entry i (BTreeEntry True (node e'))) (\<lambda>_.
       bindS (child_entry (i + 1)) (\<lambda>next_child.
       bindS (failS (prepend_node next_child stolen)) (\<lambda>next'.
       bindS (set_child_entry (i + 1) next') (\<lambda>_.
       bindS (refresh_child (ctx_reducer ctx) (i + 1)) (\<lambda>_.
       bindS (refresh_child (ctx_reducer ctx) i) (\<lambda>_.
       bindS (child_count i) (\<lambda>count.
         if count \<le> current_order ctx then returnS Changed else returnS Unchanged)))))))))
     else returnS Unchanged))"

text \<open>The upper half leaves the node: \<^verbatim>\<open>splice((len + 1) / 2.., empty())\<close>.\<close>

definition split_node :: "('i, 'r) node \<Rightarrow> (('i, 'r) node \<times> ('i, 'r) node) res" where
  "split_node n =
     (case n of
        Leaf cs \<Rightarrow> Ok (Leaf (take ((length cs + 1) div 2) cs), Leaf (drop ((length cs + 1) div 2) cs))
      | Interior cs \<Rightarrow>
          Ok (Interior (take ((length cs + 1) div 2) cs), Interior (drop ((length cs + 1) div 2) cs))
      | Uninitialized \<Rightarrow> Panic)"

text \<open>The part of \<^verbatim>\<open>process_interior_split\<close> that adds a node, after both steals.\<close>

definition split_child ::
    "('v, 'i, 'r, 'c, 'w) modification_context \<Rightarrow> nat \<Rightarrow> (('i, 'r) interior list, unit) sres" where
  "split_child ctx i =
     bindS (child_entry i) (\<lambda>e.
     bindS (failS (split_node (node e))) (\<lambda>(lower, upper).
     bindS (set_child_entry i (BTreeEntry True lower)) (\<lambda>_.
     bindS (refresh_child (ctx_reducer ctx) i) (\<lambda>_.
     bindS (failS (interior_new (ctx_reducer ctx) (from_node upper))) (\<lambda>new cs.
       (Ok (), insert_nth (i + 1) new cs))))))"

definition process_interior_split ::
    "('v, 'i, 'r, 'c, 'w) modification_context \<Rightarrow> ('i, 'r, 'w) node_reader \<Rightarrow> 'w \<Rightarrow> nat \<Rightarrow>
     (('i, 'r) interior list, change_result \<times> bool) sres" where
  "process_interior_split ctx rd w i =
     bindS (if i > 0 then steal_children_from_start ctx rd w i else returnS (Unchanged, False))
       (\<lambda>(cr, should_backup).
     case cr of
       Changed \<Rightarrow> returnS (Changed, should_backup)
     | Unchanged \<Rightarrow>
         bindS (\<lambda>cs. if i + 1 < length cs then steal_children_from_end ctx rd w i cs
                     else returnS Unchanged cs) (\<lambda>cr'.
         case cr' of
           Changed \<Rightarrow> returnS (Changed, should_backup)
         | Unchanged \<Rightarrow> bindS (split_child ctx i) (\<lambda>_. returnS (Changed, should_backup))
         | _ \<Rightarrow> failS Panic)
     | _ \<Rightarrow> failS Panic)"

fun absorb ::
    "nat \<Rightarrow> ('i, 'r, 'w) node_reader \<Rightarrow> 'w \<Rightarrow> nat \<Rightarrow> nat \<Rightarrow> ('i, 'r) children \<Rightarrow> bool \<Rightarrow>
     (('i, 'r) entry, change_result) sres" where
  "absorb 0 rd w order min_children new insert_at_top e = (OutOfFuel, e)"
| "absorb (Suc fuel) rd w order min_children new insert_at_top e =
     (case (node e, new) of
        (Leaf existing, Leaves leaves) \<Rightarrow>
          (let ex' = (if insert_at_top then existing @ leaves else leaves @ existing) in
           (Ok (clean_up_leaf ex' order min_children), BTreeEntry True (Leaf ex')))
      | (Interior existing, Leaves leaves) \<Rightarrow>
          (if existing = [] then (Panic, BTreeEntry True (Interior existing)) else
           let j = (if insert_at_top then length existing - 1 else 0) in
           (case bindS (load_child rd w j) (\<lambda>_. child_entry j) existing of
              (Ok sponge, ex1) \<Rightarrow>
                (case absorb fuel rd w order min_children (Leaves leaves) insert_at_top sponge of
                   (r, sponge') \<Rightarrow> (r, BTreeEntry True (Interior (snd (set_child_entry j sponge' ex1)))))
            | (bad, ex1) \<Rightarrow> (lift_err bad, BTreeEntry True (Interior ex1))))
      | (Interior existing, Interiors interiors) \<Rightarrow>
          (let ex' = (if insert_at_top then existing @ interiors else interiors @ existing) in
           (Ok (clean_up_interior ex' order min_children), BTreeEntry True (Interior ex')))
      | _ \<Rightarrow> (Panic, BTreeEntry True (node e)))"

text \<open>\<^verbatim>\<open>std::mem::take\<close> of the removed child's contents.\<close>

definition take_children :: "('i, 'r) interior \<Rightarrow> ('i, 'r) children res" where
  "take_children c =
     (case i_position c of
        OnDisk p \<Rightarrow> Panic
      | Loaded prev e \<Rightarrow>
          (case node e of Leaf ls \<Rightarrow> Ok (Leaves ls) | Interior is \<Rightarrow> Ok (Interiors is)
           | Uninitialized \<Rightarrow> Panic))"

lemma length_load_child: "load_child rd w i cs = (r, cs') \<Longrightarrow> length cs' = length cs"
  by (auto simp: load_child_def split: if_splits res.splits)

lemma length_child_entry: "child_entry i cs = (r, cs') \<Longrightarrow> cs' = cs"
  by (auto simp: child_entry_def split: if_splits)

lemma length_set_child_entry [simp]: "length (snd (set_child_entry i e cs)) = length cs"
  by (auto simp: set_child_entry_def)

lemma length_remove_nth [simp]: "i < length xs \<Longrightarrow> length (remove_nth i xs) = length xs - 1"
  by (auto simp: remove_nth_def)

text \<open>The sponge loaded, and its entry.\<close>

definition load_sponge ::
    "('i, 'r, 'w) node_reader \<Rightarrow> 'w \<Rightarrow> nat \<Rightarrow> (('i, 'r) interior list, ('i, 'r) entry) sres" where
  "load_sponge rd w i = bindS (load_child rd w i) (\<lambda>_. child_entry i)"

lemma length_load_sponge: "load_sponge rd w i cs = (r, cs') \<Longrightarrow> length cs' = length cs"
  by (auto simp: load_sponge_def bindS_def dest!: length_load_child length_child_entry
        split: prod.splits res.splits)

function (sequential)
  process_interior_change_result ::
    "nat \<Rightarrow> ('v, 'i, 'r, 'c, 'w) modification_context \<Rightarrow> ('i, 'r, 'w) node_reader \<Rightarrow> 'w \<Rightarrow>
     change_result \<Rightarrow> nat \<Rightarrow> (('i, 'r) interior list, change_result \<times> bool) sres"
and process_absorb ::
    "nat \<Rightarrow> ('v, 'i, 'r, 'c, 'w) modification_context \<Rightarrow> ('i, 'r, 'w) node_reader \<Rightarrow> 'w \<Rightarrow>
     nat \<Rightarrow> (('i, 'r) interior list, change_result \<times> bool) sres"
where
  "process_interior_change_result fuel ctx rd w result i cs =
     (case result of
        Unchanged \<Rightarrow> (Ok (Unchanged, False), cs)
      | Changed \<Rightarrow> bindS (refresh_child (ctx_reducer ctx) i) (\<lambda>_. returnS (Changed, False)) cs
      | Split \<Rightarrow> process_interior_split ctx rd w i cs
      | Absorb \<Rightarrow>
          (if length cs > 1 then process_absorb fuel ctx rd w i cs
           else bindS (refresh_child (ctx_reducer ctx) i) (\<lambda>_. returnS (Changed, True)) cs)
      | Remove \<Rightarrow> (if i < length cs then (Ok (Changed, True), remove_nth i cs) else (Panic, cs)))"
| "process_absorb fuel ctx rd w i cs =
     (let insert_on_top = (i > 0); sponge_index = (if i > 0 then i - 1 else i) in
      if sponge_index < length cs - 1 then
        (if i < length cs then
          (case take_children (cs ! i) of
             Ok leaves \<Rightarrow>
               (case load_sponge rd w sponge_index (remove_nth i cs) of
                  (Ok sponge, cs2) \<Rightarrow>
                    (case absorb fuel rd w (current_order ctx) (minimum_children ctx)
                            leaves insert_on_top sponge of
                       (r, sponge') \<Rightarrow>
                         let cs3 = snd (set_child_entry sponge_index sponge' cs2) in
                         (case r of
                            Ok cr \<Rightarrow>
                              (case process_interior_change_result fuel ctx rd w cr sponge_index cs3 of
                                 (Ok (Remove, b), cs4) \<Rightarrow> (Ok (Remove, True), cs4)
                               | (Ok (Changed, b), cs4) \<Rightarrow> (Ok (Changed, True), cs4)
                               | (Ok (cr', b), cs4) \<Rightarrow> (Panic, cs4)
                               | (bad, cs4) \<Rightarrow> (lift_err bad, cs4))
                          | bad \<Rightarrow> (lift_err bad, cs3)))
                | (bad, cs2) \<Rightarrow> (lift_err bad, cs2))
           | bad \<Rightarrow> (lift_err bad, remove_nth i cs))
         else (Panic, cs))
      else (Ok (Unchanged, False), cs))"
  by pat_completeness auto
termination
  by (relation "measures [\<lambda>x. case x of Inl (f, c, r, w, result, i, cs) \<Rightarrow> length cs
        | Inr (f, c, r, w, i, cs) \<Rightarrow> length cs,
      \<lambda>x. case x of Inl _ \<Rightarrow> 1 | Inr _ \<Rightarrow> 0]") (auto dest!: length_load_sponge [OF sym])

declare process_interior_change_result.simps [simp del] process_absorb.simps [simp del]

section \<open>Tree modification\<close>

text \<open>The child of an interior node that takes the key, and whether the key becomes its new last key.\<close>

definition containing_child :: "('i, 'r) interior list \<Rightarrow> nat \<Rightarrow> bytes \<Rightarrow> nat \<times> bool" where
  "containing_child children last_index key =
     (case binary_search (map i_key (drop last_index children)) key of
        Found i \<Rightarrow> (last_index + i, False)
      | NotFound i \<Rightarrow>
          if i > 0 \<and> i + last_index = length children then (last_index + (i - 1), True)
          else (last_index + i, False))"

definition max_key_for_modification :: "bool \<Rightarrow> bytes \<Rightarrow> bytes option \<Rightarrow> bytes \<Rightarrow> bytes" where
  "max_key_for_modification pushing_end key max_k child_key =
     (if pushing_end then key
      else case max_k of Some mk \<Rightarrow> min child_key mk | None \<Rightarrow> child_key)"

fun modify ::
    "nat \<Rightarrow> ('v, 'i, 'r, 'c, 'w) modification_context \<Rightarrow> ('i, 'r, 'w) node_reader \<Rightarrow> bytes option \<Rightarrow>
     ('i, 'r) entry \<Rightarrow> ('v, 'i, 's) modification \<Rightarrow> 'c \<Rightarrow> 'w \<Rightarrow>
     change_result res \<times> ('i, 'r) entry \<times> ('v, 'i, 's) modification \<times> 'c \<times> 'w"
and modify_interior ::
    "nat \<Rightarrow> ('v, 'i, 'r, 'c, 'w) modification_context \<Rightarrow> ('i, 'r, 'w) node_reader \<Rightarrow> bytes option \<Rightarrow>
     nat \<Rightarrow> bool \<Rightarrow> ('i, 'r) interior list \<Rightarrow> ('v, 'i, 's) modification \<Rightarrow> 'c \<Rightarrow> 'w \<Rightarrow>
     change_result res \<times> ('i, 'r) interior list \<times> ('v, 'i, 's) modification \<times> 'c \<times> 'w"
where
  "modify 0 ctx rd max_k e m c w = (OutOfFuel, e, m, c, w)"
| "modify (Suc fuel) ctx rd max_k e m c w =
     (case node e of
        Leaf children \<Rightarrow>
          (case modify_leaf ctx max_k children m c w of
             (Ok changed, children', m', c', w') \<Rightarrow>
               if changed then
                 (Ok (clean_up_leaf children' (current_order ctx) (minimum_children ctx)),
                  BTreeEntry True (Leaf children'), m', c', w')
               else (Ok Unchanged, BTreeEntry (dirty e) (Leaf children'), m', c', w')
           | (bad, children', m', c', w') \<Rightarrow>
               (lift_err bad, BTreeEntry (dirty e) (Leaf children'), m', c', w'))
      | Interior children \<Rightarrow>
          (case modify_interior fuel ctx rd max_k 0 False children m c w of
             (Ok Changed, children', m', c', w') \<Rightarrow>
               (Ok (clean_up_interior children' (current_order ctx) (minimum_children ctx)),
                BTreeEntry True (Interior children'), m', c', w')
           | (other, children', m', c', w') \<Rightarrow>
               (other, BTreeEntry (dirty e) (Interior children'), m', c', w'))
      | Uninitialized \<Rightarrow> (Panic, e, m, c, w))"
| "modify_interior 0 ctx rd max_k last_index any_changes children m c w = (OutOfFuel, children, m, c, w)"
| "modify_interior (Suc fuel) ctx rd max_k last_index any_changes children m c w =
     (if keys m = [] \<or> last_index \<ge> length children \<or> exceeds max_k (last (keys m))
      then (Ok (if any_changes then Changed else Unchanged), children, m, c, w)
      else
        let key = last (keys m); (li, pushing_end) = containing_child children last_index key in
        (case bindS (load_child rd w li) (\<lambda>_. child_entry li) children of
           (Ok child_e, children1) \<Rightarrow>
             (case modify fuel ctx rd
                     (Some (max_key_for_modification pushing_end key max_k (i_key (children ! li))))
                     child_e m c w of
                (r, child_e', m', c', w') \<Rightarrow>
                  let children2 = snd (set_child_entry li child_e' children1) in
                  (case r of
                     Ok cr \<Rightarrow>
                       (case process_interior_change_result fuel ctx rd w' cr li children2 of
                          (Ok (cr', should_backup), children3) \<Rightarrow>
                            (let next_index = (if should_backup \<and> li > 0 then li - 1 else li) in
                             case cr' of
                               Unchanged \<Rightarrow>
                                 modify_interior fuel ctx rd max_k next_index any_changes children3 m' c' w'
                             | Split \<Rightarrow> (Panic, children3, m', c', w')
                             | Absorb \<Rightarrow> (Ok Absorb, children3, m', c', w')
                             | _ \<Rightarrow> modify_interior fuel ctx rd max_k next_index True children3 m' c' w')
                        | (bad, children3) \<Rightarrow> (lift_err bad, children3, m', c', w'))
                   | bad \<Rightarrow> (lift_err bad, children2, m', c', w')))
         | (bad, children1) \<Rightarrow> (lift_err bad, children1, m, c, w)))"

section \<open>Splitting the root\<close>

definition split_entry ::
    "('i, 'r) reducer \<Rightarrow> ('i, 'r) entry \<Rightarrow> (('i, 'r) interior \<times> ('i, 'r) interior) res" where
  "split_entry red e =
     res_bind (split_node (node e)) (\<lambda>(lower, upper).
     res_bind (interior_new red (from_node lower)) (\<lambda>l.
     res_bind (interior_new red (from_node upper)) (\<lambda>u. Ok (l, u))))"

definition split_root :: "('i, 'r) reducer \<Rightarrow> ('i, 'r) entry \<Rightarrow> ('i, 'r) entry res" where
  "split_root red e =
     res_bind (split_entry red e) (\<lambda>(lower, upper). Ok (from_node (Interior [lower, upper])))"

end
