(* ===== verification/BTree_Inv.thy ===== *)
theory BTree_Inv
  imports BTree
begin

text \<open>
  The invariant of a B-Tree and its abstraction to a sorted association list. A node of height
  \<open>n\<close> is read through \<open>f\<close>, the node reader at the current state of the file; \<open>nflat\<close> lists the
  entries of its leaves in order and \<open>nwf\<close> is the invariant: all leaves have the same depth, every
  interior entry carries the last key and the reduced statistics of its child, no child is empty,
  and a child that is not dirty agrees with the copy of it on disk.
\<close>

section \<open>Nodes as sequences\<close>

fun node_len :: "('i, 'r) node \<Rightarrow> nat" where
  "node_len (Leaf cs) = length cs"
| "node_len (Interior cs) = length cs"
| "node_len Uninitialized = 0"

fun node_take :: "nat \<Rightarrow> ('i, 'r) node \<Rightarrow> ('i, 'r) node" where
  "node_take k (Leaf cs) = Leaf (take k cs)"
| "node_take k (Interior cs) = Interior (take k cs)"
| "node_take k Uninitialized = Uninitialized"

fun node_drop :: "nat \<Rightarrow> ('i, 'r) node \<Rightarrow> ('i, 'r) node" where
  "node_drop k (Leaf cs) = Leaf (drop k cs)"
| "node_drop k (Interior cs) = Interior (drop k cs)"
| "node_drop k Uninitialized = Uninitialized"

fun node_append :: "('i, 'r) node \<Rightarrow> ('i, 'r) node \<Rightarrow> ('i, 'r) node" where
  "node_append (Leaf a) (Leaf b) = Leaf (a @ b)"
| "node_append (Interior a) (Interior b) = Interior (a @ b)"
| "node_append _ _ = Uninitialized"

fun children_node :: "('i, 'r) children \<Rightarrow> ('i, 'r) node" where
  "children_node (Leaves cs) = Leaf cs"
| "children_node (Interiors cs) = Interior cs"

section \<open>Contents and invariant\<close>

fun resolve :: "(u64 \<Rightarrow> ('i, 'r) entry res) \<Rightarrow> ('i, 'r) pointer \<Rightarrow> ('i, 'r) entry res" where
  "resolve f (OnDisk p) = f p"
| "resolve f (Loaded prev e) = Ok e"

fun key_pair :: "'i key_entry \<Rightarrow> bytes \<times> 'i" where
  "key_pair (KeyEntry k i) = (k, i)"

lemma fst_key_pair [simp]: "fst (key_pair e) = ke_key e"
  by (cases e) simp

lemma snd_key_pair [simp]: "snd (key_pair e) = ke_index e"
  by (cases e) simp

fun nflat :: "(u64 \<Rightarrow> ('i, 'r) entry res) \<Rightarrow> nat \<Rightarrow> ('i, 'r) node \<Rightarrow> (bytes \<times> 'i) list" where
  "nflat f 0 nd = (case nd of Leaf cs \<Rightarrow> map key_pair cs | _ \<Rightarrow> [])"
| "nflat f (Suc n) nd =
     (case nd of
        Interior cs \<Rightarrow>
          concat (map (\<lambda>c. case resolve f (i_position c) of Ok e \<Rightarrow> nflat f n (node e) | _ \<Rightarrow> []) cs)
      | _ \<Rightarrow> [])"

definition cflat :: "(u64 \<Rightarrow> ('i, 'r) entry res) \<Rightarrow> nat \<Rightarrow> ('i, 'r) interior \<Rightarrow> (bytes \<times> 'i) list" where
  "cflat f n c = (case resolve f (i_position c) of Ok e \<Rightarrow> nflat f n (node e) | _ \<Rightarrow> [])"

abbreviation cflats ::
    "(u64 \<Rightarrow> ('i, 'r) entry res) \<Rightarrow> nat \<Rightarrow> ('i, 'r) interior list \<Rightarrow> (bytes \<times> 'i) list" where
  "cflats f n cs \<equiv> concat (map (cflat f n) cs)"

fun nwf :: "(u64 \<Rightarrow> ('i, 'r) entry res) \<Rightarrow> ('i, 'r) reducer \<Rightarrow> nat \<Rightarrow> ('i, 'r) node \<Rightarrow> bool" where
  "nwf f red 0 nd = (case nd of Leaf cs \<Rightarrow> True | _ \<Rightarrow> False)"
| "nwf f red (Suc n) nd =
     (case nd of
        Interior cs \<Rightarrow> list_all (\<lambda>c.
          case resolve f (i_position c) of
            Ok e \<Rightarrow>
              nwf f red n (node e) \<and> nflat f n (node e) \<noteq> [] \<and>
              i_key c = fst (last (nflat f n (node e))) \<and> stats red e = Ok (i_stats c) \<and>
              (case i_position c of
                 OnDisk p \<Rightarrow> True
               | Loaded prev e' \<Rightarrow> dirty e \<or>
                   (case prev of
                      None \<Rightarrow> False
                    | Some p \<Rightarrow>
                        (case f p of
                           Ok d \<Rightarrow> nwf f red n (node d) \<and> nflat f n (node d) = nflat f n (node e) \<and>
                             stats red d = stats red e
                         | _ \<Rightarrow> False)))
          | _ \<Rightarrow> False) cs
      | _ \<Rightarrow> False)"

text \<open>The copy on disk a clean node stands for.\<close>

definition on_disk ::
    "(u64 \<Rightarrow> ('i, 'r) entry res) \<Rightarrow> ('i, 'r) reducer \<Rightarrow> nat \<Rightarrow> u64 option \<Rightarrow> ('i, 'r) entry \<Rightarrow> bool" where
  "on_disk f red n prev e =
     (case prev of
        None \<Rightarrow> False
      | Some p \<Rightarrow>
          (case f p of
             Ok d \<Rightarrow> nwf f red n (node d) \<and> nflat f n (node d) = nflat f n (node e) \<and>
               stats red d = stats red e
           | _ \<Rightarrow> False))"

definition child_ok ::
    "(u64 \<Rightarrow> ('i, 'r) entry res) \<Rightarrow> ('i, 'r) reducer \<Rightarrow> nat \<Rightarrow> ('i, 'r) interior \<Rightarrow> bool" where
  "child_ok f red n c =
     (case resolve f (i_position c) of
        Ok e \<Rightarrow>
          nwf f red n (node e) \<and> nflat f n (node e) \<noteq> [] \<and>
          i_key c = fst (last (nflat f n (node e))) \<and> stats red e = Ok (i_stats c) \<and>
          (case i_position c of OnDisk p \<Rightarrow> True | Loaded prev e' \<Rightarrow> dirty e \<or> on_disk f red n prev e)
      | _ \<Rightarrow> False)"

lemma nwf_Suc: "nwf f red (Suc n) (Interior cs) \<longleftrightarrow> (\<forall>c \<in> set cs. child_ok f red n c)"
  unfolding nwf.simps child_ok_def on_disk_def by (simp add: list_all_iff)

lemma nflat_Suc: "nflat f (Suc n) (Interior cs) = cflats f n cs"
  unfolding cflat_def nflat.simps by simp

lemma nwf_0 [simp]: "nwf f red 0 (Leaf cs)"
  by simp

lemma nflat_0 [simp]: "nflat f 0 (Leaf cs) = map key_pair cs"
  by simp

declare nwf.simps [simp del] nflat.simps [simp del]

lemma nwf_0E:
  assumes "nwf f red 0 nd"
  obtains cs where "nd = Leaf cs"
  using assms by (cases nd) (auto simp: nwf.simps)

lemma nwf_SucE:
  assumes "nwf f red (Suc n) nd"
  obtains cs where "nd = Interior cs" and "\<forall>c \<in> set cs. child_ok f red n c"
proof (cases nd)
  case (Interior cs)
  with assms that show ?thesis by (simp add: nwf_Suc)
qed (use assms in \<open>auto simp: nwf.simps\<close>)

lemma child_okE:
  assumes "child_ok f red n c"
  obtains e where "resolve f (i_position c) = Ok e" and "nwf f red n (node e)"
    and "nflat f n (node e) \<noteq> []" and "i_key c = fst (last (nflat f n (node e)))"
    and "stats red e = Ok (i_stats c)"
    and "case i_position c of OnDisk p \<Rightarrow> True | Loaded prev e' \<Rightarrow> dirty e \<or> on_disk f red n prev e"
  using assms by (cases "resolve f (i_position c)") (auto simp: child_ok_def)

lemma on_diskE:
  assumes "on_disk f red n prev e"
  obtains p d where "prev = Some p" and "f p = Ok d" and "nwf f red n (node d)"
    and "nflat f n (node d) = nflat f n (node e)" and "stats red d = stats red e"
proof (cases prev)
  case (Some p)
  with assms that show thesis by (cases "f p") (auto simp: on_disk_def)
qed (use assms in \<open>simp add: on_disk_def\<close>)

lemma child_ok_cflat: "child_ok f red n c \<Longrightarrow> cflat f n c \<noteq> [] \<and> i_key c = fst (last (cflat f n c))"
  by (auto simp: child_ok_def cflat_def split: res.splits)

text \<open>Facts about the sequence operations, for leaves and interior nodes at once.\<close>

lemma nwf_append: "nwf f red n a \<Longrightarrow> nwf f red n b \<Longrightarrow> nwf f red n (node_append a b)"
  by (cases n) (auto elim!: nwf_0E nwf_SucE simp: nwf_Suc)

lemma nwf_take: "nwf f red n a \<Longrightarrow> nwf f red n (node_take k a)"
  by (cases n) (auto elim!: nwf_0E nwf_SucE simp: nwf_Suc dest!: in_set_takeD)

lemma nwf_drop: "nwf f red n a \<Longrightarrow> nwf f red n (node_drop k a)"
  by (cases n) (auto elim!: nwf_0E nwf_SucE simp: nwf_Suc dest!: in_set_dropD)

lemma nflat_append:
  "nwf f red n a \<Longrightarrow> nwf f red n b \<Longrightarrow> nflat f n (node_append a b) = nflat f n a @ nflat f n b"
  by (cases n) (auto elim!: nwf_0E nwf_SucE simp: nflat_Suc)

lemma nflat_take_drop: "nwf f red n a \<Longrightarrow> nflat f n (node_take k a) @ nflat f n (node_drop k a) = nflat f n a"
  by (cases n) (auto elim!: nwf_0E nwf_SucE simp: nflat_Suc simp flip: map_append concat_append)

lemma nflat_Nil_iff: "nwf f red n a \<Longrightarrow> nflat f n a = [] \<longleftrightarrow> node_len a = 0"
proof (cases n)
  case (Suc k)
  assume "nwf f red n a"
  with Suc obtain cs where "a = Interior cs" "\<forall>c \<in> set cs. child_ok f red k c"
    by (auto elim: nwf_SucE)
  with Suc show ?thesis by (cases cs) (auto simp: nflat_Suc dest: child_ok_cflat)
qed (auto elim!: nwf_0E)

lemma node_len_take_drop [simp]:
  "node_len (node_take k a) = min k (node_len a)" "node_len (node_drop k a) = node_len a - k"
  by (cases a; simp)+

lemma node_len_append: "nwf f red n a \<Longrightarrow> nwf f red n b \<Longrightarrow> node_len (node_append a b) = node_len a + node_len b"
  by (cases n) (auto elim!: nwf_0E nwf_SucE)

lemma entry_count_nwf: "nwf f red n (node e) \<Longrightarrow> entry_count e = Ok (node_len (node e))"
  by (cases n; cases e) (auto elim!: nwf_0E nwf_SucE)

lemma last_cflats: "cs \<noteq> [] \<Longrightarrow> \<forall>c \<in> set cs. child_ok f red n c \<Longrightarrow>
    last (cflats f n cs) = last (cflat f n (last cs))"
  by (cases cs rule: rev_cases) (auto simp: last_append dest: child_ok_cflat)

lemma max_key_nwf:
  assumes "nwf f red n (node e)" and "nflat f n (node e) \<noteq> []"
  shows "max_key e = Ok (fst (last (nflat f n (node e))))"
proof (cases n)
  case 0
  with assms show ?thesis
    by (cases e) (auto elim!: nwf_0E simp: last_map)
next
  case (Suc k)
  with assms obtain cs where cs: "node e = Interior cs" "\<forall>c \<in> set cs. child_ok f red k c"
    by (auto elim: nwf_SucE)
  with assms Suc have "cs \<noteq> []" by (auto simp: nflat_Suc)
  with cs Suc show ?thesis
    using child_ok_cflat [of f red k "last cs"] last_cflats [of cs f red k]
    by (cases e) (simp add: nflat_Suc)
qed

lemma stats_nwf: "nwf f red n (node e) \<Longrightarrow> \<exists>st. stats red e = Ok st"
  by (cases n; cases e) (auto elim!: nwf_0E nwf_SucE)

lemma stats_dirty: "node e = node e' \<Longrightarrow> stats red e = stats red e'"
  by (cases e; cases e'; cases "node e") auto

section \<open>Growing files\<close>

definition extends :: "(u64 \<Rightarrow> 'a res) \<Rightarrow> (u64 \<Rightarrow> 'a res) \<Rightarrow> bool" where
  "extends f g \<longleftrightarrow> (\<forall>p x. f p = Ok x \<longrightarrow> g p = Ok x)"

lemma extends_refl [simp, intro]: "extends f f"
  by (simp add: extends_def)

lemma extends_trans: "extends f g \<Longrightarrow> extends g h \<Longrightarrow> extends f h"
  by (simp add: extends_def)

lemma resolve_extends: "extends f g \<Longrightarrow> resolve f p = Ok e \<Longrightarrow> resolve g p = Ok e"
  by (cases p) (auto simp: extends_def)

lemma nflat_nwf_extends:
  assumes "extends f g" and "nwf f red n nd"
  shows "nwf g red n nd \<and> nflat g n nd = nflat f n nd"
  using assms(2)
proof (induction n arbitrary: nd)
  case (Suc n)
  from Suc.prems obtain cs where cs: "nd = Interior cs" "\<forall>c \<in> set cs. child_ok f red n c"
    by (auto elim: nwf_SucE)
  have "child_ok g red n c \<and> cflat g n c = cflat f n c" if "c \<in> set cs" for c
  proof -
    from cs(2) that obtain e where e: "resolve f (i_position c) = Ok e" "nwf f red n (node e)"
      "nflat f n (node e) \<noteq> []" "i_key c = fst (last (nflat f n (node e)))"
      "stats red e = Ok (i_stats c)"
      "case i_position c of OnDisk p \<Rightarrow> True | Loaded prev e' \<Rightarrow> dirty e \<or> on_disk f red n prev e"
      by (blast elim: child_okE)
    have disk: "on_disk f red n prev e \<Longrightarrow> on_disk g red n prev e" for prev
      using assms(1) Suc.IH [OF e(2)]
      by (auto simp: on_disk_def extends_def Suc.IH split: option.splits res.splits)
    from e resolve_extends [OF assms(1) e(1)] Suc.IH [OF e(2)] disk show ?thesis
      by (auto simp: child_ok_def cflat_def split: pointer.splits)
  qed
  with cs show ?case by (auto simp: nwf_Suc nflat_Suc cong: map_cong)
qed (auto elim!: nwf_0E)

lemma nwf_extends: "extends f g \<Longrightarrow> nwf f red n nd \<Longrightarrow> nwf g red n nd"
  and nflat_extends: "extends f g \<Longrightarrow> nwf f red n nd \<Longrightarrow> nflat g n nd = nflat f n nd"
  using nflat_nwf_extends by blast+

lemma child_ok_extends:
  assumes "extends f g" and "child_ok f red n c"
  shows "child_ok g red n c" and "cflat g n c = cflat f n c"
  using nflat_nwf_extends [OF assms(1), of red "Suc n" "Interior [c]"] assms(2)
  by (simp_all add: nwf_Suc nflat_Suc)

lemma children_ok_extends:
  assumes "extends f g" and "\<forall>c \<in> set cs. child_ok f red n c"
  shows "\<forall>c \<in> set cs. child_ok g red n c" and "cflats g n cs = cflats f n cs"
  using nflat_nwf_extends [OF assms(1), of red "Suc n" "Interior cs"] assms(2)
  by (simp_all add: nwf_Suc nflat_Suc)

end
