(* ===== verification/BTree_Balance.thy ===== *)
theory BTree_Balance
  imports BTree_Inv
begin

text \<open>
  Rebalancing keeps the contents of a node: stealing children to a neighbour, splitting a child in
  two, absorbing a small child into a neighbour. Each lemma locates the children around the changed
  one as \<open>A @ p # c # B\<close> and says what becomes of them, that no branch panics, and that the
  concatenated contents stay the same.
\<close>

section \<open>Access to one child\<close>

abbreviation loaded :: "bytes \<Rightarrow> u64 option \<Rightarrow> ('i, 'r) node \<Rightarrow> 'r \<Rightarrow> ('i, 'r) interior" where
  "loaded k prev nd st \<equiv> InteriorEntry k (Loaded prev (BTreeEntry True nd)) st"

lemma cflat_Loaded [simp]: "cflat f n (InteriorEntry k (Loaded prev e) st) = nflat f n (node e)"
  by (simp add: cflat_def)

lemma child_entry_at [simp]:
  "child_entry (length A) (A @ InteriorEntry k (Loaded prev e) st # B) =
     (Ok e, A @ InteriorEntry k (Loaded prev e) st # B)"
  "child_entry (Suc (length A)) (A @ p # InteriorEntry k (Loaded prev e) st # B) =
     (Ok e, A @ p # InteriorEntry k (Loaded prev e) st # B)"
  by (simp_all add: child_entry_def nth_append)

lemma set_child_entry_at [simp]:
  "set_child_entry (length A) e' (A @ InteriorEntry k (Loaded prev e) st # B) =
     (Ok (), A @ InteriorEntry k (Loaded prev e') st # B)"
  "set_child_entry (Suc (length A)) e' (A @ p # InteriorEntry k (Loaded prev e) st # B) =
     (Ok (), A @ p # InteriorEntry k (Loaded prev e') st # B)"
  by (simp_all add: set_child_entry_def nth_append list_update_append)

lemma child_count_at:
  assumes "nwf f red n (node e)"
  shows "child_count (length A) (A @ InteriorEntry k (Loaded prev e) st # B) =
       (Ok (node_len (node e)), A @ InteriorEntry k (Loaded prev e) st # B)"
    and "child_count (Suc (length A)) (A @ p # InteriorEntry k (Loaded prev e) st # B) =
       (Ok (node_len (node e)), A @ p # InteriorEntry k (Loaded prev e) st # B)"
  using entry_count_nwf [OF assms] by (simp_all add: child_count_def bindS_Ok)

lemma child_ok_loaded:
  assumes "nwf f red n nd" and "nflat f n nd \<noteq> []"
  obtains st where "stats red (BTreeEntry True nd) = Ok st"
    and "\<forall>prev. child_ok f red n (loaded (fst (last (nflat f n nd))) prev nd st)"
  using stats_nwf [of f red n "BTreeEntry True nd"] assms that by (auto simp: child_ok_def)

lemma refresh_child_at:
  assumes "nwf f red n nd" and "nflat f n nd \<noteq> []"
  obtains k' st' where
    "\<forall>A B k st prev. refresh_child red (length A) (A @ loaded k prev nd st # B) =
       (Ok (), A @ loaded k' prev nd st' # B)"
    "\<forall>A B k st prev p. refresh_child red (Suc (length A)) (A @ p # loaded k prev nd st # B) =
       (Ok (), A @ p # loaded k' prev nd st' # B)"
    "\<forall>prev. child_ok f red n (loaded k' prev nd st')"
proof -
  from assms obtain st where st: "stats red (BTreeEntry True nd) = Ok st"
    "\<forall>prev. child_ok f red n (loaded (fst (last (nflat f n nd))) prev nd st)"
    by (rule child_ok_loaded)
  from assms max_key_nwf [of f red n "BTreeEntry True nd"]
  have "max_key (BTreeEntry True nd) = Ok (fst (last (nflat f n nd)))" by simp
  with st show thesis
    by (intro that [of "fst (last (nflat f n nd))" st])
      (simp_all add: refresh_child_def bindS_Ok nth_append list_update_append)
qed

lemma load_child_resolve:
  assumes "resolve (rd w) (i_position p) = Ok e"
  shows "load_child rd w (length A) (A @ p # B) = (Ok (), A @ InteriorEntry (i_key p)
      (Loaded (pointer_position (i_position p)) e) (i_stats p) # B)"
  using assms by (cases "i_position p")
    (simp_all add: load_child_def res_map_def nth_append list_update_append)

lemma load_child_at:
  assumes "child_ok (rd w) red n p"
  obtains prev e where
    "\<forall>A B. load_child rd w (length A) (A @ p # B) =
       (Ok (), A @ InteriorEntry (i_key p) (Loaded prev e) (i_stats p) # B)"
    "\<forall>A B q. load_child rd w (Suc (length A)) (A @ q # p # B) =
       (Ok (), A @ q # InteriorEntry (i_key p) (Loaded prev e) (i_stats p) # B)"
    "nwf (rd w) red n (node e)" "nflat (rd w) n (node e) = cflat (rd w) n p"
    "cflat (rd w) n p \<noteq> []"
    "child_ok (rd w) red n (InteriorEntry (i_key p) (Loaded prev e) (i_stats p))"
    "stats red e = Ok (i_stats p)"
    "dirty e \<or> on_disk (rd w) red n prev e"
proof -
  from assms obtain e where e: "resolve (rd w) (i_position p) = Ok e" "nwf (rd w) red n (node e)"
    "nflat (rd w) n (node e) \<noteq> []" "i_key p = fst (last (nflat (rd w) n (node e)))"
    "stats red e = Ok (i_stats p)"
    "case i_position p of OnDisk pos \<Rightarrow> True | Loaded prev e' \<Rightarrow> dirty e \<or> on_disk (rd w) red n prev e"
    by (rule child_okE)
  have flat: "cflat (rd w) n p = nflat (rd w) n (node e)" using e by (simp add: cflat_def)
  have disk: "dirty e \<or> on_disk (rd w) red n (pointer_position (i_position p)) e"
    using e by (cases "i_position p") (auto simp: on_disk_def)
  show thesis
    using load_child_resolve [where rd = rd and w = w and p = p, OF e(1)]
      load_child_resolve [where rd = rd and w = w and p = p and A = "A @ [q]" for A q, OF e(1)]
    by (intro that [of "pointer_position (i_position p)" e])
      (use e(2-5) flat disk in \<open>simp_all add: child_ok_def\<close>)
qed

section \<open>Stealing\<close>

lemma steal_front_nwf:
  assumes "nwf f red n nd" and "1 \<le> mc" and "free < node_len nd" and "0 < node_len nd"
  obtains a ch where "a < node_len nd"
    and "steal_front mc free (BTreeEntry d nd) = Ok (ch, BTreeEntry d (node_drop a nd))"
    and "children_node ch = node_take a nd"
proof (cases n)
  case 0
  with assms obtain cs where cs: "nd = Leaf cs" by (auto elim: nwf_0E)
  let ?a = "min free (length cs - mc)"
  from cs assms that [of ?a "Leaves (take ?a cs)"] show thesis
    by (auto simp: steal_front_def Let_def min_def split: if_splits)
next
  case (Suc m)
  with assms obtain cs where cs: "nd = Interior cs" by (auto elim: nwf_SucE)
  let ?a = "max free (length cs - mc)"
  from cs assms have a: "?a < length cs" by auto
  with cs that [of ?a "Interiors (take ?a cs)"] show thesis
    by (simp add: steal_front_def Let_def)
qed

lemma steal_back_nwf:
  assumes "nwf f red n nd" and "1 \<le> mc" and "free < node_len nd" and "0 < node_len nd"
  obtains a ch where "0 < a" and "a \<le> node_len nd"
    and "steal_back mc free (BTreeEntry d nd) = Ok (ch, BTreeEntry d (node_take a nd))"
    and "children_node ch = node_drop a nd"
proof (cases n)
  case 0
  with assms obtain cs where cs: "nd = Leaf cs" by (auto elim: nwf_0E)
  let ?a = "length cs - min free (length cs - mc)"
  from cs assms that [of ?a "Leaves (drop ?a cs)"] show thesis
    by (auto simp: steal_back_def Let_def min_def split: if_splits)
next
  case (Suc m)
  with assms obtain cs where cs: "nd = Interior cs" by (auto elim: nwf_SucE)
  let ?a = "length cs - max free (length cs - mc)"
  from cs assms have a: "max free (length cs - mc) < length cs" by auto
  with cs that [of ?a "Interiors (drop ?a cs)"] show thesis
    by (simp add: steal_back_def Let_def)
qed

lemma extend_node_nwf:
  assumes "nwf f red n (node e)" and "nwf f red n (children_node ch)"
  shows "extend_node e ch = Ok (BTreeEntry True (node_append (node e) (children_node ch)))"
    and "prepend_node e ch = Ok (BTreeEntry True (node_append (children_node ch) (node e)))"
  using assms by (cases n; cases e; cases ch; auto elim!: nwf_0E nwf_SucE)+

lemma steal_children_from_start_ok:
  assumes f: "f = rd w" and red: "red = ctx_reducer ctx"
    and p: "child_ok f red n p" and nd: "nwf f red n nd" "current_order ctx < node_len nd"
    and mc: "1 \<le> minimum_children ctx"
  obtains r b p' k' nd' st' where
    "steal_children_from_start ctx rd w (Suc (length A)) (A @ p # loaded k prev nd st # B) =
       (Ok (r, b), A @ p' # loaded k' prev nd' st' # B)"
    "child_ok f red n p'" "nwf f red n nd'" "nflat f n nd' \<noteq> []"
    "cflat f n p' @ nflat f n nd' = cflat f n p @ nflat f n nd"
    "b \<or> cflat f n p' = cflat f n p"
    "r = Changed \<and> b \<and> child_ok f red n (loaded k' prev nd' st') \<or>
     r = Unchanged \<and> current_order ctx < node_len nd'"
proof -
  from p [unfolded f] obtain pv e where load:
    "\<forall>A B. load_child rd w (length A) (A @ p # B) =
       (Ok (), A @ InteriorEntry (i_key p) (Loaded pv e) (i_stats p) # B)"
    and e: "nwf f red n (node e)" "nflat f n (node e) = cflat f n p" "cflat f n p \<noteq> []"
      "child_ok f red n (InteriorEntry (i_key p) (Loaded pv e) (i_stats p))"
    by (rule load_child_at) (simp_all add: f)
  from nd have ne: "nflat f n nd \<noteq> []" by (simp add: nflat_Nil_iff)
  have pe: "0 < node_len (node e)" using e by (metis gr0I nflat_Nil_iff)
  define free where "free = current_order ctx - node_len (node e)"
  show thesis
  proof (cases "0 < free")
    case False
    with load e nd ne show thesis
      by (intro that [of Unchanged False "InteriorEntry (i_key p) (Loaded pv e) (i_stats p)" k nd st])
        (simp_all add: steal_children_from_start_def bindS_Ok child_count_at [OF e(1)] free_def)
  next
    case True
    then have "free < node_len nd" "0 < node_len nd" using nd pe by (auto simp: free_def)
    from steal_front_nwf [OF nd(1) mc this, of True] obtain a ch where a: "a < node_len nd"
      "steal_front (minimum_children ctx) free (BTreeEntry True nd) = Ok (ch, BTreeEntry True (node_drop a nd))"
      "children_node ch = node_take a nd" .
    define nd' where "nd' = node_drop a nd"
    have nd': "nwf f red n nd'" "nflat f n nd' \<noteq> []"
      using nd a nflat_Nil_iff [OF nwf_drop [OF nd(1)], of a] by (simp_all add: nd'_def nwf_drop)
    define pn where "pn = node_append (node e) (node_take a nd)"
    have pn: "nwf f red n pn" "nflat f n pn = cflat f n p @ nflat f n (node_take a nd)"
      using nd e by (simp_all add: pn_def nwf_append nwf_take nflat_append)
    have ext: "extend_node e ch = Ok (BTreeEntry True pn)"
      using extend_node_nwf(1) [OF e(1), of ch] a nd by (simp add: pn_def nwf_take)
    from pn e have "nflat f n pn \<noteq> []" by simp
    with pn obtain pk pst where rp: "\<forall>A B k st prev. refresh_child red (length A) (A @ loaded k prev pn st # B) =
       (Ok (), A @ loaded pk prev pn pst # B)" "\<forall>prev. child_ok f red n (loaded pk prev pn pst)"
      by (elim refresh_child_at)
    from nd' obtain k' st' where rc: "\<forall>A B k st prev p. refresh_child red (Suc (length A)) (A @ p # loaded k prev nd' st # B) =
       (Ok (), A @ p # loaded k' prev nd' st' # B)" "\<forall>prev. child_ok f red n (loaded k' prev nd' st')"
      by (elim refresh_child_at)
    have flat: "nflat f n pn @ nflat f n nd' = cflat f n p @ nflat f n nd"
      using pn nflat_take_drop [OF nd(1), of a] by (simp add: nd'_def)
    define r where "r = (if node_len nd' \<le> current_order ctx then Changed else Unchanged)"
    have "steal_children_from_start ctx rd w (Suc (length A)) (A @ p # loaded k prev nd st # B) =
       (Ok (r, True), A @ loaded pk pv pn pst # loaded k' prev nd' st' # B)"
      using True a(2) nd'(1)
      by (simp add: steal_children_from_start_def bindS_Ok load child_count_at [OF e(1)] free_def
          ext rp [unfolded red] rc [unfolded red] nd'_def [symmetric] r_def
          child_count_at [of f red n])
    then show thesis
      by (rule that) (use rp rc nd' flat in \<open>simp_all add: r_def\<close>)
  qed
qed


lemma steal_children_from_end_ok:
  assumes f: "f = rd w" and red: "red = ctx_reducer ctx"
    and q: "child_ok f red n q" and nd: "nwf f red n nd" "current_order ctx < node_len nd"
    and mc: "1 \<le> minimum_children ctx"
  obtains r q' k' nd' st' where
    "steal_children_from_end ctx rd w (length A) (A @ loaded k prev nd st # q # B) =
       (Ok r, A @ loaded k' prev nd' st' # q' # B)"
    "child_ok f red n q'" "nwf f red n nd'" "nflat f n nd' \<noteq> []"
    "nflat f n nd' @ cflat f n q' = nflat f n nd @ cflat f n q"
    "set (nflat f n nd') \<subseteq> set (nflat f n nd)"
    "r = Changed \<and> child_ok f red n (loaded k' prev nd' st') \<or>
     r = Unchanged \<and> current_order ctx < node_len nd'"
proof -
  from q [unfolded f] obtain pv e where load:
    "\<forall>A B p. load_child rd w (Suc (length A)) (A @ p # q # B) =
       (Ok (), A @ p # InteriorEntry (i_key q) (Loaded pv e) (i_stats q) # B)"
    and e: "nwf f red n (node e)" "nflat f n (node e) = cflat f n q" "cflat f n q \<noteq> []"
      "child_ok f red n (InteriorEntry (i_key q) (Loaded pv e) (i_stats q))"
    by (rule load_child_at) (simp_all add: f)
  from nd have ne: "nflat f n nd \<noteq> []" by (simp add: nflat_Nil_iff)
  have pe: "0 < node_len (node e)" using e by (metis gr0I nflat_Nil_iff)
  define free where "free = current_order ctx - node_len (node e)"
  show thesis
  proof (cases "0 < free")
    case False
    with load e nd ne show thesis
      by (intro that [of Unchanged k nd st "InteriorEntry (i_key q) (Loaded pv e) (i_stats q)"])
        (simp_all add: steal_children_from_end_def bindS_Ok child_count_at [OF e(1)] free_def)
  next
    case True
    then have "free < node_len nd" "0 < node_len nd" using nd pe by (auto simp: free_def)
    from steal_back_nwf [OF nd(1) mc this, of True] obtain a ch where a: "0 < a" "a \<le> node_len nd"
      "steal_back (minimum_children ctx) free (BTreeEntry True nd) = Ok (ch, BTreeEntry True (node_take a nd))"
      "children_node ch = node_drop a nd" .
    define nd' where "nd' = node_take a nd"
    have nd': "nwf f red n nd'" "nflat f n nd' \<noteq> []"
      using nd a nflat_Nil_iff [OF nwf_take [OF nd(1)], of a] by (simp_all add: nd'_def nwf_take)
    define qn where "qn = node_append (node_drop a nd) (node e)"
    have qn: "nwf f red n qn" "nflat f n qn = nflat f n (node_drop a nd) @ cflat f n q"
      using nd e nflat_append [OF nwf_drop [OF nd(1)] e(1)]
      by (simp_all add: qn_def nwf_append nwf_drop)
    have ext: "prepend_node e ch = Ok (BTreeEntry True qn)"
      using extend_node_nwf(2) [OF e(1), of ch] a nd by (simp add: qn_def nwf_drop)
    from qn e have "nflat f n qn \<noteq> []" by simp
    with qn obtain qk qst where rq:
      "\<forall>A B k st prev p. refresh_child red (Suc (length A)) (A @ p # loaded k prev qn st # B) =
       (Ok (), A @ p # loaded qk prev qn qst # B)" "\<forall>prev. child_ok f red n (loaded qk prev qn qst)"
      by (elim refresh_child_at)
    from nd' obtain k' st' where rc:
      "\<forall>A B k st prev. refresh_child red (length A) (A @ loaded k prev nd' st # B) =
       (Ok (), A @ loaded k' prev nd' st' # B)" "\<forall>prev. child_ok f red n (loaded k' prev nd' st')"
      by (elim refresh_child_at)
    have flat: "nflat f n nd' @ nflat f n qn = nflat f n nd @ cflat f n q"
      "set (nflat f n nd') \<subseteq> set (nflat f n nd)"
      using qn nflat_take_drop [OF nd(1), of a]
      by (auto simp: nd'_def simp flip: append_assoc) (metis Un_iff set_append)
    define r where "r = (if node_len nd' \<le> current_order ctx then Changed else Unchanged)"
    have "steal_children_from_end ctx rd w (length A) (A @ loaded k prev nd st # q # B) =
       (Ok r, A @ loaded k' prev nd' st' # loaded qk pv qn qst # B)"
      using True a(3) nd'(1)
      by (simp add: steal_children_from_end_def bindS_Ok load child_count_at [OF e(1)] free_def
          ext rq [unfolded red] rc [unfolded red] nd'_def [symmetric] r_def
          child_count_at [of f red n])
    then show thesis
      by (rule that) (use rq rc nd' flat in \<open>simp_all add: r_def\<close>)
  qed
qed

section \<open>Splitting\<close>

lemma split_node_nwf:
  assumes "nwf f red n nd" and "2 \<le> node_len nd"
  obtains lower upper where "split_node nd = Ok (lower, upper)"
    and "nwf f red n lower" and "nwf f red n upper"
    and "nflat f n lower \<noteq> []" and "nflat f n upper \<noteq> []"
    and "nflat f n lower @ nflat f n upper = nflat f n nd"
proof -
  let ?h = "(node_len nd + 1) div 2"
  have "split_node nd = Ok (node_take ?h nd, node_drop ?h nd)"
    using assms by (cases nd) (auto simp: split_node_def)
  moreover have "nflat f n (node_take ?h nd) \<noteq> []" "nflat f n (node_drop ?h nd) \<noteq> []"
    using assms nflat_Nil_iff [OF nwf_take [OF assms(1)], of ?h]
      nflat_Nil_iff [OF nwf_drop [OF assms(1)], of ?h] by auto
  ultimately show thesis
    using assms(1) that nwf_take nwf_drop nflat_take_drop by blast
qed

lemma interior_new_nwf:
  assumes "nwf f red n nd" and "nflat f n nd \<noteq> []"
  obtains k st where "interior_new red (from_node nd) = Ok (loaded k None nd st)"
    and "child_ok f red n (loaded k None nd st)"
proof -
  from assms obtain st where "stats red (BTreeEntry True nd) = Ok st"
    "\<forall>prev. child_ok f red n (loaded (fst (last (nflat f n nd))) prev nd st)"
    by (rule child_ok_loaded)
  moreover from assms max_key_nwf [of f red n "BTreeEntry True nd"]
  have "max_key (BTreeEntry True nd) = Ok (fst (last (nflat f n nd)))" by simp
  ultimately show thesis
    by (intro that [of "fst (last (nflat f n nd))" st]) (simp_all add: interior_new_def from_node_def)
qed

lemma split_child_ok:
  assumes red: "red = ctx_reducer ctx" and nd: "nwf f red n nd" "2 \<le> node_len nd"
  obtains c1 c2 where
    "split_child ctx (length A) (A @ loaded k prev nd st # B) = (Ok (), A @ c1 # c2 # B)"
    "child_ok f red n c1" "child_ok f red n c2"
    "cflat f n c1 @ cflat f n c2 = nflat f n nd"
proof -
  from nd obtain lower upper where sp: "split_node nd = Ok (lower, upper)"
    and lu: "nwf f red n lower" "nwf f red n upper" "nflat f n lower \<noteq> []" "nflat f n upper \<noteq> []"
      "nflat f n lower @ nflat f n upper = nflat f n nd" by (rule split_node_nwf)
  from lu obtain k' st' where rc:
      "\<forall>A B k st prev. refresh_child red (length A) (A @ loaded k prev lower st # B) =
       (Ok (), A @ loaded k' prev lower st' # B)" "\<forall>prev. child_ok f red n (loaded k' prev lower st')"
      by (elim refresh_child_at)
  from lu(2,4) obtain uk ust where u: "interior_new red (from_node upper) = Ok (loaded uk None upper ust)"
    "child_ok f red n (loaded uk None upper ust)" by (rule interior_new_nwf)
  show thesis
  proof (rule that)
    show "split_child ctx (length A) (A @ loaded k prev nd st # B) =
      (Ok (), A @ loaded k' prev lower st' # loaded uk None upper ust # B)"
      using sp rc(1) u(1) by (simp add: split_child_def bindS_Ok insert_nth_def red)
  qed (use rc u lu in simp_all)
qed

text \<open>The two steals and the split in sequence.\<close>

lemma steal_start_stage:
  assumes f: "f = rd w" and red: "red = ctx_reducer ctx"
    and A: "\<forall>c \<in> set A. child_ok f red n c"
    and nd: "nwf f red n nd" "current_order ctx < node_len nd" and mc: "1 \<le> minimum_children ctx"
  obtains r b A' k' nd' st' where
    "(if length A > 0 then steal_children_from_start ctx rd w (length A) else returnS (Unchanged, False))
       (A @ loaded k prev nd st # B) = (Ok (r, b), A' @ loaded k' prev nd' st' # B)"
    "length A' = length A" "\<forall>c \<in> set A'. child_ok f red n c"
    "nwf f red n nd'" "nflat f n nd' \<noteq> []"
    "cflats f n A' @ nflat f n nd' = cflats f n A @ nflat f n nd"
    "if b then A \<noteq> [] \<and> butlast A' = butlast A else cflats f n A' = cflats f n A"
    "r = Changed \<and> child_ok f red n (loaded k' prev nd' st') \<or>
     r = Unchanged \<and> current_order ctx < node_len nd'"
proof (cases A rule: rev_cases)
  case Nil
  with nd show thesis
    by (intro that [of Unchanged False A k nd st]) (simp_all add: nflat_Nil_iff)
next
  case (snoc A0 p)
  with A have p: "child_ok f red n p" by simp
  from f red p nd mc obtain r b p' k' nd' st' where st:
    "steal_children_from_start ctx rd w (Suc (length A0)) (A0 @ p # loaded k prev nd st # B) =
       (Ok (r, b), A0 @ p' # loaded k' prev nd' st' # B)"
    "child_ok f red n p'" "nwf f red n nd'" "nflat f n nd' \<noteq> []"
    "cflat f n p' @ nflat f n nd' = cflat f n p @ nflat f n nd"
    "b \<or> cflat f n p' = cflat f n p"
    "r = Changed \<and> b \<and> child_ok f red n (loaded k' prev nd' st') \<or>
     r = Unchanged \<and> current_order ctx < node_len nd'"
    by (rule steal_children_from_start_ok)
  with snoc A show thesis by (intro that [of r b "A0 @ [p']" k' nd' st']) auto
qed

lemma steal_end_stage:
  assumes f: "f = rd w" and red: "red = ctx_reducer ctx"
    and A: "\<forall>c \<in> set A. child_ok f red n c" and B: "\<forall>c \<in> set B. child_ok f red n c"
    and nd: "nwf f red n nd" "current_order ctx < node_len nd"
    and mc: "1 \<le> minimum_children ctx" "1 \<le> current_order ctx"
  obtains c C where
    "bindS (\<lambda>cs. if length A + 1 < length cs then steal_children_from_end ctx rd w (length A) cs
        else returnS Unchanged cs) (\<lambda>cr'. case cr' of Changed \<Rightarrow> returnS (Changed, b)
         | Unchanged \<Rightarrow> bindS (split_child ctx (length A)) (\<lambda>_. returnS (Changed, b))
         | _ \<Rightarrow> failS Panic)
       (A @ loaded k prev nd st # B) = (Ok (Changed, b), A @ c # C)"
    "child_ok f red n c" "\<forall>c \<in> set C. child_ok f red n c"
    "cflat f n c @ cflats f n C = nflat f n nd @ cflats f n B"
    "set (cflat f n c) \<subseteq> set (nflat f n nd)"
proof -
  from red have split: "\<exists>c1 c2.
    split_child ctx (length A) (A @ loaded k prev nd st # B) = (Ok (), A @ c1 # c2 # B) \<and>
    child_ok f red n c1 \<and> child_ok f red n c2 \<and> cflat f n c1 @ cflat f n c2 = nflat f n nd"
    if "nwf f red n nd" "current_order ctx < node_len nd" for k st nd B
  proof -
    from that(2) mc have "2 \<le> node_len nd" by simp
    with split_child_ok [OF red that(1), of A k prev st B] show ?thesis by metis
  qed
  show thesis
  proof (cases B)
    case Nil
    from split [OF nd, of k st B] obtain c1 c2 where
      "split_child ctx (length A) (A @ loaded k prev nd st # B) = (Ok (), A @ c1 # c2 # B)"
      "child_ok f red n c1" "child_ok f red n c2" "cflat f n c1 @ cflat f n c2 = nflat f n nd"
      by blast
    with Nil show thesis by (intro that [of c1 "c2 # B"]) (auto simp: bindS_Ok simp flip: \<open>_ = nflat f n nd\<close>)
  next
    case (Cons q B')
    with B have q: "child_ok f red n q" by simp
    from f red q nd mc(1) obtain r q' k' nd' st' where st:
      "steal_children_from_end ctx rd w (length A) (A @ loaded k prev nd st # q # B') =
         (Ok r, A @ loaded k' prev nd' st' # q' # B')"
      "child_ok f red n q'" "nwf f red n nd'" "nflat f n nd' \<noteq> []"
      "nflat f n nd' @ cflat f n q' = nflat f n nd @ cflat f n q"
      "set (nflat f n nd') \<subseteq> set (nflat f n nd)"
      "r = Changed \<and> child_ok f red n (loaded k' prev nd' st') \<or>
       r = Unchanged \<and> current_order ctx < node_len nd'"
      by (rule steal_children_from_end_ok)
    from st(7) show thesis
    proof
      assume "r = Changed \<and> child_ok f red n (loaded k' prev nd' st')"
      with st(1-6) Cons B show thesis
        by (intro that [of "loaded k' prev nd' st'" "q' # B'"]) (simp_all add: bindS_Ok)
    next
      assume r: "r = Unchanged \<and> current_order ctx < node_len nd'"
      with split [OF st(3), of k' st' "q' # B'"] obtain c1 c2 where
        "split_child ctx (length A) (A @ loaded k' prev nd' st' # q' # B') = (Ok (), A @ c1 # c2 # q' # B')"
        "child_ok f red n c1" "child_ok f red n c2" and c: "cflat f n c1 @ cflat f n c2 = nflat f n nd'"
        by blast
      moreover have "set (cflat f n c1) \<subseteq> set (nflat f n nd')" by (simp flip: c)
      moreover have "cflat f n c1 @ cflat f n c2 @ cflat f n q' = nflat f n nd @ cflat f n q"
        by (metis append.assoc c st(5))
      ultimately show thesis using st(1-6) Cons B r
        by (intro that [of c1 "c2 # q' # B'"]) (auto simp: bindS_Ok)
    qed
  qed
qed

lemma process_interior_split_ok:
  assumes f: "f = rd w" and red: "red = ctx_reducer ctx"
    and A: "\<forall>c \<in> set A. child_ok f red n c" and B: "\<forall>c \<in> set B. child_ok f red n c"
    and nd: "nwf f red n nd" "current_order ctx < node_len nd"
    and mc: "1 \<le> minimum_children ctx" "1 \<le> current_order ctx"
  obtains b A' c C where
    "process_interior_split ctx rd w (length A) (A @ loaded k prev nd st # B) =
       (Ok (Changed, b), A' @ c # C)"
    "\<forall>x \<in> set (A' @ c # C). child_ok f red n x" "length A' = length A"
    "cflats f n (A' @ c # C) = cflats f n A @ nflat f n nd @ cflats f n B"
    "if b then A \<noteq> [] \<and> butlast A' = butlast A else cflats f n A' = cflats f n A"
    "set (cflats f n (A' @ [c])) \<subseteq> set (cflats f n A) \<union> set (nflat f n nd)"
proof -
  from f red A nd mc(1) obtain r b A' k' nd' st' where st:
    "(if length A > 0 then steal_children_from_start ctx rd w (length A) else returnS (Unchanged, False))
       (A @ loaded k prev nd st # B) = (Ok (r, b), A' @ loaded k' prev nd' st' # B)"
    "length A' = length A" "\<forall>c \<in> set A'. child_ok f red n c"
    "nwf f red n nd'" "nflat f n nd' \<noteq> []"
    "cflats f n A' @ nflat f n nd' = cflats f n A @ nflat f n nd"
    "if b then A \<noteq> [] \<and> butlast A' = butlast A else cflats f n A' = cflats f n A"
    "r = Changed \<and> child_ok f red n (loaded k' prev nd' st') \<or>
     r = Unchanged \<and> current_order ctx < node_len nd'"
    by (rule steal_start_stage)
  have sub: "set (cflats f n A') \<union> set (nflat f n nd') = set (cflats f n A) \<union> set (nflat f n nd)"
    by (metis st(6) set_append)
  from st(8) show thesis
  proof
    assume r: "r = Changed \<and> child_ok f red n (loaded k' prev nd' st')"
    show thesis
    proof (rule that [of b A' "loaded k' prev nd' st'" B])
      show "process_interior_split ctx rd w (length A) (A @ loaded k prev nd st # B) =
        (Ok (Changed, b), A' @ loaded k' prev nd' st' # B)"
        unfolding process_interior_split_def by (subst bindS_Ok, rule st(1)) (use r in simp)
    qed (use r st(2,3,6,7) B sub in \<open>auto simp flip: append_assoc\<close>)
  next
    assume r: "r = Unchanged \<and> current_order ctx < node_len nd'"
    then have "current_order ctx < node_len nd'" by simp
    from f red st(3) B st(4) this mc obtain c C where en:
      "bindS (\<lambda>cs. if length A' + 1 < length cs then steal_children_from_end ctx rd w (length A') cs
        else returnS Unchanged cs) (\<lambda>cr'. case cr' of Changed \<Rightarrow> returnS (Changed, b)
         | Unchanged \<Rightarrow> bindS (split_child ctx (length A')) (\<lambda>_. returnS (Changed, b))
         | _ \<Rightarrow> failS Panic)
       (A' @ loaded k' prev nd' st' # B) = (Ok (Changed, b), A' @ c # C)"
      "child_ok f red n c" "\<forall>c \<in> set C. child_ok f red n c"
      "cflat f n c @ cflats f n C = nflat f n nd' @ cflats f n B"
      "set (cflat f n c) \<subseteq> set (nflat f n nd')"
      by (rule steal_end_stage)
    have flat: "cflats f n (A' @ c # C) = cflats f n A @ nflat f n nd @ cflats f n B"
      using en(4) st(6) by simp
    show thesis
    proof (rule that [of b A' c C])
      show "process_interior_split ctx rd w (length A) (A @ loaded k prev nd st # B) =
        (Ok (Changed, b), A' @ c # C)"
        unfolding process_interior_split_def
        by (subst bindS_Ok, rule st(1)) (use r en(1) [unfolded st(2)] in simp)
      show "set (cflats f n (A' @ [c])) \<subseteq> set (cflats f n A) \<union> set (nflat f n nd)"
        using sub en(5) by auto
    qed (use r st(2,3,7) en flat in auto)
  qed
qed

section \<open>Absorbing\<close>

definition clean_node :: "('v, 'i, 'r, 'c, 'w) modification_context \<Rightarrow> ('i, 'r) node \<Rightarrow> change_result" where
  "clean_node ctx nd =
     (if current_order ctx < node_len nd then Split
      else if node_len nd = 0 then Remove
      else if node_len nd < minimum_children ctx then Absorb
      else Changed)"

lemma clean_up_eq_clean_node:
  "clean_up_leaf ls (current_order ctx) (minimum_children ctx) = clean_node ctx (Leaf ls)"
  "clean_up_interior cs (current_order ctx) (minimum_children ctx) = clean_node ctx (Interior cs)"
  by (simp_all add: clean_up_leaf_def clean_up_interior_def clean_node_def Let_def)

lemma absorb_nwf:
  assumes "nwf f red n (node e)" and "nwf f red n (children_node ch)"
    and "nd = (if on_top then node_append (node e) (children_node ch)
      else node_append (children_node ch) (node e))"
  shows "absorb (Suc fuel) rd w (current_order ctx) (minimum_children ctx) ch on_top e =
    (Ok (clean_node ctx nd), BTreeEntry True nd)"
  using assms by (cases n; cases e; cases ch)
    (auto elim!: nwf_0E nwf_SucE simp: clean_up_eq_clean_node Let_def)

lemma take_children_nwf:
  assumes "nwf f red n nd"
  obtains ch where "\<forall>k prev st. take_children (loaded k prev nd st) = Ok ch" and "children_node ch = nd"
proof (cases nd)
  case Uninitialized
  with assms show thesis by (cases n) (auto elim: nwf_0E nwf_SucE)
qed (auto simp: take_children_def intro: that [of "Leaves _"] that [of "Interiors _"])

definition backed :: "bool \<Rightarrow> nat \<Rightarrow> nat" where
  "backed b i = (if b \<and> 0 < i then i - 1 else i)"

text \<open>
  One round of \<^verbatim>\<open>process_absorb\<close>: the child moves into the sponge, and the sponge, one position to
  the left (or at the front), is processed next.
\<close>

lemma process_absorb_step:
  assumes f: "f = rd w" and red: "red = ctx_reducer ctx"
    and A: "\<forall>c \<in> set A. child_ok f red n c" and B: "\<forall>c \<in> set B. child_ok f red n c"
    and nd: "nwf f red n nd" and ne: "nflat f n nd \<noteq> []" and AB: "A \<noteq> [] \<or> B \<noteq> []"
  obtains A' k' prev' nd' st' B' where
    "process_absorb (Suc fuel) ctx rd w (length A) (A @ loaded k prev nd st # B) =
      (case process_interior_change_result (Suc fuel) ctx rd w (clean_node ctx nd') (length A')
          (A' @ loaded k' prev' nd' st' # B') of
         (Ok (Remove, b), cs4) \<Rightarrow> (Ok (Remove, True), cs4)
       | (Ok (Changed, b), cs4) \<Rightarrow> (Ok (Changed, True), cs4)
       | (Ok (cr', b), cs4) \<Rightarrow> (Panic, cs4)
       | (bad, cs4) \<Rightarrow> (lift_err bad, cs4))"
    "A' = butlast A" "\<forall>c \<in> set B'. child_ok f red n c" "length A' + length B' < length A + length B"
    "nwf f red n nd'" "node_len nd < node_len nd'" "nflat f n nd' \<noteq> []"
    "cflats f n A' @ nflat f n nd' @ cflats f n B' = cflats f n A @ nflat f n nd @ cflats f n B"
    "A \<noteq> [] \<longrightarrow> set (cflats f n A') \<union> set (nflat f n nd') = set (cflats f n A) \<union> set (nflat f n nd)"
proof -
  from nd obtain ch where ch: "\<forall>k prev st. take_children (loaded k prev nd st) = Ok ch"
    "children_node ch = nd" by (rule take_children_nwf)
  have pos: "0 < node_len (node e)" if "nwf f red n (node e)" "nflat f n (node e) \<noteq> []" for e
    using that by (metis gr0I nflat_Nil_iff)
  show thesis
  proof (cases A rule: rev_cases)
    case (snoc A0 p)
    with A have "child_ok (rd w) red n p" by (simp add: f)
    then obtain pv e where load: "\<forall>A B. load_child rd w (length A) (A @ p # B) =
        (Ok (), A @ InteriorEntry (i_key p) (Loaded pv e) (i_stats p) # B)"
      and e: "nwf f red n (node e)" "nflat f n (node e) = cflat f n p" "cflat f n p \<noteq> []"
      by (rule load_child_at) (simp_all add: f)
    define nd' where "nd' = node_append (node e) nd"
    have ab: "absorb (Suc fuel) rd w (current_order ctx) (minimum_children ctx) ch True e =
      (Ok (clean_node ctx nd'), BTreeEntry True nd')"
      using absorb_nwf [where ch = ch and nd = nd' and on_top = True, OF e(1)] nd ch(2)
      by (simp add: nd'_def)
    have nd': "nwf f red n nd'" "nflat f n nd' = cflat f n p @ nflat f n nd"
      "node_len nd < node_len nd'"
      using nd e nwf_append nflat_append [OF e(1) nd] node_len_append [OF e(1) nd] pos [of e]
      by (simp_all add: nd'_def)
    show thesis
    proof (rule that [of nd' A0 "i_key p" pv "i_stats p" B])
      show "process_absorb (Suc fuel) ctx rd w (length A) (A @ loaded k prev nd st # B) =
        (case process_interior_change_result (Suc fuel) ctx rd w (clean_node ctx nd') (length A0)
            (A0 @ loaded (i_key p) pv nd' (i_stats p) # B) of
           (Ok (Remove, b), cs4) \<Rightarrow> (Ok (Remove, True), cs4)
         | (Ok (Changed, b), cs4) \<Rightarrow> (Ok (Changed, True), cs4)
         | (Ok (cr', b), cs4) \<Rightarrow> (Panic, cs4)
         | (bad, cs4) \<Rightarrow> (lift_err bad, cs4))"
        using snoc ch load ab
        by (simp add: process_absorb.simps [of "Suc fuel"] remove_nth_def load_sponge_def bindS_Ok
            nth_append)
    qed (use snoc A B nd' e in auto)
  next
    case Nil
    with AB obtain q B0 where B0: "B = q # B0" by (cases B) auto
    with B have "child_ok (rd w) red n q" by (simp add: f)
    then obtain pv e where load: "\<forall>A B. load_child rd w (length A) (A @ q # B) =
        (Ok (), A @ InteriorEntry (i_key q) (Loaded pv e) (i_stats q) # B)"
      and e: "nwf f red n (node e)" "nflat f n (node e) = cflat f n q" "cflat f n q \<noteq> []"
      by (rule load_child_at) (simp_all add: f)
    define nd' where "nd' = node_append nd (node e)"
    have ab: "absorb (Suc fuel) rd w (current_order ctx) (minimum_children ctx) ch False e =
      (Ok (clean_node ctx nd'), BTreeEntry True nd')"
      using absorb_nwf [where ch = ch and nd = nd' and on_top = False, OF e(1)] nd ch(2)
      by (simp add: nd'_def)
    have nd': "nwf f red n nd'" "nflat f n nd' = nflat f n nd @ cflat f n q"
      "node_len nd < node_len nd'"
      using nd e nwf_append nflat_append [OF nd e(1)] node_len_append [OF nd e(1)] pos [of e]
      by (simp_all add: nd'_def)
    have load0: "load_child rd w 0 (q # B0) =
        (Ok (), InteriorEntry (i_key q) (Loaded pv e) (i_stats q) # B0)"
      using load [THEN spec, of "[]"] by simp
    have at0: "child_entry 0 (InteriorEntry (i_key q) (Loaded pv e) (i_stats q) # B0) =
        (Ok e, InteriorEntry (i_key q) (Loaded pv e) (i_stats q) # B0)"
      "set_child_entry 0 (BTreeEntry True nd') (InteriorEntry (i_key q) (Loaded pv e) (i_stats q) # B0) =
        (Ok (), loaded (i_key q) pv nd' (i_stats q) # B0)"
      using child_entry_at(1) [of "[]"] set_child_entry_at(1) [of "[]"] by simp_all
    show thesis
    proof (rule that [of nd' "[]" "i_key q" pv "i_stats q" B0])
      show "process_absorb (Suc fuel) ctx rd w (length A) (A @ loaded k prev nd st # B) =
        (case process_interior_change_result (Suc fuel) ctx rd w (clean_node ctx nd') (length [])
            ([] @ loaded (i_key q) pv nd' (i_stats q) # B0) of
           (Ok (Remove, b), cs4) \<Rightarrow> (Ok (Remove, True), cs4)
         | (Ok (Changed, b), cs4) \<Rightarrow> (Ok (Changed, True), cs4)
         | (Ok (cr', b), cs4) \<Rightarrow> (Panic, cs4)
         | (bad, cs4) \<Rightarrow> (lift_err bad, cs4))"
        using Nil B0 ch load0 ab at0
        by (simp add: process_absorb.simps [of "Suc fuel"] remove_nth_def load_sponge_def bindS_Ok)
    qed (use Nil B0 B nd' e in auto)
  qed
qed

lemma set_cflats_take_mono: "i \<le> j \<Longrightarrow> set (cflats f n (take i cs)) \<subseteq> set (cflats f n (take j cs))"
  using set_take_subset_set_take [of i j cs] by auto

text \<open>
  Processing the result of a modified child that is not empty. The bounds on what may lie before
  a position of the new list of children are what the loop of \<^verbatim>\<open>modify_interior\<close> needs to go on
  from the position it backs up to.
\<close>

lemma process_change_ok:
  assumes f: "f = rd w" and red: "red = ctx_reducer ctx"
    and mc: "1 \<le> minimum_children ctx" "1 \<le> current_order ctx"
    and "\<forall>c \<in> set A. child_ok f red n c" and "\<forall>c \<in> set B. child_ok f red n c"
    and "nwf f red n nd" and "nflat f n nd \<noteq> []"
  shows "\<exists>b cs'. process_interior_change_result (Suc fuel) ctx rd w (clean_node ctx nd) (length A)
        (A @ loaded k prev nd st # B) = (Ok (Changed, b), cs') \<and>
    (\<forall>c \<in> set cs'. child_ok f red n c) \<and>
    cflats f n cs' = cflats f n A @ nflat f n nd @ cflats f n B \<and>
    (clean_node ctx nd \<noteq> Absorb \<longrightarrow>
       cflats f n (take (backed b (length A)) cs') = cflats f n (take (backed b (length A)) A)) \<and>
    (clean_node ctx nd = Absorb \<longrightarrow> b) \<and>
    (clean_node ctx nd \<noteq> Absorb \<longrightarrow>
       set (cflats f n (take (Suc (length A)) cs')) \<subseteq> set (cflats f n A) \<union> set (nflat f n nd)) \<and>
    (minimum_children ctx \<le> Suc (node_len nd) \<longrightarrow>
       set (cflats f n (take (length A) cs')) \<subseteq> set (cflats f n A) \<union> set (nflat f n nd)) \<and>
    (minimum_children ctx \<le> 3 \<longrightarrow>
       set (cflats f n (take (length A - 1) cs')) \<subseteq> set (cflats f n A) \<union> set (nflat f n nd))"
  using assms(5-)
proof (induction "length A + length B" arbitrary: A B k prev nd st rule: less_induct)
  case less
  note A = less.prems(1) and B = less.prems(2) and nd = less.prems(3,4)
  have len: "0 < node_len nd" using nd by (metis gr0I nflat_Nil_iff)
  consider (Split) "clean_node ctx nd = Split" "current_order ctx < node_len nd"
    | (Changed) "clean_node ctx nd = Changed"
    | (Absorb) "clean_node ctx nd = Absorb" "node_len nd < minimum_children ctx"
    using len by (cases "current_order ctx < node_len nd"; cases "node_len nd < minimum_children ctx")
      (simp_all add: clean_node_def)
  then show ?case
  proof cases
    case Changed
    from nd obtain k' st' where
      "\<forall>A B k st prev. refresh_child red (length A) (A @ loaded k prev nd st # B) =
         (Ok (), A @ loaded k' prev nd st' # B)" "\<forall>prev. child_ok f red n (loaded k' prev nd st')"
      by (elim refresh_child_at)
    with Changed A B show ?thesis
      by (intro exI [of _ False] exI [of _ "A @ loaded k' prev nd st' # B"])
        (auto simp: process_interior_change_result.simps [of "Suc fuel"] bindS_Ok red backed_def
          dest: in_set_takeD)
  next
    case Split
    from f red A B nd(1) Split(2) mc obtain b A' c C where sp:
      "process_interior_split ctx rd w (length A) (A @ loaded k prev nd st # B) =
       (Ok (Changed, b), A' @ c # C)"
      "\<forall>x \<in> set (A' @ c # C). child_ok f red n x" "length A' = length A"
      "cflats f n (A' @ c # C) = cflats f n A @ nflat f n nd @ cflats f n B"
      "if b then A \<noteq> [] \<and> butlast A' = butlast A else cflats f n A' = cflats f n A"
      "set (cflats f n (A' @ [c])) \<subseteq> set (cflats f n A) \<union> set (nflat f n nd)"
      by (rule process_interior_split_ok)
    have pre: "set (cflats f n (take i (A' @ c # C))) \<subseteq> set (cflats f n A) \<union> set (nflat f n nd)"
      if "i \<le> Suc (length A)" for i
    proof (rule subset_trans)
      show "set (cflats f n (take i (A' @ c # C))) \<subseteq> set (cflats f n (A' @ [c]))"
        using set_cflats_take_mono [OF that, of f n "A' @ c # C"] sp(3) by simp
    qed (rule sp(6))
    have same: "cflats f n (take (backed b (length A)) (A' @ c # C)) =
        cflats f n (take (backed b (length A)) A)"
      using sp(3,5) by (simp add: backed_def butlast_conv_take split: if_splits)
    have run: "process_interior_change_result (Suc fuel) ctx rd w (clean_node ctx nd) (length A)
        (A @ loaded k prev nd st # B) = (Ok (Changed, b), A' @ c # C)"
      using Split(1) sp(1) by (simp add: process_interior_change_result.simps [of "Suc fuel"])
    have nab: "clean_node ctx nd \<noteq> Absorb" by (simp add: Split(1))
    show ?thesis
      by (rule exI [of _ b], rule exI [of _ "A' @ c # C"], intro conjI impI)
        (rule run, rule sp(2), rule sp(4), rule same, erule notE [OF nab], (rule pre, simp)+)
  next
    case Absorb
    show ?thesis
    proof (cases "A = [] \<and> B = []")
      case True
      from nd obtain k' st' where rc:
        "\<forall>A B k st prev. refresh_child red (length A) (A @ loaded k prev nd st # B) =
           (Ok (), A @ loaded k' prev nd st' # B)" "\<forall>prev. child_ok f red n (loaded k' prev nd st')"
        by (elim refresh_child_at)
      have "refresh_child red 0 [loaded k prev nd st] = (Ok (), [loaded k' prev nd st'])"
        using rc(1) [THEN spec, of "[]"] by simp
      with rc(2) Absorb True show ?thesis
        by (intro exI [of _ True] exI [of _ "[loaded k' prev nd st']"])
          (simp add: process_interior_change_result.simps [of "Suc fuel"] bindS_Ok red)
    next
      case False
      then have "A \<noteq> [] \<or> B \<noteq> []" by simp
      from process_absorb_step [where rd = rd and w = w and fuel = fuel and k = k and prev = prev
          and st = st, OF f red A B nd this]
      obtain A' k' prev' nd' st' B' where pa:
        "process_absorb (Suc fuel) ctx rd w (length A) (A @ loaded k prev nd st # B) =
          (case process_interior_change_result (Suc fuel) ctx rd w (clean_node ctx nd') (length A')
              (A' @ loaded k' prev' nd' st' # B') of
             (Ok (Remove, b), cs4) \<Rightarrow> (Ok (Remove, True), cs4)
           | (Ok (Changed, b), cs4) \<Rightarrow> (Ok (Changed, True), cs4)
           | (Ok (cr', b), cs4) \<Rightarrow> (Panic, cs4)
           | (bad, cs4) \<Rightarrow> (lift_err bad, cs4))"
        and step: "A' = butlast A" "\<forall>c \<in> set B'. child_ok f red n c"
          "length A' + length B' < length A + length B"
          "nwf f red n nd'" "node_len nd < node_len nd'" "nflat f n nd' \<noteq> []"
          "cflats f n A' @ nflat f n nd' @ cflats f n B' = cflats f n A @ nflat f n nd @ cflats f n B"
          "A \<noteq> [] \<longrightarrow> set (cflats f n A') \<union> set (nflat f n nd') = set (cflats f n A) \<union> set (nflat f n nd)"
        .
      from step(1) A have "\<forall>c \<in> set A'. child_ok f red n c" by (auto dest: in_set_butlastD)
      from less.hyps [OF step(3) this step(2,4,6), of k' prev' st'] obtain b cs' where IH:
        "process_interior_change_result (Suc fuel) ctx rd w (clean_node ctx nd') (length A')
           (A' @ loaded k' prev' nd' st' # B') = (Ok (Changed, b), cs')"
        "\<forall>c \<in> set cs'. child_ok f red n c"
        "cflats f n cs' = cflats f n A' @ nflat f n nd' @ cflats f n B'"
        "clean_node ctx nd' \<noteq> Absorb \<longrightarrow>
          set (cflats f n (take (Suc (length A')) cs')) \<subseteq> set (cflats f n A') \<union> set (nflat f n nd')"
        "minimum_children ctx \<le> Suc (node_len nd') \<longrightarrow>
          set (cflats f n (take (length A') cs')) \<subseteq> set (cflats f n A') \<union> set (nflat f n nd')"
        by blast
      have eq: "process_interior_change_result (Suc fuel) ctx rd w (clean_node ctx nd) (length A)
          (A @ loaded k prev nd st # B) = (Ok (Changed, True), cs')"
        using Absorb(1) False pa IH(1)
        by (simp add: process_interior_change_result.simps [of "Suc fuel" _ _ _ Absorb])
      have "set (cflats f n (take (length A) cs')) \<subseteq> set (cflats f n A) \<union> set (nflat f n nd)"
        if "minimum_children ctx \<le> Suc (node_len nd)"
      proof (cases "A = []")
        case nonempty: False
        from that step(5) have "clean_node ctx nd' \<noteq> Absorb" by (simp add: clean_node_def)
        with IH(4) step(1,8) nonempty show ?thesis by (simp add: Suc_diff_1)
      qed simp
      moreover have "set (cflats f n (take (length A - 1) cs')) \<subseteq> set (cflats f n A) \<union> set (nflat f n nd)"
        if "minimum_children ctx \<le> 3"
      proof (cases "A = []")
        case nonempty: False
        from that step(5) len have "minimum_children ctx \<le> Suc (node_len nd')" by simp
        with IH(5) step(1,8) nonempty show ?thesis by simp
      qed simp
      ultimately show ?thesis
        using eq IH(2,3) step(7) Absorb(1) by (intro exI [of _ True] exI [of _ cs']) simp
    qed
  qed
qed

end
