(* ===== verification/BTree_Spec.thy ===== *)
theory BTree_Spec
  imports BTree_Inv
begin

text \<open>
  What a modification means, independent of the tree: each key in turn is looked up in a sorted
  association list, the operation decides, and the list is updated. The B-Tree is proved to refine
  this specification.
\<close>

section \<open>Keys applied to a sorted association list\<close>

type_synonym ('v, 'i, 's, 'c, 'w) spec_state =
  "(bytes \<times> 'i) list \<times> ('v, 'i, 's) operation \<times> 'c \<times> 'w"

fun update_contents :: "bytes \<Rightarrow> 'i key_operation \<Rightarrow> (bytes \<times> 'i) list \<Rightarrow> (bytes \<times> 'i) list" where
  "update_contents k KeySkip xs = xs"
| "update_contents k (KeySet i) xs = upd_sorted k i xs"
| "update_contents k KeyRemove xs = del_sorted k xs"

definition key_decision ::
    "('v, 'i, 'r, 'c, 'w) modification_context \<Rightarrow> bytes \<Rightarrow> 'i option \<Rightarrow> ('v, 'i, 's) operation \<Rightarrow> 'c \<Rightarrow> 'w \<Rightarrow>
     'i key_operation res \<times> ('v, 'i, 's) operation \<times> 'c \<times> 'w" where
  "key_decision ctx key cur op c w =
     (case cur of
        Some current \<Rightarrow> matched_operation ctx key current op c w
      | None \<Rightarrow> unmatched_operation ctx key op c w)"

fun apply_key ::
    "('v, 'i, 'r, 'c, 'w) modification_context \<Rightarrow> bytes \<Rightarrow> ('v, 'i, 's, 'c, 'w) spec_state \<Rightarrow>
     unit res \<times> ('v, 'i, 's, 'c, 'w) spec_state" where
  "apply_key ctx key (xs, op, c, w) =
     (case key_decision ctx key (map_of xs key) op c w of
        (r, st') \<Rightarrow>
          (case r of
             Ok decision \<Rightarrow> (Ok (), update_contents key decision xs, st')
           | bad \<Rightarrow> (lift_err bad, xs, st')))"

declare apply_key.simps [simp del]

fun apply_keys ::
    "('v, 'i, 'r, 'c, 'w) modification_context \<Rightarrow> bytes list \<Rightarrow> ('v, 'i, 's, 'c, 'w) spec_state \<Rightarrow>
     unit res \<times> ('v, 'i, 's, 'c, 'w) spec_state" where
  "apply_keys ctx [] st = (Ok (), st)"
| "apply_keys ctx (k # ks) st =
     (case apply_key ctx k st of (Ok u, st') \<Rightarrow> apply_keys ctx ks st' | (bad, st') \<Rightarrow> (bad, st'))"

lemma apply_keys_append:
  "apply_keys ctx (ks @ ks') st =
     (case apply_keys ctx ks st of (Ok u, st') \<Rightarrow> apply_keys ctx ks' st' | (bad, st') \<Rightarrow> (bad, st'))"
  by (induction ks arbitrary: st) (auto split: prod.splits res.splits)

lemma apply_keys_trans:
  "apply_keys ctx ks st = (Ok (), st') \<Longrightarrow> apply_keys ctx ks' st' = r \<Longrightarrow> apply_keys ctx (ks @ ks') st = r"
  by (simp add: apply_keys_append)

lemma apply_keys_prefix_ok: "is_ok (fst (apply_keys ctx (ks @ ks') st)) \<Longrightarrow> is_ok (fst (apply_keys ctx ks st))"
  by (auto simp: apply_keys_append split: prod.splits res.splits)

lemma ksorted_update_contents: "ksorted xs \<Longrightarrow> ksorted (update_contents k d xs)"
  by (cases d) (simp_all add: sorted_simps)

lemma keys_update_contents: "ksorted xs \<Longrightarrow> fst ` set (update_contents k d xs) \<subseteq> insert k (fst ` set xs)"
  by (cases d) (auto simp: keys_upd_sorted keys_del_sorted)

lemma update_contents_frame:
  assumes "\<forall>p \<in> set pre. fst p < k" and "\<forall>p \<in> set post. k < fst p"
  shows "update_contents k d (pre @ xs @ post) = pre @ update_contents k d xs @ post"
  using assms by (cases d) (simp_all add: upd_sorted_frame del_sorted_frame)

lemma apply_key_cases:
  assumes "apply_key ctx k (xs, op, c, w) = (r, xs', st')"
  obtains "xs' = xs" | d where "xs' = update_contents k d xs"
  using assms by (auto simp: apply_key.simps split: prod.splits res.splits)

lemma apply_key_ksorted: "apply_key ctx k (xs, op, c, w) = (r, xs', st') \<Longrightarrow> ksorted xs \<Longrightarrow> ksorted xs'"
  by (erule apply_key_cases) (simp_all add: ksorted_update_contents)

lemma apply_key_keys:
  "apply_key ctx k (xs, op, c, w) = (r, xs', st') \<Longrightarrow> ksorted xs \<Longrightarrow>
     fst ` set xs' \<subseteq> insert k (fst ` set xs)"
  by (erule apply_key_cases) (use keys_update_contents in blast)+

lemma apply_keys_ksorted: "apply_keys ctx ks (xs, op, c, w) = (r, xs', st') \<Longrightarrow> ksorted xs \<Longrightarrow> ksorted xs'"
proof (induction ks arbitrary: xs op c w)
  case (Cons k ks)
  obtain r1 xs1 op1 c1 w1 where 1: "apply_key ctx k (xs, op, c, w) = (r1, xs1, op1, c1, w1)"
    by (metis prod_cases5)
  with Cons show ?case using apply_key_ksorted [OF 1] by (auto split: res.splits)
qed simp

lemma apply_keys_keys:
  "apply_keys ctx ks (xs, op, c, w) = (r, xs', st') \<Longrightarrow> ksorted xs \<Longrightarrow>
     fst ` set xs' \<subseteq> set ks \<union> fst ` set xs"
proof (induction ks arbitrary: xs op c w)
  case (Cons k ks)
  obtain r1 xs1 op1 c1 w1 where 1: "apply_key ctx k (xs, op, c, w) = (r1, xs1, op1, c1, w1)"
    by (metis prod_cases5)
  show ?case
  proof (cases r1)
    case (Ok u)
    with Cons.prems 1 have "apply_keys ctx ks (xs1, op1, c1, w1) = (r, xs', st')" by simp
    from Cons.IH [OF this apply_key_ksorted [OF 1 Cons.prems(2)]] apply_key_keys [OF 1 Cons.prems(2)]
    show ?thesis by auto
  qed (use Cons.prems 1 apply_key_keys [OF 1 Cons.prems(2)] in auto)
qed simp

text \<open>Keys act within the part of the list they fall into.\<close>

lemma apply_key_frame:
  assumes "\<forall>p \<in> set pre. fst p < k" and "\<forall>p \<in> set post. k < fst p"
  shows "apply_key ctx k (pre @ xs @ post, op, c, w) =
    (case apply_key ctx k (xs, op, c, w) of (r, xs', st') \<Rightarrow> (r, pre @ xs' @ post, st'))"
  using map_of_frame [OF assms] update_contents_frame [OF assms]
  by (simp add: apply_key.simps split: prod.splits res.splits)

lemma apply_keys_frame:
  assumes "\<forall>k \<in> set ks. (\<forall>p \<in> set pre. fst p < k) \<and> (\<forall>p \<in> set post. k < fst p)"
  shows "apply_keys ctx ks (pre @ xs @ post, op, c, w) =
    (case apply_keys ctx ks (xs, op, c, w) of (r, xs', st') \<Rightarrow> (r, pre @ xs' @ post, st'))"
  using assms
  by (induction ks arbitrary: xs op c w) (auto simp: apply_key_frame split: prod.splits res.splits)

text \<open>The operation at a known place of the list.\<close>

lemma apply_key_found:
  assumes "\<forall>p \<in> set pre. fst p < k" and "\<forall>p \<in> set post. k < fst p"
    and "apply_key ctx k (pre @ (k, i) # post, op, c, w) = (Ok (), xs, op', c', w')"
  obtains "matched_operation ctx k i op c w = (Ok KeySkip, op', c', w')" "xs = pre @ (k, i) # post"
  | j where "matched_operation ctx k i op c w = (Ok (KeySet j), op', c', w')" "xs = pre @ (k, j) # post"
  | "matched_operation ctx k i op c w = (Ok KeyRemove, op', c', w')" "xs = pre @ post"
proof -
  have "map_of (pre @ (k, i) # post) k = Some i"
    using map_of_frame [OF assms(1,2), of "[(k, i)]"] by simp
  with assms(3) obtain d where "matched_operation ctx k i op c w = (Ok d, op', c', w')"
    and xs: "xs = update_contents k d (pre @ (k, i) # post)"
    by (auto simp: apply_key.simps key_decision_def split: prod.splits res.splits)
  moreover have "del_sorted k (pre @ (k, i) # post) = pre @ post"
    using del_sorted_frame [OF assms(1,2), of "[(k, i)]"] by (simp add: del_sorted_def)
  ultimately show thesis
    using that upd_sorted_split(2) [OF assms(1,2)] by (cases d) auto
qed

lemma apply_key_missing:
  assumes "\<forall>p \<in> set pre. fst p < k" and "\<forall>p \<in> set post. k < fst p"
    and "apply_key ctx k (pre @ post, op, c, w) = (Ok (), xs, op', c', w')"
  obtains j where "unmatched_operation ctx k op c w = (Ok (KeySet j), op', c', w')" "xs = pre @ (k, j) # post"
  | d where "unmatched_operation ctx k op c w = (Ok d, op', c', w')" "\<forall>j. d \<noteq> KeySet j" "xs = pre @ post"
proof -
  have none: "map_of (pre @ post) k = None"
    using map_of_frame [OF assms(1,2), of "[]"] by simp
  then have dec: "key_decision ctx k (map_of (pre @ post) k) op c w = unmatched_operation ctx k op c w"
    by (simp only: key_decision_def option.case)
  from assms(3) obtain d where d: "unmatched_operation ctx k op c w = (Ok d, op', c', w')"
    and xs: "xs = update_contents k d (pre @ post)"
    unfolding apply_key.simps dec by (auto split: prod.splits res.splits)
  moreover have "del_sorted k (pre @ post) = pre @ post"
    using del_sorted_frame [OF assms(1,2), of "[]"] by (simp add: del_sorted_def)
  ultimately show thesis
    using that upd_sorted_split(1) [OF assms(1,2)] by (cases d) auto
qed

section \<open>Batches up to a maximum key\<close>

definition spec_ok ::
    "('v, 'i, 'r, 'c, 'w) modification_context \<Rightarrow> bytes option \<Rightarrow> bytes list \<Rightarrow>
     ('v, 'i, 's, 'c, 'w) spec_state \<Rightarrow> bool" where
  "spec_ok ctx max_k ks st \<longleftrightarrow> is_ok (fst (apply_keys ctx (takeWhile (\<lambda>k. \<not> exceeds max_k k) ks) st))"

lemma spec_ok_Cons:
  assumes "spec_ok ctx max_k (k # ks) st" and "\<not> exceeds max_k k"
  obtains st' where "apply_key ctx k st = (Ok (), st')" and "spec_ok ctx max_k ks st'"
  using assms by (auto simp: spec_ok_def split: prod.splits res.splits)

lemma spec_ok_append:
  assumes "spec_ok ctx max_k (ks @ ks') st" and "\<forall>k \<in> set ks. \<not> exceeds max_k k"
    and "apply_keys ctx ks st = (Ok (), st')"
  shows "spec_ok ctx max_k ks' st'"
  using assms by (simp add: spec_ok_def apply_keys_append)

text \<open>What remains of a batch when a node is left: nothing, keys above the maximum, or keys above
  all keys of the node.\<close>

definition done_with :: "bytes option \<Rightarrow> bytes list \<Rightarrow> (bytes \<times> 'i) list \<Rightarrow> bool" where
  "done_with max_k ks xs \<longleftrightarrow> ks = [] \<or> exceeds max_k (hd ks) \<or> (\<forall>p \<in> set xs. fst p < hd ks)"

end
