(* ===== verification/BTree_Modify.thy ===== *)
theory BTree_Modify
  imports BTree_Balance BTree_Spec
begin

text \<open>
  \<^verbatim>\<open>BTreeEntry::modify\<close> refines the specification of theory \<open>BTree_Spec\<close>: it consumes a prefix of
  the batch, its new contents are those the specification computes for that prefix, the invariant
  holds again, and the reported \<^verbatim>\<open>ChangeResult\<close> describes the node it leaves.
\<close>

section \<open>Leaves\<close>

lemma leaf_search_cases:
  assumes "ksorted (map key_pair children)" and "li \<le> length children"
    and "\<forall>e \<in> set (take li children). ke_key e < key"
  obtains (found) L i R where "children = L @ KeyEntry key i # R" and "li \<le> length L"
    and "binary_search (map ke_key (drop li children)) key = Found (length L - li)"
    and "\<forall>e \<in> set L. ke_key e < key" and "\<forall>e \<in> set R. key < ke_key e"
  | (missing) L R where "children = L @ R" and "li \<le> length L"
    and "binary_search (map ke_key (drop li children)) key = NotFound (length L - li)"
    and "\<forall>e \<in> set L. ke_key e < key" and "\<forall>e \<in> set R. key < ke_key e"
proof -
  have split: "children = take li children @ drop li children" by simp
  have "sorted_wrt (<) (map ke_key (drop li children))"
    using assms(1) sorted_wrt_append [of "(<)" "map ke_key (take li children)" "map ke_key (drop li children)"]
    by (simp add: o_def flip: map_append)
  then show thesis
  proof (cases rule: binary_search_cases [of "map ke_key (drop li children)" key])
    case (found l r)
    then obtain L e R where "drop li children = L @ e # R" "map ke_key L = l" "ke_key e = key"
      "map ke_key R = r" by (auto simp: map_eq_append_conv map_eq_Cons_conv)
    with found assms(2,3) split show thesis
      by (intro that(1) [of "take li children @ L" "ke_index e" R]) (cases e; auto)+
  next
    case (missing l r)
    then obtain L R where "drop li children = L @ R" "map ke_key L = l" "map ke_key R = r"
      by (auto simp: map_eq_append_conv)
    with missing assms(2,3) split show thesis
      by (intro that(2) [of "take li children @ L" R]) auto
  qed
qed

text \<open>One round of the leaf loop.\<close>

lemma modify_leaf_step:
  assumes sorted: "ksorted (map key_pair children)" and keys: "keys m = rev (k # ks)"
    and len: "length children \<le> max_len" and max: "\<not> exceeds max_k k"
    and li: "li \<le> length children" "\<forall>e \<in> set (take li children). ke_key e < k"
    and spec: "apply_key ctx k (map key_pair children, operation m, c, w) = (Ok (), xs, op', c', w')"
  obtains children' li' any' where
    "modify_leaf_loop ctx max_len max_k li any children m c w =
       modify_leaf_loop ctx max_len max_k li' any' children' (m\<lparr>keys := rev ks, operation := op'\<rparr>) c' w'"
    "map key_pair children' = xs" "li' \<le> length children'" "\<forall>e \<in> set (take li' children'). ke_key e < k"
    "any \<longrightarrow> any'" "\<not> any' \<longrightarrow> \<not> any \<and> children' = children"
  using sorted li
proof (cases rule: leaf_search_cases)
  case (found L i R)
  have pre: "\<forall>p \<in> set (map key_pair L). fst p < k" "\<forall>p \<in> set (map key_pair R). k < fst p"
    using found by auto
  from spec found(1) have spec':
    "apply_key ctx k (map key_pair L @ (k, i) # map key_pair R, operation m, c, w) = (Ok (), xs, op', c', w')"
    by simp
  note unfold = modify_leaf_loop.simps [of ctx max_len max_k li any "L @ KeyEntry k i # R" m c w]
  have at: "li + (length L - li) = length L" "children ! length L = KeyEntry k i"
    using found by (simp_all add: nth_append)
  from pre spec' show thesis
  proof (cases rule: apply_key_found)
    case 1
    with found at keys len max li(1) show thesis
      by (intro that [of "length L" any children]) (simp_all add: unfold Let_def)
  next
    case (2 j)
    with found at keys len max li(1) show thesis
      by (intro that [of "length L" True "L @ KeyEntry k j # R"])
        (simp_all add: unfold Let_def list_update_append)
  next
    case 3
    with found at keys len max li(1) show thesis
      by (intro that [of "length L" True "L @ R"]) (simp_all add: unfold Let_def remove_nth_def)
  qed
next
  case (missing L R)
  have pre: "\<forall>p \<in> set (map key_pair L). fst p < k" "\<forall>p \<in> set (map key_pair R). k < fst p"
    using missing by auto
  from spec missing(1) have spec':
    "apply_key ctx k (map key_pair L @ map key_pair R, operation m, c, w) = (Ok (), xs, op', c', w')"
    by simp
  note unfold = modify_leaf_loop.simps [of ctx max_len max_k li any "L @ R" m c w]
  have at: "li + (length L - li) = length L" using missing by simp
  from pre spec' show thesis
  proof (cases rule: apply_key_missing)
    case (1 j)
    with missing at keys len max li(1) show thesis
      by (intro that [of "length L" True "L @ KeyEntry k j # R"])
        (simp_all add: unfold Let_def insert_nth_def)
  next
    case (2 d)
    with missing at keys len max li(1) show thesis
      by (intro that [of "length L" any children]) (simp_all add: unfold Let_def split: key_operation.splits)
  qed
qed

lemma modify_leaf_loop_ok:
  assumes "ksorted (map key_pair children)" and "keys m = rev ks" and "sorted_wrt (<) ks"
    and "li \<le> length children" and "\<forall>k \<in> set ks. \<forall>e \<in> set (take li children). ke_key e < k"
    and "spec_ok ctx max_k ks (map key_pair children, operation m, c, w)"
  shows "\<exists>any' children' ks1 ks2 op' c' w'.
    modify_leaf_loop ctx max_len max_k li any children m c w =
      (Ok any', children', m\<lparr>keys := rev ks2, operation := op'\<rparr>, c', w') \<and>
    ks = ks1 @ ks2 \<and> (\<forall>k \<in> set ks1. \<not> exceeds max_k k) \<and>
    (ks \<noteq> [] \<and> \<not> exceeds max_k (hd ks) \<and> length children \<le> max_len \<longrightarrow> ks1 \<noteq> []) \<and>
    apply_keys ctx ks1 (map key_pair children, operation m, c, w) =
      (Ok (), map key_pair children', op', c', w') \<and>
    (\<not> any' \<longrightarrow> \<not> any \<and> children' = children) \<and>
    (ks2 = [] \<or> exceeds max_k (hd ks2) \<or> max_len < length children')"
  using assms
proof (induction ks arbitrary: li any children m c w)
  case Nil
  then have "m\<lparr>keys := rev [], operation := operation m\<rparr> = m" by simp
  with Nil show ?case
    by (intro exI [of _ any] exI [of _ children] exI [of _ "[]"] exI [of _ "operation m"] exI [of _ c] exI [of _ w])
      (simp add: modify_leaf_loop.simps)
next
  case (Cons k ks)
  show ?case
  proof (cases "exceeds max_k k \<or> max_len < length children")
    case True
    then have "modify_leaf_loop ctx max_len max_k li any children m c w = (Ok any, children, m, c, w)"
      using Cons.prems(2) by (auto simp: modify_leaf_loop.simps)
    moreover have "m\<lparr>keys := rev (k # ks), operation := operation m\<rparr> = m" using Cons.prems(2) by simp
    ultimately show ?thesis using True
      by (intro exI [of _ any] exI [of _ children] exI [of _ "[]"] exI [of _ "k # ks"]
          exI [of _ "operation m"] exI [of _ c] exI [of _ w]) auto
  next
    case False
    then have max: "\<not> exceeds max_k k" and len: "length children \<le> max_len" by auto
    from Cons.prems(6) max obtain st where
      "apply_key ctx k (map key_pair children, operation m, c, w) = (Ok (), st)"
      "spec_ok ctx max_k ks st" by (rule spec_ok_Cons)
    then obtain xs op' c' w' where
      spec: "apply_key ctx k (map key_pair children, operation m, c, w) = (Ok (), xs, op', c', w')"
        "spec_ok ctx max_k ks (xs, op', c', w')" by (metis prod_cases4)
    have "\<forall>e \<in> set (take li children). ke_key e < k" using Cons.prems(5) by simp
    from modify_leaf_step [OF Cons.prems(1,2) len max Cons.prems(4) this spec(1)]
    obtain children' li' any' where step:
      "modify_leaf_loop ctx max_len max_k li any children m c w =
         modify_leaf_loop ctx max_len max_k li' any' children' (m\<lparr>keys := rev ks, operation := op'\<rparr>) c' w'"
      "map key_pair children' = xs" "li' \<le> length children'" "\<forall>e \<in> set (take li' children'). ke_key e < k"
      "any \<longrightarrow> any'" "\<not> any' \<longrightarrow> \<not> any \<and> children' = children" by blast
    have "ksorted (map key_pair children')"
      using apply_key_ksorted [OF spec(1) Cons.prems(1)] step(2) by simp
    moreover have "\<forall>k' \<in> set ks. \<forall>e \<in> set (take li' children'). ke_key e < k'"
      using step(4) Cons.prems(3) by (auto intro: less_trans)
    moreover have "sorted_wrt (<) ks" "keys (m\<lparr>keys := rev ks, operation := op'\<rparr>) = rev ks"
      "spec_ok ctx max_k ks (map key_pair children', operation (m\<lparr>keys := rev ks, operation := op'\<rparr>), c', w')"
      using Cons.prems(3) spec(2) step(2) by simp_all
    ultimately obtain any2 children2 ks1 ks2 op2 c2 w2 where
      "modify_leaf_loop ctx max_len max_k li' any' children' (m\<lparr>keys := rev ks, operation := op'\<rparr>) c' w' =
        (Ok any2, children2, m\<lparr>keys := rev ks, operation := op', keys := rev ks2, operation := op2\<rparr>, c2, w2)"
      and IH: "ks = ks1 @ ks2" "\<forall>k \<in> set ks1. \<not> exceeds max_k k"
      "apply_keys ctx ks1 (map key_pair children', operation (m\<lparr>keys := rev ks, operation := op'\<rparr>), c', w') =
        (Ok (), map key_pair children2, op2, c2, w2)"
      "\<not> any2 \<longrightarrow> \<not> any' \<and> children2 = children'"
      "ks2 = [] \<or> exceeds max_k (hd ks2) \<or> max_len < length children2"
      using Cons.IH [OF _ _ _ step(3), of "m\<lparr>keys := rev ks, operation := op'\<rparr>" c' w' any'] by blast
    then have run: "modify_leaf_loop ctx max_len max_k li any children m c w =
        (Ok any2, children2, m\<lparr>keys := rev ks2, operation := op2\<rparr>, c2, w2)"
      using step(1) by simp
    have "apply_keys ctx (k # ks1) (map key_pair children, operation m, c, w) =
      (Ok (), map key_pair children2, op2, c2, w2)"
      using spec(1) step(2) IH(3) by simp
    with run step(5,6) IH(1,2,4,5) max show ?thesis
      by (intro exI [of _ any2] exI [of _ children2] exI [of _ "k # ks1"] exI [of _ ks2] exI [of _ op2]
          exI [of _ c2] exI [of _ w2]) auto
  qed
qed

section \<open>Routing a key to a child\<close>

lemma ksorted_append:
  "ksorted (xs @ ys) \<longleftrightarrow> ksorted xs \<and> ksorted ys \<and> (\<forall>p \<in> set xs. \<forall>q \<in> set ys. fst p < fst q)"
  by (auto simp: sorted_wrt_append)

lemma ksorted_last: "ksorted xs \<Longrightarrow> p \<in> set xs \<Longrightarrow> fst p \<le> fst (last xs)"
  by (cases xs rule: rev_cases) (auto simp: sorted_wrt_append)

lemma child_key_max:
  assumes "child_ok f red n c" and "ksorted (cflat f n c)" and "p \<in> set (cflat f n c)"
  shows "fst p \<le> i_key c"
  using child_ok_cflat [OF assms(1)] ksorted_last [OF assms(2,3)] by simp

lemma child_key_in: "child_ok f red n c \<Longrightarrow> i_key c \<in> fst ` set (cflat f n c)"
  using child_ok_cflat by fastforce

lemma ksorted_cflat: "ksorted (cflats f n (A @ c # B)) \<Longrightarrow> ksorted (cflat f n c)"
  by (simp add: sorted_wrt_append)

lemma child_keys_sorted:
  assumes "\<forall>c \<in> set cs. child_ok f red n c" and "ksorted (cflats f n cs)"
  shows "sorted_wrt (<) (map i_key cs)"
  using assms
proof (induction cs)
  case (Cons c cs)
  have "i_key c < i_key d" if d: "d \<in> set cs" for d
  proof -
    obtain p where p: "p \<in> set (cflat f n c)" "i_key c = fst p"
      using child_key_in [of f red n c] Cons.prems(1) by auto
    obtain q where q: "q \<in> set (cflat f n d)" "i_key d = fst q"
      using child_key_in [of f red n d] Cons.prems(1) d by auto
    have "\<forall>p \<in> set (cflat f n c). \<forall>q \<in> set (cflats f n cs). fst p < fst q"
      using Cons.prems(2) by (simp add: ksorted_append del: map_append map_concat)
    with p q d show ?thesis by auto
  qed
  with Cons show ?case by (simp add: sorted_wrt_append)
qed simp

lemma child_below_key:
  assumes "\<forall>c \<in> set cs. child_ok f red n c" and "ksorted (cflats f n cs)" and "\<forall>c \<in> set cs. i_key c < k"
  shows "\<forall>p \<in> set (cflats f n cs). fst p < k"
proof
  fix p assume "p \<in> set (cflats f n cs)"
  then obtain c where c: "c \<in> set cs" "p \<in> set (cflat f n c)" by auto
  then obtain A B where "cs = A @ c # B" by (meson split_list)
  with assms(2) have "ksorted (cflat f n c)" using ksorted_cflat by blast
  with c assms(1,3) child_key_max show "fst p < k" by (meson le_less_trans)
qed

lemma containing_child_ok:
  assumes ok: "\<forall>c \<in> set cs. child_ok f red n c" and sorted: "ksorted (cflats f n cs)"
    and li: "li < length cs" "\<forall>p \<in> set (cflats f n (take li cs)). fst p < k"
  obtains A c B pushing where "cs = A @ c # B" and "containing_child cs li k = (length A, pushing)"
    and "\<forall>p \<in> set (cflats f n A). fst p < k"
    and "if pushing then B = [] \<and> (\<forall>p \<in> set (cflat f n c). fst p < k) else k \<le> i_key c"
proof -
  have split: "cs = take li cs @ drop li cs" by simp
  have ks: "sorted_wrt (<) (map i_key (drop li cs))"
    using child_keys_sorted [OF ok sorted] sorted_wrt_drop [of "(<)" "map i_key cs" li] by (simp add: drop_map)
  have low: "\<forall>p \<in> set (cflats f n (take li cs @ L)). fst p < k"
    if "drop li cs = L @ R" "\<forall>c \<in> set L. i_key c < k" for L R
  proof -
    have cs: "cs = take li cs @ L @ R" using split that(1) by simp
    have "\<forall>c \<in> set L. child_ok f red n c" using ok by (subst (asm) cs) auto
    moreover have "ksorted (cflats f n L)" using sorted by (subst (asm) cs) (simp add: sorted_wrt_append)
    ultimately have "\<forall>p \<in> set (cflats f n L). fst p < k" by (rule child_below_key [OF _ _ that(2)])
    with li(2) show ?thesis by auto
  qed
  from ks show thesis
  proof (cases rule: binary_search_cases [of "map i_key (drop li cs)" k])
    case (found l r)
    then obtain L c R where d: "drop li cs = L @ c # R" "map i_key L = l" "i_key c = k"
      by (auto simp: map_eq_append_conv map_eq_Cons_conv)
    show thesis
    proof (rule that [of "take li cs @ L" c R False])
      show "cs = (take li cs @ L) @ c # R" using split d by simp
      show "\<forall>p \<in> set (cflats f n (take li cs @ L)). fst p < k" by (rule low [OF d(1)]) (use found(3) d(2) in auto)
      show "containing_child cs li k = (length (take li cs @ L), False)"
        using found(2) d(2) li(1) by (auto simp: containing_child_def)
    qed (use d in simp)
  next
    case (missing l r)
    then obtain L R where d: "drop li cs = L @ R" "map i_key L = l" "map i_key R = r"
      by (auto simp: map_eq_append_conv)
    show thesis
    proof (cases R)
      case (Cons c R')
      have "length (drop li cs) = length L + length R" by (simp add: d(1))
      then have len: "length L + li < length cs" using Cons li(1) by simp
      show thesis
      proof (rule that [of "take li cs @ L" c R' False])
        show "cs = (take li cs @ L) @ c # R'" using split d Cons by simp
        show "\<forall>p \<in> set (cflats f n (take li cs @ L)). fst p < k" by (rule low [OF d(1)]) (use missing(3) d(2) in auto)
        show "containing_child cs li k = (length (take li cs @ L), False)"
          using missing(2) d(2) li(1) len by (auto simp: containing_child_def)
      qed (use d Cons missing(4) in auto)
    next
      case Nil
      with d(1) li(1) obtain L' c where L: "L = L' @ [c]" by (cases L rule: rev_cases) auto
      have "length (drop li cs) = length L + length R" by (simp add: d(1))
      then have len: "length L + li = length cs" using Nil li(1) by simp
      have all: "\<forall>p \<in> set (cflats f n (take li cs @ L)). fst p < k" by (rule low [OF d(1)]) (use missing(3) d(2) in auto)
      show thesis
      proof (rule that [of "take li cs @ L'" c "[]" True])
        show "cs = (take li cs @ L') @ c # []" using split d Nil L by simp
        show "containing_child cs li k = (length (take li cs @ L'), True)"
          using missing(2) d(2) li(1) len L by (auto simp: containing_child_def)
      qed (use all L in auto)
    qed
  qed
qed

section \<open>The node store\<close>

text \<open>What every successful call of the indexer does to the writer, a batch of keys does.\<close>

locale writer_relation =
  fixes ctx :: "('v, 'i, 'r, 'c, 'w) modification_context" and R :: "'w \<Rightarrow> 'w \<Rightarrow> bool"
  assumes R_refl: "R w w" and R_trans: "R w1 w2 \<Longrightarrow> R w2 w3 \<Longrightarrow> R w1 w3"
    and indexer_step: "indexer ctx k v i c w = (Ok r, c', w') \<Longrightarrow> R w w'"
begin

lemma matched_step: "matched_operation ctx k i op c w = (Ok d, op', c', w') \<Longrightarrow> R w w'"
  by (cases op)
    (auto split: prod.splits res.splits key_operation.splits if_splits dest: indexer_step intro: R_refl)

lemma unmatched_step: "unmatched_operation ctx k op c w = (Ok d, op', c', w') \<Longrightarrow> R w w'"
  by (cases op)
    (auto split: prod.splits res.splits key_operation.splits if_splits dest: indexer_step intro: R_refl)

lemma apply_key_step: "apply_key ctx k (xs, op, c, w) = (Ok u, xs', op', c', w') \<Longrightarrow> R w w'"
  by (auto simp: apply_key.simps key_decision_def dest: matched_step unmatched_step
      split: prod.splits res.splits option.splits)

lemma apply_keys_step: "apply_keys ctx ks (xs, op, c, w) = (Ok u, xs', op', c', w') \<Longrightarrow> R w w'"
proof (induction ks arbitrary: xs op c w)
  case (Cons k ks)
  obtain r1 xs1 op1 c1 w1 where 1: "apply_key ctx k (xs, op, c, w) = (r1, xs1, op1, c1, w1)"
    by (metis prod_cases5)
  with Cons.prems obtain v where "r1 = Ok v"
    and rest: "apply_keys ctx ks (xs1, op1, c1, w1) = (Ok u, xs', op', c', w')"
    by (cases r1) auto
  with 1 have "R w w1" by (intro apply_key_step) simp
  then show ?case using Cons.IH [OF rest] by (rule R_trans)
qed (auto intro: R_refl)

end

text \<open>
  What the B-Tree relies on of the file it writes to: a call of the indexer that succeeds (it may
  append chunks) keeps every node readable that was readable before.
\<close>

locale node_store =
  fixes ctx :: "('v, 'i, 'r, 'c, 'w) modification_context"
    and rd :: "('i, 'r, 'w) node_reader"
  assumes indexer_extends: "indexer ctx k v i c w = (Ok r, c', w') \<Longrightarrow> extends (rd w) (rd w')"

sublocale node_store \<subseteq> steps: writer_relation ctx "\<lambda>w w'. extends (rd w) (rd w')"
  by unfold_locales (auto intro: extends_trans dest: indexer_extends)

section \<open>Modification of a node\<close>

text \<open>The relation between a call of \<^verbatim>\<open>modify\<close> on a node of height \<open>n\<close> and its outcome.\<close>

definition modify_post ::
    "('v, 'i, 'r, 'c, 'w) modification_context \<Rightarrow> ('i, 'r, 'w) node_reader \<Rightarrow> nat \<Rightarrow> bytes option \<Rightarrow>
     ('i, 'r) entry \<Rightarrow> ('v, 'i, 's) modification \<Rightarrow> 'c \<Rightarrow> 'w \<Rightarrow> bytes list \<Rightarrow> bytes list \<Rightarrow>
     change_result \<Rightarrow> ('i, 'r) entry \<Rightarrow> ('v, 'i, 's) operation \<Rightarrow> 'c \<Rightarrow> 'w \<Rightarrow> bool" where
  "modify_post ctx rd n max_k e m c w ks1 ks2 r e' op' c' w' \<longleftrightarrow>
     ks1 \<noteq> [] \<and> (\<forall>k \<in> set ks1. \<not> exceeds max_k k) \<and>
     apply_keys ctx ks1 (nflat (rd w) n (node e), operation m, c, w) =
       (Ok (), nflat (rd w') n (node e'), op', c', w') \<and>
     nwf (rd w') (ctx_reducer ctx) n (node e') \<and>
     (r = Unchanged \<longrightarrow> nflat (rd w') n (node e') = nflat (rd w) n (node e) \<and> dirty e' = dirty e \<and>
        stats (ctx_reducer ctx) e' = stats (ctx_reducer ctx) e) \<and>
     (r \<noteq> Unchanged \<longrightarrow> dirty e' \<and> r = clean_node ctx (node e')) \<and>
     (r = Split \<or> done_with max_k ks2 (nflat (rd w') n (node e')))"

lemma modify_leaf_node_ok:
  assumes e: "node e = Leaf children" and sorted: "ksorted (map key_pair children)"
    and ks: "keys m = rev ks" "sorted_wrt (<) ks" "ks \<noteq> []" "\<not> exceeds max_k (hd ks)"
    and spec: "spec_ok ctx max_k ks (map key_pair children, operation m, c, w)"
  shows "\<exists>r e' ks1 ks2 op' c' w'.
    modify (Suc fuel) ctx rd max_k e m c w = (Ok r, e', m\<lparr>keys := rev ks2, operation := op'\<rparr>, c', w') \<and>
    ks = ks1 @ ks2 \<and> modify_post ctx rd 0 max_k e m c w ks1 ks2 r e' op' c' w'"
proof -
  let ?ml = "max (length children) (current_order ctx)"
  have "\<forall>k \<in> set ks. \<forall>x \<in> set (take 0 children). ke_key x < k" by simp
  from modify_leaf_loop_ok [OF sorted ks(1,2) le0 this spec, of ?ml False]
  obtain any' children' ks1 ks2 op' c' w' where
    run: "modify_leaf_loop ctx ?ml max_k 0 False children m c w =
      (Ok any', children', m\<lparr>keys := rev ks2, operation := op'\<rparr>, c', w')"
    and ks12: "ks = ks1 @ ks2" "\<forall>k \<in> set ks1. \<not> exceeds max_k k"
      "ks \<noteq> [] \<and> \<not> exceeds max_k (hd ks) \<and> length children \<le> ?ml \<longrightarrow> ks1 \<noteq> []"
    and ap: "apply_keys ctx ks1 (map key_pair children, operation m, c, w) =
      (Ok (), map key_pair children', op', c', w')"
    and any: "\<not> any' \<longrightarrow> \<not> False \<and> children' = children"
    and fin: "ks2 = [] \<or> exceeds max_k (hd ks2) \<or> ?ml < length children'"
    by blast
  let ?e' = "BTreeEntry (if any' then True else dirty e) (Leaf children')"
  let ?r = "if any' then clean_node ctx (Leaf children') else Unchanged"
  have "modify (Suc fuel) ctx rd max_k e m c w =
    (Ok ?r, ?e', m\<lparr>keys := rev ks2, operation := op'\<rparr>, c', w')"
    using e run by (simp add: modify_leaf_def clean_up_eq_clean_node)
  moreover have "?r = Split \<or> done_with max_k ks2 (nflat (rd w') 0 (Leaf children'))"
    using fin any by (auto simp: done_with_def clean_node_def)
  moreover have "\<not> any' \<Longrightarrow> stats (ctx_reducer ctx) ?e' = stats (ctx_reducer ctx) e"
    using any e by (intro stats_dirty) simp
  moreover have "clean_node ctx (Leaf children') \<noteq> Unchanged" by (simp add: clean_node_def)
  ultimately have "modify_post ctx rd 0 max_k e m c w ks1 ks2 ?r ?e' op' c' w'"
    using ks12 ks(3,4) ap any e by (auto simp: modify_post_def)
  with \<open>modify _ _ _ _ _ _ _ _ = _\<close> ks12(1) show ?thesis by blast
qed

end
