(* ===== verification/BTree_Refine.thy ===== *)
theory BTree_Refine
  imports BTree_Modify
begin

text \<open>
  The refinement proof for interior nodes and for whole trees, by induction on the height. A
  batch of several keys is covered for a minimum of at most three children per node; with a larger
  minimum an absorption can cascade over more than two nodes, after which the loop goes on from a
  position past the node its next key belongs to (see theory \<open>Spec2Isabelle\<close>).
\<close>

section \<open>One child\<close>

lemma child_ok_unchanged:
  assumes ext: "extends f g" and disk: "dirty e \<or> on_disk f red n prev e"
    and st: "stats red e = Ok st" and key: "k = fst (last (nflat f n (node e)))"
    and ne: "nflat f n (node e) \<noteq> []"
    and e': "nwf g red n (node e')" "nflat g n (node e') = nflat f n (node e)"
      "dirty e' = dirty e" "stats red e' = stats red e"
  shows "child_ok g red n (InteriorEntry k (Loaded prev e') st)"
proof -
  have "on_disk g red n prev e'" if d: "on_disk f red n prev e"
  proof -
    from d obtain p x where "prev = Some p" "f p = Ok x" "nwf f red n (node x)"
      "nflat f n (node x) = nflat f n (node e)" "stats red x = stats red e"
      by (auto simp: on_disk_def split: option.splits res.splits)
    with ext e' nwf_extends [OF ext] nflat_extends [OF ext] show ?thesis
      by (auto simp: on_disk_def extends_def)
  qed
  with assms show ?thesis by (auto simp: child_ok_def)
qed

definition modify_pre ::
    "('v, 'i, 'r, 'c, 'w) modification_context \<Rightarrow> ('i, 'r, 'w) node_reader \<Rightarrow> nat \<Rightarrow> bytes option \<Rightarrow>
     ('i, 'r) entry \<Rightarrow> ('v, 'i, 's) modification \<Rightarrow> 'c \<Rightarrow> 'w \<Rightarrow> bytes list \<Rightarrow> bool" where
  "modify_pre ctx rd n max_k e m c w ks \<longleftrightarrow>
     nwf (rd w) (ctx_reducer ctx) n (node e) \<and> ksorted (nflat (rd w) n (node e)) \<and>
     (n = 0 \<or> nflat (rd w) n (node e) \<noteq> []) \<and>
     keys m = rev ks \<and> sorted_wrt (<) ks \<and> ks \<noteq> [] \<and> \<not> exceeds max_k (hd ks) \<and>
     spec_ok ctx max_k ks (nflat (rd w) n (node e), operation m, c, w) \<and>
     (length ks \<le> 1 \<or> minimum_children ctx \<le> 3)"

text \<open>The part of the batch a child may take lies between its neighbours.\<close>

lemma child_max_facts:
  assumes pe: "if pushing then B = [] \<and> (\<forall>p \<in> set (cflat f n cc). fst p < k) else k \<le> i_key cc"
    and ok: "child_ok f red n cc" and sorted: "ksorted (cflats f n (A @ cc # B))"
    and low: "\<forall>p \<in> set (cflats f n A). fst p < k"
    and ks: "sorted_wrt (<) (k # kt)" and max: "\<not> exceeds max_k k"
    and mk: "mk = max_key_for_modification pushing k max_k (i_key cc)"
  shows "\<not> exceeds (Some mk) k"
    and "k' \<in> set (k # kt) \<Longrightarrow> \<not> exceeds (Some mk) k' \<Longrightarrow>
      \<not> exceeds max_k k' \<and> (\<forall>p \<in> set (cflats f n A). fst p < k') \<and> (\<forall>p \<in> set (cflats f n B). k' < fst p)"
    and "exceeds (Some mk) k' \<Longrightarrow> exceeds max_k k' \<or> (\<forall>p \<in> set (cflat f n cc). fst p < k')"
proof -
  have ccmax: "fst p \<le> i_key cc" if "p \<in> set (cflat f n cc)" for p
    using child_key_max [OF ok ksorted_cflat [OF sorted] that] .
  have post: "i_key cc < fst p" if "p \<in> set (cflats f n B)" for p
  proof -
    obtain q where q: "q \<in> set (cflat f n cc)" "i_key cc = fst q" using child_key_in [OF ok] by auto
    from sorted have "ksorted (cflat f n cc @ cflats f n B)" by (simp add: sorted_wrt_append)
    with q that show ?thesis by (auto simp: ksorted_append simp del: map_append map_concat)
  qed
  have kmin: "k \<le> k'" if "k' \<in> set (k # kt)" for k' using ks that by auto
  show "\<not> exceeds (Some mk) k"
    using pe max mk by (auto simp: exceeds_def max_key_for_modification_def min_less_iff_disj not_less
        split: option.splits if_splits)
  show "\<not> exceeds max_k k' \<and> (\<forall>p \<in> set (cflats f n A). fst p < k') \<and> (\<forall>p \<in> set (cflats f n B). k' < fst p)"
    if k': "k' \<in> set (k # kt)" "\<not> exceeds (Some mk) k'"
  proof -
    have pre: "\<forall>p \<in> set (cflats f n A). fst p < k'" using low kmin [OF k'(1)] by (auto intro: less_le_trans)
    show ?thesis
    proof (cases pushing)
      case True
      with k' kmin mk have "k' = k"
        by (fastforce simp: exceeds_def max_key_for_modification_def)
      with True pe pre max show ?thesis by simp
    next
      case False
      with k' mk have le: "k' \<le> i_key cc" and nex: "\<not> exceeds max_k k'"
        by (auto simp: exceeds_def max_key_for_modification_def min_less_iff_disj not_less
            split: option.splits)
      have "k' < fst p" if "p \<in> set (cflats f n B)" for p
        using le_less_trans [OF le post [OF that]] .
      with pre nex show ?thesis by blast
    qed
  qed
  show "exceeds max_k k' \<or> (\<forall>p \<in> set (cflat f n cc). fst p < k')" if "exceeds (Some mk) k'"
    using that mk pe ccmax
    by (auto simp: exceeds_def max_key_for_modification_def min_def split: option.splits if_splits
        intro: less_trans le_less_trans)
qed

text \<open>
  What \<^verbatim>\<open>modify_interior\<close> does with the result of the child at \<open>length A\<close>: the next position and
  the children it goes on with.
\<close>

lemma process_child_result:
  fixes ctx :: "('v, 'i, 'r, 'c, 'w) modification_context"
  assumes red: "red = ctx_reducer ctx" and mc: "1 \<le> minimum_children ctx" "1 \<le> current_order ctx"
    and A: "\<forall>c \<in> set A. child_ok (rd w) red n c" and B: "\<forall>c \<in> set B. child_ok (rd w) red n c"
    and nd: "nwf (rd w) red n (node e)"
    and unch: "r = Unchanged \<longrightarrow> child_ok (rd w) red n (InteriorEntry k (Loaded prev e) st)"
    and chg: "r \<noteq> Unchanged \<longrightarrow> dirty e \<and> r = clean_node ctx (node e)"
    and low: "ks2 = [] \<or> (\<forall>p \<in> set (cflats (rd w) n A). fst p < hd ks2)"
    and dn: "r = Split \<or> ks2 = [] \<or> exceeds max_k (hd ks2) \<or>
      (\<forall>p \<in> set (nflat (rd w) n (node e)). fst p < hd ks2)"
    and batch: "ks2 = [] \<or> minimum_children ctx \<le> 3"
  obtains b cs' where
    "process_interior_change_result (Suc fuel) ctx rd w r (length A)
       (A @ InteriorEntry k (Loaded prev e) st # B) =
       (Ok (if r = Unchanged then Unchanged else Changed, b), cs')"
    "\<forall>c \<in> set cs'. child_ok (rd w) red n c"
    "cflats (rd w) n cs' = cflats (rd w) n A @ nflat (rd w) n (node e) @ cflats (rd w) n B"
    "done_with max_k ks2 (cflats (rd w) n (take (backed b (length A)) cs'))"
    "r = Unchanged \<longrightarrow> cs' = A @ InteriorEntry k (Loaded prev e) st # B"
proof (cases "r = Unchanged")
  case True
  with unch A B low show thesis
    by (intro that [of False "A @ InteriorEntry k (Loaded prev e) st # B"])
      (auto simp: process_interior_change_result.simps [of "Suc fuel"] backed_def done_with_def)
next
  case changed: False
  with chg obtain nd' where e: "e = BTreeEntry True nd'" and r: "r = clean_node ctx nd'"
    by (cases e) auto
  have low_take: "done_with max_k ks2 (cflats (rd w) n (take i A))" for i
    using low by (auto simp: done_with_def dest: in_set_takeD)
  show thesis
  proof (cases "nflat (rd w) n nd' = []")
    case True
    with nd e have "node_len nd' = 0" by (simp add: nflat_Nil_iff)
    with mc r have "r = Remove" by (simp add: clean_node_def)
    with A B low_take True e show thesis
      by (intro that [of True "A @ B"])
        (auto simp: process_interior_change_result.simps [of "Suc fuel"] remove_nth_def backed_def)
  next
    case False
    obtain b cs' where cs':
      "process_interior_change_result (Suc fuel) ctx rd w (clean_node ctx nd') (length A)
        (A @ loaded k prev nd' st # B) = (Ok (Changed, b), cs')"
      "\<forall>c \<in> set cs'. child_ok (rd w) red n c"
      "cflats (rd w) n cs' = cflats (rd w) n A @ nflat (rd w) n nd' @ cflats (rd w) n B"
      "clean_node ctx nd' \<noteq> Absorb \<longrightarrow>
         cflats (rd w) n (take (backed b (length A)) cs') = cflats (rd w) n (take (backed b (length A)) A)"
      "clean_node ctx nd' = Absorb \<longrightarrow> b"
      "minimum_children ctx \<le> 3 \<longrightarrow> set (cflats (rd w) n (take (length A - 1) cs')) \<subseteq>
         set (cflats (rd w) n A) \<union> set (nflat (rd w) n nd')"
      using process_change_ok [where rd = rd and w = w and red = red and n = n and fuel = fuel and k = k
          and prev = prev and st = st, OF refl red mc A B nd [unfolded e entry.sel] False] by blast
    have "done_with max_k ks2 (cflats (rd w) n (take (backed b (length A)) cs'))"
    proof (cases "clean_node ctx nd' = Absorb")
      case True
      with cs'(5) have bk: "backed b (length A) = length A - 1" by (simp add: backed_def)
      show ?thesis
      proof (cases "ks2 = [] \<or> exceeds max_k (hd ks2)")
        case rest: False
        with dn r True e have "\<forall>p \<in> set (nflat (rd w) n nd'). fst p < hd ks2" by simp
        with rest low batch cs'(6) show ?thesis unfolding done_with_def bk by blast
      qed (auto simp: done_with_def)
    next
      case False
      with cs'(4) low_take show ?thesis by simp
    qed
    with cs'(1-3) changed r e show thesis by (intro that [of b cs']) simp_all
  qed
qed

lemma takeWhile_prefix:
  "\<forall>x \<in> set xs. P x \<longrightarrow> Q x \<Longrightarrow> \<exists>ys. takeWhile Q xs = takeWhile P xs @ ys"
  by (induction xs) auto

lemma spec_ok_child:
  assumes "spec_ok ctx max_k ks (pre @ xs @ post, op, c, w)"
    and "\<forall>k \<in> set ks. \<not> exceeds mk k \<longrightarrow>
      \<not> exceeds max_k k \<and> (\<forall>p \<in> set pre. fst p < k) \<and> (\<forall>p \<in> set post. k < fst p)"
  shows "spec_ok ctx mk ks (xs, op, c, w)"
proof -
  let ?t = "takeWhile (\<lambda>k. \<not> exceeds mk k) ks"
  obtain ys where "takeWhile (\<lambda>k. \<not> exceeds max_k k) ks = ?t @ ys"
    using assms(2) takeWhile_prefix [of ks "\<lambda>k. \<not> exceeds mk k" "\<lambda>k. \<not> exceeds max_k k"] by blast
  with assms(1) have "is_ok (fst (apply_keys ctx ?t (pre @ xs @ post, op, c, w)))"
    by (simp add: spec_ok_def apply_keys_prefix_ok)
  moreover have "\<forall>k \<in> set ?t. (\<forall>p \<in> set pre. fst p < k) \<and> (\<forall>p \<in> set post. k < fst p)"
    using assms(2) by (metis set_takeWhileD)
  ultimately show ?thesis by (simp add: spec_ok_def apply_keys_frame split: prod.splits)
qed

context node_store
begin

lemma interior_round:
  fixes m :: "('v, 'i, 's) modification"
  assumes red: "red = ctx_reducer ctx" and mc: "1 \<le> minimum_children ctx" "1 \<le> current_order ctx"
    and ok: "\<forall>c \<in> set cs. child_ok (rd w) red n c" and sorted: "ksorted (cflats (rd w) n cs)"
    and keys: "keys m = rev ks" "sorted_wrt (<) ks" "ks = k # kt" "\<not> exceeds max_k k"
    and spec: "spec_ok ctx max_k ks (cflats (rd w) n cs, operation m, c, w)"
    and li: "li < length cs" "\<forall>p \<in> set (cflats (rd w) n (take li cs)). fst p < k"
    and batch: "length ks \<le> 1 \<or> minimum_children ctx \<le> 3"
    and child: "\<And>max_k e. modify_pre ctx rd n max_k e m c w ks \<Longrightarrow>
      \<exists>r e' ks1 ks2 op' c' w'.
        modify (Suc fuel) ctx rd max_k e m c w =
          (Ok r, e', m\<lparr>keys := rev ks2, operation := op'\<rparr>, c', w') \<and>
        ks = ks1 @ ks2 \<and> modify_post ctx rd n max_k e m c w ks1 ks2 r e' op' c' w'"
  obtains any' cs' li' ks1 ks2 op' c' w' where
    "modify_interior (Suc (Suc fuel)) ctx rd max_k li any cs m c w =
       modify_interior (Suc fuel) ctx rd max_k li' any' cs' (m\<lparr>keys := rev ks2, operation := op'\<rparr>) c' w'"
    "ks = ks1 @ ks2" "ks1 \<noteq> []" "\<forall>k \<in> set ks1. \<not> exceeds max_k k"
    "apply_keys ctx ks1 (cflats (rd w) n cs, operation m, c, w) = (Ok (), cflats (rd w') n cs', op', c', w')"
    "\<forall>c \<in> set cs'. child_ok (rd w') red n c"
    "\<not> any' \<longrightarrow> \<not> any \<and> cflats (rd w') n cs' = cflats (rd w) n cs \<and> map i_stats cs' = map i_stats cs"
    "done_with max_k ks2 (cflats (rd w') n (take li' cs'))"
proof -
  from ok sorted li obtain A cc B pushing where cs: "cs = A @ cc # B"
    and cont: "containing_child cs li k = (length A, pushing)"
    and low: "\<forall>p \<in> set (cflats (rd w) n A). fst p < k"
    and pe: "if pushing then B = [] \<and> (\<forall>p \<in> set (cflat (rd w) n cc). fst p < k) else k \<le> i_key cc"
    by (rule containing_child_ok)
  from ok cs have ccok: "child_ok (rd w) red n cc" by simp
  then obtain prev e where load: "\<forall>A B. load_child rd w (length A) (A @ cc # B) =
      (Ok (), A @ InteriorEntry (i_key cc) (Loaded prev e) (i_stats cc) # B)"
    and e: "nwf (rd w) red n (node e)" "nflat (rd w) n (node e) = cflat (rd w) n cc"
      "cflat (rd w) n cc \<noteq> []" "stats red e = Ok (i_stats cc)" "dirty e \<or> on_disk (rd w) red n prev e"
    by (rule load_child_at)
  define mk where "mk = max_key_for_modification pushing k max_k (i_key cc)"
  note facts = child_max_facts [OF pe ccok sorted [unfolded cs] low keys(2) [unfolded keys(3)] keys(4) mk_def]
  have within: "\<forall>k' \<in> set ks. \<not> exceeds (Some mk) k' \<longrightarrow> \<not> exceeds max_k k' \<and>
      (\<forall>p \<in> set (cflats (rd w) n A). fst p < k') \<and> (\<forall>p \<in> set (cflats (rd w) n B). k' < fst p)"
    using facts(2) keys(3) by blast
  have "spec_ok ctx max_k ks (cflats (rd w) n A @ nflat (rd w) n (node e) @ cflats (rd w) n B, operation m, c, w)"
    using spec e(2) cs by simp
  then have "spec_ok ctx (Some mk) ks (nflat (rd w) n (node e), operation m, c, w)"
    using within by (rule spec_ok_child)
  moreover have "ksorted (nflat (rd w) n (node e))"
    using ksorted_cflat [of "rd w" n A cc B] sorted cs e(2) by simp
  ultimately have "modify_pre ctx rd n (Some mk) e m c w ks"
    using e keys facts(1) red batch by (simp add: modify_pre_def)
  from child [OF this] obtain r e' ks1 ks2 op' c' w' where
    run: "modify (Suc fuel) ctx rd (Some mk) e m c w =
      (Ok r, e', m\<lparr>keys := rev ks2, operation := op'\<rparr>, c', w')"
    and ks12: "ks = ks1 @ ks2" and post: "modify_post ctx rd n (Some mk) e m c w ks1 ks2 r e' op' c' w'"
    by blast
  note post = post [unfolded modify_post_def, folded red]
  have ap: "apply_keys ctx ks1 (cflat (rd w) n cc, operation m, c, w) =
      (Ok (), nflat (rd w') n (node e'), op', c', w')" using post e(2) by simp
  have k1: "\<forall>k' \<in> set ks1. \<not> exceeds max_k k' \<and>
      (\<forall>p \<in> set (cflats (rd w) n A). fst p < k') \<and> (\<forall>p \<in> set (cflats (rd w) n B). k' < fst p)"
    using within post ks12 by auto
  have ap_all: "apply_keys ctx ks1 (cflats (rd w) n cs, operation m, c, w) =
      (Ok (), cflats (rd w) n A @ nflat (rd w') n (node e') @ cflats (rd w) n B, op', c', w')"
    using apply_keys_frame [of ks1 "cflats (rd w) n A" "cflats (rd w) n B" ctx "cflat (rd w) n cc"
        "operation m" c w] k1 ap cs by simp
  have ext: "extends (rd w) (rd w')" using steps.apply_keys_step [OF ap] .
  from ok cs have okA: "\<forall>c \<in> set A. child_ok (rd w) red n c" and okB: "\<forall>c \<in> set B. child_ok (rd w) red n c"
    by auto
  note A' = children_ok_extends [OF ext okA] and B' = children_ok_extends [OF ext okB]
  have unch: "r = Unchanged \<longrightarrow> child_ok (rd w') red n (InteriorEntry (i_key cc) (Loaded prev e') (i_stats cc))"
    using child_ok_unchanged [OF ext e(5,4)] child_ok_cflat [OF ccok] post e(2,3) by simp
  have chg: "r \<noteq> Unchanged \<longrightarrow> dirty e' \<and> r = clean_node ctx (node e')" using post by simp
  have hd2: "k' < hd ks2" if "ks2 \<noteq> []" "k' \<in> set ks1" for k'
    using keys(2) that ks12 by (cases ks2) (auto simp: sorted_wrt_append)
  have k_in: "k \<in> set ks1" using post ks12 keys(3) by (cases ks1) auto
  have low': "ks2 = [] \<or> (\<forall>p \<in> set (cflats (rd w') n A). fst p < hd ks2)"
    using low hd2 [OF _ k_in] A'(2) by (metis less_trans)
  have dn: "r = Split \<or> ks2 = [] \<or> exceeds max_k (hd ks2) \<or>
      (\<forall>p \<in> set (nflat (rd w') n (node e')). fst p < hd ks2)"
  proof (cases "ks2 \<noteq> [] \<and> exceeds (Some mk) (hd ks2)")
    case True
    have "fst ` set (nflat (rd w') n (node e')) \<subseteq> set ks1 \<union> fst ` set (cflat (rd w) n cc)"
      using apply_keys_keys [OF ap] ksorted_cflat [of "rd w" n A cc B] sorted cs by simp
    with True facts(3) [of "hd ks2"] hd2 show ?thesis by fastforce
  qed (use post in \<open>auto simp: done_with_def\<close>)
  have batch': "ks2 = [] \<or> minimum_children ctx \<le> 3"
    using batch post ks12 by (cases ks1; cases ks2) auto
  obtain b cs' where pr:
    "process_interior_change_result (Suc fuel) ctx rd w' r (length A)
       (A @ InteriorEntry (i_key cc) (Loaded prev e') (i_stats cc) # B) =
       (Ok (if r = Unchanged then Unchanged else Changed, b), cs')"
    and pr': "\<forall>c \<in> set cs'. child_ok (rd w') red n c"
    "cflats (rd w') n cs' = cflats (rd w') n A @ nflat (rd w') n (node e') @ cflats (rd w') n B"
    "done_with max_k ks2 (cflats (rd w') n (take (backed b (length A)) cs'))"
    "r = Unchanged \<longrightarrow> cs' = A @ InteriorEntry (i_key cc) (Loaded prev e') (i_stats cc) # B"
    by (rule process_child_result [where rd = rd and w = w', OF red mc A'(1) B'(1) _ unch chg low' dn batch']) (use post in blast)
  have "modify_interior (Suc (Suc fuel)) ctx rd max_k li any cs m c w =
      modify_interior (Suc fuel) ctx rd max_k (backed b (length A)) (any \<or> r \<noteq> Unchanged) cs'
        (m\<lparr>keys := rev ks2, operation := op'\<rparr>) c' w'"
    using keys li cont cs load run pr
    by (simp add: modify_interior.simps(2) [of "Suc fuel"] bindS_Ok mk_def [symmetric] backed_def
        del: modify.simps modify_interior.simps)
  then show thesis
    by (rule that [OF _ ks12]) (use post k1 ap_all pr' A' B' cs e(2) in auto)
qed

lemma modify_interior_ok:
  fixes m :: "('v, 'i, 's) modification"
  assumes red: "red = ctx_reducer ctx" and mc: "1 \<le> minimum_children ctx" "1 \<le> current_order ctx"
    and child: "\<And>fuel max_k e m c w (ks :: bytes list). modify_pre ctx rd n max_k e (m :: ('v, 'i, 's) modification) c w ks \<Longrightarrow>
      length ks \<le> K \<Longrightarrow> n * (K + 2) + 1 \<le> fuel \<Longrightarrow>
      \<exists>r e' ks1 ks2 op' c' w'.
        modify fuel ctx rd max_k e m c w = (Ok r, e', m\<lparr>keys := rev ks2, operation := op'\<rparr>, c', w') \<and>
        ks = ks1 @ ks2 \<and> modify_post ctx rd n max_k e m c w ks1 ks2 r e' op' c' w'"
  assumes "\<forall>c \<in> set cs. child_ok (rd w) red n c" and "ksorted (cflats (rd w) n cs)"
    and "keys m = rev ks" and "sorted_wrt (<) ks"
    and "spec_ok ctx max_k ks (cflats (rd w) n cs, operation m, c, w)"
    and "done_with max_k ks (cflats (rd w) n (take li cs))"
    and "length ks \<le> 1 \<or> minimum_children ctx \<le> 3"
    and "length ks \<le> K" and "n * (K + 2) + 2 + length ks \<le> fuel"
  shows "\<exists>any' cs' ks1 ks2 op' c' w'.
    modify_interior fuel ctx rd max_k li any cs m c w =
      (Ok (if any' then Changed else Unchanged), cs', m\<lparr>keys := rev ks2, operation := op'\<rparr>, c', w') \<and>
    ks = ks1 @ ks2 \<and> (\<forall>k \<in> set ks1. \<not> exceeds max_k k) \<and>
    (ks \<noteq> [] \<and> \<not> exceeds max_k (hd ks) \<and> li < length cs \<longrightarrow> ks1 \<noteq> []) \<and>
    apply_keys ctx ks1 (cflats (rd w) n cs, operation m, c, w) = (Ok (), cflats (rd w') n cs', op', c', w') \<and>
    (\<forall>c \<in> set cs'. child_ok (rd w') red n c) \<and>
    (\<not> any' \<longrightarrow> \<not> any \<and> cflats (rd w') n cs' = cflats (rd w) n cs \<and> map i_stats cs' = map i_stats cs) \<and>
    done_with max_k ks2 (cflats (rd w') n cs')"
  using assms(5-)
proof (induction "length ks" arbitrary: fuel li any cs m c w ks rule: less_induct)
  case less
  note prems = less.prems
  define fuel' where "fuel' = fuel - 2"
  have fuel: "fuel = Suc (Suc fuel')" using prems(9) by (simp add: fuel'_def)
  show ?case
  proof (cases "ks = [] \<or> li \<ge> length cs \<or> exceeds max_k (hd ks)")
    case True
    then have "modify_interior fuel ctx rd max_k li any cs m c w =
        (Ok (if any then Changed else Unchanged), cs, m, c, w)"
      using prems(3) fuel by (auto simp: last_rev)
    moreover have "m\<lparr>keys := rev ks, operation := operation m\<rparr> = m" using prems(3) by simp
    moreover have "done_with max_k ks (cflats (rd w) n cs)" using True prems(6) by (auto simp: done_with_def)
    ultimately show ?thesis using True prems(1)
      by (intro exI [of _ any] exI [of _ cs] exI [of _ "[]"] exI [of _ ks] exI [of _ "operation m"]
          exI [of _ c] exI [of _ w]) auto
  next
    case False
    then obtain k kt where ks: "ks = k # kt" and max: "\<not> exceeds max_k k" and li: "li < length cs"
      by (cases ks) auto
    have low: "\<forall>p \<in> set (cflats (rd w) n (take li cs)). fst p < k"
      using prems(6) ks max by (simp add: done_with_def)
    have fl: "n * (K + 2) + 1 \<le> Suc fuel'" using prems(9) fuel by simp
    obtain any1 cs1 li1 ks1 ks2 op1 c1 w1 where round:
      "modify_interior (Suc (Suc fuel')) ctx rd max_k li any cs m c w =
         modify_interior (Suc fuel') ctx rd max_k li1 any1 cs1 (m\<lparr>keys := rev ks2, operation := op1\<rparr>) c1 w1"
      "ks = ks1 @ ks2" "ks1 \<noteq> []" "\<forall>k \<in> set ks1. \<not> exceeds max_k k"
      "apply_keys ctx ks1 (cflats (rd w) n cs, operation m, c, w) = (Ok (), cflats (rd w1) n cs1, op1, c1, w1)"
      "\<forall>c \<in> set cs1. child_ok (rd w1) red n c"
      "\<not> any1 \<longrightarrow> \<not> any \<and> cflats (rd w1) n cs1 = cflats (rd w) n cs \<and> map i_stats cs1 = map i_stats cs"
      "done_with max_k ks2 (cflats (rd w1) n (take li1 cs1))"
      by (rule interior_round [OF red mc prems(1-4) ks max prems(5) li low prems(7)
            child [OF _ prems(8) fl]])
    let ?m = "m\<lparr>keys := rev ks2, operation := op1\<rparr>"
    have lt: "length ks2 < length ks" using round(2,3) by simp
    have sorted1: "ksorted (cflats (rd w1) n cs1)" using apply_keys_ksorted [OF round(5) prems(2)] .
    have spec1: "spec_ok ctx max_k ks2 (cflats (rd w1) n cs1, operation ?m, c1, w1)"
      using spec_ok_append [OF prems(5) [unfolded round(2)] round(4,5)] by simp
    have keys1: "keys ?m = rev ks2" "sorted_wrt (<) ks2"
      using prems(4) round(2) by (simp_all add: sorted_wrt_append)
    have batch1: "length ks2 \<le> 1 \<or> minimum_children ctx \<le> 3" "length ks2 \<le> K"
      "n * (K + 2) + 2 + length ks2 \<le> Suc fuel'"
      using prems(7,8,9) round(2,3) fuel by (auto simp: neq_Nil_conv)
    from less.hyps [OF lt round(6) sorted1 keys1 spec1 round(8) batch1, of any1]
    obtain any' cs' ks1' ks2' op' c' w' where IH:
      "modify_interior (Suc fuel') ctx rd max_k li1 any1 cs1 ?m c1 w1 =
        (Ok (if any' then Changed else Unchanged), cs', ?m\<lparr>keys := rev ks2', operation := op'\<rparr>, c', w')"
      "ks2 = ks1' @ ks2'" "\<forall>k \<in> set ks1'. \<not> exceeds max_k k"
      "apply_keys ctx ks1' (cflats (rd w1) n cs1, operation ?m, c1, w1) = (Ok (), cflats (rd w') n cs', op', c', w')"
      "\<forall>c \<in> set cs'. child_ok (rd w') red n c"
      "\<not> any' \<longrightarrow> \<not> any1 \<and> cflats (rd w') n cs' = cflats (rd w1) n cs1 \<and> map i_stats cs' = map i_stats cs1"
      "done_with max_k ks2' (cflats (rd w') n cs')"
      by blast
    have "apply_keys ctx (ks1 @ ks1') (cflats (rd w) n cs, operation m, c, w) =
        (Ok (), cflats (rd w') n cs', op', c', w')"
      using apply_keys_trans [OF round(5)] IH(4) by simp
    moreover have "modify_interior fuel ctx rd max_k li any cs m c w =
        (Ok (if any' then Changed else Unchanged), cs', m\<lparr>keys := rev ks2', operation := op'\<rparr>, c', w')"
      using IH(1) round(1) fuel by simp
    moreover have "\<not> any' \<longrightarrow> \<not> any \<and> cflats (rd w') n cs' = cflats (rd w) n cs \<and>
        map i_stats cs' = map i_stats cs" using IH(6) round(7) by auto
    ultimately show ?thesis using round(2,3,4) IH(2,3,5,7)
      by (intro exI [of _ any'] exI [of _ cs'] exI [of _ "ks1 @ ks1'"] exI [of _ ks2'] exI [of _ op']
          exI [of _ c'] exI [of _ w']) auto
  qed
qed

theorem modify_ok:
  fixes m :: "('v, 'i, 's) modification"
  assumes mc: "1 \<le> minimum_children ctx" "1 \<le> current_order ctx"
    and "modify_pre ctx rd n max_k e m c w ks"
    and "length ks \<le> K" and "n * (K + 2) + 1 \<le> fuel"
  shows "\<exists>r e' ks1 ks2 op' c' w'.
    modify fuel ctx rd max_k e m c w = (Ok r, e', m\<lparr>keys := rev ks2, operation := op'\<rparr>, c', w') \<and>
    ks = ks1 @ ks2 \<and> modify_post ctx rd n max_k e m c w ks1 ks2 r e' op' c' w'"
  using assms(3-)
proof (induction n arbitrary: fuel max_k e m c w ks)
  case 0
  then obtain children fuel' where "node e = Leaf children" "fuel = Suc fuel'"
    by (cases fuel) (auto simp: modify_pre_def elim: nwf_0E)
  with 0 modify_leaf_node_ok [of e children m ks max_k ctx c w fuel' rd] show ?case
    by (simp add: modify_pre_def)
next
  case (Suc n)
  let ?red = "ctx_reducer ctx"
  note pre = Suc.prems(1) [unfolded modify_pre_def]
  from pre obtain cs where cs: "node e = Interior cs" "\<forall>c \<in> set cs. child_ok (rd w) ?red n c"
    by (auto elim: nwf_SucE)
  define fuel' where "fuel' = fuel - 1"
  have fuel: "fuel = Suc fuel'" "n * (K + 2) + 2 + length ks \<le> fuel'"
    using Suc.prems(2,3) by (simp_all add: fuel'_def)
  have ne: "cs \<noteq> []" using pre cs(1) by (auto simp: nflat_Suc)
  from pre cs(1) have facts: "ksorted (cflats (rd w) n cs)" "keys m = rev ks" "sorted_wrt (<) ks"
    "spec_ok ctx max_k ks (cflats (rd w) n cs, operation m, c, w)"
    "done_with max_k ks (cflats (rd w) n (take 0 cs))" "length ks \<le> 1 \<or> minimum_children ctx \<le> 3"
    by (simp_all add: nflat_Suc done_with_def)
  from modify_interior_ok [OF refl mc Suc.IH cs(2) facts Suc.prems(2) fuel(2), of False]
  obtain any' cs' ks1 ks2 op' c' w' where
    run: "modify_interior fuel' ctx rd max_k 0 False cs m c w =
      (Ok (if any' then Changed else Unchanged), cs', m\<lparr>keys := rev ks2, operation := op'\<rparr>, c', w')"
    and res: "ks = ks1 @ ks2" "\<forall>k \<in> set ks1. \<not> exceeds max_k k"
      "ks \<noteq> [] \<and> \<not> exceeds max_k (hd ks) \<and> 0 < length cs \<longrightarrow> ks1 \<noteq> []"
      "apply_keys ctx ks1 (cflats (rd w) n cs, operation m, c, w) = (Ok (), cflats (rd w') n cs', op', c', w')"
      "\<forall>c \<in> set cs'. child_ok (rd w') ?red n c"
      "\<not> any' \<longrightarrow> \<not> False \<and> cflats (rd w') n cs' = cflats (rd w) n cs \<and> map i_stats cs' = map i_stats cs"
      "done_with max_k ks2 (cflats (rd w') n cs')"
    by blast
  let ?e' = "BTreeEntry (if any' then True else dirty e) (Interior cs')"
  let ?r = "if any' then clean_node ctx (Interior cs') else Unchanged"
  have "modify fuel ctx rd max_k e m c w = (Ok ?r, ?e', m\<lparr>keys := rev ks2, operation := op'\<rparr>, c', w')"
    using cs(1) run fuel(1) by (simp add: clean_up_eq_clean_node)
  moreover have "\<not> any' \<Longrightarrow> stats ?red ?e' = stats ?red e" using res(6) cs(1) by (cases e) simp
  moreover have "clean_node ctx (Interior cs') \<noteq> Unchanged" by (simp add: clean_node_def)
  ultimately have "modify_post ctx rd (Suc n) max_k e m c w ks1 ks2 ?r ?e' op' c' w'"
    using res pre ne cs(1) by (auto simp: modify_post_def nflat_Suc nwf_Suc)
  with \<open>modify _ _ _ _ _ _ _ _ = _\<close> res(1) show ?case by blast
qed

end

end
