(* ===== verification/BTree_Root.thy ===== *)
theory BTree_Root
  imports BTree_Refine
begin

text \<open>
  The loop over a whole batch at the root of a tree, as \<^verbatim>\<open>modify_id_root\<close> and
  \<^verbatim>\<open>modify_sequence_root\<close> of \<^verbatim>\<open>nebari/src/tree/unversioned.rs\<close> and \<^verbatim>\<open>versioned.rs\<close> run it, the
  order of a tree, and the refinement of the loop to the specification. The id roots replace an
  emptied root by an empty leaf; the sequence root does not (\<open>reset\<close>).
\<close>

section \<open>Order of a tree\<close>

definition default_max_order :: nat where
  "default_max_order = 1000"

text \<open>
  \<open>cbrt\<close> stands for \<^verbatim>\<open>f64::cbrt\<close> truncated to an integer; nothing is assumed of it.
\<close>

definition dynamic_order :: "(nat \<Rightarrow> nat) \<Rightarrow> nat \<Rightarrow> nat option \<Rightarrow> nat" where
  "dynamic_order cbrt number_of_records max_order =
     (let max_order = (case max_order of None \<Rightarrow> default_max_order | Some n \<Rightarrow> n) in
      if number_of_records > max_order ^ 3 then max_order
      else min max_order (max 4 (cbrt number_of_records)))"

text \<open>\<^verbatim>\<open>(order / 2 - 1).min(records)\<close>; the subtraction wraps.\<close>

definition minimum_children_for :: "nat \<Rightarrow> nat \<Rightarrow> nat" where
  "minimum_children_for order records =
     min (if order div 2 = 0 then 2 ^ 64 - 1 else order div 2 - 1) records"

lemma dynamic_order_bounds:
  assumes "case max_order of None \<Rightarrow> True | Some n \<Rightarrow> 4 \<le> n"
  shows "4 \<le> dynamic_order cbrt records max_order"
    and "dynamic_order cbrt records max_order \<le> (case max_order of None \<Rightarrow> default_max_order | Some n \<Rightarrow> n)"
  using assms by (auto simp: dynamic_order_def default_max_order_def Let_def split: option.splits)

lemma minimum_children_for_bounds:
  assumes "4 \<le> order" and "0 < records"
  shows "1 \<le> minimum_children_for order records" and "minimum_children_for order records < order"
  using assms by (auto simp: minimum_children_for_def min_def)

lemma minimum_children_small: "4 \<le> order \<Longrightarrow> order \<le> 9 \<Longrightarrow> minimum_children_for order records \<le> 3"
  by (auto simp: minimum_children_for_def min_def)

section \<open>The root loop\<close>

fun modify_root ::
    "nat \<Rightarrow> nat \<Rightarrow> bool \<Rightarrow> ('v, 'i, 'r, 'c, 'w) modification_context \<Rightarrow> ('i, 'r, 'w) node_reader \<Rightarrow>
     ('i, 'r) entry \<Rightarrow> ('v, 'i, 's) modification \<Rightarrow> 'c \<Rightarrow> 'w \<Rightarrow>
     unit res \<times> ('i, 'r) entry \<times> ('v, 'i, 's) modification \<times> 'c \<times> 'w" where
  "modify_root 0 fuel reset ctx rd root m c w =
     (if keys m = [] then (Ok (), root, m, c, w) else (OutOfFuel, root, m, c, w))"
| "modify_root (Suc rounds) fuel reset ctx rd root m c w =
     (if keys m = [] then (Ok (), root, m, c, w)
      else case modify fuel ctx rd None root m c w of
        (Ok Split, root', m', c', w') \<Rightarrow>
          (case split_root (ctx_reducer ctx) root' of
             Ok root'' \<Rightarrow> modify_root rounds fuel reset ctx rd root'' m' c' w'
           | bad \<Rightarrow> (lift_err bad, root', m', c', w'))
      | (Ok Remove, root', m', c', w') \<Rightarrow>
          modify_root rounds fuel reset ctx rd
            (if reset then BTreeEntry True (Leaf []) else root') m' c' w'
      | (Ok _, root', m', c', w') \<Rightarrow> modify_root rounds fuel reset ctx rd root' m' c' w'
      | (bad, root', m', c', w') \<Rightarrow> (lift_err bad, root', m', c', w'))"

text \<open>A root: a well-formed sorted tree of height \<open>n\<close>, empty only as a leaf.\<close>

definition root_ok ::
    "(u64 \<Rightarrow> ('i, 'r) entry res) \<Rightarrow> ('i, 'r) reducer \<Rightarrow> nat \<Rightarrow> ('i, 'r) entry \<Rightarrow> bool" where
  "root_ok f red n e \<longleftrightarrow> nwf f red n (node e) \<and> ksorted (nflat f n (node e)) \<and>
     (n = 0 \<or> nflat f n (node e) \<noteq> [])"

definition contents :: "(u64 \<Rightarrow> ('i, 'r) entry res) \<Rightarrow> nat \<Rightarrow> ('i, 'r) entry \<Rightarrow> (bytes \<times> 'i) list" where
  "contents f n e = nflat f n (node e)"

lemma root_ok_default: "root_ok f red 0 default_entry" "contents f 0 default_entry = []"
  by (simp_all add: root_ok_def contents_def default_entry_def from_node_def)

lemma root_ok_extends:
  assumes "extends f g" and "root_ok f red n e"
  shows "root_ok g red n e" and "contents g n e = contents f n e"
  using assms nflat_nwf_extends [OF assms(1), of red n "node e"] by (auto simp: root_ok_def contents_def)

lemma split_root_ok:
  assumes "nwf f red n (node e)" and "2 \<le> node_len (node e)"
  obtains e' where "split_root red e = Ok e'" and "nwf f red (Suc n) (node e')"
    and "nflat f (Suc n) (node e') = nflat f n (node e)" and "dirty e'"
proof -
  from assms obtain lower upper where sp: "split_node (node e) = Ok (lower, upper)"
    and lu: "nwf f red n lower" "nwf f red n upper" "nflat f n lower \<noteq> []" "nflat f n upper \<noteq> []"
      "nflat f n lower @ nflat f n upper = nflat f n (node e)" by (rule split_node_nwf)
  from lu(1,3) obtain lk lst where l: "interior_new red (from_node lower) = Ok (loaded lk None lower lst)"
    "child_ok f red n (loaded lk None lower lst)" by (rule interior_new_nwf)
  from lu(2,4) obtain uk ust where u: "interior_new red (from_node upper) = Ok (loaded uk None upper ust)"
    "child_ok f red n (loaded uk None upper ust)" by (rule interior_new_nwf)
  show thesis
    by (rule that [of "from_node (Interior [loaded lk None lower lst, loaded uk None upper ust])"])
      (use sp l u lu(5) in \<open>simp_all add: split_root_def split_entry_def from_node_def nwf_Suc nflat_Suc\<close>)
qed

text \<open>The specification never empties the tree (needed where an emptied root is not replaced).\<close>

definition keeps_entries ::
    "('v, 'i, 'r, 'c, 'w) modification_context \<Rightarrow> bytes list \<Rightarrow> ('v, 'i, 's, 'c, 'w) spec_state \<Rightarrow> bool" where
  "keeps_entries ctx ks st \<longleftrightarrow> (\<forall>ks1 ks2 xs' st'. ks = ks1 @ ks2 \<longrightarrow> ks1 \<noteq> [] \<longrightarrow>
     apply_keys ctx ks1 st = (Ok (), xs', st') \<longrightarrow> xs' \<noteq> [])"

lemma keeps_entries_rest:
  assumes "keeps_entries ctx (ks1 @ ks2) st" and "apply_keys ctx ks1 st = (Ok (), st')"
  shows "keeps_entries ctx ks2 st'"
  unfolding keeps_entries_def
proof (intro allI impI)
  fix k1 k2 xs' st'' assume *: "ks2 = k1 @ k2" "k1 \<noteq> []" "apply_keys ctx k1 st' = (Ok (), xs', st'')"
  have "apply_keys ctx (ks1 @ k1) st = (Ok (), xs', st'')" using apply_keys_trans [OF assms(2) *(3)] .
  with assms(1) * show "xs' \<noteq> []" unfolding keeps_entries_def by (metis append.assoc append_is_Nil_conv)
qed

context node_store
begin

lemma modify_root_ok:
  fixes m :: "('v, 'i, 's) modification"
  assumes mc: "1 \<le> minimum_children ctx" "1 \<le> current_order ctx"
    and "root_ok (rd w) (ctx_reducer ctx) n root"
    and "keys m = rev ks" and "sorted_wrt (<) ks"
    and "apply_keys ctx ks (contents (rd w) n root, operation m, c, w) = (Ok (), xs, op', c', w')"
    and "length ks \<le> 1 \<or> minimum_children ctx \<le> 3"
    and "reset \<or> keeps_entries ctx ks (contents (rd w) n root, operation m, c, w)"
    and "length ks \<le> rounds" and "(n + length ks) * (length ks + 2) + 1 \<le> fuel"
  shows "\<exists>n' root'. modify_root rounds fuel reset ctx rd root m c w =
      (Ok (), root', m\<lparr>keys := [], operation := op'\<rparr>, c', w') \<and>
    root_ok (rd w') (ctx_reducer ctx) n' root' \<and> contents (rd w') n' root' = xs \<and>
    n' \<le> n + length ks"
  using assms(3-)
proof (induction rounds arbitrary: n root m c w ks)
  case 0
  then have "ks = []" "m\<lparr>keys := [], operation := operation m\<rparr> = m" by simp_all
  with 0 show ?case by (intro exI [of _ n] exI [of _ root]) auto
next
  case (Suc rounds)
  let ?red = "ctx_reducer ctx"
  show ?case
  proof (cases "ks = []")
    case True
    with Suc.prems have "m\<lparr>keys := [], operation := operation m\<rparr> = m" by simp
    with True Suc.prems show ?thesis by (intro exI [of _ n] exI [of _ root]) auto
  next
    case False
    have tw: "takeWhile (\<lambda>k. \<not> exceeds None k) ks = ks"
      by (simp add: exceeds_def takeWhile_eq_all_conv)
    have "spec_ok ctx None ks (nflat (rd w) n (node root), operation m, c, w)"
      unfolding spec_ok_def tw using Suc.prems(4) by (simp add: contents_def)
    with False Suc.prems(1,2,3,5) have pre: "modify_pre ctx rd n None root m c w ks"
      by (simp add: modify_pre_def root_ok_def exceeds_def)
    have fu: "n * (length ks + 2) + 1 \<le> fuel"
      using Suc.prems(8) mult_le_mono1 [of n "n + length ks" "length ks + 2"] by linarith
    from modify_ok [OF mc pre order_refl fu] obtain r e' ks1 ks2 op1 c1 w1 where
      run: "modify fuel ctx rd None root m c w = (Ok r, e', m\<lparr>keys := rev ks2, operation := op1\<rparr>, c1, w1)"
      and ks: "ks = ks1 @ ks2" and post: "modify_post ctx rd n None root m c w ks1 ks2 r e' op1 c1 w1"
      by blast
    note post = post [unfolded modify_post_def]
    let ?m = "m\<lparr>keys := rev ks2, operation := op1\<rparr>"
    have ap: "apply_keys ctx ks1 (contents (rd w) n root, operation m, c, w) =
        (Ok (), nflat (rd w1) n (node e'), op1, c1, w1)" using post by (simp add: contents_def)
    have sorted1: "ksorted (nflat (rd w1) n (node e'))"
      using apply_keys_ksorted [OF ap] Suc.prems(1) by (simp add: root_ok_def contents_def)
    have nwf1: "nwf (rd w1) ?red n (node e')" using post by blast
    have ks1: "ks1 \<noteq> []" using post by blast
    obtain n1 root1 where step: "modify_root (Suc rounds) fuel reset ctx rd root m c w =
          modify_root rounds fuel reset ctx rd root1 ?m c1 w1"
      and root1: "root_ok (rd w1) ?red n1 root1" "contents (rd w1) n1 root1 = nflat (rd w1) n (node e')"
        "n1 \<le> Suc n"
    proof (cases r)
      case Split
      then have "current_order ctx < node_len (node e')"
        using post by (auto simp: clean_node_def split: if_splits)
      with mc have "2 \<le> node_len (node e')" by simp
      with nwf1 obtain e'' where e'': "split_root ?red e' = Ok e''" "nwf (rd w1) ?red (Suc n) (node e'')"
        "nflat (rd w1) (Suc n) (node e'') = nflat (rd w1) n (node e')" by (rule split_root_ok)
      moreover have "nflat (rd w1) n (node e') \<noteq> []"
        using nflat_Nil_iff [OF nwf1] \<open>2 \<le> _\<close> by simp
      ultimately show thesis using Split False Suc.prems(2) run sorted1
        by (intro that [of e'' "Suc n"]) (simp_all add: root_ok_def contents_def)
    next
      case Remove
      then have emp: "nflat (rd w1) n (node e') = []"
        using post nflat_Nil_iff [OF nwf1] by (auto simp: clean_node_def split: if_splits)
      with Suc.prems(6) ap ks ks1 have reset unfolding keeps_entries_def by blast
      with Remove emp False Suc.prems(2) run show thesis
        by (intro that [of "BTreeEntry True (Leaf [])" 0]) (simp_all add: root_ok_def contents_def)
    qed (use False Suc.prems(1,2) run sorted1 nwf1 post nflat_Nil_iff [OF nwf1] that [of e' n] in
        \<open>auto simp: root_ok_def contents_def clean_node_def split: if_splits\<close>)
    have rest: "apply_keys ctx ks2 (contents (rd w1) n1 root1, operation ?m, c1, w1) = (Ok (), xs, op', c', w')"
      using Suc.prems(4) ap root1(2) by (simp add: ks apply_keys_append)
    have keys2: "keys ?m = rev ks2" "sorted_wrt (<) ks2" "length ks2 \<le> 1 \<or> minimum_children ctx \<le> 3"
      "length ks2 \<le> rounds"
      using Suc.prems(3,5,7) ks ks1 by (auto simp: sorted_wrt_append neq_Nil_conv)
    have keep: "reset \<or> keeps_entries ctx ks2 (contents (rd w1) n1 root1, operation ?m, c1, w1)"
      using Suc.prems(6) keeps_entries_rest [OF _ ap, of ks2] ks root1(2) by auto
    have len: "n1 + length ks2 \<le> n + length ks" "length ks2 \<le> length ks"
      using root1(3) ks ks1 by (auto simp: neq_Nil_conv)
    then have "(n1 + length ks2) * (length ks2 + 2) \<le> (n + length ks) * (length ks + 2)"
      by (intro mult_le_mono) simp_all
    with Suc.prems(8) have fuel2: "(n1 + length ks2) * (length ks2 + 2) + 1 \<le> fuel" by simp
    from Suc.IH [OF root1(1) keys2(1,2) rest keys2(3) keep keys2(4) fuel2] step len
    show ?thesis by force
  qed
qed

text \<open>The loop with the order and the minimum that the roots compute from the number of records.\<close>

lemma modify_root_sized:
  fixes m :: "('v, 'i, 's) modification"
  assumes order: "current_order ctx = dynamic_order cbrt records max_order"
    "minimum_children ctx = minimum_children_for (dynamic_order cbrt records max_order) records"
    and max_order: "\<forall>o'. max_order = Some o' \<longrightarrow> 4 \<le> o'"
    and root: "root_ok (rd w) (ctx_reducer ctx) n root"
    and ks: "keys m = rev ks" "sorted_wrt (<) ks" "length ks \<le> records"
    and spec: "apply_keys ctx ks (contents (rd w) n root, operation m, c, w) = (Ok (), xs, op', c', w')"
    and small: "length ks \<le> 1 \<or> dynamic_order cbrt records max_order \<le> 9"
    and keep: "reset \<or> keeps_entries ctx ks (contents (rd w) n root, operation m, c, w)"
    and fuel: "(n + length ks) * (length ks + 2) + 1 \<le> fuel"
  shows "\<exists>n' root'. modify_root (length ks) fuel reset ctx rd root m c w =
      (Ok (), root', m\<lparr>keys := [], operation := op'\<rparr>, c', w') \<and>
    root_ok (rd w') (ctx_reducer ctx) n' root' \<and> contents (rd w') n' root' = xs \<and> n' \<le> n + length ks"
proof (cases "ks = []")
  case True
  with ks(1) have "m\<lparr>keys := [], operation := operation m\<rparr> = m" by simp
  with True ks root spec show ?thesis by (intro exI [of _ n] exI [of _ root]) auto
next
  case False
  have "4 \<le> dynamic_order cbrt records max_order"
    using dynamic_order_bounds(1) [of max_order cbrt records] max_order by (auto split: option.splits)
  moreover have "0 < records" using False ks(3) by (cases ks) auto
  ultimately have "1 \<le> minimum_children ctx" "1 \<le> current_order ctx"
    and "length ks \<le> 1 \<or> minimum_children ctx \<le> 3"
    using minimum_children_for_bounds [of _ records] minimum_children_small [of _ records] small order by auto
  from modify_root_ok [OF this(1,2) root ks(1,2) spec this(3) keep order_refl fuel] show ?thesis by blast
qed

end

end
