(* ===== verification/BTree_Query.thy ===== *)
theory BTree_Query
  imports BTree_Root
begin

text \<open>
  Reading a tree: \<^verbatim>\<open>scan\<close>, \<^verbatim>\<open>get\<close> and \<^verbatim>\<open>get_multiple\<close> of
  \<^verbatim>\<open>nebari/src/tree/btree_entry.rs\<close>. The callbacks of the caller are \<^verbatim>\<open>FnMut\<close> closures; they share
  one state \<open>s\<close> that each call takes and returns. An error of a callback (\<^verbatim>\<open>AbortError::Other\<close>) and an
  error of the library (\<^verbatim>\<open>AbortError::Nebari\<close>) both are an \<open>Err\<close>. \<open>f\<close> reads a node and \<open>read\<close> a value
  chunk of the file; \<open>pos\<close> is \<^verbatim>\<open>ValueIndex::position\<close>.
\<close>

section \<open>Directions, ranges and evaluations\<close>

datatype scan_evaluation = ReadData | Skip | Stop

datatype 'a bound = Included 'a | Excluded 'a | Unbounded

type_synonym range = "bytes bound \<times> bytes bound"

fun after_start :: "'a::linorder bound \<Rightarrow> 'a \<Rightarrow> bool" where
  "after_start (Included k) x = (k \<le> x)"
| "after_start (Excluded k) x = (k < x)"
| "after_start Unbounded x = True"

fun before_end :: "'a::linorder bound \<Rightarrow> 'a \<Rightarrow> bool" where
  "before_end (Included k) x = (x \<le> k)"
| "before_end (Excluded k) x = (x < k)"
| "before_end Unbounded x = True"

text \<open>\<^verbatim>\<open>RangeBounds::contains\<close>\<close>

definition range_contains :: "'a::linorder bound \<times> 'a bound \<Rightarrow> 'a \<Rightarrow> bool" where
  "range_contains r x \<longleftrightarrow> after_start (fst r) x \<and> before_end (snd r) x"

record 'a directional_iterator =
  it_forwards :: bool
  it_index :: nat
  it_contents :: "'a list"

definition directional_new :: "bool \<Rightarrow> 'a list \<Rightarrow> 'a directional_iterator" where
  "directional_new fwd xs =
     \<lparr>it_forwards = fwd, it_index = (if fwd then 0 else length xs), it_contents = xs\<rparr>"

definition directional_next :: "'a directional_iterator \<Rightarrow> 'a option \<times> 'a directional_iterator" where
  "directional_next it =
     (if it_forwards it \<and> it_index it < length (it_contents it)
      then (Some (it_contents it ! it_index it), it\<lparr>it_index := it_index it + 1\<rparr>)
      else if \<not> it_forwards it \<and> it_index it > 0
      then (Some (it_contents it ! (it_index it - 1)), it\<lparr>it_index := it_index it - 1\<rparr>)
      else (None, it))"

text \<open>The items of a \<^verbatim>\<open>for\<close> loop over the iterator.\<close>

fun collect :: "nat \<Rightarrow> 'a directional_iterator \<Rightarrow> 'a list" where
  "collect 0 it = []"
| "collect (Suc n) it =
     (case directional_next it of (Some x, it') \<Rightarrow> x # collect n it' | (None, it') \<Rightarrow> [])"

definition directional_items :: "bool \<Rightarrow> 'a list \<Rightarrow> 'a list" where
  "directional_items fwd xs = collect (length xs) (directional_new fwd xs)"

lemma collect_forwards:
  "i + n = length xs \<Longrightarrow> collect n \<lparr>it_forwards = True, it_index = i, it_contents = xs\<rparr> = drop i xs"
  by (induction n arbitrary: i) (simp_all add: directional_next_def Cons_nth_drop_Suc)

lemma collect_backwards:
  "n \<le> length xs \<Longrightarrow> collect n \<lparr>it_forwards = False, it_index = n, it_contents = xs\<rparr> = rev (take n xs)"
  by (induction n) (simp_all add: directional_next_def take_Suc_conv_app_nth)

lemma directional_items_eq: "directional_items fwd xs = (if fwd then xs else rev xs)"
  by (simp add: directional_items_def directional_new_def collect_forwards collect_backwards)

section \<open>Scanning\<close>

record ('i, 'r, 's) scan_args =
  forwards :: bool
  node_evaluator :: "'s \<Rightarrow> bytes \<Rightarrow> 'r \<Rightarrow> nat \<Rightarrow> scan_evaluation \<times> 's"
  key_evaluator :: "'s \<Rightarrow> bytes \<Rightarrow> 'i \<Rightarrow> scan_evaluation \<times> 's"
  data_callback :: "'s \<Rightarrow> bytes \<Rightarrow> 'i \<Rightarrow> bytes \<Rightarrow> unit res \<times> 's"

text \<open>The body of the leaf loop for a key in the range.\<close>

definition visit_entry ::
    "('i, 'r, 's) scan_args \<Rightarrow> ('i \<Rightarrow> u64) \<Rightarrow> (u64 \<Rightarrow> bytes res) \<Rightarrow> bytes \<Rightarrow> 'i \<Rightarrow> 's \<Rightarrow> bool res \<times> 's" where
  "visit_entry args pos read key index s =
     (case key_evaluator args s key index of
        (ReadData, s1) \<Rightarrow>
          (if pos index > 0 then
             (case read (pos index) of
                Ok data \<Rightarrow>
                  (case data_callback args s1 key index data of
                     (Ok u, s2) \<Rightarrow> (Ok True, s2)
                   | (bad, s2) \<Rightarrow> (lift_err bad, s2))
              | bad \<Rightarrow> (lift_err bad, s1))
           else (Ok True, s1))
      | (Skip, s1) \<Rightarrow> (Ok True, s1)
      | (Stop, s1) \<Rightarrow> (Ok False, s1))"

fun scan_leaf ::
    "('i, 'r, 's) scan_args \<Rightarrow> ('i \<Rightarrow> u64) \<Rightarrow> (u64 \<Rightarrow> bytes res) \<Rightarrow> range \<Rightarrow> 'i key_entry list \<Rightarrow> 's \<Rightarrow>
     bool res \<times> 's" where
  "scan_leaf args pos read r [] s = (Ok True, s)"
| "scan_leaf args pos read r (child # rest) s =
     (if range_contains r (ke_key child) then
        (case visit_entry args pos read (ke_key child) (ke_index child) s of
           (Ok True, s') \<Rightarrow> scan_leaf args pos read r rest s'
         | other \<Rightarrow> other)
      else scan_leaf args pos read r rest s)"

text \<open>\<^verbatim>\<open>previous_entry.key\<close> is past the end of the range; \<^verbatim>\<open>child.key\<close> is before its start.\<close>

definition past_end :: "bytes bound \<Rightarrow> bytes \<Rightarrow> bool" where
  "past_end b key = (case b of Included e \<Rightarrow> e < key | Excluded e \<Rightarrow> e \<le> key | Unbounded \<Rightarrow> False)"

definition before_start :: "bytes bound \<Rightarrow> bytes \<Rightarrow> bool" where
  "before_start b key = (case b of Included e \<Rightarrow> key < e | Excluded e \<Rightarrow> key \<le> e | Unbounded \<Rightarrow> False)"

function (sequential)
  scan ::
    "nat \<Rightarrow> (u64 \<Rightarrow> ('i, 'r) entry res) \<Rightarrow> ('i \<Rightarrow> u64) \<Rightarrow> (u64 \<Rightarrow> bytes res) \<Rightarrow> ('i, 'r, 's) scan_args \<Rightarrow>
     range \<Rightarrow> nat \<Rightarrow> ('i, 'r) entry \<Rightarrow> 's \<Rightarrow> bool res \<times> 's"
and scan_children ::
    "nat \<Rightarrow> (u64 \<Rightarrow> ('i, 'r) entry res) \<Rightarrow> ('i \<Rightarrow> u64) \<Rightarrow> (u64 \<Rightarrow> bytes res) \<Rightarrow> ('i, 'r, 's) scan_args \<Rightarrow>
     range \<Rightarrow> nat \<Rightarrow> ('i, 'r) interior list \<Rightarrow> nat \<Rightarrow> ('i, 'r) interior list \<Rightarrow> 's \<Rightarrow> bool res \<times> 's"
where
  "scan 0 f pos read args r depth e s = (OutOfFuel, s)"
| "scan (Suc fuel) f pos read args r depth e s =
     (case node e of
        Leaf children \<Rightarrow> scan_leaf args pos read r (directional_items (forwards args) children) s
      | Interior children \<Rightarrow>
          scan_children fuel f pos read args r depth children 0
            (directional_items (forwards args) children) s
      | Uninitialized \<Rightarrow> (Panic, s))"
| "scan_children fuel f pos read args r depth children index [] s = (Ok True, s)"
| "scan_children fuel f pos read args r depth children index (child # rest) s =
     (if forwards args \<and> index > 0 \<and> past_end (snd r) (i_key (children ! (index - 1))) then (Ok True, s)
      else if before_start (fst r) (i_key child)
      then scan_children fuel f pos read args r depth children (index + 1) rest s
      else
        (case (case node_evaluator args s (i_key child) (i_stats child) depth of
            (Stop, s1) \<Rightarrow> (Ok False, s1)
          | (ReadData, s1) \<Rightarrow>
              (case resolve f (i_position child) of
                 Ok entry \<Rightarrow> scan fuel f pos read args r (depth + 1) entry s1
               | bad \<Rightarrow> (lift_err bad, s1))
          | (Skip, s1) \<Rightarrow> (Ok True, s1)) of
          (Ok True, s2) \<Rightarrow> scan_children fuel f pos read args r depth children (index + 1) rest s2
        | other \<Rightarrow> other))"
  by pat_completeness auto
termination
  by (relation "measures [\<lambda>x. case x of Inl (fuel, f, p, rd, a, r, d, e, s) \<Rightarrow> fuel
        | Inr (fuel, f, p, rd, a, r, d, cs, i, items, s) \<Rightarrow> fuel,
      \<lambda>x. case x of Inl _ \<Rightarrow> 0 | Inr (fuel, f, p, rd, a, r, d, cs, i, items, s) \<Rightarrow> Suc (length items)]") auto

section \<open>What a scan visits\<close>

text \<open>The entries of a list in turn, until one stops the scan or fails.\<close>

fun scan_list ::
    "('i, 'r, 's) scan_args \<Rightarrow> ('i \<Rightarrow> u64) \<Rightarrow> (u64 \<Rightarrow> bytes res) \<Rightarrow> (bytes \<times> 'i) list \<Rightarrow> 's \<Rightarrow> bool res \<times> 's" where
  "scan_list args pos read [] s = (Ok True, s)"
| "scan_list args pos read ((k, i) # xs) s =
     (case visit_entry args pos read k i s of
        (Ok True, s') \<Rightarrow> scan_list args pos read xs s'
      | other \<Rightarrow> other)"

lemma scan_list_append:
  "scan_list args pos read (xs @ ys) s =
     (case scan_list args pos read xs s of
        (Ok True, s') \<Rightarrow> scan_list args pos read ys s'
      | other \<Rightarrow> other)"
  by (induction xs arbitrary: s) (auto split: prod.splits res.splits bool.splits)

lemma scan_leaf_eq:
  "scan_leaf args pos read r children s =
     scan_list args pos read (filter (\<lambda>p. range_contains r (fst p)) (map key_pair children)) s"
proof (induction children arbitrary: s)
  case (Cons child rest)
  then show ?case by (cases child) (auto split: prod.splits res.splits bool.splits)
qed simp

lemma not_in_range_past:
  "past_end (snd r) k \<Longrightarrow> \<forall>p \<in> set xs. k < fst p \<Longrightarrow> filter (\<lambda>p. range_contains r (fst p)) xs = []"
  by (auto simp: past_end_def range_contains_def filter_empty_conv split: bound.splits)

lemma not_in_range_before:
  "before_start (fst r) k \<Longrightarrow> \<forall>p \<in> set xs. fst p \<le> k \<Longrightarrow> filter (\<lambda>p. range_contains r (fst p)) xs = []"
  by (auto simp: before_start_def range_contains_def filter_empty_conv split: bound.splits)

definition in_direction :: "bool \<Rightarrow> 'a list \<Rightarrow> 'a list" where
  "in_direction fwd xs = (if fwd then xs else rev xs)"

lemma scan_children_eq:
  assumes scan: "\<And>e depth s. nwf f red n (node e) \<Longrightarrow> ksorted (nflat f n (node e)) \<Longrightarrow>
      scan fuel f pos read args r depth e s = scan_list args pos read
        (in_direction (forwards args) (filter (\<lambda>p. range_contains r (fst p)) (nflat f n (node e)))) s"
    and reads: "\<And>s k st d. node_evaluator args s k st d = (ReadData, s)"
    and "\<forall>c \<in> set items. child_ok f red n c \<and> ksorted (cflat f n c)"
    and "forwards args \<longrightarrow> cs = pre @ items \<and> index = length pre \<and> ksorted (cflats f n cs) \<and>
      (\<forall>c \<in> set pre. child_ok f red n c)"
  shows "scan_children fuel f pos read args r depth cs index items s =
    scan_list args pos read (concat (map (\<lambda>c. in_direction (forwards args)
      (filter (\<lambda>p. range_contains r (fst p)) (cflat f n c))) items)) s"
  using assms(3-)
proof (induction items arbitrary: pre index s)
  case (Cons c items)
  from Cons.prems have ok: "child_ok f red n c" "ksorted (cflat f n c)" by auto
  obtain e where e: "resolve f (i_position c) = Ok e" "nwf f red n (node e)" "nflat f n (node e) = cflat f n c"
    using ok(1) by (auto elim!: child_okE simp: cflat_def)
  let ?part = "\<lambda>c. in_direction (forwards args) (filter (\<lambda>p. range_contains r (fst p)) (cflat f n c))"
  have IH: "scan_children fuel f pos read args r depth cs (index + 1) items s' =
      scan_list args pos read (concat (map ?part items)) s'" for s'
    by (rule Cons.IH [of "pre @ [c]"]) (use Cons.prems ok in auto)
  show ?case
  proof (cases "forwards args \<and> index > 0 \<and> past_end (snd r) (i_key (cs ! (index - 1)))")
    case True
    then obtain q pre' where pre: "pre = pre' @ [q]" using Cons.prems(2) by (cases pre rule: rev_cases) auto
    with True Cons.prems(2) have q: "cs ! (index - 1) = q" by (simp add: nth_append)
    have "ksorted (cflats f n pre' @ cflat f n q @ cflats f n (c # items))" and qok: "child_ok f red n q"
      using Cons.prems(2) True pre by auto
    then have sorted: "\<forall>p \<in> set (cflat f n q). \<forall>p' \<in> set (cflats f n (c # items)). fst p < fst p'"
      unfolding ksorted_append by blast
    obtain q0 where q0: "q0 \<in> set (cflat f n q)" "i_key q = fst q0" using child_key_in [OF qok] by auto
    have "\<forall>p \<in> set (cflats f n (c # items)). i_key q < fst p"
      unfolding q0(2) using sorted q0(1) by blast
    then have "filter (\<lambda>p. range_contains r (fst p)) (cflats f n (c # items)) = []"
      using True q not_in_range_past by blast
    then have nil: "concat (map ?part (c # items)) = []"
      using True by (auto simp: in_direction_def filter_concat)
    show ?thesis unfolding nil using True by simp
  next
    case False
    show ?thesis
    proof (cases "before_start (fst r) (i_key c)")
      case True
      have "filter (\<lambda>p. range_contains r (fst p)) (cflat f n c) = []"
        using not_in_range_before [OF True] child_key_max [OF ok] by blast
      with False True IH show ?thesis by (auto simp: in_direction_def)
    next
      case in_range: False
      have run: "scan fuel f pos read args r (depth + 1) e s = scan_list args pos read (?part c) s"
        using scan [OF e(2)] e(3) ok(2) by simp
      with False in_range reads e(1) IH show ?thesis
        by (auto simp: scan_list_append split: prod.splits res.splits bool.splits)
    qed
  qed
qed simp

theorem scan_eq:
  assumes "nwf f red n (node e)" and "ksorted (nflat f n (node e))" and "n < fuel"
    and reads: "\<And>s k st d. node_evaluator args s k st d = (ReadData, s)"
  shows "scan fuel f pos read args r depth e s = scan_list args pos read
    (in_direction (forwards args) (filter (\<lambda>p. range_contains r (fst p)) (nflat f n (node e)))) s"
  using assms(1-3)
proof (induction n arbitrary: fuel e depth s)
  case 0
  then obtain cs fuel' where "node e = Leaf cs" "fuel = Suc fuel'"
    by (cases fuel) (auto elim: nwf_0E)
  then show ?case
    by (simp add: scan_leaf_eq directional_items_eq in_direction_def rev_filter rev_map)
next
  case (Suc n)
  then obtain cs fuel' where cs: "node e = Interior cs" "\<forall>c \<in> set cs. child_ok f red n c" "fuel = Suc fuel'"
    by (cases fuel) (auto elim: nwf_SucE)
  from Suc.prems cs have sorted: "ksorted (cflats f n cs)" by (simp add: nflat_Suc)
  have each: "ksorted (cflat f n c)" if "c \<in> set cs" for c
    using sorted split_list [OF that] ksorted_cflat by blast
  have "scan_children fuel' f pos read args r depth cs 0 (directional_items (forwards args) cs) s =
    scan_list args pos read (concat (map (\<lambda>c. in_direction (forwards args)
      (filter (\<lambda>p. range_contains r (fst p)) (cflat f n c))) (directional_items (forwards args) cs))) s"
    by (rule scan_children_eq [of f red n, where pre = "[]"])
      (use Suc.IH Suc.prems(3) cs sorted each reads in \<open>auto simp: directional_items_eq\<close>)
  moreover have "concat (map (\<lambda>c. in_direction fwd (filter P (cflat f n c))) (directional_items fwd cs)) =
    in_direction fwd (filter P (cflats f n cs))" for fwd P
    by (simp add: directional_items_eq in_direction_def filter_concat rev_concat rev_map o_def)
  ultimately show ?case using cs by (simp add: nflat_Suc)
qed

section \<open>Lookup\<close>

text \<open>\<^verbatim>\<open>KeyRange\<close> of \<^verbatim>\<open>nebari/src/tree/mod.rs\<close>: an iterator with a look at its next key.\<close>

record key_range =
  current_key :: "bytes option"
  remaining_keys :: "bytes list"

definition key_range_new :: "bytes list \<Rightarrow> key_range" where
  "key_range_new ks =
     (case ks of [] \<Rightarrow> \<lparr>current_key = None, remaining_keys = []\<rparr>
      | k # ks' \<Rightarrow> \<lparr>current_key = Some k, remaining_keys = ks'\<rparr>)"

definition key_range_next :: "key_range \<Rightarrow> bytes option \<times> key_range" where
  "key_range_next kr =
     (current_key kr,
      (case remaining_keys kr of [] \<Rightarrow> \<lparr>current_key = None, remaining_keys = []\<rparr>
       | k # ks \<Rightarrow> \<lparr>current_key = Some k, remaining_keys = ks\<rparr>))"

definition range_keys :: "key_range \<Rightarrow> bytes list" where
  "range_keys kr = (case current_key kr of None \<Rightarrow> [] | Some k \<Rightarrow> k # remaining_keys kr)"

lemma range_keys_new [simp]: "range_keys (key_range_new ks) = ks"
  by (simp add: range_keys_def key_range_new_def split: list.splits)

lemma current_key_new [simp]: "current_key (key_range_new ks) = (case ks of [] \<Rightarrow> None | k # _ \<Rightarrow> Some k)"
  by (simp add: key_range_new_def split: list.splits)

lemma key_range_next_new [simp]: "snd (key_range_next (key_range_new (k # ks))) = key_range_new ks"
  by (simp add: key_range_next_def key_range_new_def split: list.splits)

text \<open>The two callbacks of \<^verbatim>\<open>get\<close>.\<close>

record ('i, 's) get_args =
  get_evaluator :: "'s \<Rightarrow> bytes \<Rightarrow> 'i \<Rightarrow> scan_evaluation \<times> 's"
  get_reader :: "'s \<Rightarrow> bytes \<Rightarrow> 'i \<Rightarrow> unit res \<times> 's"

definition get_entry :: "('i, 's) get_args \<Rightarrow> bytes \<Rightarrow> 'i \<Rightarrow> 's \<Rightarrow> bool res \<times> 's" where
  "get_entry args key index s =
     (case get_evaluator args s key index of
        (ReadData, s1) \<Rightarrow>
          (case get_reader args s1 key index of (Ok u, s2) \<Rightarrow> (Ok True, s2) | (bad, s2) \<Rightarrow> (lift_err bad, s2))
      | (Skip, s1) \<Rightarrow> (Ok True, s1)
      | (Stop, s1) \<Rightarrow> (Ok False, s1))"

function get_leaf ::
    "('i, 's) get_args \<Rightarrow> 'i key_entry list \<Rightarrow> nat \<Rightarrow> bool \<Rightarrow> key_range \<Rightarrow> 's \<Rightarrow> bool res \<times> key_range \<times> 's" where
  "get_leaf args children last_index took_one_key kr s =
     (case current_key kr of
        None \<Rightarrow> (Ok True, kr, s)
      | Some key \<Rightarrow>
          (case binary_search (map ke_key (drop last_index children)) key of
             Found i \<Rightarrow>
               (let li = last_index + i; kr' = snd (key_range_next kr) in
                case get_entry args (ke_key (children ! li)) (ke_index (children ! li)) s of
                  (Ok True, s') \<Rightarrow> get_leaf args children li True kr' s'
                | (Ok False, s') \<Rightarrow> (Ok False, kr', s')
                | (bad, s') \<Rightarrow> (bad, kr', s'))
           | NotFound i \<Rightarrow>
               (let li = last_index + i in
                if li = length children \<and> took_one_key then (Ok True, kr, s)
                else get_leaf args children li True (snd (key_range_next kr)) s)))"
  by pat_completeness auto
termination
  by (relation "measure (\<lambda>(args, cs, li, took, kr, s). length (range_keys kr))")
    (auto simp: range_keys_def key_range_next_def split: list.splits)

declare get_leaf.simps [simp del]

function (sequential)
  get ::
    "nat \<Rightarrow> (u64 \<Rightarrow> ('i, 'r) entry res) \<Rightarrow> ('i, 's) get_args \<Rightarrow> ('i, 'r) entry \<Rightarrow> key_range \<Rightarrow> 's \<Rightarrow>
     bool res \<times> key_range \<times> 's"
and get_interior ::
    "nat \<Rightarrow> (u64 \<Rightarrow> ('i, 'r) entry res) \<Rightarrow> ('i, 's) get_args \<Rightarrow> ('i, 'r) interior list \<Rightarrow> nat \<Rightarrow> key_range \<Rightarrow> 's \<Rightarrow>
     bool res \<times> key_range \<times> 's"
where
  "get 0 f args e kr s = (OutOfFuel, kr, s)"
| "get (Suc fuel) f args e kr s =
     (case node e of
        Leaf children \<Rightarrow> get_leaf args children 0 False kr s
      | Interior children \<Rightarrow> get_interior fuel f args children 0 kr s
      | Uninitialized \<Rightarrow> (Panic, kr, s))"
| "get_interior fuel f args children last_index kr s =
     (case current_key kr of
        None \<Rightarrow> (Ok True, kr, s)
      | Some key \<Rightarrow>
          (let li = last_index + (case binary_search (map i_key (drop last_index children)) key of
                 Found i \<Rightarrow> i | NotFound i \<Rightarrow> i) in
           if li < length children then
             (case resolve f (i_position (children ! li)) of
                Ok entry \<Rightarrow>
                  (case get fuel f args entry kr s of
                     (Ok True, kr', s') \<Rightarrow> get_interior fuel f args children (li + 1) kr' s'
                   | (Ok False, kr', s') \<Rightarrow> (Ok True, kr', s')
                   | (bad, kr', s') \<Rightarrow> (bad, kr', s'))
              | bad \<Rightarrow> (lift_err bad, kr, s))
           else (Ok True, kr, s)))"
  by pat_completeness auto
termination
  by (relation "measures [\<lambda>x. case x of Inl (fuel, f, a, e, kr, s) \<Rightarrow> fuel
        | Inr (fuel, f, a, cs, li, kr, s) \<Rightarrow> fuel,
      \<lambda>x. case x of Inl _ \<Rightarrow> 0 | Inr (fuel, f, a, cs, li, kr, s) \<Rightarrow> Suc (length cs - li)]") auto

declare get_interior.simps [simp del]

section \<open>What a lookup visits\<close>

fun get_list :: "('i, 's) get_args \<Rightarrow> (bytes \<times> 'i) list \<Rightarrow> bytes list \<Rightarrow> 's \<Rightarrow> bool res \<times> 's" where
  "get_list args xs [] s = (Ok True, s)"
| "get_list args xs (k # ks) s =
     (case map_of xs k of
        None \<Rightarrow> get_list args xs ks s
      | Some i \<Rightarrow>
          (case get_entry args k i s of
             (Ok True, s') \<Rightarrow> get_list args xs ks s'
           | other \<Rightarrow> other))"

lemma get_list_append:
  "get_list args xs (ks @ ks') s =
     (case get_list args xs ks s of (Ok True, s') \<Rightarrow> get_list args xs ks' s' | other \<Rightarrow> other)"
  by (induction ks arbitrary: s) (auto split: prod.splits res.splits bool.splits option.splits)

lemma get_list_missing: "\<forall>k \<in> set ks. map_of xs k = None \<Longrightarrow> get_list args xs ks s = (Ok True, s)"
  by (induction ks) auto

lemma get_list_cong: "\<forall>k \<in> set ks. map_of xs k = map_of ys k \<Longrightarrow> get_list args xs ks s = get_list args ys ks s"
  by (induction ks arbitrary: s) (auto split: prod.splits res.splits bool.splits option.splits)

lemma get_entry_not_False:
  assumes "\<forall>s k i. fst (get_evaluator args s k i) \<noteq> Stop"
  shows "fst (get_entry args k i s) \<noteq> Ok False"
proof -
  obtain ev s1 where e: "get_evaluator args s k i = (ev, s1)" by fastforce
  with assms have "ev \<noteq> Stop" by (metis fst_conv)
  with e show ?thesis
    by (cases ev) (auto simp: get_entry_def split: prod.splits res.splits)
qed

text \<open>
  The outcome of a lookup in a node with contents \<open>xs\<close>: it visits the keys \<open>ks1\<close> of the sorted batch
  \<open>ks\<close>, leaving \<open>ks2\<close>, which lie above all keys of the node.
\<close>

definition get_post ::
    "('i, 's) get_args \<Rightarrow> (bytes \<times> 'i) list \<Rightarrow> bytes list \<Rightarrow> 's \<Rightarrow> bool res \<times> key_range \<times> 's \<Rightarrow>
     bytes list \<Rightarrow> bytes list \<Rightarrow> bool" where
  "get_post args xs ks s out ks1 ks2 \<longleftrightarrow>
     ks = ks1 @ ks2 \<and>
     (case out of (r, kr', s') \<Rightarrow>
        get_list args xs ks1 s = (r, s') \<and> r \<noteq> Ok False \<and>
        (r = Ok True \<longrightarrow> kr' = key_range_new ks2 \<and> (\<forall>k \<in> set ks2. \<forall>p \<in> set xs. fst p < k)))"

lemma get_leaf_ok:
  assumes ns: "\<forall>s k i. fst (get_evaluator args s k i) \<noteq> Stop"
    and sorted: "ksorted (map key_pair children)"
    and "sorted_wrt (<) ks" and "li \<le> length children"
    and "\<forall>k \<in> set ks. \<forall>e \<in> set (take li children). ke_key e < k"
  shows "\<exists>ks1 ks2. get_post args (map key_pair children) ks s
      (get_leaf args children li took (key_range_new ks) s) ks1 ks2 \<and>
    (\<forall>k \<in> set (if took then ks1 else tl ks1). \<exists>p \<in> set (map key_pair children). k \<le> fst p)"
  using assms(3-)
proof (induction ks arbitrary: li took s)
  case Nil
  then show ?case by (intro exI [of _ "[]"]) (simp add: get_post_def get_leaf.simps)
next
  case (Cons k ks)
  let ?xs = "map key_pair children"
  have lt: "\<forall>k' \<in> set ks. k < k'" using Cons.prems(1) by simp
  have low: "\<forall>e \<in> set (take li children). ke_key e < k" using Cons.prems(3) by simp
  note unfold = get_leaf.simps [of args children li took "key_range_new (k # ks)" s]
  from sorted Cons.prems(2) low show ?case
  proof (cases rule: leaf_search_cases)
    case (found L i R)
    have at: "li + (length L - li) = length L" "children ! length L = KeyEntry k i"
      using found by (simp_all add: nth_append)
    have mo: "map_of ?xs k = Some i"
      using map_of_frame [of "map key_pair L" k "map key_pair R" "[(k, i)]"] found(1,4,5) by simp
    have mem: "\<exists>p \<in> set ?xs. k \<le> fst p" using found(1) by auto
    obtain r s' where ge: "get_entry args k i s = (r, s')" by fastforce
    have nf: "r \<noteq> Ok False" using get_entry_not_False [OF ns, of k i s] ge by simp
    show ?thesis
    proof (cases "r = Ok True")
      case True
      have "length L \<le> length children" "\<forall>k' \<in> set ks. \<forall>e \<in> set (take (length L) children). ke_key e < k'"
        using found(1,4) lt by (auto intro: less_trans)
      with Cons.IH [where li = "length L" and took = True and s = s'] Cons.prems(1) obtain ks1 ks2 where IH:
        "get_post args ?xs ks s' (get_leaf args children (length L) True (key_range_new ks) s') ks1 ks2"
        "\<forall>k \<in> set ks1. \<exists>p \<in> set ?xs. k \<le> fst p" by auto
      have "get_leaf args children li took (key_range_new (k # ks)) s =
          get_leaf args children (length L) True (key_range_new ks) s'"
        using found(3) at ge True by (simp add: unfold Let_def)
      with IH mo ge True mem show ?thesis
        by (intro exI [of _ "k # ks1"] exI [of _ ks2]) (auto simp: get_post_def split: prod.splits)
    next
      case False
      with nf found(3) at ge have run: "get_leaf args children li took (key_range_new (k # ks)) s =
          (r, key_range_new ks, s')" by (cases r) (auto simp: unfold Let_def split: bool.splits)
      show ?thesis
        by (rule exI [of _ "[k]"], rule exI [of _ ks])
          (use run mo ge False nf mem in \<open>auto simp: get_post_def split: res.splits bool.splits\<close>)
    qed
  next
    case (missing L R)
    have at: "li + (length L - li) = length L" using missing by simp
    have mo: "map_of ?xs k = None"
      using map_of_frame [of "map key_pair L" k "map key_pair R" "[]"] missing(1,4,5) by simp
    show ?thesis
    proof (cases "length L = length children \<and> took")
      case True
      then have "R = []" using missing(1) by simp
      then have "\<forall>k' \<in> set (k # ks). \<forall>p \<in> set ?xs. fst p < k'"
        using missing(1,4) lt by (auto intro: less_trans)
      moreover have "get_leaf args children li took (key_range_new (k # ks)) s = (Ok True, key_range_new (k # ks), s)"
        unfolding unfold using missing(3) at True by (simp add: Let_def)
      ultimately show ?thesis by (intro exI [of _ "[]"] exI [of _ "k # ks"]) (simp add: get_post_def)
    next
      case False
      have "length L \<le> length children" "\<forall>k' \<in> set ks. \<forall>e \<in> set (take (length L) children). ke_key e < k'"
        using missing(1,4) lt by (auto intro: less_trans)
      with Cons.IH [where li = "length L" and took = True and s = s] Cons.prems(1) obtain ks1 ks2 where IH:
        "get_post args ?xs ks s (get_leaf args children (length L) True (key_range_new ks) s) ks1 ks2"
        "\<forall>k \<in> set ks1. \<exists>p \<in> set ?xs. k \<le> fst p" by auto
      have run: "get_leaf args children li took (key_range_new (k # ks)) s =
          get_leaf args children (length L) True (key_range_new ks) s"
        using missing(3) at False by (auto simp: unfold Let_def)
      have "took \<Longrightarrow> \<exists>p \<in> set ?xs. k \<le> fst p"
        using False missing(1,5) by (cases R) (auto intro: less_imp_le)
      with IH mo run show ?thesis
        by (intro exI [of _ "k # ks1"] exI [of _ ks2]) (auto simp: get_post_def split: prod.splits)
    qed
  qed
qed

lemma route_get:
  assumes "containing_child cs li k = (j, pushing)" and "li < length cs"
  shows "li + (case binary_search (map i_key (drop li cs)) k of Found i \<Rightarrow> i | NotFound i \<Rightarrow> i) =
    (if pushing then length cs else j)"
  using assms by (auto simp: containing_child_def split: search.splits if_splits)

lemma get_interior_ok:
  assumes child: "\<And>e ks s. nwf f red n (node e) \<Longrightarrow> ksorted (nflat f n (node e)) \<Longrightarrow> sorted_wrt (<) ks \<Longrightarrow>
      \<exists>ks1 ks2. get_post args (nflat f n (node e)) ks s (get fuel f args e (key_range_new ks) s) ks1 ks2 \<and>
        (\<forall>k \<in> set (tl ks1). \<exists>p \<in> set (nflat f n (node e)). k \<le> fst p)"
    and ok: "\<forall>c \<in> set cs. child_ok f red n c" and sorted: "ksorted (cflats f n cs)"
    and "sorted_wrt (<) ks" and "\<forall>k \<in> set ks. \<forall>p \<in> set (cflats f n (take li cs)). fst p < k"
  shows "\<exists>ks1 ks2. get_post args (cflats f n cs) ks s
      (get_interior fuel f args cs li (key_range_new ks) s) ks1 ks2 \<and>
    (\<forall>k \<in> set ks1. \<exists>p \<in> set (cflats f n cs). k \<le> fst p)"
  using assms(4-)
proof (induction "length cs - li" arbitrary: li ks s rule: less_induct)
  case less
  let ?xs = "cflats f n cs"
  note unfold = get_interior.simps [of fuel f args cs li "key_range_new ks" s]
  have finish: ?case if "get_interior fuel f args cs li (key_range_new ks) s = (Ok True, key_range_new ks, s)"
    "\<forall>k \<in> set ks. \<forall>p \<in> set ?xs. fst p < k"
    using that by (intro exI [of _ "[]"] exI [of _ ks]) (simp add: get_post_def)
  show ?case
  proof (cases "ks = [] \<or> length cs \<le> li")
    case True
    with less.prems(2) have "\<forall>k \<in> set ks. \<forall>p \<in> set ?xs. fst p < k" by (elim disjE) simp_all
    moreover have "get_interior fuel f args cs li (key_range_new ks) s = (Ok True, key_range_new ks, s)"
      unfolding unfold using True by (auto simp: Let_def split: list.splits search.splits)
    ultimately show ?thesis by (intro finish)
  next
    case False
    then obtain k kt where ks: "ks = k # kt" and li: "li < length cs" by (cases ks) auto
    have low: "\<forall>p \<in> set (cflats f n (take li cs)). fst p < k" using less.prems(2) ks by simp
    from ok sorted li low obtain A c B pushing where cs: "cs = A @ c # B"
      and cont: "containing_child cs li k = (length A, pushing)"
      and lowA: "\<forall>p \<in> set (cflats f n A). fst p < k"
      and pe: "if pushing then B = [] \<and> (\<forall>p \<in> set (cflat f n c). fst p < k) else k \<le> i_key c"
      by (rule containing_child_ok)
    note route = route_get [OF cont li]
    have ge: "k \<le> k'" if "k' \<in> set ks" for k' using that less.prems(1) ks by auto
    show ?thesis
    proof (cases pushing)
      case True
      then have "\<forall>p \<in> set ?xs. fst p < k" using pe lowA cs by auto
      then have "\<forall>k' \<in> set ks. \<forall>p \<in> set ?xs. fst p < k'" using ge by (blast intro: less_le_trans)
      moreover have "get_interior fuel f args cs li (key_range_new ks) s = (Ok True, key_range_new ks, s)"
        unfolding unfold using True route ks by (simp add: Let_def)
      ultimately show ?thesis by (intro finish)
    next
      case here: False
      have cok: "child_ok f red n c" "ksorted (cflat f n c)" using ok cs sorted ksorted_cflat by auto
      obtain e where e: "resolve f (i_position c) = Ok e" "nwf f red n (node e)"
        "nflat f n (node e) = cflat f n c" using cok(1) by (auto elim!: child_okE simp: cflat_def)
      obtain r kr' s' where g: "get fuel f args e (key_range_new ks) s = (r, kr', s')" by (metis prod_cases3)
      from child [OF e(2) _ less.prems(1), of s] e(3) cok(2) g obtain ks1 ks2 where
        cp: "get_post args (cflat f n c) ks s (r, kr', s') ks1 ks2"
        and up: "\<forall>k \<in> set (tl ks1). \<exists>p \<in> set (cflat f n c). k \<le> fst p" by auto
      have ks12: "ks = ks1 @ ks2" using cp by (simp add: get_post_def)
      have le: "k' \<le> i_key c" if k': "k' \<in> set ks1" for k'
      proof (cases "k' = k")
        case False
        then have "k' \<in> set (tl ks1)" using k' ks12 ks by (cases ks1) auto
        with up obtain p where "p \<in> set (cflat f n c)" "k' \<le> fst p" by blast
        with child_key_max [OF cok] show ?thesis by (blast intro: order_trans)
      qed (use here pe in simp)
      have "map_of ?xs k' = map_of (cflat f n c) k'" if "k' \<in> set ks1" for k'
      proof -
        have "\<forall>p \<in> set (cflats f n A). fst p < k'" using lowA ge [of k'] that ks12 by (auto intro: less_le_trans)
        moreover have "\<forall>p \<in> set (cflats f n B). k' < fst p"
        proof
          fix p assume p: "p \<in> set (cflats f n B)"
          obtain q where q: "q \<in> set (cflat f n c)" "i_key c = fst q" using child_key_in [OF cok(1)] by auto
          have "ksorted (cflats f n A @ cflat f n c @ cflats f n B)" using sorted cs by simp
          then have "fst q < fst p" unfolding ksorted_append using q p by blast
          with q le [OF that] show "k' < fst p" by simp
        qed
        ultimately have "map_of (cflats f n A @ cflat f n c @ cflats f n B) k' = map_of (cflat f n c) k'"
          by (rule map_of_frame)
        then show ?thesis unfolding cs by simp
      qed
      then have gl: "get_list args ?xs ks1 s = (r, s')"
        using cp get_list_cong [of ks1 ?xs "cflat f n c" args s] by (simp add: get_post_def)
      have nf: "r \<noteq> Ok False" using cp by (simp add: get_post_def)
      have above: "\<forall>k' \<in> set ks1. \<exists>p \<in> set ?xs. k' \<le> fst p"
      proof
        fix k' assume "k' \<in> set ks1"
        obtain q where "q \<in> set (cflat f n c)" "i_key c = fst q" using child_key_in [OF cok(1)] by auto
        with le [OF \<open>k' \<in> set ks1\<close>] cs show "\<exists>p \<in> set ?xs. k' \<le> fst p" by auto
      qed
      have nth: "cs ! length A = c" "length A < length cs" using cs by simp_all
      have step: "get_interior fuel f args cs li (key_range_new ks) s =
        (case r of Ok True \<Rightarrow> get_interior fuel f args cs (length A + 1) kr' s'
          | Ok False \<Rightarrow> (Ok True, kr', s') | bad \<Rightarrow> (bad, kr', s'))"
        unfolding unfold using route here ks nth e(1) g
        by (simp add: Let_def split: res.splits bool.splits)
      show ?thesis
      proof (cases "r = Ok True")
        case True
        with cp have kr': "kr' = key_range_new ks2" "\<forall>k \<in> set ks2. \<forall>p \<in> set (cflat f n c). fst p < k"
          by (auto simp: get_post_def)
        have "\<forall>k' \<in> set ks2. \<forall>p \<in> set (cflats f n (take (length A + 1) cs)). fst p < k'"
        proof (intro ballI)
          fix k' p assume k': "k' \<in> set ks2" and p: "p \<in> set (cflats f n (take (length A + 1) cs))"
          have "k \<le> k'" using ge k' ks12 by simp
          with p cs lowA kr'(2) k' show "fst p < k'" by (auto intro: less_le_trans)
        qed
        moreover have "sorted_wrt (<) ks2" using less.prems(1) ks12 by (simp add: sorted_wrt_append)
        moreover have "length cs - (length A + 1) < length cs - li"
          using nth(2) li cont by (auto simp: containing_child_def split: search.splits if_splits)
        ultimately obtain k1 k2 where IH:
          "get_post args ?xs ks2 s' (get_interior fuel f args cs (length A + 1) (key_range_new ks2) s') k1 k2"
          "\<forall>k \<in> set k1. \<exists>p \<in> set ?xs. k \<le> fst p"
          using less.hyps [of "length A + 1" ks2 s'] by blast
        with step True kr'(1) gl ks12 above show ?thesis
          by (rule_tac x = "ks1 @ k1" in exI, rule_tac x = k2 in exI)
            (auto simp: get_post_def get_list_append)
      next
        case False
        with nf step have "get_interior fuel f args cs li (key_range_new ks) s = (r, kr', s')"
          by (cases r) (auto split: bool.splits)
        with gl nf False ks12 above show ?thesis
          by (rule_tac x = ks1 in exI, rule_tac x = ks2 in exI) (simp add: get_post_def)
      qed
    qed
  qed
qed

lemma get_node_ok:
  assumes ns: "\<forall>s k i. fst (get_evaluator args s k i) \<noteq> Stop"
    and "nwf f red n (node e)" and "ksorted (nflat f n (node e))" and "sorted_wrt (<) ks" and "n < fuel"
  shows "\<exists>ks1 ks2. get_post args (nflat f n (node e)) ks s (get fuel f args e (key_range_new ks) s) ks1 ks2 \<and>
    (\<forall>k \<in> set (tl ks1). \<exists>p \<in> set (nflat f n (node e)). k \<le> fst p)"
  using assms(2-)
proof (induction n arbitrary: fuel e ks s)
  case 0
  then obtain cs fuel' where cs: "node e = Leaf cs" "fuel = Suc fuel'" by (cases fuel) (auto elim: nwf_0E)
  have "\<forall>k \<in> set ks. \<forall>e \<in> set (take 0 cs). ke_key e < k" by simp
  from get_leaf_ok [OF ns _ 0(3) le0 this, of s False] 0(2) cs show ?case by simp
next
  case (Suc n)
  then obtain cs fuel' where cs: "node e = Interior cs" "\<forall>c \<in> set cs. child_ok f red n c" "fuel = Suc fuel'"
    by (cases fuel) (auto elim: nwf_SucE)
  have low: "\<forall>k \<in> set ks. \<forall>p \<in> set (cflats f n (take 0 cs)). fst p < k" by simp
  have sorted: "ksorted (cflats f n cs)" using Suc.prems(2) cs(1) by (simp add: nflat_Suc)
  have fuel: "n < fuel'" using Suc.prems(4) cs(3) by simp
  from get_interior_ok [OF Suc.IH [OF _ _ _ fuel] cs(2) sorted Suc.prems(3) low, of s]
  obtain ks1 ks2 where "get_post args (cflats f n cs) ks s
      (get_interior fuel' f args cs 0 (key_range_new ks) s) ks1 ks2"
    "\<forall>k \<in> set ks1. \<exists>p \<in> set (cflats f n cs). k \<le> fst p" by blast
  with cs show ?case
    by (rule_tac x = ks1 in exI, rule_tac x = ks2 in exI) (cases ks1; simp add: nflat_Suc)
qed

theorem get_eq:
  assumes "\<forall>s k i. fst (get_evaluator args s k i) \<noteq> Stop"
    and "nwf f red n (node e)" and "ksorted (nflat f n (node e))" and "sorted_wrt (<) ks" and "n < fuel"
  obtains kr where "get fuel f args e (key_range_new ks) s =
    (fst (get_list args (nflat f n (node e)) ks s), kr, snd (get_list args (nflat f n (node e)) ks s))"
proof -
  obtain ks1 ks2 where post: "get_post args (nflat f n (node e)) ks s (get fuel f args e (key_range_new ks) s) ks1 ks2"
    using get_node_ok [OF assms, of s] by blast
  obtain r kr' s' where g: "get fuel f args e (key_range_new ks) s = (r, kr', s')" by (metis prod_cases3)
  have "get_list args (nflat f n (node e)) ks s = (r, s')"
  proof (cases "r = Ok True")
    case True
    with post g have "\<forall>k \<in> set ks2. map_of (nflat f n (node e)) k = None"
      by (auto simp: get_post_def map_of_eq_None_iff)
    with post g True show ?thesis by (simp add: get_post_def get_list_append get_list_missing)
  next
    case False
    with post g show ?thesis
      by (auto simp: get_post_def get_list_append split: res.splits bool.splits)
  qed
  with g that show thesis by simp
qed

section \<open>Lookup of several keys with their values\<close>

record ('i, 's) get_multiple_args =
  gm_evaluator :: "'s \<Rightarrow> bytes \<Rightarrow> 'i \<Rightarrow> scan_evaluation \<times> 's"
  gm_reader :: "'s \<Rightarrow> bytes \<Rightarrow> bytes \<Rightarrow> 'i \<Rightarrow> unit res \<times> 's"

text \<open>The closures \<^verbatim>\<open>get_multiple\<close> hands to \<^verbatim>\<open>get\<close>: they collect the entries to read.\<close>

definition collecting_args ::
    "('i \<Rightarrow> u64) \<Rightarrow> ('i, 's) get_multiple_args \<Rightarrow> ('i, 's \<times> (bytes \<times> 'i) list) get_args" where
  "collecting_args pos args =
     \<lparr>get_evaluator = (\<lambda>(s, ps) k i. case gm_evaluator args s k i of (ev, s') \<Rightarrow> (ev, (s', ps))),
      get_reader = (\<lambda>(s, ps) k i. (Ok (), (s, if pos i > 0 then ps @ [(k, i)] else ps)))\<rparr>"

fun read_positions ::
    "('i \<Rightarrow> u64) \<Rightarrow> (u64 \<Rightarrow> bytes res) \<Rightarrow> ('i, 's) get_multiple_args \<Rightarrow> (bytes \<times> 'i) list \<Rightarrow> 's \<Rightarrow>
     unit res \<times> 's" where
  "read_positions pos read args [] s = (Ok (), s)"
| "read_positions pos read args ((key, index) # ps) s =
     (if pos index > 0 then
        (case read (pos index) of
           Ok value \<Rightarrow>
             (case gm_reader args s key value index of
                (Ok u, s') \<Rightarrow> read_positions pos read args ps s'
              | other \<Rightarrow> other)
         | bad \<Rightarrow> (lift_err bad, s))
      else
        (case gm_reader args s key [] index of
           (Ok u, s') \<Rightarrow> read_positions pos read args ps s'
         | other \<Rightarrow> other))"

definition get_multiple ::
    "nat \<Rightarrow> (u64 \<Rightarrow> ('i, 'r) entry res) \<Rightarrow> ('i \<Rightarrow> u64) \<Rightarrow> (u64 \<Rightarrow> bytes res) \<Rightarrow>
     ('i, 's) get_multiple_args \<Rightarrow> ('i, 'r) entry \<Rightarrow> bytes list \<Rightarrow> 's \<Rightarrow> unit res \<times> 's" where
  "get_multiple fuel f pos read args e ks s =
     (case get fuel f (collecting_args pos args) e (key_range_new ks) (s, []) of
        (Ok b, kr, (s1, ps)) \<Rightarrow> read_positions pos read args (sort_key (\<lambda>p. pos (snd p)) ps) s1
      | (bad, kr, (s1, ps)) \<Rightarrow> (lift_err bad, s1))"

definition found_entries :: "('i \<Rightarrow> u64) \<Rightarrow> (bytes \<times> 'i) list \<Rightarrow> bytes list \<Rightarrow> (bytes \<times> 'i) list" where
  "found_entries pos xs ks =
     concat (map (\<lambda>k. case map_of xs k of None \<Rightarrow> [] | Some i \<Rightarrow> if pos i > 0 then [(k, i)] else []) ks)"

lemma get_list_collecting:
  assumes "\<And>s k i. gm_evaluator args s k i = (ReadData, s)"
  shows "get_list (collecting_args pos args) xs ks (s, ps) = (Ok True, s, ps @ found_entries pos xs ks)"
  by (induction ks arbitrary: ps)
    (auto simp: found_entries_def get_entry_def collecting_args_def assms split: option.splits)

theorem get_multiple_eq:
  assumes reads: "\<And>s k i. gm_evaluator args s k i = (ReadData, s)"
    and "nwf f red n (node e)" and "ksorted (nflat f n (node e))" and "sorted_wrt (<) ks" and "n < fuel"
  shows "get_multiple fuel f pos read args e ks s =
    read_positions pos read args
      (sort_key (\<lambda>p. pos (snd p)) (found_entries pos (nflat f n (node e)) ks)) s"
proof -
  have ns: "\<forall>s k i. fst (get_evaluator (collecting_args pos args) s k i) \<noteq> Stop"
    using reads by (auto simp: collecting_args_def)
  obtain kr where "get fuel f (collecting_args pos args) e (key_range_new ks) (s, []) =
    (fst (get_list (collecting_args pos args) (nflat f n (node e)) ks (s, [])), kr,
     snd (get_list (collecting_args pos args) (nflat f n (node e)) ks (s, [])))"
    by (rule get_eq [OF ns assms(2-)])
  then show ?thesis by (simp add: get_multiple_def get_list_collecting [OF reads])
qed

end
