(* ===== verification/Bytes.thy ===== *)
theory Bytes
  imports Prelude
begin

text \<open>
  Big-endian encodings (\<^verbatim>\<open>byteorder::BigEndian\<close>, \<^verbatim>\<open>to_be_bytes\<close>) and reading from a byte slice that
  shrinks (\<^verbatim>\<open>ReadBytesExt\<close> on \<^verbatim>\<open>ArcBytes\<close>): round trips, and that the encoding of fixed width
  keeps the order of numbers, which the sequence index of a versioned tree relies on.
\<close>

section \<open>Big-endian numbers\<close>

lemma unat_bound: "unat (x :: 'a::len word) < 2 ^ LENGTH('a)"
  by (rule unsigned_less)

fun be_nat :: "nat \<Rightarrow> nat \<Rightarrow> bytes" where
  "be_nat 0 x = []"
| "be_nat (Suc n) x = of_nat (x div 256 ^ n) # be_nat n (x mod 256 ^ n)"

fun nat_be :: "bytes \<Rightarrow> nat" where
  "nat_be [] = 0"
| "nat_be (b # bs) = unat b * 256 ^ length bs + nat_be bs"

definition u16_be :: "u16 \<Rightarrow> bytes" where "u16_be x = be_nat 2 (unat x)"
definition u32_be :: "u32 \<Rightarrow> bytes" where "u32_be x = be_nat 4 (unat x)"
definition u64_be :: "u64 \<Rightarrow> bytes" where "u64_be x = be_nat 8 (unat x)"

lemma length_be_nat [simp]: "length (be_nat n x) = n"
  by (induction n arbitrary: x) auto

lemma length_u_be [simp]: "length (u16_be a) = 2" "length (u32_be b) = 4" "length (u64_be c) = 8"
  by (simp_all add: u16_be_def u32_be_def u64_be_def)

lemma nat_be_be_nat [simp]: "x < 256 ^ n \<Longrightarrow> nat_be (be_nat n x) = x"
proof (induction n arbitrary: x)
  case (Suc n)
  then have "x div 256 ^ n < 256" by (simp add: less_mult_imp_div_less)
  then have "unat (of_nat (x div 256 ^ n) :: u8) = x div 256 ^ n" by (simp add: unat_of_nat)
  then show ?case using Suc.IH [of "x mod 256 ^ n"] by (simp add: div_mult_mod_eq)
qed simp

lemma nat_be_bound: "nat_be bs < 256 ^ length bs"
proof (induction bs)
  case (Cons b bs)
  have "unat b \<le> 255" using unat_bound [of b] by simp
  then have "unat b * 256 ^ length bs \<le> 255 * 256 ^ length bs" by (rule mult_le_mono1)
  with Cons have "unat b * 256 ^ length bs + nat_be bs < 256 * 256 ^ length bs" by linarith
  then show ?case by simp
qed simp

lemma be_nat_nat_be [simp]: "be_nat (length bs) (nat_be bs) = bs"
proof (induction bs)
  case (Cons b bs)
  have "nat_be bs < 256 ^ length bs" by (rule nat_be_bound)
  with Cons show ?case by (simp add: div_add1_eq)
qed simp

text \<open>The lexicographic order of fixed width encodings is the order of numbers.\<close>

lemma of_nat_u8_less: "a < 256 \<Longrightarrow> b < 256 \<Longrightarrow> (of_nat a :: u8) < of_nat b \<longleftrightarrow> a < b"
  by (simp add: word_less_nat_alt unat_of_nat)

lemma of_nat_u8_eq: "a < 256 \<Longrightarrow> b < 256 \<Longrightarrow> (of_nat a :: u8) = of_nat b \<longleftrightarrow> a = b"
  by (simp add: word_unat_eq_iff unat_of_nat)

lemma div_mod_less:
  "(x::nat) < y \<longleftrightarrow> x div p < y div p \<or> x div p = y div p \<and> x mod p < y mod p"
proof
  assume "x < y"
  then have "x div p \<le> y div p" by (simp add: div_le_mono)
  moreover have "x mod p < y mod p" if "x div p = y div p"
    using \<open>x < y\<close> that by (metis add_less_cancel_left div_mult_mod_eq)
  ultimately show "x div p < y div p \<or> x div p = y div p \<and> x mod p < y mod p" by auto
next
  assume "x div p < y div p \<or> x div p = y div p \<and> x mod p < y mod p"
  then show "x < y"
    by (metis add_less_cancel_left div_le_mono div_mult_mod_eq linorder_not_le)
qed

lemma be_nat_less: "x < 256 ^ n \<Longrightarrow> y < 256 ^ n \<Longrightarrow> be_nat n x < be_nat n y \<longleftrightarrow> x < y"
proof (induction n arbitrary: x y)
  case (Suc n)
  then have "x div 256 ^ n < 256" "y div 256 ^ n < 256" by (simp_all add: less_mult_imp_div_less)
  with Suc.IH [of "x mod 256 ^ n" "y mod 256 ^ n"] div_mod_less [of x y "256 ^ n"] show ?case
    by (simp add: of_nat_u8_less of_nat_u8_eq)
qed simp

lemma unat_u64_bound: "unat (x :: u64) < 256 ^ 8"
  using unat_bound [of x] by simp

lemma u64_be_less [simp]: "u64_be x < u64_be y \<longleftrightarrow> x < y"
  using be_nat_less [OF unat_u64_bound unat_u64_bound, of x y]
  by (simp add: u64_be_def word_less_nat_alt del: be_nat.simps)

lemma u64_be_inj [simp]: "u64_be x = u64_be y \<longleftrightarrow> x = y"
  by (metis less_irrefl linorder_neqE u64_be_less)

section \<open>Readers\<close>

definition read_exact :: "nat \<Rightarrow> bytes \<Rightarrow> (bytes \<times> bytes) res" where
  "read_exact n r = (if n \<le> length r then Ok (take n r, drop n r) else Err (Io UnexpectedEof))"

definition read_u8 :: "bytes \<Rightarrow> (u8 \<times> bytes) res" where
  "read_u8 r = (case r of [] \<Rightarrow> Err (Io UnexpectedEof) | b # r' \<Rightarrow> Ok (b, r'))"

definition read_u16 :: "bytes \<Rightarrow> (u16 \<times> bytes) res" where
  "read_u16 r = res_map (\<lambda>(b, r'). (of_nat (nat_be b), r')) (read_exact 2 r)"

definition read_u32 :: "bytes \<Rightarrow> (u32 \<times> bytes) res" where
  "read_u32 r = res_map (\<lambda>(b, r'). (of_nat (nat_be b), r')) (read_exact 4 r)"

definition read_u64 :: "bytes \<Rightarrow> (u64 \<times> bytes) res" where
  "read_u64 r = res_map (\<lambda>(b, r'). (of_nat (nat_be b), r')) (read_exact 8 r)"

lemma read_exact_append [simp]: "length b = n \<Longrightarrow> read_exact n (b @ r) = Ok (b, r)"
  by (simp add: read_exact_def)

lemma read_u8_Cons [simp]: "read_u8 (b # r) = Ok (b, r)"
  by (simp add: read_u8_def)

lemma read_u16_be [simp]: "read_u16 (u16_be x @ r) = Ok (x, r)"
proof -
  have "unat x < 256 ^ 2" using unat_bound [of x] by simp
  then show ?thesis by (simp add: read_u16_def res_map_def u16_be_def del: be_nat.simps)
qed

lemma read_u32_be [simp]: "read_u32 (u32_be x @ r) = Ok (x, r)"
proof -
  have "unat x < 256 ^ 4" using unat_bound [of x] by simp
  then show ?thesis by (simp add: read_u32_def res_map_def u32_be_def del: be_nat.simps)
qed

lemma read_u64_be [simp]: "read_u64 (u64_be x @ r) = Ok (x, r)"
  using unat_u64_bound [of x] by (simp add: read_u64_def res_map_def u64_be_def del: be_nat.simps)

text \<open>\<^verbatim>\<open>u16::try_from(key.len())\<close> followed by the key: how keys are written.\<close>

definition put_key :: "bytes \<Rightarrow> bytes res" where
  "put_key key = (if length key < 2 ^ 16 then Ok (u16_be (of_nat (length key)) @ key) else Err KeyTooLarge)"

definition take_key :: "bytes \<Rightarrow> (bytes \<times> bytes) res" where
  "take_key r =
     res_bind (read_u16 r) (\<lambda>(key_len, r1).
       if unat key_len > length r1 then Err (DataIntegrity (Message ''key length''))
       else read_exact (unat key_len) r1)"

lemma take_put_key:
  assumes "put_key key = Ok b"
  shows "take_key (b @ r) = Ok (key, r)"
proof -
  have len: "length key < 2 ^ 16" and b: "b = u16_be (of_nat (length key)) @ key"
    using assms by (auto simp: put_key_def split: if_splits)
  have "unat (of_nat (length key) :: u16) = length key" using len by (simp add: unat_of_nat)
  then show ?thesis by (simp only: take_key_def b append_assoc read_u16_be res_bind.simps) simp
qed

lemma length_put_key: "put_key key = Ok b \<Longrightarrow> length b = 2 + length key"
  by (auto simp: put_key_def split: if_splits)

section \<open>Codecs\<close>

text \<open>
  The contract of \<^verbatim>\<open>BinarySerialization\<close> for the indexes and statistics kept in nodes: what is
  written reads back, whatever follows it.
\<close>

locale codec =
  fixes ser :: "'a \<Rightarrow> bytes res" and des :: "bytes \<Rightarrow> ('a \<times> bytes) res"
  assumes round_trip: "ser x = Ok b \<Longrightarrow> des (b @ r) = Ok (x, r)"
begin

lemma ser_inj: "ser x = Ok b \<Longrightarrow> ser y = Ok b \<Longrightarrow> x = y"
  using round_trip [of x b "[]"] round_trip [of y b "[]"] by simp

end

end
