(* ===== verification/Indexes.thy ===== *)
theory Indexes
  imports BTree_Inv Bytes
begin

text \<open>
  The indexes stored in leaves and the statistics stored in interior nodes
  (\<^verbatim>\<open>nebari/src/tree/by_id.rs\<close>, \<^verbatim>\<open>by_sequence.rs\<close>): their encodings, and the reducers that
  compute the statistics. The embedded index is supplied by the user of the library through a
  trait; its encoding and its reducer are parameters here.
\<close>

section \<open>Embedded indexes\<close>

text \<open>The implementation for \<^verbatim>\<open>()\<close>.\<close>

definition unit_ser :: "unit \<Rightarrow> bytes res" where
  "unit_ser u = Ok []"

definition unit_des :: "bytes \<Rightarrow> (unit \<times> bytes) res" where
  "unit_des r = Ok ((), r)"

definition unit_reducer :: "('i, unit) reducer" where
  "unit_reducer = \<lparr>reduce = (\<lambda>_. ()), rereduce = (\<lambda>_. ())\<rparr>"

text \<open>The contract of the encoding of an embedded index.\<close>

locale embedded_codec = codec eser edes
  for eser :: "'e \<Rightarrow> bytes res" and edes :: "bytes \<Rightarrow> ('e \<times> bytes) res"

interpretation unit_codec: embedded_codec unit_ser unit_des
  by unfold_locales (simp add: unit_ser_def unit_des_def)

section \<open>Indexes by id\<close>

record 'e unversioned_by_id =
  u_value_length :: u32
  u_position :: u64
  u_embedded :: 'e

record 'e versioned_by_id =
  v_sequence_id :: u64
  v_value_length :: u32
  v_position :: u64
  v_embedded :: 'e

definition ser_unversioned :: "('e \<Rightarrow> bytes res) \<Rightarrow> 'e unversioned_by_id \<Rightarrow> bytes res" where
  "ser_unversioned eser x =
     res_map (\<lambda>e. u32_be (u_value_length x) @ u64_be (u_position x) @ e) (eser (u_embedded x))"

definition des_unversioned :: "(bytes \<Rightarrow> ('e \<times> bytes) res) \<Rightarrow> bytes \<Rightarrow> ('e unversioned_by_id \<times> bytes) res" where
  "des_unversioned edes r =
     res_bind (read_u32 r) (\<lambda>(len, r1).
     res_bind (read_u64 r1) (\<lambda>(p, r2).
     res_bind (edes r2) (\<lambda>(e, r3).
       Ok (\<lparr>u_value_length = len, u_position = p, u_embedded = e\<rparr>, r3))))"

definition ser_versioned :: "('e \<Rightarrow> bytes res) \<Rightarrow> 'e versioned_by_id \<Rightarrow> bytes res" where
  "ser_versioned eser x =
     res_map (\<lambda>e. u64_be (v_sequence_id x) @ u32_be (v_value_length x) @ u64_be (v_position x) @ e)
       (eser (v_embedded x))"

definition des_versioned :: "(bytes \<Rightarrow> ('e \<times> bytes) res) \<Rightarrow> bytes \<Rightarrow> ('e versioned_by_id \<times> bytes) res" where
  "des_versioned edes r =
     res_bind (read_u64 r) (\<lambda>(sid, r0).
     res_bind (read_u32 r0) (\<lambda>(len, r1).
     res_bind (read_u64 r1) (\<lambda>(p, r2).
     res_bind (edes r2) (\<lambda>(e, r3).
       Ok (\<lparr>v_sequence_id = sid, v_value_length = len, v_position = p, v_embedded = e\<rparr>, r3)))))"

record 'es by_id_stats =
  alive_keys :: u64
  deleted_keys :: u64
  total_indexed_bytes :: u64
  s_embedded :: 'es

definition total_keys :: "'es by_id_stats \<Rightarrow> u64" where
  "total_keys st = alive_keys st + deleted_keys st"

definition ser_by_id_stats :: "('es \<Rightarrow> bytes res) \<Rightarrow> 'es by_id_stats \<Rightarrow> bytes res" where
  "ser_by_id_stats eser x =
     res_map (\<lambda>e. u64_be (alive_keys x) @ u64_be (deleted_keys x) @ u64_be (total_indexed_bytes x) @ e)
       (eser (s_embedded x))"

definition des_by_id_stats :: "(bytes \<Rightarrow> ('es \<times> bytes) res) \<Rightarrow> bytes \<Rightarrow> ('es by_id_stats \<times> bytes) res" where
  "des_by_id_stats edes r =
     res_bind (read_u64 r) (\<lambda>(alive, r1).
     res_bind (read_u64 r1) (\<lambda>(deleted, r2).
     res_bind (read_u64 r2) (\<lambda>(total_bytes, r3).
     res_bind (edes r3) (\<lambda>(e, r4).
       Ok (\<lparr>alive_keys = alive, deleted_keys = deleted, total_indexed_bytes = total_bytes, s_embedded = e\<rparr>,
           r4)))))"

sublocale embedded_codec \<subseteq> unversioned_codec: codec "ser_unversioned eser" "des_unversioned edes"
  by unfold_locales (auto simp: ser_unversioned_def des_unversioned_def res_map_def round_trip)

sublocale embedded_codec \<subseteq> versioned_codec: codec "ser_versioned eser" "des_versioned edes"
  by unfold_locales (auto simp: ser_versioned_def des_versioned_def res_map_def round_trip)

sublocale embedded_codec \<subseteq> by_id_stats_codec: codec "ser_by_id_stats eser" "des_by_id_stats edes"
  by unfold_locales (auto simp: ser_by_id_stats_def des_by_id_stats_def res_map_def round_trip)

section \<open>Indexes by sequence\<close>

record 'e by_sequence_index =
  q_key :: bytes
  q_last_sequence :: "u64 option"
  q_value_length :: u32
  q_position :: u64
  q_embedded :: "'e option"

definition sequence_valid :: "u64 \<Rightarrow> bool" where
  "sequence_valid s \<longleftrightarrow> s > 0"

definition next_sequence :: "u64 \<Rightarrow> u64 option" where
  "next_sequence s = (if s = - 1 then None else Some (s + 1))"

definition ser_by_sequence :: "('e \<Rightarrow> bytes res) \<Rightarrow> 'e by_sequence_index \<Rightarrow> bytes res" where
  "ser_by_sequence eser x =
     res_bind (put_key (q_key x)) (\<lambda>k.
     res_bind (case q_embedded x of Some e \<Rightarrow> eser e | None \<Rightarrow> Ok []) (\<lambda>e.
       Ok (u32_be (q_value_length x) @ u64_be (q_position x) @
           u64_be (case q_last_sequence x of Some s \<Rightarrow> s | None \<Rightarrow> 0) @ k @ e)))"

definition des_by_sequence :: "(bytes \<Rightarrow> ('e \<times> bytes) res) \<Rightarrow> bytes \<Rightarrow> ('e by_sequence_index \<times> bytes) res" where
  "des_by_sequence edes r =
     res_bind (read_u32 r) (\<lambda>(len, r1).
     res_bind (read_u64 r1) (\<lambda>(p, r2).
     res_bind (read_u64 r2) (\<lambda>(ls, r3).
     res_bind (take_key r3) (\<lambda>(key, r4).
     res_bind (if r4 = [] then Ok (None, r4) else res_map (\<lambda>(e, r5). (Some e, r5)) (edes r4)) (\<lambda>(e, r5).
       Ok (\<lparr>q_key = key, q_last_sequence = (if sequence_valid ls then Some ls else None),
            q_value_length = len, q_position = p, q_embedded = e\<rparr>, r5))))))"

record by_sequence_stats =
  total_sequences :: u64

definition ser_by_sequence_stats :: "by_sequence_stats \<Rightarrow> bytes res" where
  "ser_by_sequence_stats x = Ok (u64_be (total_sequences x))"

definition des_by_sequence_stats :: "bytes \<Rightarrow> (by_sequence_stats \<times> bytes) res" where
  "des_by_sequence_stats r = res_map (\<lambda>(n, r1). (\<lparr>total_sequences = n\<rparr>, r1)) (read_u64 r)"

interpretation by_sequence_stats_codec: codec ser_by_sequence_stats des_by_sequence_stats
  by unfold_locales (auto simp: ser_by_sequence_stats_def des_by_sequence_stats_def res_map_def)

text \<open>
  An index by sequence does not satisfy the contract: whether an embedded index follows is told by
  the end of the input. It reads back when its embedded index takes up space, or when input
  follows.
\<close>

context embedded_codec
begin

lemma by_sequence_round_trip:
  assumes "ser_by_sequence eser x = Ok b" and "q_embedded x = Some e" and "q_last_sequence x \<noteq> Some 0"
    and "eser e \<noteq> Ok [] \<or> r \<noteq> []"
  shows "des_by_sequence edes (b @ r) = Ok (x, r)"
proof -
  from assms(1,2) obtain k eb where k: "put_key (q_key x) = Ok k" and eb: "eser e = Ok eb"
    and b: "b = u32_be (q_value_length x) @ u64_be (q_position x) @
        u64_be (case q_last_sequence x of Some s \<Rightarrow> s | None \<Rightarrow> 0) @ k @ eb"
    by (auto simp: ser_by_sequence_def)
  have "eb @ r \<noteq> []" using assms(4) eb by auto
  with assms(2,3) show ?thesis
    unfolding des_by_sequence_def b
    by (cases x) (auto simp: take_put_key [OF k] round_trip [OF eb] res_map_def sequence_valid_def
        word_gt_0 split: option.splits)
qed

end

section \<open>Reducers\<close>

text \<open>\<^verbatim>\<open>IdIndex\<close>: value size, position and embedded index of both kinds of indexes.\<close>

definition by_id_reducer ::
    "('i \<Rightarrow> u32) \<Rightarrow> ('i \<Rightarrow> u64) \<Rightarrow> ('i \<Rightarrow> 'e) \<Rightarrow> ('e, 'es) reducer \<Rightarrow> ('i, 'es by_id_stats) reducer" where
  "by_id_reducer size_of pos emb red =
     \<lparr>reduce = (\<lambda>xs.
        \<lparr>alive_keys = sum_list (map (\<lambda>x. if pos x > 0 then 1 else 0) xs),
         deleted_keys = sum_list (map (\<lambda>x. if pos x > 0 then 0 else 1) xs),
         total_indexed_bytes = sum_list (map (\<lambda>x. if pos x > 0 then ucast (size_of x) else 0) xs),
         s_embedded = reduce red (map emb xs)\<rparr>),
      rereduce = (\<lambda>xs.
        \<lparr>alive_keys = sum_list (map alive_keys xs),
         deleted_keys = sum_list (map deleted_keys xs),
         total_indexed_bytes = sum_list (map total_indexed_bytes xs),
         s_embedded = rereduce red (map s_embedded xs)\<rparr>)\<rparr>"

definition unversioned_reducer :: "('e, 'es) reducer \<Rightarrow> ('e unversioned_by_id, 'es by_id_stats) reducer" where
  "unversioned_reducer = by_id_reducer u_value_length u_position u_embedded"

definition versioned_reducer :: "('e, 'es) reducer \<Rightarrow> ('e versioned_by_id, 'es by_id_stats) reducer" where
  "versioned_reducer = by_id_reducer v_value_length v_position v_embedded"

definition by_sequence_reducer :: "('e by_sequence_index, by_sequence_stats) reducer" where
  "by_sequence_reducer =
     \<lparr>reduce = (\<lambda>xs. \<lparr>total_sequences = of_nat (length xs)\<rparr>),
      rereduce = (\<lambda>xs. \<lparr>total_sequences = sum_list (map total_sequences xs)\<rparr>)\<rparr>"

text \<open>
  What makes the statistics of a node those of its contents: reducing reductions is reducing the
  whole. The reducers of the library have the property when the embedded reducer has it.
\<close>

locale lawful_reducer =
  fixes red :: "('i, 'r) reducer"
  assumes rereduce_reduce: "rereduce red (map (reduce red) xss) = reduce red (concat xss)"
begin

lemma stats_of_contents:
  assumes "nwf f red n (node e)"
  shows "stats red e = Ok (reduce red (map snd (nflat f n (node e))))"
  using assms
proof (induction n arbitrary: e)
  case 0
  then obtain cs where "node e = Leaf cs" by (auto elim: nwf_0E)
  then show ?case by (cases e) (simp add: o_def)
next
  case (Suc n)
  then obtain cs where cs: "node e = Interior cs" "\<forall>c \<in> set cs. child_ok f red n c" by (auto elim: nwf_SucE)
  have "i_stats c = reduce red (map snd (cflat f n c))" if "c \<in> set cs" for c
  proof -
    from cs(2) that obtain ce where "resolve f (i_position c) = Ok ce" "nwf f red n (node ce)"
      "stats red ce = Ok (i_stats c)" by (auto elim: child_okE)
    with Suc.IH [of ce] show ?thesis by (simp add: cflat_def)
  qed
  then have "map i_stats cs = map (reduce red) (map (\<lambda>c. map snd (cflat f n c)) cs)" by simp
  then have "rereduce red (map i_stats cs) = reduce red (concat (map (\<lambda>c. map snd (cflat f n c)) cs))"
    by (simp only: rereduce_reduce)
  with cs(1) show ?case by (cases e) (simp add: nflat_Suc map_concat o_def)
qed

end

lemma sum_list_concat: "sum_list (concat xss) = sum_list (map sum_list (xss :: u64 list list))"
  by (induction xss) simp_all

lemma by_id_reduce_concat:
  assumes "\<And>xss. rereduce red (map (reduce red) xss) = reduce red (concat xss)"
  shows "rereduce (by_id_reducer size_of pos emb red) (map (reduce (by_id_reducer size_of pos emb red)) xss) =
    reduce (by_id_reducer size_of pos emb red) (concat xss)"
  using assms [of "map (map emb) xss"]
  by (simp add: by_id_reducer_def map_concat sum_list_concat o_def)

locale embedded_reducer = lawful_reducer ered
  for ered :: "('e, 'es) reducer"

sublocale embedded_reducer \<subseteq> unversioned_stats: lawful_reducer "unversioned_reducer ered"
  by unfold_locales (simp add: unversioned_reducer_def by_id_reduce_concat rereduce_reduce)

sublocale embedded_reducer \<subseteq> versioned_stats: lawful_reducer "versioned_reducer ered"
  by unfold_locales (simp add: versioned_reducer_def by_id_reduce_concat rereduce_reduce)

interpretation unit_reducer_law: embedded_reducer unit_reducer
  by unfold_locales (simp add: unit_reducer_def)

interpretation by_sequence_stats: lawful_reducer by_sequence_reducer
proof
  fix xss :: "'a by_sequence_index list list"
  have "sum_list (map (\<lambda>xs. of_nat (length xs)) xss) = (of_nat (length (concat xss)) :: u64)"
    by (induction xss) simp_all
  then show "rereduce by_sequence_reducer (map (reduce by_sequence_reducer) xss) =
      reduce by_sequence_reducer (concat xss)"
    by (simp add: by_sequence_reducer_def o_def)
qed

end
