(* ===== verification/Serialization.thy ===== *)
theory Serialization
  imports Indexes BTree_Root
begin

text \<open>
  Writing a tree to its file and reading it back: \<^verbatim>\<open>BinarySerialization\<close> for \<^verbatim>\<open>KeyEntry\<close>,
  \<^verbatim>\<open>Interior\<close> and \<^verbatim>\<open>BTreeEntry\<close>. Serializing an interior node first writes every child that is
  dirty (or was never written) as a chunk of its own and then keeps only the position of the child.
  The encoders of the index and of the statistics (\<open>iser\<close>, \<open>rser\<close>) and the chunk writer \<open>wc\<close> are
  parameters; theories \<open>Indexes\<close> and \<open>Chunk_IO\<close> provide them. The node cache that
  \<^verbatim>\<open>replace_with_decoded\<close> fills is left out: \<open>ser_entry_ok\<close> shows that the node put there is the node
  the chunk decodes to.
\<close>

section \<open>Writing\<close>

definition ser_key_entry :: "('i \<Rightarrow> bytes res) \<Rightarrow> 'i key_entry \<Rightarrow> bytes res" where
  "ser_key_entry iser e =
     res_bind (put_key (ke_key e)) (\<lambda>k. res_bind (iser (ke_index e)) (\<lambda>i. Ok (k @ i)))"

fun ser_leaves :: "('i \<Rightarrow> bytes res) \<Rightarrow> 'i key_entry list \<Rightarrow> bytes res" where
  "ser_leaves iser [] = Ok []"
| "ser_leaves iser (l # ls) =
     res_bind (ser_key_entry iser l) (\<lambda>b. res_bind (ser_leaves iser ls) (\<lambda>bs. Ok (b @ bs)))"

text \<open>The key, the position and the statistics of an interior entry whose child is on disk.\<close>

definition ser_interior_fields :: "('r \<Rightarrow> bytes res) \<Rightarrow> bytes \<Rightarrow> u64 \<Rightarrow> 'r \<Rightarrow> bytes res" where
  "ser_interior_fields rser key position st =
     res_bind (put_key key) (\<lambda>k. res_bind (rser st) (\<lambda>s. Ok (k @ u64_be position @ s)))"

fun ser_entry ::
    "(bytes \<Rightarrow> 'w \<Rightarrow> u64 res \<times> 'w) \<Rightarrow> ('i \<Rightarrow> bytes res) \<Rightarrow> ('r \<Rightarrow> bytes res) \<Rightarrow> ('i, 'r) entry \<Rightarrow> 'w \<Rightarrow>
     bytes res \<times> ('i, 'r) entry \<times> 'w"
and ser_interiors ::
    "(bytes \<Rightarrow> 'w \<Rightarrow> u64 res \<times> 'w) \<Rightarrow> ('i \<Rightarrow> bytes res) \<Rightarrow> ('r \<Rightarrow> bytes res) \<Rightarrow> ('i, 'r) interior list \<Rightarrow> 'w \<Rightarrow>
     bytes res \<times> ('i, 'r) interior list \<times> 'w"
and ser_interior ::
    "(bytes \<Rightarrow> 'w \<Rightarrow> u64 res \<times> 'w) \<Rightarrow> ('i \<Rightarrow> bytes res) \<Rightarrow> ('r \<Rightarrow> bytes res) \<Rightarrow> ('i, 'r) interior \<Rightarrow> 'w \<Rightarrow>
     bytes res \<times> ('i, 'r) interior \<times> 'w"
where
  "ser_entry wc iser rser (BTreeEntry d (Leaf leafs)) w =
     (res_map (\<lambda>b. 1 # b) (ser_leaves iser leafs), BTreeEntry False (Leaf leafs), w)"
| "ser_entry wc iser rser (BTreeEntry d (Interior interiors)) w =
     (case ser_interiors wc iser rser interiors w of
        (r, interiors', w') \<Rightarrow> (res_map (\<lambda>b. 0 # b) r, BTreeEntry False (Interior interiors'), w'))"
| "ser_entry wc iser rser (BTreeEntry d Uninitialized) w = (Panic, BTreeEntry False Uninitialized, w)"
| "ser_interiors wc iser rser [] w = (Ok [], [], w)"
| "ser_interiors wc iser rser (c # cs) w =
     (case ser_interior wc iser rser c w of
        (Ok b, c', w1) \<Rightarrow>
          (case ser_interiors wc iser rser cs w1 of
             (r, cs', w2) \<Rightarrow> (res_map (\<lambda>bs. b @ bs) r, c' # cs', w2))
      | (bad, c', w1) \<Rightarrow> (bad, c' # cs, w1))"
| "ser_interior wc iser rser (InteriorEntry key (OnDisk position) st) w =
     (ser_interior_fields rser key position st, InteriorEntry key (OnDisk position) st, w)"
| "ser_interior wc iser rser (InteriorEntry key (Loaded prev e) st) w =
     (if \<not> dirty e \<and> prev \<noteq> None then
        (ser_interior_fields rser key (the prev) st, InteriorEntry key (OnDisk (the prev)) st, w)
      else
        (case ser_entry wc iser rser e w of
           (Ok b, e', w1) \<Rightarrow>
             (case wc b w1 of
                (Ok position, w2) \<Rightarrow>
                  (ser_interior_fields rser key position st, InteriorEntry key (OnDisk position) st, w2)
              | (bad, w2) \<Rightarrow> (lift_err bad, InteriorEntry key (OnDisk 0) st, w2))
         | (bad, e', w1) \<Rightarrow> (bad, InteriorEntry key (OnDisk 0) st, w1)))"

section \<open>Reading\<close>

definition des_key_entry :: "(bytes \<Rightarrow> ('i \<times> bytes) res) \<Rightarrow> bytes \<Rightarrow> ('i key_entry \<times> bytes) res" where
  "des_key_entry ides r =
     res_bind (take_key r) (\<lambda>(key, r1). res_bind (ides r1) (\<lambda>(i, r2). Ok (KeyEntry key i, r2)))"

definition des_interior :: "(bytes \<Rightarrow> ('r \<times> bytes) res) \<Rightarrow> bytes \<Rightarrow> (('i, 'r) interior \<times> bytes) res" where
  "des_interior rdes r =
     res_bind (take_key r) (\<lambda>(key, r1).
     res_bind (read_u64 r1) (\<lambda>(position, r2).
     res_bind (rdes r2) (\<lambda>(st, r3). Ok (InteriorEntry key (OnDisk position) st, r3))))"

text \<open>\<^verbatim>\<open>while !reader.is_empty()\<close>; every round takes at least two bytes, so the length bounds it.\<close>

fun des_list :: "nat \<Rightarrow> (bytes \<Rightarrow> ('a \<times> bytes) res) \<Rightarrow> bytes \<Rightarrow> 'a list res" where
  "des_list fuel des [] = Ok []"
| "des_list 0 des (b # r) = OutOfFuel"
| "des_list (Suc fuel) des (b # r) =
     res_bind (des (b # r)) (\<lambda>(x, r'). res_bind (des_list fuel des r') (\<lambda>xs. Ok (x # xs)))"

definition des_entry ::
    "(bytes \<Rightarrow> ('i \<times> bytes) res) \<Rightarrow> (bytes \<Rightarrow> ('r \<times> bytes) res) \<Rightarrow> bytes \<Rightarrow> ('i, 'r) entry res" where
  "des_entry ides rdes r =
     res_bind (read_u8 r) (\<lambda>(header, r1).
       if header = 0 then
         res_map (\<lambda>ns. BTreeEntry False (Interior ns)) (des_list (length r1) (des_interior rdes) r1)
       else if header = 1 then
         res_map (\<lambda>ns. BTreeEntry False (Leaf ns)) (des_list (length r1) (des_key_entry ides) r1)
       else Err (DataIntegrity (Message ''invalid node header'')))"

section \<open>Round trip of one node\<close>

lemma des_list_mono: "des_list m des r = Ok xs \<Longrightarrow> m \<le> n \<Longrightarrow> des_list n des r = Ok xs"
proof (induction m arbitrary: n r xs)
  case 0
  then show ?case by (cases r) simp_all
next
  case (Suc m)
  from Suc.prems(2) obtain n' where n: "n = Suc n'" "m \<le> n'" by (cases n) auto
  show ?case
  proof (cases r)
    case (Cons b r')
    with Suc.prems(1) obtain x r'' ys where
      x: "des (b # r') = Ok (x, r'')" "des_list m des r'' = Ok ys" "xs = x # ys" by auto
    have "des_list n' des r'' = Ok ys" by (rule Suc.IH [OF x(2) n(2)])
    with x n(1) Cons show ?thesis by simp
  qed (use Suc.prems in simp)
qed

lemma des_list_Cons:
  assumes "des (b @ bs) = Ok (x, bs)" and "b \<noteq> []" and "des_list (length bs) des bs = Ok xs"
  shows "des_list (length (b @ bs)) des (b @ bs) = Ok (x # xs)"
proof -
  obtain c b' where b: "b = c # b'" using assms(2) by (cases b) auto
  have "des_list (length (b' @ bs)) des bs = Ok xs" by (rule des_list_mono [OF assms(3)]) simp
  with assms(1) b show ?thesis by simp
qed

lemma put_key_not_Nil: "put_key k = Ok b \<Longrightarrow> b \<noteq> []"
  using length_put_key [of k b] by auto

locale node_codec = I: codec iser ides + R: codec rser rdes
  for iser :: "'i \<Rightarrow> bytes res" and ides and rser :: "'r \<Rightarrow> bytes res" and rdes
begin

lemma key_entry_round_trip: "ser_key_entry iser x = Ok b \<Longrightarrow> des_key_entry ides (b @ r) = Ok (x, r)"
  by (cases x) (auto simp: ser_key_entry_def des_key_entry_def take_put_key I.round_trip)

lemma leaves_round_trip: "ser_leaves iser ls = Ok b \<Longrightarrow> des_list (length b) (des_key_entry ides) b = Ok ls"
proof (induction ls arbitrary: b)
  case (Cons l ls)
  then obtain b1 b2 where b: "ser_key_entry iser l = Ok b1" "ser_leaves iser ls = Ok b2" "b = b1 @ b2" by auto
  have "b1 \<noteq> []" using b(1) put_key_not_Nil by (auto simp: ser_key_entry_def)
  then show ?case unfolding b(3)
    by (rule des_list_Cons [OF key_entry_round_trip [OF b(1)] _ Cons.IH [OF b(2)]])
qed simp

lemma interior_round_trip:
  "ser_interior_fields rser key p st = Ok b \<Longrightarrow>
     des_interior rdes (b @ r) = Ok (InteriorEntry key (OnDisk p) st, r)"
  by (auto simp: ser_interior_fields_def des_interior_def take_put_key R.round_trip)

text \<open>A serialized interior entry holds its child by position, with the same key and statistics.\<close>

lemma ser_interior_result:
  assumes "ser_interior wc iser rser c w = (Ok b, c', w')"
  obtains p where "c' = InteriorEntry (i_key c) (OnDisk p) (i_stats c)"
    and "ser_interior_fields rser (i_key c) p (i_stats c) = Ok b"
proof (cases c)
  case (InteriorEntry key p st)
  with assms that show thesis
    by (cases p) (auto split: if_splits prod.splits res.splits)
qed

lemma interiors_round_trip:
  "ser_interiors wc iser rser cs w = (Ok b, cs', w') \<Longrightarrow>
     des_list (length b) (des_interior rdes) b = Ok cs' \<and> map i_stats cs' = map i_stats cs"
proof (induction cs arbitrary: b cs' w)
  case (Cons c cs)
  obtain r c1 w1 where c1: "ser_interior wc iser rser c w = (r, c1, w1)" by (metis prod_cases3)
  with Cons.prems obtain b1 where r: "r = Ok b1" by (cases r) auto
  obtain r2 cs2 w2 where 2: "ser_interiors wc iser rser cs w1 = (r2, cs2, w2)" by (metis prod_cases3)
  with Cons.prems c1 r obtain b2 where b2: "r2 = Ok b2" "b = b1 @ b2" "cs' = c1 # cs2" "w' = w2"
    by (auto simp: res_map_def)
  from c1 r obtain p where p: "c1 = InteriorEntry (i_key c) (OnDisk p) (i_stats c)"
    "ser_interior_fields rser (i_key c) p (i_stats c) = Ok b1" by (metis ser_interior_result)
  have "b1 \<noteq> []" using p(2) put_key_not_Nil by (auto simp: ser_interior_fields_def)
  moreover have IH: "des_list (length b2) (des_interior rdes) b2 = Ok cs2" "map i_stats cs2 = map i_stats cs"
    using Cons.IH [of w1 b2 cs2] 2 b2(1,4) by simp_all
  ultimately have "des_list (length (b1 @ b2)) (des_interior rdes) (b1 @ b2) = Ok (c1 # cs2)"
    unfolding p(1) by (intro des_list_Cons interior_round_trip [OF p(2)])
  with b2 IH p(1) show ?case by simp
qed simp

lemma node_round_trip:
  assumes "ser_entry wc iser rser e w = (Ok b, e', w')"
  shows "des_entry ides rdes b = Ok e' \<and> \<not> dirty e' \<and> stats red e' = stats red e"
proof (cases e)
  case (BTreeEntry d nd)
  show ?thesis
  proof (cases nd)
    case (Leaf ls)
    with assms BTreeEntry obtain b' where "ser_leaves iser ls = Ok b'" "b = 1 # b'" "e' = BTreeEntry False (Leaf ls)"
      by (auto simp: res_map_def)
    with leaves_round_trip BTreeEntry Leaf show ?thesis by (simp add: des_entry_def res_map_def)
  next
    case (Interior cs)
    obtain r cs' w1 where 1: "ser_interiors wc iser rser cs w = (r, cs', w1)" by (metis prod_cases3)
    with assms BTreeEntry Interior obtain b' where "r = Ok b'" "b = 0 # b'" "e' = BTreeEntry False (Interior cs')"
      by (auto simp: res_map_def)
    with interiors_round_trip [of wc cs w b' cs' w1] 1 BTreeEntry Interior show ?thesis
      by (simp add: des_entry_def res_map_def)
  qed (use assms BTreeEntry in simp)
qed

end

section \<open>The chunk store\<close>

text \<open>
  What a tree relies on of its file: a chunk that was written reads back, and writing keeps every
  chunk that could be read. \<open>rc w\<close> reads a chunk of the file behind the writer \<open>w\<close>; \<open>inv\<close> is the
  invariant of the writer, and \<open>fits\<close> says that its positions have not outgrown their integer type.
\<close>

locale chunk_store =
  fixes wc :: "bytes \<Rightarrow> 'w \<Rightarrow> u64 res \<times> 'w" and rc :: "'w \<Rightarrow> u64 \<Rightarrow> bytes res"
    and inv :: "'w \<Rightarrow> bool" and fits :: "'w \<Rightarrow> bool"
  assumes read_back: "inv w \<Longrightarrow> wc b w = (Ok p, w') \<Longrightarrow> fits w' \<Longrightarrow> rc w' p = Ok b"
    and keeps: "inv w \<Longrightarrow> wc b w = (r, w') \<Longrightarrow> rc w q = Ok x \<Longrightarrow> rc w' q = Ok x"
    and inv_step: "inv w \<Longrightarrow> wc b w = (r, w') \<Longrightarrow> inv w'"
    and fits_back: "inv w \<Longrightarrow> wc b w = (r, w') \<Longrightarrow> fits w' \<Longrightarrow> fits w"

definition node_reader ::
    "('w \<Rightarrow> u64 \<Rightarrow> bytes res) \<Rightarrow> (bytes \<Rightarrow> ('i \<times> bytes) res) \<Rightarrow> (bytes \<Rightarrow> ('r \<times> bytes) res) \<Rightarrow>
     ('i, 'r, 'w) node_reader" where
  "node_reader rc ides rdes w p = res_bind (rc w p) (des_entry ides rdes)"

locale tree_store = node_codec iser ides rser rdes + chunk_store wc rc inv fits
  for iser :: "'i \<Rightarrow> bytes res" and ides and rser :: "'r \<Rightarrow> bytes res" and rdes
    and wc :: "bytes \<Rightarrow> 'w \<Rightarrow> u64 res \<times> 'w" and rc and inv and fits
begin

abbreviation rd :: "('i, 'r, 'w) node_reader" where
  "rd \<equiv> node_reader rc ides rdes"

lemma write_extends: "inv w \<Longrightarrow> wc b w = (r, w') \<Longrightarrow> extends (rd w) (rd w')"
  by (auto simp: extends_def node_reader_def dest: keeps)

text \<open>What a serialization does to the file, whatever its outcome.\<close>

definition grows :: "'w \<Rightarrow> 'w \<Rightarrow> bool" where
  "grows w w' \<longleftrightarrow> inv w' \<and> (fits w' \<longrightarrow> fits w) \<and> (\<forall>q x. rc w q = Ok x \<longrightarrow> rc w' q = Ok x) \<and>
     extends (rd w) (rd w')"

lemma grows_refl: "inv w \<Longrightarrow> grows w w"
  by (simp add: grows_def)

lemma grows_trans: "grows w w1 \<Longrightarrow> grows w1 w2 \<Longrightarrow> grows w w2"
  using extends_trans by (auto simp: grows_def)

lemma grows_write: "inv w \<Longrightarrow> wc b w = (r, w') \<Longrightarrow> grows w w'"
  using inv_step fits_back keeps write_extends by (auto simp: grows_def)

lemma ser_interiors_grows:
  assumes "\<And>c w. c \<in> set cs \<Longrightarrow> inv w \<Longrightarrow> grows w (snd (snd (ser_interior wc iser rser c w)))"
    and "inv w"
  shows "grows w (snd (snd (ser_interiors wc iser rser cs w)))"
  using assms
proof (induction cs arbitrary: w)
  case (Cons c cs)
  obtain r c1 w1 where c1: "ser_interior wc iser rser c w = (r, c1, w1)" by (metis prod_cases3)
  have g1: "grows w w1" using Cons.prems(1) [of c w] Cons.prems(2) c1 by simp
  obtain r2 cs2 w2 where 2: "ser_interiors wc iser rser cs w1 = (r2, cs2, w2)" by (metis prod_cases3)
  have inv1: "inv w1" using g1 by (simp add: grows_def)
  have "grows w1 (snd (snd (ser_interiors wc iser rser cs w1)))"
    by (rule Cons.IH) (use Cons.prems(1) inv1 in auto)
  with 2 have "grows w1 w2" by simp
  from g1 this have "grows w w2" by (rule grows_trans)
  with c1 2 g1 show ?case by (cases r) simp_all
qed (simp add: grows_refl)

lemma ser_grows:
  "inv w \<Longrightarrow> grows w (snd (snd (ser_entry wc iser rser e w)))"
  "inv w \<Longrightarrow> grows w (snd (snd (ser_entry wc iser rser (BTreeEntry d nd) w)))"
  "inv w \<Longrightarrow> grows w (snd (snd (ser_interior wc iser rser c w)))"
  "inv w \<Longrightarrow> grows w (snd (snd (ser_interior wc iser rser (InteriorEntry k p st) w)))"
proof (induction e and nd and c and p arbitrary: w and d w and w and k st w
    rule: entry.induct node.induct interior.induct pointer.induct)
  case (Interior cs)
  then have "grows w (snd (snd (ser_interiors wc iser rser cs w)))" by (intro ser_interiors_grows) auto
  then show ?case by (auto split: prod.splits)
next
  case (Loaded prev e)
  obtain r1 e1 w1 where 1: "ser_entry wc iser rser e w = (r1, e1, w1)" by (metis prod_cases3)
  have g1: "grows w w1" using Loaded.IH [OF Loaded.prems] 1 by simp
  have g2: "grows w w2" if "wc b w1 = (r2, w2)" for b r2 w2
    using g1 grows_write [OF _ that] by (auto simp: grows_def intro: grows_trans extends_trans)
  show ?case using 1 g1 g2 grows_refl [OF Loaded.prems]
    by (cases r1) (auto split: prod.splits res.splits)
qed (auto simp: grows_refl)

lemma ser_interior_ok:
  assumes child: "\<And>e b e' w w'. inv w \<Longrightarrow> ser_entry wc iser rser e w = (Ok b, e', w') \<Longrightarrow> fits w' \<Longrightarrow>
      nwf (rd w) red n (node e) \<Longrightarrow>
      nwf (rd w') red n (node e') \<and> nflat (rd w') n (node e') = nflat (rd w) n (node e)"
    and inv: "inv w" and ser: "ser_interior wc iser rser c w = (Ok b, c', w')" and fits: "fits w'"
    and ok: "child_ok (rd w) red n c"
  shows "child_ok (rd w') red n c' \<and> cflat (rd w') n c' = cflat (rd w) n c"
proof (cases c)
  case (InteriorEntry key ptr st)
  show ?thesis
  proof (cases ptr)
    case (OnDisk pos)
    with InteriorEntry ser ok show ?thesis by auto
  next
    case (Loaded prev e)
    from ok InteriorEntry Loaded have e: "nwf (rd w) red n (node e)" "nflat (rd w) n (node e) \<noteq> []"
      "key = fst (last (nflat (rd w) n (node e)))" "stats red e = Ok st" "dirty e \<or> on_disk (rd w) red n prev e"
      by (auto simp: child_ok_def)
    show ?thesis
    proof (cases "\<not> dirty e \<and> prev \<noteq> None")
      case True
      with e(5) obtain p d where d: "prev = Some p" "rd w p = Ok d" "nwf (rd w) red n (node d)"
        "nflat (rd w) n (node d) = nflat (rd w) n (node e)" "stats red d = stats red e"
        by (auto elim: on_diskE)
      with True ser InteriorEntry Loaded e show ?thesis by (auto simp: child_ok_def cflat_def)
    next
      case False
      obtain r1 e1 w1 where 1: "ser_entry wc iser rser e w = (r1, e1, w1)" by (metis prod_cases3)
      with ser InteriorEntry Loaded False obtain b1 where r1: "r1 = Ok b1" by (cases r1) auto
      have inv1: "inv w1" using ser_grows(1) [OF inv, of e] 1 by (simp add: grows_def)
      obtain r2 w2 where 2: "wc b1 w1 = (r2, w2)" by fastforce
      with ser InteriorEntry Loaded False 1 r1 obtain pos where r2: "r2 = Ok pos"
        and c': "c' = InteriorEntry key (OnDisk pos) st" "w' = w2" by (cases r2) auto
      have fits1: "fits w1" using fits_back [OF inv1 2] fits c'(2) by simp
      note e1 = child [OF inv 1 [unfolded r1] fits1 e(1)] and rt = node_round_trip [OF 1 [unfolded r1], of red]
      have ext: "extends (rd w1) (rd w2)" using write_extends [OF inv1 2] .
      have "rd w2 pos = Ok e1" using read_back [OF inv1] 2 r2 rt fits c'(2) by (auto simp: node_reader_def)
      moreover have "nwf (rd w2) red n (node e1)" "nflat (rd w2) n (node e1) = nflat (rd w) n (node e)"
        using e1 nwf_extends [OF ext] nflat_extends [OF ext] by auto
      ultimately show ?thesis using c' InteriorEntry Loaded e rt by (auto simp: child_ok_def cflat_def)
    qed
  qed
qed

lemma ser_interiors_ok:
  assumes child: "\<And>e b e' w w'. inv w \<Longrightarrow> ser_entry wc iser rser e w = (Ok b, e', w') \<Longrightarrow> fits w' \<Longrightarrow>
      nwf (rd w) red n (node e) \<Longrightarrow>
      nwf (rd w') red n (node e') \<and> nflat (rd w') n (node e') = nflat (rd w) n (node e)"
    and "inv w" and "ser_interiors wc iser rser cs w = (Ok b, cs', w')" and "fits w'"
    and "\<forall>c \<in> set cs. child_ok (rd w) red n c"
  shows "(\<forall>c \<in> set cs'. child_ok (rd w') red n c) \<and> cflats (rd w') n cs' = cflats (rd w) n cs"
  using assms(2-)
proof (induction cs arbitrary: b cs' w)
  case (Cons c cs)
  obtain r c1 w1 where c1: "ser_interior wc iser rser c w = (r, c1, w1)" by (metis prod_cases3)
  with Cons.prems obtain b1 where r: "r = Ok b1" by (cases r) auto
  obtain r2 cs2 w2 where 2: "ser_interiors wc iser rser cs w1 = (r2, cs2, w2)" by (metis prod_cases3)
  with Cons.prems c1 r obtain b2 where b2: "r2 = Ok b2" "cs' = c1 # cs2" "w' = w2"
    by (auto simp: res_map_def)
  have g1: "grows w w1" using ser_grows(3) [OF Cons.prems(1), of c] c1 by simp
  then have inv1: "inv w1" and ext1: "extends (rd w) (rd w1)" by (auto simp: grows_def)
  have g2: "grows w1 w2" using ser_interiors_grows [OF ser_grows(3) inv1, of cs] 2 by simp
  then have ext2: "extends (rd w1) (rd w')" and fits1: "fits w1"
    using b2(3) Cons.prems(3) by (auto simp: grows_def)
  have ok1: "child_ok (rd w1) red n c1" "cflat (rd w1) n c1 = cflat (rd w) n c"
    using ser_interior_ok [OF child Cons.prems(1) c1 [unfolded r] fits1] Cons.prems(4) by auto
  have cs1: "\<forall>c \<in> set cs. child_ok (rd w1) red n c" "cflats (rd w1) n cs = cflats (rd w) n cs"
    using children_ok_extends [OF ext1, of cs red n] Cons.prems(4) by auto
  have ok2: "\<forall>c \<in> set cs2. child_ok (rd w') red n c" "cflats (rd w') n cs2 = cflats (rd w1) n cs"
    using Cons.IH [of w1 b2 cs2] 2 b2(1,3) inv1 Cons.prems(3) cs1(1) by auto
  show ?case
    using child_ok_extends [OF ext2 ok1(1)] ok1(2) ok2 cs1(2) b2(2) by auto
qed simp

theorem ser_entry_ok:
  assumes "inv w" and "ser_entry wc iser rser e w = (Ok b, e', w')" and "fits w'"
    and "nwf (rd w) red n (node e)"
  shows "nwf (rd w') red n (node e') \<and> nflat (rd w') n (node e') = nflat (rd w) n (node e)"
  using assms
proof (induction n arbitrary: e b e' w w')
  case 0
  then obtain ls where "node e = Leaf ls" by (auto elim: nwf_0E)
  with 0 show ?case by (cases e) auto
next
  case (Suc n)
  then obtain cs where cs: "node e = Interior cs" "\<forall>c \<in> set cs. child_ok (rd w) red n c"
    by (auto elim: nwf_SucE)
  obtain r cs' w1 where 1: "ser_interiors wc iser rser cs w = (r, cs', w1)" by (metis prod_cases3)
  with Suc.prems(2) cs(1) obtain b' where r: "r = Ok b'" and e': "e' = BTreeEntry False (Interior cs')" "w' = w1"
    by (cases e) (auto simp: res_map_def)
  have fits1: "fits w1" using Suc.prems(3) e'(2) by simp
  have "(\<forall>c \<in> set cs'. child_ok (rd w1) red n c) \<and> cflats (rd w1) n cs' = cflats (rd w) n cs"
    by (rule ser_interiors_ok [OF Suc.IH Suc.prems(1) 1 [unfolded r] fits1 cs(2)])
  with e' cs(1) show ?case by (simp add: nwf_Suc nflat_Suc)
qed

end

end
