(* ===== verification/Chunk_IO.thy ===== *)
theory Chunk_IO
  imports Serialization
begin

text \<open>
  Files and chunks: the in-memory file of \<^verbatim>\<open>nebari/src/io/memory.rs\<close>, the buffering
  \<^verbatim>\<open>PagedWriter\<close> and \<^verbatim>\<open>read_chunk\<close> of \<^verbatim>\<open>nebari/src/tree/mod.rs\<close>. A file is append-only: a write goes to the
  end of the file wherever the cursor is. The checksum (crate \<^verbatim>\<open>crc\<close>) and the vault (an encryption
  trait of the caller) are parameters. The chunk cache is not modelled: reads go to the file.
\<close>

section \<open>Files\<close>

record memory_file =
  mf_buffer :: bytes
  mf_position :: nat

datatype seek_from = SeekStart nat | SeekEnd int | SeekCurrent int

definition mf_seek :: "seek_from \<Rightarrow> memory_file \<Rightarrow> nat \<times> memory_file" where
  "mf_seek s f =
     (let p = (case s of
          SeekStart n \<Rightarrow> n
        | SeekEnd n \<Rightarrow>
            if n > 0 then length (mf_buffer f) else nat ((int (length (mf_buffer f)) + n) mod 2 ^ 64)
        | SeekCurrent n \<Rightarrow> nat ((int (mf_position f) + n) mod 2 ^ 64)) in
      (p, f\<lparr>mf_position := p\<rparr>))"

definition mf_length :: "memory_file \<Rightarrow> nat" where
  "mf_length f = length (mf_buffer f)"

text \<open>\<^verbatim>\<open>read_exact\<close>: one call of \<^verbatim>\<open>read\<close>, which fills the buffer or fails.\<close>

definition mf_read_exact :: "nat \<Rightarrow> memory_file \<Rightarrow> bytes res \<times> memory_file" where
  "mf_read_exact n f =
     (if n = 0 then (Ok [], f)
      else let read_end = mf_position f + n in
      if read_end > length (mf_buffer f) then (Err (Io UnexpectedEof), f)
      else (Ok (take n (drop (mf_position f) (mf_buffer f))), f\<lparr>mf_position := read_end\<rparr>))"

definition mf_write :: "bytes \<Rightarrow> memory_file \<Rightarrow> memory_file" where
  "mf_write data f =
     f\<lparr>mf_buffer := mf_buffer f @ data, mf_position := mf_position f + length data\<rparr>"

section \<open>Reading chunks\<close>

record vault =
  encrypt :: "bytes \<Rightarrow> bytes res"
  decrypt :: "bytes \<Rightarrow> bytes res"

definition encrypt_with :: "vault option \<Rightarrow> bytes \<Rightarrow> bytes res" where
  "encrypt_with v b = (case v of None \<Rightarrow> Ok b | Some x \<Rightarrow> encrypt x b)"

definition decrypt_with :: "vault option \<Rightarrow> bytes \<Rightarrow> bytes res" where
  "decrypt_with v b = (case v of None \<Rightarrow> Ok b | Some x \<Rightarrow> decrypt x b)"

definition read_chunk ::
    "vault option \<Rightarrow> (bytes \<Rightarrow> u32) \<Rightarrow> bool \<Rightarrow> u64 \<Rightarrow> memory_file \<Rightarrow> bytes res \<times> memory_file" where
  "read_chunk v crc32 validate_crc position =
     bindS (\<lambda>f. (Ok (), snd (mf_seek (SeekStart (unat position)) f))) (\<lambda>_.
     bindS (mf_read_exact 8) (\<lambda>header.
     bindS (mf_read_exact (nat_be (take 4 header))) (\<lambda>scratch.
       if validate_crc \<and> of_nat (nat_be (drop 4 header)) \<noteq> crc32 scratch
       then failS (Err (DataIntegrity (Message ''crc32 failure'')))
       else failS (decrypt_with v scratch))))"

text \<open>What reading a chunk of a file with the given bytes returns.\<close>

definition chunk_at :: "vault option \<Rightarrow> (bytes \<Rightarrow> u32) \<Rightarrow> bool \<Rightarrow> bytes \<Rightarrow> u64 \<Rightarrow> bytes res" where
  "chunk_at v crc32 validate buffer p =
     fst (read_chunk v crc32 validate p \<lparr>mf_buffer = buffer, mf_position = 0\<rparr>)"

lemma mf_read_exact_prefix:
  assumes "mf_read_exact n f = (Ok b, f')"
  shows "mf_read_exact n (f\<lparr>mf_buffer := mf_buffer f @ rest\<rparr>) = (Ok b, f'\<lparr>mf_buffer := mf_buffer f @ rest\<rparr>)"
    and "mf_buffer f' = mf_buffer f"
  using assms by (auto simp: mf_read_exact_def Let_def split: if_splits)

lemma read_chunk_split:
  "read_chunk v crc32 validate p f =
     (let f1 = f\<lparr>mf_position := unat p\<rparr> in
      case mf_read_exact 8 f1 of
        (Ok header, f2) \<Rightarrow>
          (case mf_read_exact (nat_be (take 4 header)) f2 of
             (Ok scratch, f3) \<Rightarrow>
               (if validate \<and> of_nat (nat_be (drop 4 header)) \<noteq> crc32 scratch
                then Err (DataIntegrity (Message ''crc32 failure'')) else decrypt_with v scratch, f3)
           | (bad, f3) \<Rightarrow> (lift_err bad, f3))
      | (bad, f2) \<Rightarrow> (lift_err bad, f2))"
  by (auto simp: read_chunk_def mf_seek_def bindS_def Let_def split: prod.splits res.splits)

lemma chunk_at_prefix:
  assumes "chunk_at v crc32 validate buf p = Ok x"
  shows "chunk_at v crc32 validate (buf @ rest) p = Ok x"
proof -
  let ?f = "\<lparr>mf_buffer = buf, mf_position = unat p\<rparr>"
  obtain r f2 where 1: "mf_read_exact 8 ?f = (r, f2)" by fastforce
  with assms obtain header where r: "r = Ok header"
    by (cases r) (auto simp: chunk_at_def read_chunk_split)
  obtain r2 f3 where 2: "mf_read_exact (nat_be (take 4 header)) f2 = (r2, f3)" by fastforce
  with assms 1 r obtain scratch where r2: "r2 = Ok scratch"
    by (cases r2) (auto simp: chunk_at_def read_chunk_split)
  from mf_read_exact_prefix(1) [OF 1 [unfolded r], of rest] mf_read_exact_prefix(2) [OF 1 [unfolded r]]
  have 3: "mf_read_exact 8 \<lparr>mf_buffer = buf @ rest, mf_position = unat p\<rparr> =
      (Ok header, f2\<lparr>mf_buffer := buf @ rest\<rparr>)" "mf_buffer f2 = buf" by auto
  from mf_read_exact_prefix(1) [OF 2 [unfolded r2], of rest] 3(2)
  have "mf_read_exact (nat_be (take 4 header)) (f2\<lparr>mf_buffer := buf @ rest\<rparr>) =
      (Ok scratch, f3\<lparr>mf_buffer := buf @ rest\<rparr>)" by auto
  with 1 2 3 r r2 assms show ?thesis by (simp add: chunk_at_def read_chunk_split)
qed

text \<open>A chunk in a file: its length, its checksum and its bytes.\<close>

definition chunk_bytes :: "(bytes \<Rightarrow> u32) \<Rightarrow> bytes \<Rightarrow> bytes" where
  "chunk_bytes crc32 c = u32_be (of_nat (length c)) @ u32_be (crc32 c) @ c"

lemma length_chunk_bytes [simp]: "length (chunk_bytes crc32 c) = 8 + length c"
  by (simp add: chunk_bytes_def)

lemma chunk_at_stored:
  assumes "length c < 2 ^ 32" and "length pre < 2 ^ 64"
  shows "chunk_at v crc32 validate (pre @ u32_be (of_nat (length c)) @ u32_be crc @ c @ post) (of_nat (length pre)) =
    (if validate \<and> crc \<noteq> crc32 c then Err (DataIntegrity (Message ''crc32 failure'')) else decrypt_with v c)"
proof -
  define buf where "buf = pre @ u32_be (of_nat (length c)) @ u32_be crc @ c @ post"
  have pos: "unat (of_nat (length pre) :: u64) = length pre" using assms(2) by (simp add: unat_of_nat)
  have len: "nat_be (u32_be (of_nat (length c))) = length c"
  proof -
    have "unat (of_nat (length c) :: u32) = length c" using assms(1) by (simp add: unat_of_nat)
    with assms(1) show ?thesis by (simp add: u32_be_def del: be_nat.simps)
  qed
  have crc: "of_nat (nat_be (u32_be crc)) = crc"
    using unat_bound [of crc] by (simp add: u32_be_def del: be_nat.simps)
  have 1: "mf_read_exact 8 \<lparr>mf_buffer = buf, mf_position = length pre\<rparr> =
      (Ok (u32_be (of_nat (length c)) @ u32_be crc), \<lparr>mf_buffer = buf, mf_position = length pre + 8\<rparr>)"
    by (simp add: mf_read_exact_def buf_def)
  have 2: "mf_read_exact (length c) \<lparr>mf_buffer = buf, mf_position = length pre + 8\<rparr> =
      (Ok c, \<lparr>mf_buffer = buf, mf_position = length pre + 8 + length c\<rparr>)"
    by (simp add: mf_read_exact_def buf_def)
  show ?thesis unfolding buf_def [symmetric] using 1 2 pos len crc by (simp add: chunk_at_def read_chunk_split)
qed

lemma chunk_at_here:
  assumes "length c < 2 ^ 32" and "decrypt_with v c = Ok x" and "length pre < 2 ^ 64"
  shows "chunk_at v crc32 validate (pre @ chunk_bytes crc32 c @ post) (of_nat (length pre)) = Ok x"
  using chunk_at_stored [OF assms(1,3), of v crc32 validate "crc32 c" post] assms(2) by (simp add: chunk_bytes_def)

section \<open>The paged writer\<close>

definition write_buffer_size :: nat where
  "write_buffer_size = 8 * 1024"

definition page_size :: nat where
  "page_size = 256"

record paged_writer =
  pw_file :: memory_file
  pw_position :: u64
  pw_offset :: nat
  pw_buffered :: bytes

definition current_position :: "paged_writer \<Rightarrow> u64" where
  "current_position w = pw_position w + of_nat (pw_offset w)"

definition pw_commit :: "paged_writer \<Rightarrow> paged_writer" where
  "pw_commit w =
     w\<lparr>pw_file := mf_write (take (pw_offset w) (pw_buffered w)) (pw_file w),
       pw_position := pw_position w + of_nat (pw_offset w), pw_offset := 0\<rparr>"

definition pw_commit_if_needed :: "paged_writer \<Rightarrow> paged_writer" where
  "pw_commit_if_needed w = (if pw_offset w > 0 then pw_commit w else w)"

text \<open>One round of the loop that fills the buffer, and the loop; the fuel is the number of rounds.\<close>

definition pw_fill :: "bytes \<Rightarrow> paged_writer \<Rightarrow> bytes \<times> paged_writer" where
  "pw_fill data w =
     (let bytes_to_copy = min (length (pw_buffered w) - pw_offset w) (length data);
          new_offset = pw_offset w + bytes_to_copy;
          w1 = w\<lparr>pw_buffered := take (pw_offset w) (pw_buffered w) @ take bytes_to_copy data @
                   drop new_offset (pw_buffered w),
                 pw_offset := new_offset\<rparr> in
      (drop bytes_to_copy data, if pw_offset w1 = length (pw_buffered w1) then pw_commit w1 else w1))"

fun pw_write_loop :: "nat \<Rightarrow> bytes \<Rightarrow> paged_writer \<Rightarrow> unit res \<times> paged_writer" where
  "pw_write_loop 0 data w = (if data = [] then (Ok (), w) else (OutOfFuel, w))"
| "pw_write_loop (Suc fuel) data w =
     (if data = [] then (Ok (), w)
      else case pw_fill data w of (remaining, w') \<Rightarrow> pw_write_loop fuel remaining w')"

definition pw_write :: "bytes \<Rightarrow> paged_writer \<Rightarrow> nat res \<times> paged_writer" where
  "pw_write data w =
     (if length data > length (pw_buffered w) then
        (let w1 = pw_commit_if_needed w in
         (Ok (length data),
          w1\<lparr>pw_file := mf_write data (pw_file w1), pw_position := pw_position w1 + of_nat (length data)\<rparr>))
      else case pw_write_loop (length data) data w of
        (Ok u, w') \<Rightarrow> (Ok (length data), w')
      | (bad, w') \<Rightarrow> (lift_err bad, w'))"

definition pw_write_u32 :: "u32 \<Rightarrow> paged_writer \<Rightarrow> nat res \<times> paged_writer" where
  "pw_write_u32 x = pw_write (u32_be x)"

definition write_chunk ::
    "vault option \<Rightarrow> (bytes \<Rightarrow> u32) \<Rightarrow> bytes \<Rightarrow> paged_writer \<Rightarrow> u64 res \<times> paged_writer" where
  "write_chunk v crc32 value_bytes w =
     (case encrypt_with v value_bytes of
        Ok c \<Rightarrow>
          (if length c < 2 ^ 32 then
             (let position = current_position w in
              bindS (pw_write_u32 (of_nat (length c))) (\<lambda>_.
              bindS (pw_write_u32 (crc32 c)) (\<lambda>_.
              bindS (pw_write c) (\<lambda>_. returnS position))) w)
           else (Err ValueTooLarge, w))
      | bad \<Rightarrow> (lift_err bad, w))"

text \<open>\<^verbatim>\<open>PagedWriter::new\<close>, with the page header byte if one is to be written.\<close>

definition pw_new :: "u8 option \<Rightarrow> memory_file \<Rightarrow> u64 \<Rightarrow> unit res \<times> paged_writer" where
  "pw_new header file position =
     bindS (\<lambda>w. case header of
        Some h \<Rightarrow>
          (let padding_needed = page_size - unat (pw_position w) mod page_size in
           bindS (pw_write (replicate padding_needed h @ [0x4e, 0x62, 0x72, h])) (\<lambda>_. returnS ()) w)
      | None \<Rightarrow> (Ok (), w)) (\<lambda>_ w.
       if current_position w = 0 then bindS (pw_write [0x4e, 0x62, 0x72, 0x69]) (\<lambda>_. returnS ()) w
       else (Ok (), w))
     \<lparr>pw_file = file, pw_position = position, pw_offset = 0, pw_buffered = replicate write_buffer_size 0\<rparr>"

definition pw_finish :: "paged_writer \<Rightarrow> memory_file \<times> u64" where
  "pw_finish w = (let w' = pw_commit_if_needed w in (pw_file w', pw_position w'))"

section \<open>What the writer writes\<close>

text \<open>The bytes of the file once the buffer is written out.\<close>

definition pw_image :: "paged_writer \<Rightarrow> bytes" where
  "pw_image w = mf_buffer (pw_file w) @ take (pw_offset w) (pw_buffered w)"

definition pw_inv :: "paged_writer \<Rightarrow> bool" where
  "pw_inv w \<longleftrightarrow> pw_offset w < length (pw_buffered w) \<and> pw_position w = of_nat (length (mf_buffer (pw_file w)))"

definition pw_fits :: "paged_writer \<Rightarrow> bool" where
  "pw_fits w \<longleftrightarrow> length (pw_image w) < 2 ^ 64"

lemma current_position_image: "pw_inv w \<Longrightarrow> current_position w = of_nat (length (pw_image w))"
  by (simp add: pw_inv_def current_position_def pw_image_def)

lemma pw_commit_image:
  "pw_image (pw_commit w) = pw_image w"
  "0 < length (pw_buffered w) \<Longrightarrow> pw_offset w \<le> length (pw_buffered w) \<Longrightarrow>
     pw_position w = of_nat (length (mf_buffer (pw_file w))) \<Longrightarrow> pw_inv (pw_commit w)"
  by (simp_all add: pw_image_def pw_commit_def mf_write_def pw_inv_def)

text \<open>A step of the writer that appends \<open>data\<close>.\<close>

definition pw_appends :: "bytes \<Rightarrow> paged_writer \<Rightarrow> paged_writer \<Rightarrow> bool" where
  "pw_appends data w w' \<longleftrightarrow> pw_inv w' \<and> pw_image w' = pw_image w @ data \<and>
     length (pw_buffered w') = length (pw_buffered w) \<and>
     (\<exists>rest. mf_buffer (pw_file w') = mf_buffer (pw_file w) @ rest)"

lemma pw_appends_trans: "pw_appends a w w1 \<Longrightarrow> pw_appends b w1 w2 \<Longrightarrow> pw_appends (a @ b) w w2"
  by (auto simp: pw_appends_def)

lemma pw_fill_ok:
  assumes "pw_inv w" and "data \<noteq> []"
  obtains n w' where "pw_fill data w = (drop n data, w')" and "0 < n" and "pw_appends (take n data) w w'"
proof -
  define n where "n = min (length (pw_buffered w) - pw_offset w) (length data)"
  define w1 where "w1 = w\<lparr>pw_buffered := take (pw_offset w) (pw_buffered w) @ take n data @
      drop (pw_offset w + n) (pw_buffered w), pw_offset := pw_offset w + n\<rparr>"
  define w2 where "w2 = (if pw_offset w1 = length (pw_buffered w1) then pw_commit w1 else w1)"
  have n: "0 < n" "n \<le> length data" "pw_offset w + n \<le> length (pw_buffered w)"
    using assms by (auto simp: n_def pw_inv_def)
  have len1: "length (pw_buffered w1) = length (pw_buffered w)" using n by (simp add: w1_def)
  have img1: "pw_image w1 = pw_image w @ take n data" using n by (simp add: w1_def pw_image_def)
  have pos1: "pw_position w1 = of_nat (length (mf_buffer (pw_file w1)))" "pw_offset w1 \<le> length (pw_buffered w1)"
    "mf_buffer (pw_file w1) = mf_buffer (pw_file w)"
    using assms n len1 by (simp_all add: w1_def pw_inv_def)
  have inv2: "pw_inv w2" and img2: "pw_image w2 = pw_image w1"
    and len2: "length (pw_buffered w2) = length (pw_buffered w)"
    using pos1 len1 n pw_commit_image [of w1] by (auto simp: w2_def pw_inv_def pw_commit_def mf_write_def)
  have "\<exists>rest. mf_buffer (pw_file w2) = mf_buffer (pw_file w) @ rest"
    using pos1(3) by (auto simp: w2_def pw_commit_def mf_write_def)
  with inv2 img1 img2 len2 have "pw_appends (take n data) w w2" by (simp add: pw_appends_def)
  moreover have "pw_fill data w = (drop n data, w2)"
    by (simp add: pw_fill_def Let_def n_def w1_def w2_def)
  ultimately show thesis using that n(1) by blast
qed

lemma pw_write_loop_ok:
  assumes "pw_inv w" and "length data \<le> fuel"
  shows "\<exists>w'. pw_write_loop fuel data w = (Ok (), w') \<and> pw_appends data w w'"
  using assms
proof (induction fuel arbitrary: data w)
  case (Suc fuel)
  show ?case
  proof (cases "data = []")
    case False
    with Suc.prems(1) obtain n w1 where fill: "pw_fill data w = (drop n data, w1)" "0 < n"
      and app: "pw_appends (take n data) w w1" by (rule pw_fill_ok)
    have "pw_inv w1" "length (drop n data) \<le> fuel"
      using app fill(2) Suc.prems(2) False by (auto simp: pw_appends_def)
    from Suc.IH [OF this] obtain w' where "pw_write_loop fuel (drop n data) w1 = (Ok (), w')"
      "pw_appends (drop n data) w1 w'" by blast
    with fill False pw_appends_trans [OF app] show ?thesis by fastforce
  qed (use Suc.prems in \<open>simp add: pw_appends_def\<close>)
qed (simp add: pw_appends_def)

lemma pw_write_ok:
  assumes inv: "pw_inv w"
  obtains w' where "pw_write data w = (Ok (length data), w')" and "pw_appends data w w'"
proof (cases "length data > length (pw_buffered w)")
  case True
  define w1 where "w1 = pw_commit_if_needed w"
  have w1: "pw_inv w1" "pw_image w1 = pw_image w" "pw_offset w1 = 0" "length (pw_buffered w1) = length (pw_buffered w)"
    "\<exists>rest. mf_buffer (pw_file w1) = mf_buffer (pw_file w) @ rest"
    using inv pw_commit_image [of w]
    by (auto simp: w1_def pw_commit_if_needed_def pw_inv_def pw_commit_def mf_write_def)
  then show thesis using True
    by (intro that [of "w1\<lparr>pw_file := mf_write data (pw_file w1),
        pw_position := pw_position w1 + of_nat (length data)\<rparr>"])
      (auto simp: pw_write_def Let_def w1_def [symmetric] pw_appends_def pw_inv_def pw_image_def mf_write_def)
next
  case False
  obtain w' where "pw_write_loop (length data) data w = (Ok (), w')" "pw_appends data w w'"
    using pw_write_loop_ok [OF inv order_refl] by blast
  with False that show thesis by (simp add: pw_write_def)
qed

lemma write_chunk_ok:
  assumes inv: "pw_inv w" and enc: "encrypt_with v b = Ok c" and len: "length c < 2 ^ 32"
  obtains w' where "write_chunk v crc32 b w = (Ok (of_nat (length (pw_image w))), w')"
    and "pw_appends (chunk_bytes crc32 c) w w'"
proof -
  obtain w1 where w1: "pw_write (u32_be (of_nat (length c))) w = (Ok 4, w1)"
    "pw_appends (u32_be (of_nat (length c))) w w1"
    using pw_write_ok [OF inv, of "u32_be (of_nat (length c))"] by auto
  then have "pw_inv w1" by (simp add: pw_appends_def)
  then obtain w2 where w2: "pw_write (u32_be (crc32 c)) w1 = (Ok 4, w2)" "pw_appends (u32_be (crc32 c)) w1 w2"
    using pw_write_ok [of w1 "u32_be (crc32 c)"] by auto
  then have "pw_inv w2" by (simp add: pw_appends_def)
  then obtain w3 where w3: "pw_write c w2 = (Ok (length c), w3)" "pw_appends c w2 w3" by (rule pw_write_ok)
  have "pw_appends (chunk_bytes crc32 c) w w3"
    using pw_appends_trans [OF w1(2) pw_appends_trans [OF w2(2) w3(2)]] by (simp add: chunk_bytes_def)
  moreover have "write_chunk v crc32 b w = (Ok (of_nat (length (pw_image w))), w3)"
    using enc len w1 w2 w3 current_position_image [OF inv]
    by (simp add: write_chunk_def bindS_Ok pw_write_u32_def)
  ultimately show thesis by (intro that)
qed

lemma write_chunk_cases:
  assumes inv: "pw_inv w" and wc: "write_chunk v crc32 b w = (r, w')"
  obtains (ok) c where "encrypt_with v b = Ok c" "length c < 2 ^ 32" "r = Ok (of_nat (length (pw_image w)))"
    "pw_appends (chunk_bytes crc32 c) w w'"
  | (failed) "\<forall>p. r \<noteq> Ok p" "w' = w"
proof (cases "encrypt_with v b")
  case (Ok c)
  show thesis
  proof (cases "length c < 2 ^ 32")
    case True
    with inv Ok wc write_chunk_ok [of w v b c crc32] ok show thesis by (metis Pair_inject)
  qed (use Ok wc failed in \<open>auto simp: write_chunk_def\<close>)
qed (use wc failed in \<open>auto simp: write_chunk_def\<close>)

section \<open>The writer as a chunk store\<close>

text \<open>The contract of a vault: what it encrypts it decrypts.\<close>

locale chunk_vault =
  fixes v :: "vault option"
  assumes decrypt_encrypt: "encrypt_with v b = Ok c \<Longrightarrow> decrypt_with v c = Ok b"

definition image_chunk :: "vault option \<Rightarrow> (bytes \<Rightarrow> u32) \<Rightarrow> paged_writer \<Rightarrow> u64 \<Rightarrow> bytes res" where
  "image_chunk v crc32 w p = chunk_at v crc32 False (pw_image w) p"

sublocale chunk_vault \<subseteq> image_store: chunk_store "write_chunk v crc32" "image_chunk v crc32" pw_inv pw_fits
  for crc32
proof
  fix w b p w' assume "pw_inv w" "write_chunk v crc32 b w = (Ok p, w')" "pw_fits w'"
  then show "image_chunk v crc32 w' p = Ok b"
  proof (cases rule: write_chunk_cases)
    case (ok c)
    then show ?thesis
      using chunk_at_here [of c v b "pw_image w" crc32 False "[]"] decrypt_encrypt \<open>pw_fits w'\<close>
      by (auto simp: image_chunk_def pw_appends_def pw_fits_def)
  qed simp
next
  fix w b r w' q x assume "pw_inv w" "write_chunk v crc32 b w = (r, w')" "image_chunk v crc32 w q = Ok x"
  then show "image_chunk v crc32 w' q = Ok x"
    by (cases rule: write_chunk_cases) (auto simp: image_chunk_def pw_appends_def chunk_at_prefix)
next
  fix w b r w' assume "pw_inv w" "write_chunk v crc32 b w = (r, w')"
  then show "pw_inv w'" by (cases rule: write_chunk_cases) (auto simp: pw_appends_def \<open>pw_inv w\<close>)
next
  fix w b r w' assume "pw_inv w" "write_chunk v crc32 b w = (r, w')" "pw_fits w'"
  then show "pw_fits w" by (cases rule: write_chunk_cases) (auto simp: pw_appends_def pw_fits_def)
qed

text \<open>A writer that is past the start of its file, where no position is 0 any more.\<close>

definition pw_started :: "paged_writer \<Rightarrow> bool" where
  "pw_started w \<longleftrightarrow> pw_inv w \<and> pw_image w \<noteq> []"

lemma write_chunk_started:
  assumes "pw_started w" and "write_chunk v crc32 b w = (r, w')"
  shows "pw_started w'"
proof -
  have "pw_inv w" using assms(1) by (simp add: pw_started_def)
  then show ?thesis using assms(2,1)
    by (cases rule: write_chunk_cases) (auto simp: pw_started_def pw_appends_def)
qed

sublocale chunk_vault \<subseteq> started_store: chunk_store "write_chunk v crc32" "image_chunk v crc32" pw_started pw_fits
  for crc32
proof unfold_locales
  fix w b p w' assume "pw_started w" "write_chunk v crc32 b w = (Ok p, w')" "pw_fits w'"
  then show "image_chunk v crc32 w' p = Ok b" using image_store.read_back by (auto simp: pw_started_def)
next
  fix w b r w' q x assume "pw_started w" "write_chunk v crc32 b w = (r, w')" "image_chunk v crc32 w q = Ok x"
  then show "image_chunk v crc32 w' q = Ok x" using image_store.keeps by (auto simp: pw_started_def)
next
  fix w b r w' assume "pw_started w" "write_chunk v crc32 b w = (r, w')" "pw_fits w'"
  then show "pw_fits w" using image_store.fits_back by (auto simp: pw_started_def)
qed (rule write_chunk_started)

interpretation plain: chunk_vault None
  by unfold_locales (simp add: encrypt_with_def decrypt_with_def)

end
