(* ===== verification/Unversioned.thy ===== *)
theory Unversioned
  imports Chunk_IO
begin

text \<open>
  The unversioned tree root of \<^verbatim>\<open>nebari/src/tree/unversioned.rs\<close>: its modifications (the value is
  written as a chunk, the index points at it), its header, and the proof that a modification does to
  the tree what the specification \<open>apply_keys\<close> says, and to the stored values what the operation says.

  Reads during a modification go to the file behind the writer, so they see what has been written
  out of the writer's buffer; what is still buffered is appended later.
\<close>

section \<open>Reading through the writer\<close>

definition file_chunk :: "vault option \<Rightarrow> (bytes \<Rightarrow> u32) \<Rightarrow> paged_writer \<Rightarrow> u64 \<Rightarrow> bytes res" where
  "file_chunk v crc32 w p = chunk_at v crc32 False (mf_buffer (pw_file w)) p"

lemma pw_commit_file: "\<exists>rest. mf_buffer (pw_file (pw_commit w)) = mf_buffer (pw_file w) @ rest"
  by (simp add: pw_commit_def mf_write_def)

lemma pw_fill_file: "pw_fill data w = (d, w') \<Longrightarrow> \<exists>rest. mf_buffer (pw_file w') = mf_buffer (pw_file w) @ rest"
  by (auto simp: pw_fill_def Let_def pw_commit_def mf_write_def split: if_splits)

lemma pw_write_loop_file:
  "pw_write_loop fuel data w = (r, w') \<Longrightarrow> \<exists>rest. mf_buffer (pw_file w') = mf_buffer (pw_file w) @ rest"
proof (induction fuel arbitrary: data w)
  case (Suc fuel)
  obtain d w1 where 1: "pw_fill data w = (d, w1)" by fastforce
  with Suc show ?case using pw_fill_file [OF 1] by (fastforce split: if_splits)
qed (auto split: if_splits)

lemma pw_write_file: "\<exists>rest. mf_buffer (pw_file (snd (pw_write data w))) = mf_buffer (pw_file w) @ rest"
proof (cases "length data > length (pw_buffered w)")
  case False
  obtain r w' where 1: "pw_write_loop (length data) data w = (r, w')" by fastforce
  with False pw_write_loop_file [OF 1] show ?thesis by (cases r) (simp_all add: pw_write_def)
qed (auto simp: pw_write_def Let_def pw_commit_if_needed_def pw_commit_def mf_write_def)

lemma write_chunk_file:
  assumes "write_chunk v crc32 b w = (r, w')"
  shows "\<exists>rest. mf_buffer (pw_file w') = mf_buffer (pw_file w) @ rest"
proof (cases "encrypt_with v b")
  case (Ok c)
  obtain r1 w1 where 1: "pw_write (u32_be (of_nat (length c))) w = (r1, w1)" by fastforce
  obtain r2 w2 where 2: "pw_write (u32_be (crc32 c)) w1 = (r2, w2)" by fastforce
  obtain r3 w3 where 3: "pw_write c w2 = (r3, w3)" by fastforce
  have "w' \<in> {w, w1, w2, w3}" using assms Ok 1 2 3
    by (cases r1; cases r2; cases r3)
      (auto simp: write_chunk_def Let_def bindS_def pw_write_u32_def split: if_splits)
  moreover have "\<exists>rest. mf_buffer (pw_file w1) = mf_buffer (pw_file w) @ rest"
    "\<exists>rest. mf_buffer (pw_file w2) = mf_buffer (pw_file w1) @ rest"
    "\<exists>rest. mf_buffer (pw_file w3) = mf_buffer (pw_file w2) @ rest"
    using pw_write_file [of "u32_be (of_nat (length c))" w] pw_write_file [of "u32_be (crc32 c)" w1]
      pw_write_file [of c w2] 1 2 3 by simp_all
  ultimately show ?thesis by auto
qed (use assms in \<open>auto simp: write_chunk_def\<close>)

lemma write_chunk_file_extends:
  assumes "write_chunk v crc32 b w = (r, w')"
  shows "extends (node_reader (file_chunk v crc32) ides rdes w) (node_reader (file_chunk v crc32) ides rdes w')"
  using write_chunk_file [OF assms]
  by (auto simp: extends_def node_reader_def file_chunk_def chunk_at_prefix)

lemma image_extends_file:
  "extends (node_reader (file_chunk v crc32) ides rdes w) (node_reader (image_chunk v crc32) ides rdes w)"
  by (auto simp: extends_def node_reader_def file_chunk_def image_chunk_def pw_image_def chunk_at_prefix)

section \<open>The root\<close>

text \<open>\<^verbatim>\<open>Indexer\<close> and \<^verbatim>\<open>Reducer\<close> of the embedded index, supplied by the user of the library.\<close>

record ('e, 'es) embedded_indexer =
  index :: "bytes \<Rightarrow> bytes option \<Rightarrow> 'e"
  e_reducer :: "('e, 'es) reducer"

record ('e, 'es) unversioned_root =
  un_transaction_id :: "transaction_id option"
  un_by_id_root :: "('e unversioned_by_id, 'es by_id_stats) entry"
  un_reducer :: "('e, 'es) embedded_indexer"

record 'i modification_result =
  mr_key :: bytes
  mr_index :: "'i option"

definition un_default_with :: "('e, 'es) embedded_indexer \<Rightarrow> ('e, 'es) unversioned_root" where
  "un_default_with red = \<lparr>un_transaction_id = None, un_by_id_root = default_entry, un_reducer = red\<rparr>"

definition un_id_reducer :: "('e, 'es) unversioned_root \<Rightarrow> ('e unversioned_by_id, 'es by_id_stats) reducer" where
  "un_id_reducer t = unversioned_reducer (e_reducer (un_reducer t))"

definition un_count :: "('e, 'es) unversioned_root \<Rightarrow> u64 res" where
  "un_count t = res_map alive_keys (stats (un_id_reducer t) (un_by_id_root t))"

definition un_initialized :: "('e, 'es) unversioned_root \<Rightarrow> bool" where
  "un_initialized t \<longleftrightarrow> un_transaction_id t \<noteq> None"

definition un_dirty :: "('e, 'es) unversioned_root \<Rightarrow> bool" where
  "un_dirty t = dirty (un_by_id_root t)"

definition un_initialize_default :: "('e, 'es) unversioned_root \<Rightarrow> ('e, 'es) unversioned_root" where
  "un_initialize_default t = t\<lparr>un_transaction_id := Some 0\<rparr>"

definition un_get_transaction_id :: "('e, 'es) unversioned_root \<Rightarrow> transaction_id" where
  "un_get_transaction_id t = (case un_transaction_id t of Some i \<Rightarrow> i | None \<Rightarrow> 0)"

section \<open>Modification\<close>

text \<open>
  A modification also returns the final operation: with a compare-swap, the state its closure has
  captured, which the caller sees after the call.
\<close>

definition un_indexer ::
    "vault option \<Rightarrow> (bytes \<Rightarrow> u32) \<Rightarrow> ('e, 'es) embedded_indexer \<Rightarrow> bytes \<Rightarrow> bytes option \<Rightarrow>
     'e unversioned_by_id option \<Rightarrow> 'e unversioned_by_id modification_result list \<Rightarrow> paged_writer \<Rightarrow>
     'e unversioned_by_id key_operation res \<times> 'e unversioned_by_id modification_result list \<times> paged_writer" where
  "un_indexer v crc32 red key val existing results w =
     (case val of
        Some b \<Rightarrow>
          (case write_chunk v crc32 b w of
             (Ok position, w') \<Rightarrow>
               (let new_index = \<lparr>u_value_length = of_nat (length b), u_position = position,
                                 u_embedded = index red key (Some b)\<rparr> in
                (Ok (KeySet new_index), results @ [\<lparr>mr_key = key, mr_index = Some new_index\<rparr>], w'))
           | (bad, w') \<Rightarrow> (lift_err bad, results, w'))
      | None \<Rightarrow> (Ok KeyRemove, results @ [\<lparr>mr_key = key, mr_index = None\<rparr>], w))"

definition un_loader ::
    "vault option \<Rightarrow> (bytes \<Rightarrow> u32) \<Rightarrow> 'e unversioned_by_id \<Rightarrow> paged_writer \<Rightarrow> bytes option res" where
  "un_loader v crc32 i w = res_map Some (file_chunk v crc32 w (u_position i))"

definition un_context ::
    "vault option \<Rightarrow> (bytes \<Rightarrow> u32) \<Rightarrow> ('e, 'es) embedded_indexer \<Rightarrow> nat \<Rightarrow> nat \<Rightarrow>
     (bytes, 'e unversioned_by_id, 'es by_id_stats, 'e unversioned_by_id modification_result list, paged_writer)
       modification_context" where
  "un_context v crc32 red order min_children =
     \<lparr>current_order = order, minimum_children = min_children, indexer = un_indexer v crc32 red,
      loader = un_loader v crc32, ctx_reducer = unversioned_reducer (e_reducer red)\<rparr>"

text \<open>How nodes are read: the decoders of the embedded index and of its reduction are parameters.\<close>

definition un_reader ::
    "vault option \<Rightarrow> (bytes \<Rightarrow> u32) \<Rightarrow> (bytes \<Rightarrow> ('e \<times> bytes) res) \<Rightarrow> (bytes \<Rightarrow> ('es \<times> bytes) res) \<Rightarrow>
     ('e unversioned_by_id, 'es by_id_stats, paged_writer) node_reader" where
  "un_reader v crc32 edes esdes =
     node_reader (file_chunk v crc32) (des_unversioned edes) (des_by_id_stats esdes)"

definition un_modify_id_root ::
    "nat \<Rightarrow> (nat \<Rightarrow> nat) \<Rightarrow> vault option \<Rightarrow> (bytes \<Rightarrow> u32) \<Rightarrow> (bytes \<Rightarrow> ('e \<times> bytes) res) \<Rightarrow>
     (bytes \<Rightarrow> ('es \<times> bytes) res) \<Rightarrow> nat option \<Rightarrow> (bytes, 'e unversioned_by_id, 's) modification \<Rightarrow>
     ('e, 'es) unversioned_root \<Rightarrow> paged_writer \<Rightarrow>
     'e unversioned_by_id modification_result list res \<times> (bytes, 'e unversioned_by_id, 's) operation \<times>
     ('e, 'es) unversioned_root \<times> paged_writer" where
  "un_modify_id_root fuel cbrt v crc32 edes esdes max_order m t w =
     (case reverse m of
        Ok m1 \<Rightarrow>
          (case stats (un_id_reducer t) (un_by_id_root t) of
             Ok st \<Rightarrow>
               (let total_records = unat (total_keys st + of_nat (length (keys m1)));
                    by_id_order = dynamic_order cbrt total_records max_order;
                    min_children = minimum_children_for by_id_order total_records in
                case modify_root (length (keys m1)) fuel True
                    (un_context v crc32 (un_reducer t) by_id_order min_children)
                    (un_reader v crc32 edes esdes) (un_by_id_root t) m1 [] w of
                  (r, root', m', results, w') \<Rightarrow>
                    (res_map (\<lambda>_. results) r, operation m', t\<lparr>un_by_id_root := root'\<rparr>, w'))
           | bad \<Rightarrow> (lift_err bad, operation m1, t, w))
      | bad \<Rightarrow> (lift_err bad, operation m, t, w))"

definition un_modify ::
    "nat \<Rightarrow> (nat \<Rightarrow> nat) \<Rightarrow> vault option \<Rightarrow> (bytes \<Rightarrow> u32) \<Rightarrow> (bytes \<Rightarrow> ('e \<times> bytes) res) \<Rightarrow>
     (bytes \<Rightarrow> ('es \<times> bytes) res) \<Rightarrow> nat option \<Rightarrow> (bytes, 'e unversioned_by_id, 's) modification \<Rightarrow>
     ('e, 'es) unversioned_root \<Rightarrow> paged_writer \<Rightarrow>
     'e unversioned_by_id modification_result list res \<times> (bytes, 'e unversioned_by_id, 's) operation \<times>
     ('e, 'es) unversioned_root \<times> paged_writer" where
  "un_modify fuel cbrt v crc32 edes esdes max_order m t w =
     (case un_modify_id_root fuel cbrt v crc32 edes esdes max_order m t w of
        (Ok results, op', t', w') \<Rightarrow>
          (Ok results, op',
           (case persistence_transaction_id (persistence_mode m) of
              Some i \<Rightarrow> t'\<lparr>un_transaction_id := Some i\<rparr>
            | None \<Rightarrow> t'), w')
      | (bad, op', t', w') \<Rightarrow> (bad, op', t', w'))"

section \<open>Header\<close>

definition un_serialize ::
    "vault option \<Rightarrow> (bytes \<Rightarrow> u32) \<Rightarrow> ('e \<Rightarrow> bytes res) \<Rightarrow> ('es \<Rightarrow> bytes res) \<Rightarrow> ('e, 'es) unversioned_root \<Rightarrow>
     paged_writer \<Rightarrow> bytes res \<times> ('e, 'es) unversioned_root \<times> paged_writer" where
  "un_serialize v crc32 eser esser t w =
     (case un_transaction_id t of
        None \<Rightarrow> (Panic, t, w)
      | Some i \<Rightarrow>
          (case ser_entry (write_chunk v crc32) (ser_unversioned eser) (ser_by_id_stats esser) (un_by_id_root t) w of
             (r, root', w') \<Rightarrow>
               (res_bind r (\<lambda>b. if length b < 2 ^ 32 then Ok (u64_be i @ u32_be (of_nat (length b)) @ b)
                                else Err (Internal HeaderTooLarge)),
                t\<lparr>un_by_id_root := root'\<rparr>, w')))"

definition un_deserialize ::
    "(bytes \<Rightarrow> ('e \<times> bytes) res) \<Rightarrow> (bytes \<Rightarrow> ('es \<times> bytes) res) \<Rightarrow> ('e, 'es) embedded_indexer \<Rightarrow> bytes \<Rightarrow>
     ('e, 'es) unversioned_root res" where
  "un_deserialize edes esdes red b =
     res_bind (read_u64 b) (\<lambda>(i, r1).
     res_bind (read_u32 r1) (\<lambda>(by_id_size, r2).
       if unat by_id_size \<noteq> length r2 then Err (DataIntegrity (Message ''header index size''))
       else res_bind (read_exact (unat by_id_size) r2) (\<lambda>(by_id_bytes, r3).
         res_map (\<lambda>root. \<lparr>un_transaction_id = Some i, un_by_id_root = root, un_reducer = red\<rparr>)
           (des_entry (des_unversioned edes) (des_by_id_stats esdes) by_id_bytes))))"

section \<open>A modification refines the specification\<close>

interpretation un_nodes: node_store "un_context v crc32 red order min_children" "un_reader v crc32 edes esdes"
  for v crc32 red order min_children edes esdes
  by unfold_locales
    (auto simp: un_context_def un_reader_def un_indexer_def Let_def split: option.splits prod.splits res.splits
      dest: write_chunk_file_extends)

lemma total_keys_reduce: "total_keys (reduce (by_id_reducer size_of pos emb red) xs) = of_nat (length xs)"
  by (simp add: by_id_reducer_def total_keys_def) (induction xs; simp)

context embedded_reducer
begin

lemma un_total_keys:
  assumes "nwf f (unversioned_reducer ered) n (node e)"
  obtains st where "stats (unversioned_reducer ered) e = Ok st"
    and "total_keys st = of_nat (length (nflat f n (node e)))"
  using unversioned_stats.stats_of_contents [OF assms]
  by (simp add: total_keys_reduce unversioned_reducer_def)

end

text \<open>The specification of a modification of this root that holds \<open>xs\<close>.\<close>

definition un_spec ::
    "(nat \<Rightarrow> nat) \<Rightarrow> vault option \<Rightarrow> (bytes \<Rightarrow> u32) \<Rightarrow> ('e, 'es) embedded_indexer \<Rightarrow> nat option \<Rightarrow>
     (bytes, 'e unversioned_by_id, 's) modification \<Rightarrow> (bytes \<times> 'e unversioned_by_id) list \<Rightarrow> paged_writer \<Rightarrow>
     unit res \<times> (bytes, 'e unversioned_by_id, 's, 'e unversioned_by_id modification_result list, paged_writer) spec_state"
where
  "un_spec cbrt v crc32 red max_order m xs w =
     (let order = dynamic_order cbrt (length xs + length (keys m)) max_order in
      apply_keys (un_context v crc32 red order (minimum_children_for order (length xs + length (keys m))))
        (keys m) (xs, reverse_operation (operation m), [], w))"

lemma un_modify_refines:
  fixes m :: "(bytes, 'e unversioned_by_id, 's) modification" and t :: "('e, 'es) unversioned_root"
  assumes law: "embedded_reducer (e_reducer (un_reducer t))"
    and max_order: "\<forall>o'. max_order = Some o' \<longrightarrow> 4 \<le> o'"
    and root: "root_ok (un_reader v crc32 edes esdes w) (un_id_reducer t) n (un_by_id_root t)"
    and xs: "xs = contents (un_reader v crc32 edes esdes w) n (un_by_id_root t)"
    and sorted: "sorted_wrt (<) (keys m)"
    and size: "length xs + length (keys m) < 2 ^ 64"
    and small: "length (keys m) \<le> 1 \<or> dynamic_order cbrt (length xs + length (keys m)) max_order \<le> 9"
    and spec: "un_spec cbrt v crc32 (un_reducer t) max_order m xs w = (Ok (), xs', op', results, w')"
    and fuel: "(n + length (keys m)) * (length (keys m) + 2) + 1 \<le> fuel"
  shows "\<exists>n' t'. un_modify fuel cbrt v crc32 edes esdes max_order m t w = (Ok results, op', t', w') \<and>
    root_ok (un_reader v crc32 edes esdes w') (un_id_reducer t') n' (un_by_id_root t') \<and>
    contents (un_reader v crc32 edes esdes w') n' (un_by_id_root t') = xs' \<and>
    n' \<le> n + length (keys m) \<and> un_reducer t' = un_reducer t \<and>
    un_transaction_id t' = (case persistence_transaction_id (persistence_mode m) of
      Some i \<Rightarrow> Some i | None \<Rightarrow> un_transaction_id t)"
proof -
  let ?ks = "keys m" and ?rd = "un_reader v crc32 edes esdes" and ?red = "un_id_reducer t"
  define records where "records = length xs + length ?ks"
  define order where "order = dynamic_order cbrt records max_order"
  define ctx where "ctx = un_context v crc32 (un_reducer t) order (minimum_children_for order records)"
  let ?m = "m\<lparr>keys := rev ?ks, operation := reverse_operation (operation m)\<rparr>"
  from root have nwf: "nwf (?rd w) ?red n (node (un_by_id_root t))" by (simp add: root_ok_def)
  from embedded_reducer.un_total_keys [OF law nwf [unfolded un_id_reducer_def]] obtain st
    where st: "stats ?red (un_by_id_root t) = Ok st" "total_keys st = of_nat (length xs)"
    using xs by (auto simp: contents_def un_id_reducer_def)
  have records: "unat (total_keys st + of_nat (length ?ks)) = records"
    using size by (simp add: st records_def unat_of_nat flip: of_nat_add)
  have red: "ctx_reducer ctx = ?red" by (simp add: ctx_def un_context_def un_id_reducer_def)
  have ap: "apply_keys ctx ?ks (xs, operation ?m, [], w) = (Ok (), xs', op', results, w')"
    using spec by (simp add: un_spec_def Let_def ctx_def order_def records_def)
  have "\<exists>n' root'. modify_root (length ?ks) fuel True ctx ?rd (un_by_id_root t) ?m [] w =
      (Ok (), root', ?m\<lparr>keys := [], operation := op'\<rparr>, results, w') \<and>
    root_ok (?rd w') ?red n' root' \<and> contents (?rd w') n' root' = xs' \<and> n' \<le> n + length ?ks"
    unfolding red [symmetric] unfolding ctx_def
    by (rule un_nodes.modify_root_sized [where cbrt = cbrt and records = records and max_order = max_order and n = n])
      (use max_order root sorted ap small fuel xs red in
        \<open>simp_all add: un_context_def ctx_def order_def records_def\<close>)
  then obtain n' root' where run: "modify_root (length ?ks) fuel True ctx ?rd (un_by_id_root t) ?m [] w =
      (Ok (), root', ?m\<lparr>keys := [], operation := op'\<rparr>, results, w')"
    and root': "root_ok (?rd w') ?red n' root'" "contents (?rd w') n' root' = xs'" "n' \<le> n + length ?ks" by blast
  have "un_modify_id_root fuel cbrt v crc32 edes esdes max_order m t w =
      (Ok results, op', t\<lparr>un_by_id_root := root'\<rparr>, w')"
    using run sorted st records
    by (simp add: un_modify_id_root_def reverse_def Let_def res_map_def ctx_def order_def)
  with root' show ?thesis
    by (intro exI [of _ n']) (auto simp: un_modify_def un_id_reducer_def split: option.splits)
qed

section \<open>The stored values\<close>

text \<open>
  The index list \<open>xs\<close> stores the key-value list \<open>kv\<close> in a file with the bytes \<open>buf\<close> (of a writer: its
  image, the file once the buffer is written out). No value is stored at position 0, which means
  that there is none.
\<close>

definition un_stored ::
    "vault option \<Rightarrow> (bytes \<Rightarrow> u32) \<Rightarrow> bytes \<Rightarrow> bytes \<times> 'e unversioned_by_id \<Rightarrow> bytes \<times> bytes \<Rightarrow> bool" where
  "un_stored v crc32 buf x y \<longleftrightarrow> fst x = fst y \<and> chunk_at v crc32 False buf (u_position (snd x)) = Ok (snd y) \<and>
     u_value_length (snd x) = of_nat (length (snd y)) \<and> u_position (snd x) \<noteq> 0"

definition un_stores ::
    "vault option \<Rightarrow> (bytes \<Rightarrow> u32) \<Rightarrow> bytes \<Rightarrow> (bytes \<times> 'e unversioned_by_id) list \<Rightarrow>
     (bytes \<times> bytes) list \<Rightarrow> bool" where
  "un_stores v crc32 buf = list_all2 (un_stored v crc32 buf)"

text \<open>What an operation means for the key-value list (compare-swap apart, whose callback also sees
  the index).\<close>

fun next_value :: "(bytes, 'i, 's) operation \<Rightarrow> (bytes option \<times> (bytes, 'i, 's) operation) option" where
  "next_value (OpSet b) = Some (Some b, OpSet b)"
| "next_value (OpSetEach vs) = (if vs = [] then None else Some (Some (last vs), OpSetEach (butlast vs)))"
| "next_value OpRemove = Some (None, OpRemove)"
| "next_value (OpCompareSwap f s) = None"

fun store_keys ::
    "bytes list \<Rightarrow> (bytes, 'i, 's) operation \<Rightarrow> (bytes \<times> bytes) list \<Rightarrow> (bytes \<times> bytes) list option" where
  "store_keys [] op kv = Some kv"
| "store_keys (k # ks) op kv =
     (case next_value op of
        Some (Some b, op') \<Rightarrow> store_keys ks op' (upd_sorted k b kv)
      | Some (None, op') \<Rightarrow> store_keys ks op' (del_sorted k kv)
      | None \<Rightarrow> None)"

fun op_values :: "(bytes, 'i, 's) operation \<Rightarrow> bytes set" where
  "op_values (OpSet b) = {b}"
| "op_values (OpSetEach vs) = set vs"
| "op_values OpRemove = {}"
| "op_values (OpCompareSwap f s) = {}"

definition storable :: "vault option \<Rightarrow> bytes \<Rightarrow> bool" where
  "storable v b \<longleftrightarrow> (\<exists>c. encrypt_with v b = Ok c \<and> length c < 2 ^ 32)"

text \<open>The space a chunk takes at most.\<close>

definition chunk_limit :: nat where
  "chunk_limit = 2 ^ 32 + 8"

lemma list_all2_upd_sorted:
  assumes "list_all2 P xs ys" and "\<And>x y. P x y \<Longrightarrow> fst x = fst y" and "P (k, i) (k, b)"
  shows "list_all2 P (upd_sorted k i xs) (upd_sorted k b ys)"
proof -
  have "list_all2 P (takeWhile (\<lambda>p. fst p < k) xs) (takeWhile (\<lambda>p. fst p < k) ys)"
    using assms(1) by (induction rule: list_all2_induct) (auto dest: assms(2))
  moreover have "list_all2 P (dropWhile (\<lambda>p. fst p \<le> k) xs) (dropWhile (\<lambda>p. fst p \<le> k) ys)"
    using assms(1) by (induction rule: list_all2_induct) (auto dest: assms(2))
  ultimately show ?thesis using assms(3) by (simp add: upd_sorted_def list_all2_appendI)
qed

lemma list_all2_del_sorted:
  assumes "list_all2 P xs ys" and "\<And>x y. P x y \<Longrightarrow> fst x = fst y"
  shows "list_all2 P (del_sorted k xs) (del_sorted k ys)"
  using assms(1) unfolding del_sorted_def by (induction rule: list_all2_induct) (auto dest: assms(2))

lemma un_stores_map_of:
  assumes "un_stores v crc32 buf xs kv"
  shows "map_of kv k = Some b \<longleftrightarrow> (\<exists>i. map_of xs k = Some i \<and> un_stored v crc32 buf (k, i) (k, b))"
    and "map_of kv k = None \<longleftrightarrow> map_of xs k = None"
  using assms unfolding un_stores_def
  by (induction rule: list_all2_induct) (auto simp: un_stored_def split: if_splits)

lemma un_stores_prefix: "un_stores v crc32 buf xs kv \<Longrightarrow> un_stores v crc32 (buf @ rest) xs kv"
  unfolding un_stores_def by (erule list_all2_mono) (auto simp: un_stored_def chunk_at_prefix)

lemma of_nat_u64_neq_0: "0 < n \<Longrightarrow> n < 2 ^ 64 \<Longrightarrow> (of_nat n :: u64) \<noteq> 0"
  using unat_of_nat [of n, where 'a = 64] by fastforce

lemma map_of_upd_sorted_here: "map_of (upd_sorted k v xs) k = Some v"
proof -
  have "map_of (takeWhile (\<lambda>p. fst p < k) xs) k = None"
    by (auto simp: map_of_eq_None_iff dest: set_takeWhileD)
  then show ?thesis by (simp add: upd_sorted_def map_add_def)
qed

text \<open>What an operation decides for a key, given its index and its value.\<close>

fun value_decision ::
    "bytes \<Rightarrow> 'i option \<Rightarrow> bytes option \<Rightarrow> (bytes, 'i, 's) operation \<Rightarrow>
     (bytes key_operation \<times> (bytes, 'i, 's) operation) option" where
  "value_decision k i b (OpSet b') = Some (KeySet b', OpSet b')"
| "value_decision k i b (OpSetEach vs) = (if vs = [] then None else Some (KeySet (last vs), OpSetEach (butlast vs)))"
| "value_decision k i b OpRemove = Some (KeyRemove, OpRemove)"
| "value_decision k i b (OpCompareSwap f s) = (case f s k i b of (d, s') \<Rightarrow> Some (d, OpCompareSwap f s'))"

context chunk_vault
begin

lemma write_chunk_stores:
  fixes b :: bytes
  assumes inv: "pw_started w" and st: "storable v b" and fits: "length (pw_image w) + chunk_limit < 2 ^ 64"
  obtains p w' where "write_chunk v crc32 b w = (Ok p, w')" and "pw_started w'" and "p \<noteq> 0"
    and "length (pw_image w') \<le> length (pw_image w) + chunk_limit"
    and "chunk_at v crc32 False (pw_image w') p = Ok b" and "\<exists>rest. pw_image w' = pw_image w @ rest"
proof -
  from st obtain c where c: "encrypt_with v b = Ok c" "length c < 2 ^ 32" by (auto simp: storable_def)
  have inv': "pw_inv w" "pw_image w \<noteq> []" using inv by (simp_all add: pw_started_def)
  from inv'(1) c obtain w' where w': "write_chunk v crc32 b w = (Ok (of_nat (length (pw_image w))), w')"
    "pw_appends (chunk_bytes crc32 c) w w'" by (rule write_chunk_ok)
  have len: "length (pw_image w') = length (pw_image w) + 8 + length c"
    using w'(2) by (simp add: pw_appends_def)
  then have "pw_fits w'" using fits c(2) by (simp add: pw_fits_def chunk_limit_def)
  moreover have "(of_nat (length (pw_image w)) :: u64) \<noteq> 0"
    using inv'(2) fits of_nat_u64_neq_0 by (simp add: chunk_limit_def)
  ultimately show thesis
    using image_store.read_back [OF inv'(1) w'(1)] write_chunk_started [OF inv w'(1)] len c(2) w'
    by (intro that) (auto simp: chunk_limit_def image_chunk_def pw_appends_def)
qed

text \<open>
  One key: the specification does what the operation decides, to the values and to the results. A
  compare-swap reads the current value from the file behind the writer.
\<close>

lemma un_apply_key_decides:
  assumes inv: "pw_started w" and fits: "length (pw_image w) + chunk_limit < 2 ^ 64"
    and stores: "un_stores v crc32 (pw_image w) xs kv"
    and dec: "value_decision k (map_of xs k) (map_of kv k) op = Some (d, op')"
    and st: "\<forall>b. d = KeySet b \<longrightarrow> storable v b"
    and loads: "\<forall>f s i. op = OpCompareSwap f s \<longrightarrow> map_of xs k = Some i \<longrightarrow>
      file_chunk v crc32 w (u_position i) = Ok (the (map_of kv k))"
  shows "\<exists>xs' c' w'. apply_key (un_context v crc32 red order mc) k (xs, op, c, w) = (Ok (), xs', op', c', w') \<and>
    pw_started w' \<and> length (pw_image w') \<le> length (pw_image w) + chunk_limit \<and> (\<exists>rest. pw_image w' = pw_image w @ rest) \<and>
    un_stores v crc32 (pw_image w') xs' (update_contents k d kv) \<and>
    (\<forall>b. d = KeySet b \<longrightarrow> (\<exists>i. c' = c @ [\<lparr>mr_key = k, mr_index = Some i\<rparr>] \<and> map_of xs' k = Some i))"
proof -
  let ?ctx = "un_context v crc32 red order mc"
  have ex: "map_of kv k = None \<longleftrightarrow> map_of xs k = None" by (rule un_stores_map_of [OF stores])
  show ?thesis
  proof (cases d)
    case KeySkip
    with dec ex loads have "apply_key ?ctx k (xs, op, c, w) = (Ok (), xs, op', c, w)"
      by (cases op; cases "map_of xs k"; cases "map_of kv k")
        (auto simp: apply_key.simps key_decision_def un_context_def un_loader_def res_map_def split: if_splits prod.splits)
    with KeySkip inv stores show ?thesis by auto
  next
    case KeyRemove
    with dec ex loads have "\<exists>c'. apply_key ?ctx k (xs, op, c, w) = (Ok (), del_sorted k xs, op', c', w)"
      by (cases op; cases "map_of xs k"; cases "map_of kv k")
        (auto simp: apply_key.simps key_decision_def un_context_def un_loader_def un_indexer_def res_map_def
          split: if_splits prod.splits)
    moreover have "un_stores v crc32 (pw_image w) (del_sorted k xs) (del_sorted k kv)"
      using stores unfolding un_stores_def by (rule list_all2_del_sorted) (simp add: un_stored_def)
    ultimately show ?thesis using KeyRemove inv by auto
  next
    case (KeySet b)
    with st have "storable v b" by blast
    from write_chunk_stores [OF inv this fits, of crc32]
    obtain p w' rest where w: "write_chunk v crc32 b w = (Ok p, w')" "pw_started w'" "p \<noteq> 0"
      "length (pw_image w') \<le> length (pw_image w) + chunk_limit" "chunk_at v crc32 False (pw_image w') p = Ok b"
      "pw_image w' = pw_image w @ rest" by metis
    define i where "i = \<lparr>u_value_length = of_nat (length b), u_position = p, u_embedded = index red k (Some b)\<rparr>"
    have "apply_key ?ctx k (xs, op, c, w) =
        (Ok (), upd_sorted k i xs, op', c @ [\<lparr>mr_key = k, mr_index = Some i\<rparr>], w')"
      using dec KeySet w(1) ex loads by (cases op; cases "map_of xs k"; cases "map_of kv k")
        (auto simp: apply_key.simps key_decision_def un_context_def un_loader_def un_indexer_def Let_def i_def
          res_map_def split: if_splits prod.splits)
    moreover have "list_all2 (un_stored v crc32 (pw_image w')) xs kv"
      using un_stores_prefix [OF stores, of rest] w(6) by (simp add: un_stores_def)
    then have "un_stores v crc32 (pw_image w') (upd_sorted k i xs) (upd_sorted k b kv)"
      unfolding un_stores_def
      by (rule list_all2_upd_sorted) (simp_all add: un_stored_def i_def w(3,5))
    ultimately show ?thesis using KeySet w by (auto simp: map_of_upd_sorted_here)
  qed
qed

lemma un_apply_key_stores:
  assumes "pw_started w" and "length (pw_image w) + chunk_limit < 2 ^ 64"
    and "un_stores v crc32 (pw_image w) xs kv" and nv: "next_value op = Some (val, op')"
    and st: "\<forall>b \<in> op_values op. storable v b"
  shows "\<exists>xs' c' w'. apply_key (un_context v crc32 red order mc) k (xs, op, c, w) = (Ok (), xs', op', c', w') \<and>
    pw_started w' \<and> length (pw_image w') \<le> length (pw_image w) + chunk_limit \<and> (\<exists>rest. pw_image w' = pw_image w @ rest) \<and>
    un_stores v crc32 (pw_image w') xs' (case val of Some b \<Rightarrow> upd_sorted k b kv | None \<Rightarrow> del_sorted k kv)"
proof -
  define d where "d = (case val of Some b \<Rightarrow> KeySet b | None \<Rightarrow> KeyRemove)"
  have "value_decision k (map_of xs k) (map_of kv k) op = Some (d, op')" "\<forall>b. d = KeySet b \<longrightarrow> storable v b"
    "\<forall>f s. op \<noteq> OpCompareSwap f s" using nv st by (cases op; auto simp: d_def split: if_splits)+
  from un_apply_key_decides [OF assms(1-3) this(1,2), of red order mc c] this(3) show ?thesis
    by (cases val) (force simp: d_def)+
qed

lemma un_apply_keys_stores:
  assumes "pw_started w" and "length (pw_image w) + length ks * chunk_limit < 2 ^ 64"
    and "un_stores v crc32 (pw_image w) xs kv" and "store_keys ks op kv = Some kv'"
    and "\<forall>b \<in> op_values op. storable v b"
  shows "\<exists>xs' op' c' w'. apply_keys (un_context v crc32 red order mc) ks (xs, op, c, w) = (Ok (), xs', op', c', w') \<and>
    pw_started w' \<and> length (pw_image w') \<le> length (pw_image w) + length ks * chunk_limit \<and>
    (\<exists>rest. pw_image w' = pw_image w @ rest) \<and> un_stores v crc32 (pw_image w') xs' kv'"
  using assms
proof (induction ks arbitrary: w xs op c kv)
  case (Cons k ks)
  from Cons.prems(4) obtain val op1 where nv: "next_value op = Some (val, op1)"
    and rest: "store_keys ks op1 (case val of Some b \<Rightarrow> upd_sorted k b kv | None \<Rightarrow> del_sorted k kv) = Some kv'"
    by (auto split: option.splits prod.splits)
  have "length (pw_image w) + chunk_limit < 2 ^ 64" using Cons.prems(2) by simp
  from un_apply_key_stores [OF Cons.prems(1) this Cons.prems(3) nv Cons.prems(5)]
  obtain xs1 c1 w1 where 1: "apply_key (un_context v crc32 red order mc) k (xs, op, c, w) = (Ok (), xs1, op1, c1, w1)"
    "pw_started w1" "length (pw_image w1) \<le> length (pw_image w) + chunk_limit"
    "\<exists>rest. pw_image w1 = pw_image w @ rest"
    "un_stores v crc32 (pw_image w1) xs1 (case val of Some b \<Rightarrow> upd_sorted k b kv | None \<Rightarrow> del_sorted k kv)" by blast
  have "op_values op1 \<subseteq> op_values op"
    using nv by (cases op) (auto split: if_splits dest: in_set_butlastD)
  with Cons.prems(5) have st1: "\<forall>b \<in> op_values op1. storable v b" by blast
  have "length (pw_image w1) + length ks * chunk_limit < 2 ^ 64" using Cons.prems(2) 1(3) by simp
  from Cons.IH [OF 1(2) this 1(5) rest st1, of c1] obtain xs' op' c' w' where
    "apply_keys (un_context v crc32 red order mc) ks (xs1, op1, c1, w1) = (Ok (), xs', op', c', w')"
    "pw_started w'" "length (pw_image w') \<le> length (pw_image w1) + length ks * chunk_limit"
    "\<exists>rest. pw_image w' = pw_image w1 @ rest"
    "un_stores v crc32 (pw_image w') xs' kv'" by blast
  with 1 show ?case by auto
qed auto

end

lemma store_keys_set: "store_keys ks (OpSet b) kv = Some (fold (\<lambda>k. upd_sorted k b) ks kv)"
  by (induction ks arbitrary: kv) auto

lemma store_keys_remove: "store_keys ks OpRemove kv = Some (fold del_sorted ks kv)"
  by (induction ks arbitrary: kv) auto

lemma store_keys_set_each:
  "length vs = length ks \<Longrightarrow>
     store_keys ks (OpSetEach (rev vs)) kv = Some (fold (\<lambda>(k, b). upd_sorted k b) (zip ks vs) kv)"
  by (induction ks arbitrary: vs kv) (auto simp: length_Suc_conv)

lemma map_of_fold_upd:
  "ksorted kv \<Longrightarrow> distinct (map fst ps) \<Longrightarrow>
     map_of (fold (\<lambda>(k, b). upd_sorted k b) ps kv) = map_of kv ++ map_of ps"
proof (induction ps arbitrary: kv)
  case (Cons p ps)
  obtain k b where p: "p = (k, b)" by (cases p)
  have "map_of ps k = None" using Cons.prems(2) p by (auto simp: map_of_eq_None_iff)
  then show ?case using Cons.IH [of "upd_sorted k b kv"] Cons.prems p
    by (auto simp: sorted_simps map_of_upd_sorted map_add_def fun_eq_iff split: option.splits)
qed simp

lemma map_of_fold_del:
  "map_of (fold del_sorted ks kv) k = (if k \<in> set ks then None else map_of kv k)"
  by (induction ks arbitrary: kv) (auto simp: map_of_del_sorted)

section \<open>Header round trip and persistence\<close>

text \<open>A file with a vault and the encodings of the embedded index and its reduction.\<close>

locale un_tree = chunk_vault v + E: embedded_codec eser edes + S: embedded_codec esser esdes
  for v and eser :: "'e \<Rightarrow> bytes res" and edes and esser :: "'es \<Rightarrow> bytes res" and esdes

sublocale un_tree \<subseteq> un_store: tree_store "ser_unversioned eser" "des_unversioned edes"
    "ser_by_id_stats esser" "des_by_id_stats esdes" "write_chunk v crc32" "image_chunk v crc32" pw_inv pw_fits
  for crc32
  by unfold_locales

interpretation un_plain: un_tree None unit_ser unit_des unit_ser unit_des
  by unfold_locales

context un_tree
begin

lemma un_header_round_trip:
  assumes "un_serialize v crc32 eser esser t w = (Ok b, t', w')"
  shows "un_deserialize edes esdes (un_reducer t) b = Ok t'"
proof -
  obtain r root' w1 where ser: "ser_entry (write_chunk v crc32) (ser_unversioned eser) (ser_by_id_stats esser)
      (un_by_id_root t) w = (r, root', w1)" by (metis prod_cases3)
  with assms obtain i x where i: "un_transaction_id t = Some i" and r: "r = Ok x" and len: "length x < 2 ^ 32"
    and b: "b = u64_be i @ u32_be (of_nat (length x)) @ x" and t': "t' = t\<lparr>un_by_id_root := root'\<rparr>"
    by (cases r) (auto simp: un_serialize_def split: option.splits if_splits)
  have "des_entry (des_unversioned edes) (des_by_id_stats esdes) x = Ok root'"
    using un_store.node_round_trip [OF ser [unfolded r]] by blast
  moreover have "unat (of_nat (length x) :: u32) = length x" using len by (simp add: unat_of_nat)
  ultimately show ?thesis unfolding b un_deserialize_def t' using i
    by (simp add: read_exact_def res_map_def)
qed

lemma un_persisted:
  assumes "pw_inv w" and "un_serialize v crc32 eser esser t w = (Ok b, t', w')" and "pw_fits w'"
    and "root_ok (un_store.rd crc32 w) (un_id_reducer t) n (un_by_id_root t)"
  shows "root_ok (un_store.rd crc32 w') (un_id_reducer t') n (un_by_id_root t') \<and>
    contents (un_store.rd crc32 w') n (un_by_id_root t') = contents (un_store.rd crc32 w) n (un_by_id_root t)"
proof -
  obtain r root' w1 where ser: "ser_entry (write_chunk v crc32) (ser_unversioned eser) (ser_by_id_stats esser)
      (un_by_id_root t) w = (r, root', w1)" by (metis prod_cases3)
  with assms(2) obtain x where r: "r = Ok x" and t': "t' = t\<lparr>un_by_id_root := root'\<rparr>" "w' = w1"
    by (cases r) (auto simp: un_serialize_def split: option.splits if_splits)
  show ?thesis
    using un_store.ser_entry_ok [OF assms(1) ser [unfolded r], of "un_id_reducer t" n] assms(3,4) t'
    by (auto simp: root_ok_def contents_def un_id_reducer_def)
qed

end

end
