(* ===== verification/Versioned.thy ===== *)
theory Versioned
  imports Unversioned
begin

text \<open>
  The versioned tree root of \<^verbatim>\<open>nebari/src/tree/versioned.rs\<close>: every write takes a new sequence
  number and goes into two trees, the tree by id (the current version of each key) and the tree by
  sequence (every version, keyed by the big-endian sequence number). A removal is an entry with
  position 0.
\<close>

section \<open>The root\<close>

record 'e key_sequence =
  ks_key :: bytes
  ks_sequence :: u64
  ks_last_sequence :: "u64 option"
  ks_embedded :: "'e option"

record 'e entry_change =
  ech_key_sequence :: "'e key_sequence"
  ech_value_position :: u64
  ech_value_size :: u32

record 'e entry_changes =
  ec_current_sequence :: u64
  ec_changes :: "'e entry_change list"

record ('e, 'es) versioned_root =
  ve_transaction_id :: transaction_id
  ve_sequence :: u64
  ve_by_sequence_root :: "('e by_sequence_index, by_sequence_stats) entry"
  ve_by_id_root :: "('e versioned_by_id, 'es by_id_stats) entry"
  ve_reducer :: "('e, 'es) embedded_indexer"

definition ve_default_with :: "('e, 'es) embedded_indexer \<Rightarrow> ('e, 'es) versioned_root" where
  "ve_default_with red =
     \<lparr>ve_transaction_id = 0, ve_sequence = 0, ve_by_sequence_root = default_entry,
      ve_by_id_root = default_entry, ve_reducer = red\<rparr>"

definition ve_id_reducer :: "('e, 'es) versioned_root \<Rightarrow> ('e versioned_by_id, 'es by_id_stats) reducer" where
  "ve_id_reducer t = versioned_reducer (e_reducer (ve_reducer t))"

definition ve_initialized :: "('e, 'es) versioned_root \<Rightarrow> bool" where
  "ve_initialized t \<longleftrightarrow> sequence_valid (ve_sequence t)"

definition ve_dirty :: "('e, 'es) versioned_root \<Rightarrow> bool" where
  "ve_dirty t \<longleftrightarrow> dirty (ve_by_id_root t) \<or> dirty (ve_by_sequence_root t)"

definition ve_initialize_default :: "('e, 'es) versioned_root \<Rightarrow> ('e, 'es) versioned_root" where
  "ve_initialize_default t = t\<lparr>ve_sequence := 1\<rparr>"

definition ve_count :: "('e, 'es) versioned_root \<Rightarrow> u64 res" where
  "ve_count t = res_map alive_keys (stats (ve_id_reducer t) (ve_by_id_root t))"

section \<open>The tree by sequence\<close>

definition seq_indexer ::
    "bytes \<Rightarrow> 'e by_sequence_index option \<Rightarrow> 'e by_sequence_index option \<Rightarrow> unit \<Rightarrow> paged_writer \<Rightarrow>
     'e by_sequence_index key_operation res \<times> unit \<times> paged_writer" where
  "seq_indexer key val existing c w = (res_map KeySet (unwrap val), c, w)"

definition seq_context ::
    "nat \<Rightarrow> nat \<Rightarrow> ('e by_sequence_index, 'e by_sequence_index, by_sequence_stats, unit, paged_writer)
       modification_context" where
  "seq_context order min_children =
     \<lparr>current_order = order, minimum_children = min_children, indexer = seq_indexer,
      loader = (\<lambda>i w. Ok None), ctx_reducer = by_sequence_reducer\<rparr>"

definition seq_reader ::
    "vault option \<Rightarrow> (bytes \<Rightarrow> u32) \<Rightarrow> (bytes \<Rightarrow> ('e \<times> bytes) res) \<Rightarrow>
     ('e by_sequence_index, by_sequence_stats, paged_writer) node_reader" where
  "seq_reader v crc32 edes = node_reader (file_chunk v crc32) (des_by_sequence edes) des_by_sequence_stats"

definition ve_modify_sequence_root ::
    "nat \<Rightarrow> (nat \<Rightarrow> nat) \<Rightarrow> vault option \<Rightarrow> (bytes \<Rightarrow> u32) \<Rightarrow> (bytes \<Rightarrow> ('e \<times> bytes) res) \<Rightarrow> nat option \<Rightarrow>
     ('e by_sequence_index, 'e by_sequence_index, unit) modification \<Rightarrow> ('e, 'es) versioned_root \<Rightarrow>
     paged_writer \<Rightarrow> unit res \<times> ('e, 'es) versioned_root \<times> paged_writer" where
  "ve_modify_sequence_root fuel cbrt v crc32 edes max_order m t w =
     (case reverse m of
        Ok m1 \<Rightarrow>
          (case stats by_sequence_reducer (ve_by_sequence_root t) of
             Ok st \<Rightarrow>
               (let total_records = unat (total_sequences st + of_nat (length (keys m1)));
                    order = dynamic_order cbrt total_records max_order;
                    min_children = minimum_children_for order total_records in
                case modify_root (length (keys m1)) fuel False (seq_context order min_children)
                    (seq_reader v crc32 edes) (ve_by_sequence_root t) m1 () w of
                  (r, root', m', c', w') \<Rightarrow> (r, t\<lparr>ve_by_sequence_root := root'\<rparr>, w'))
           | bad \<Rightarrow> (lift_err bad, t, w))
      | bad \<Rightarrow> (lift_err bad, t, w))"

section \<open>The tree by id\<close>

text \<open>The context of the indexer: the changes so far and the results so far.\<close>

type_synonym 'e ve_changes = "'e entry_changes \<times> 'e versioned_by_id modification_result list"

definition ve_record_change ::
    "('e, 'es) embedded_indexer \<Rightarrow> bytes \<Rightarrow> bytes option \<Rightarrow> 'e versioned_by_id option \<Rightarrow> u64 \<Rightarrow> u32 \<Rightarrow>
     'e ve_changes \<Rightarrow> 'e versioned_by_id key_operation res \<times> 'e ve_changes" where
  "ve_record_change red key val existing position value_size c =
     (case c of (changes, results) \<Rightarrow>
        (case next_sequence (ec_current_sequence changes) of
           None \<Rightarrow> (Panic, c)
         | Some sq \<Rightarrow>
             (let embedded = index red key val;
                  change = \<lparr>ech_key_sequence = \<lparr>ks_key = key, ks_sequence = sq,
                      ks_last_sequence = map_option v_sequence_id existing, ks_embedded = Some embedded\<rparr>,
                    ech_value_position = position, ech_value_size = value_size\<rparr>;
                  new_index = \<lparr>v_sequence_id = sq, v_value_length = value_size, v_position = position,
                    v_embedded = embedded\<rparr> in
              (Ok (KeySet new_index),
               \<lparr>ec_current_sequence = sq, ec_changes = ec_changes changes @ [change]\<rparr>,
               results @ [\<lparr>mr_key = key, mr_index = Some new_index\<rparr>]))))"

definition ve_indexer ::
    "vault option \<Rightarrow> (bytes \<Rightarrow> u32) \<Rightarrow> ('e, 'es) embedded_indexer \<Rightarrow> bytes \<Rightarrow> bytes option \<Rightarrow>
     'e versioned_by_id option \<Rightarrow> 'e ve_changes \<Rightarrow> paged_writer \<Rightarrow>
     'e versioned_by_id key_operation res \<times> 'e ve_changes \<times> paged_writer" where
  "ve_indexer v crc32 red key val existing c w =
     (case val of
        Some b \<Rightarrow>
          (case write_chunk v crc32 b w of
             (Ok position, w') \<Rightarrow>
               (case ve_record_change red key val existing position (of_nat (length b)) c of
                  (r, c') \<Rightarrow> (r, c', w'))
           | (bad, w') \<Rightarrow> (lift_err bad, c, w'))
      | None \<Rightarrow> (case ve_record_change red key val existing 0 0 c of (r, c') \<Rightarrow> (r, c', w)))"

definition ve_loader ::
    "vault option \<Rightarrow> (bytes \<Rightarrow> u32) \<Rightarrow> 'e versioned_by_id \<Rightarrow> paged_writer \<Rightarrow> bytes option res" where
  "ve_loader v crc32 i w =
     (if v_position i > 0 then res_map Some (file_chunk v crc32 w (v_position i)) else Ok None)"

definition ve_context ::
    "vault option \<Rightarrow> (bytes \<Rightarrow> u32) \<Rightarrow> ('e, 'es) embedded_indexer \<Rightarrow> nat \<Rightarrow> nat \<Rightarrow>
     (bytes, 'e versioned_by_id, 'es by_id_stats, 'e ve_changes, paged_writer) modification_context" where
  "ve_context v crc32 red order min_children =
     \<lparr>current_order = order, minimum_children = min_children, indexer = ve_indexer v crc32 red,
      loader = ve_loader v crc32, ctx_reducer = versioned_reducer (e_reducer red)\<rparr>"

definition ve_reader ::
    "vault option \<Rightarrow> (bytes \<Rightarrow> u32) \<Rightarrow> (bytes \<Rightarrow> ('e \<times> bytes) res) \<Rightarrow> (bytes \<Rightarrow> ('es \<times> bytes) res) \<Rightarrow>
     ('e versioned_by_id, 'es by_id_stats, paged_writer) node_reader" where
  "ve_reader v crc32 edes esdes =
     node_reader (file_chunk v crc32) (des_versioned edes) (des_by_id_stats esdes)"

definition ve_modify_id_root ::
    "nat \<Rightarrow> (nat \<Rightarrow> nat) \<Rightarrow> vault option \<Rightarrow> (bytes \<Rightarrow> u32) \<Rightarrow> (bytes \<Rightarrow> ('e \<times> bytes) res) \<Rightarrow>
     (bytes \<Rightarrow> ('es \<times> bytes) res) \<Rightarrow> nat option \<Rightarrow> (bytes, 'e versioned_by_id, 's) modification \<Rightarrow>
     'e entry_changes \<Rightarrow> ('e, 'es) versioned_root \<Rightarrow> paged_writer \<Rightarrow>
     'e versioned_by_id modification_result list res \<times> (bytes, 'e versioned_by_id, 's) operation \<times>
     'e entry_changes \<times> ('e, 'es) versioned_root \<times> paged_writer" where
  "ve_modify_id_root fuel cbrt v crc32 edes esdes max_order m changes t w =
     (case reverse m of
        Ok m1 \<Rightarrow>
          (case stats (ve_id_reducer t) (ve_by_id_root t) of
             Ok st \<Rightarrow>
               (let total_records = unat (total_keys st + of_nat (length (keys m1)));
                    order = dynamic_order cbrt total_records max_order;
                    min_children = minimum_children_for order total_records in
                case modify_root (length (keys m1)) fuel True
                    (ve_context v crc32 (ve_reducer t) order min_children)
                    (ve_reader v crc32 edes esdes) (ve_by_id_root t) m1 (changes, []) w of
                  (Ok u, root', m', (changes', results), w') \<Rightarrow>
                    (Ok results, operation m', changes',
                     t\<lparr>ve_by_id_root := root', ve_sequence := ec_current_sequence changes'\<rparr>, w')
                | (bad, root', m', (changes', results), w') \<Rightarrow>
                    (lift_err bad, operation m', changes', t\<lparr>ve_by_id_root := root'\<rparr>, w'))
           | bad \<Rightarrow> (lift_err bad, operation m1, changes, t, w))
      | bad \<Rightarrow> (lift_err bad, operation m, changes, t, w))"

section \<open>Modification\<close>

definition change_index :: "'e entry_change \<Rightarrow> 'e by_sequence_index" where
  "change_index ch =
     \<lparr>q_key = ks_key (ech_key_sequence ch), q_last_sequence = ks_last_sequence (ech_key_sequence ch),
      q_value_length = ech_value_size ch, q_position = ech_value_position ch,
      q_embedded = ks_embedded (ech_key_sequence ch)\<rparr>"

definition change_key :: "'e entry_change \<Rightarrow> bytes" where
  "change_key ch = u64_be (ks_sequence (ech_key_sequence ch))"

definition sequence_modification ::
    "persistence_mode \<Rightarrow> 'e entry_change list \<Rightarrow>
     ('e by_sequence_index, 'e by_sequence_index, unit) modification" where
  "sequence_modification mode changes =
     \<lparr>persistence_mode = mode, keys = map change_key changes,
      operation = OpSetEach (map change_index changes)\<rparr>"

definition ve_modify ::
    "nat \<Rightarrow> (nat \<Rightarrow> nat) \<Rightarrow> vault option \<Rightarrow> (bytes \<Rightarrow> u32) \<Rightarrow> (bytes \<Rightarrow> ('e \<times> bytes) res) \<Rightarrow>
     (bytes \<Rightarrow> ('es \<times> bytes) res) \<Rightarrow> nat option \<Rightarrow> (bytes, 'e versioned_by_id, 's) modification \<Rightarrow>
     ('e, 'es) versioned_root \<Rightarrow> paged_writer \<Rightarrow>
     'e versioned_by_id modification_result list res \<times> (bytes, 'e versioned_by_id, 's) operation \<times>
     ('e, 'es) versioned_root \<times> paged_writer" where
  "ve_modify fuel cbrt v crc32 edes esdes max_order m t w =
     (case ve_modify_id_root fuel cbrt v crc32 edes esdes max_order m
         \<lparr>ec_current_sequence = ve_sequence t, ec_changes = []\<rparr> t w of
        (Ok results, op', changes, t1, w1) \<Rightarrow>
          (case ve_modify_sequence_root fuel cbrt v crc32 edes max_order
              (sequence_modification (persistence_mode m) (ec_changes changes)) t1 w1 of
             (Ok u, t2, w2) \<Rightarrow>
               (Ok results, op',
                (case persistence_transaction_id (persistence_mode m) of
                   Some i \<Rightarrow> t2\<lparr>ve_transaction_id := i\<rparr>
                 | None \<Rightarrow> t2), w2)
           | (bad, t2, w2) \<Rightarrow> (lift_err bad, op', t2, w2))
      | (bad, op', changes, t1, w1) \<Rightarrow> (bad, op', t1, w1))"

section \<open>Header\<close>

definition ve_serialize ::
    "vault option \<Rightarrow> (bytes \<Rightarrow> u32) \<Rightarrow> ('e \<Rightarrow> bytes res) \<Rightarrow> ('es \<Rightarrow> bytes res) \<Rightarrow> ('e, 'es) versioned_root \<Rightarrow>
     paged_writer \<Rightarrow> bytes res \<times> ('e, 'es) versioned_root \<times> paged_writer" where
  "ve_serialize v crc32 eser esser t w =
     (case ser_entry (write_chunk v crc32) (ser_by_sequence eser) ser_by_sequence_stats
         (ve_by_sequence_root t) w of
        (Ok sb, sroot, w1) \<Rightarrow>
          (case ser_entry (write_chunk v crc32) (ser_versioned eser) (ser_by_id_stats esser)
              (ve_by_id_root t) w1 of
             (r, iroot, w2) \<Rightarrow>
               (res_bind r (\<lambda>ib.
                  if length sb < 2 ^ 32 \<and> length ib < 2 ^ 32 then
                    Ok (u64_be (ve_transaction_id t) @ u64_be (ve_sequence t) @
                        u32_be (of_nat (length sb)) @ u32_be (of_nat (length ib)) @ sb @ ib)
                  else Err (Internal HeaderTooLarge)),
                t\<lparr>ve_by_sequence_root := sroot, ve_by_id_root := iroot\<rparr>, w2))
      | (bad, sroot, w1) \<Rightarrow> (bad, t\<lparr>ve_by_sequence_root := sroot\<rparr>, w1))"

definition ve_deserialize ::
    "(bytes \<Rightarrow> ('e \<times> bytes) res) \<Rightarrow> (bytes \<Rightarrow> ('es \<times> bytes) res) \<Rightarrow> ('e, 'es) embedded_indexer \<Rightarrow> bytes \<Rightarrow>
     ('e, 'es) versioned_root res" where
  "ve_deserialize edes esdes red b =
     res_bind (read_u64 b) (\<lambda>(tid, r1).
     res_bind (read_u64 r1) (\<lambda>(sq, r2).
     res_bind (read_u32 r2) (\<lambda>(ssize, r3).
     res_bind (read_u32 r3) (\<lambda>(isize, r4).
       if unat ssize + unat isize \<noteq> length r4 then Err (DataIntegrity (Message ''header index sizes''))
       else
         res_bind (read_exact (unat ssize) r4) (\<lambda>(sbytes, r5).
         res_bind (read_exact (unat isize) r5) (\<lambda>(ibytes, r6).
         res_bind (des_entry (des_by_sequence edes) des_by_sequence_stats sbytes) (\<lambda>sroot.
         res_bind (des_entry (des_versioned edes) (des_by_id_stats esdes) ibytes) (\<lambda>iroot.
           Ok \<lparr>ve_transaction_id = tid, ve_sequence = sq, ve_by_sequence_root = sroot,
               ve_by_id_root = iroot, ve_reducer = red\<rparr>))))))))"

section \<open>A change per write\<close>

interpretation ve_nodes: node_store "ve_context v crc32 red order min_children" "ve_reader v crc32 edes esdes"
  for v crc32 red order min_children edes esdes
  by unfold_locales
    (auto simp: ve_context_def ve_reader_def ve_indexer_def split: option.splits prod.splits res.splits
      dest: write_chunk_file_extends)

interpretation seq_nodes: node_store "seq_context order min_children" "seq_reader v crc32 edes"
  for order min_children v crc32 edes
  by unfold_locales (auto simp: seq_context_def seq_indexer_def)

text \<open>What the indexer does when it succeeds.\<close>

definition changed ::
    "bytes \<Rightarrow> (bytes \<times> 'e versioned_by_id) list \<Rightarrow> 'e entry_changes \<Rightarrow> 'e versioned_by_id \<Rightarrow> 'e entry_changes \<Rightarrow> bool" where
  "changed k xs ch i ch' \<longleftrightarrow>
     next_sequence (ec_current_sequence ch) = Some (v_sequence_id i) \<and>
     ch' = \<lparr>ec_current_sequence = v_sequence_id i, ec_changes = ec_changes ch @
       [\<lparr>ech_key_sequence = \<lparr>ks_key = k, ks_sequence = v_sequence_id i,
           ks_last_sequence = map_option v_sequence_id (map_of xs k), ks_embedded = Some (v_embedded i)\<rparr>,
         ech_value_position = v_position i, ech_value_size = v_value_length i\<rparr>]\<rparr>"

lemma ve_indexer_ok:
  assumes "ve_indexer v crc32 red k val (map_of xs k) (ch, res) w = (Ok d, (ch', res'), w')"
  obtains i where "d = KeySet i" and "changed k xs ch i ch'"
proof -
  have "case d of KeySet i \<Rightarrow> changed k xs ch i ch' | _ \<Rightarrow> False"
    using assms
    by (auto simp: ve_indexer_def ve_record_change_def Let_def changed_def
        split: option.splits prod.splits res.splits)
  then show thesis using that by (cases d) auto
qed

lemma del_sorted_missing: "map_of xs k = None \<Longrightarrow> del_sorted k xs = xs"
  unfolding del_sorted_def by (rule filter_True) (auto simp: map_of_eq_None_iff)

lemma ve_apply_key_cases:
  assumes "apply_key (ve_context v crc32 red order mc) k (xs, op, (ch, res), w) = (Ok u, xs', op', (ch', res'), w')"
  obtains (same) "xs' = xs" and "ch' = ch"
  | (changed) i where "xs' = upd_sorted k i xs" and "changed k xs ch i ch'"
proof -
  let ?ctx = "ve_context v crc32 red order mc"
  from assms obtain d where d: "key_decision ?ctx k (map_of xs k) op (ch, res) w = (Ok d, op', (ch', res'), w')"
    and xs': "xs' = update_contents k d xs" by (auto simp: apply_key.simps split: prod.splits res.splits)
  show thesis
  proof (cases "\<exists>val. ve_indexer v crc32 red k val (map_of xs k) (ch, res) w = (Ok d, (ch', res'), w')")
    case True
    then obtain val where "ve_indexer v crc32 red k val (map_of xs k) (ch, res) w = (Ok d, (ch', res'), w')" ..
    then show thesis by (rule ve_indexer_ok) (use changed xs' in auto)
  next
    case False
    with d have "d = KeySkip \<and> ch' = ch \<or> d = KeyRemove \<and> map_of xs k = None \<and> ch' = ch"
      by (cases op; cases "map_of xs k")
        (auto simp: key_decision_def ve_context_def split: prod.splits res.splits key_operation.splits if_splits)
    with xs' show thesis by (intro same) (auto simp: del_sorted_missing)
  qed
qed

section \<open>The invariant between the two trees\<close>

definition seq_entries :: "'e entry_changes \<Rightarrow> (bytes \<times> 'e by_sequence_index) list" where
  "seq_entries ch = map (\<lambda>c. (change_key c, change_index c)) (ec_changes ch)"

text \<open>
  \<open>xs\<close> is what the tree by id holds, \<open>zs\<close> what the tree by sequence holds, \<open>sq\<close> the last sequence
  number: the versions are sorted, none is newer than \<open>sq\<close>, and the current version of every key is
  among them.
\<close>

definition versions_ok ::
    "(bytes \<times> 'e versioned_by_id) list \<Rightarrow> (bytes \<times> 'e by_sequence_index) list \<Rightarrow> u64 \<Rightarrow> bool" where
  "versions_ok xs zs sq \<longleftrightarrow>
     ksorted zs \<and> (\<forall>p \<in> set zs. \<exists>s. fst p = u64_be s \<and> s \<le> sq) \<and>
     (\<forall>p \<in> set xs. \<exists>q. map_of zs (u64_be (v_sequence_id (snd p))) = Some q \<and> q_key q = fst p \<and>
        q_position q = v_position (snd p) \<and> q_value_length q = v_value_length (snd p))"

lemma next_sequence_Some: "next_sequence s = Some s' \<longleftrightarrow> s \<noteq> - 1 \<and> s' = s + 1"
  by (auto simp: next_sequence_def)

lemma unat_Suc_word: "(s :: u64) \<noteq> - 1 \<Longrightarrow> unat (s + 1) = unat s + 1"
  by (metis Suc_eq_plus1 add.commute add_eq_0_iff unatSuc)

lemma less_Suc_word: "(s :: u64) \<noteq> - 1 \<Longrightarrow> s' \<le> s \<Longrightarrow> s' < s + 1"
  by (simp add: word_less_nat_alt word_le_nat_alt unat_Suc_word)

lemma set_upd_sorted: "set (upd_sorted k v xs) \<subseteq> insert (k, v) (set xs)"
  by (auto simp: upd_sorted_def dest: set_takeWhileD set_dropWhileD)

lemma map_of_less_None: "\<forall>p \<in> set zs. fst p < (k :: bytes) \<Longrightarrow> map_of zs k = None"
  by (induction zs) auto

lemma map_of_snoc:
  "map_of zs k = None \<Longrightarrow> map_of (zs @ [(k, q)]) k = Some q"
  "map_of zs a = Some b \<Longrightarrow> map_of (zs @ [(k, q)]) a = Some b"
  by (simp_all add: map_add_def)

lemma versions_ok_changed:
  assumes ok: "versions_ok xs (ys @ seq_entries ch) (ec_current_sequence ch)" and ch: "changed k xs ch i ch'"
  shows "versions_ok (upd_sorted k i xs) (ys @ seq_entries ch') (ec_current_sequence ch')"
    and "unat (ec_current_sequence ch') = unat (ec_current_sequence ch) + 1"
proof -
  let ?zs = "ys @ seq_entries ch" and ?s = "ec_current_sequence ch"
  have s: "?s \<noteq> - 1" "v_sequence_id i = ?s + 1" using ch by (simp_all add: changed_def next_sequence_Some)
  define c where "c = \<lparr>ech_key_sequence = \<lparr>ks_key = k, ks_sequence = v_sequence_id i,
      ks_last_sequence = map_option v_sequence_id (map_of xs k), ks_embedded = Some (v_embedded i)\<rparr>,
    ech_value_position = v_position i, ech_value_size = v_value_length i\<rparr>"
  define q where "q = change_index c"
  have ch': "ec_changes ch' = ec_changes ch @ [c]" and cur: "ec_current_sequence ch' = ?s + 1"
    using ch s(2) by (simp_all add: changed_def c_def)
  have zs': "ys @ seq_entries ch' = ?zs @ [(u64_be (?s + 1), q)]"
    using s(2) by (simp add: seq_entries_def ch' q_def change_key_def c_def)
  have q: "q_key q = k" "q_position q = v_position i" "q_value_length q = v_value_length i"
    by (simp_all add: q_def change_index_def c_def)
  show "unat (ec_current_sequence ch') = unat ?s + 1" using cur s by (simp add: unat_Suc_word)
  have lt: "\<forall>p \<in> set ?zs. fst p < u64_be (?s + 1)"
  proof
    fix p assume "p \<in> set ?zs"
    with ok obtain s' where "fst p = u64_be s'" "s' \<le> ?s" unfolding versions_ok_def by blast
    with less_Suc_word [OF s(1)] show "fst p < u64_be (?s + 1)" by simp
  qed
  have sorted: "ksorted (?zs @ [(u64_be (?s + 1), q)])" using ok lt by (auto simp: versions_ok_def sorted_wrt_append)
  have bound: "\<exists>s'. fst p = u64_be s' \<and> s' \<le> ?s + 1" if "p \<in> set (?zs @ [(u64_be (?s + 1), q)])" for p
  proof (cases "p \<in> set ?zs")
    case True
    with ok obtain s' where "fst p = u64_be s'" "s' \<le> ?s" unfolding versions_ok_def by blast
    with less_Suc_word [OF s(1), of s'] show ?thesis by (blast intro: less_imp_le)
  next
    case False
    with that show ?thesis by auto
  qed
  have new: "map_of (?zs @ [(u64_be (?s + 1), q)]) (u64_be (?s + 1)) = Some q"
  proof -
    have "map_of ?zs (u64_be (?s + 1)) = None"
      using lt by (intro map_of_less_None)
    then show ?thesis by (rule map_of_snoc(1))
  qed
  have old: "map_of (?zs @ [(u64_be (?s + 1), q)]) a = Some b" if "map_of ?zs a = Some b" for a b
    using that by (rule map_of_snoc(2))
  have link: "\<exists>q'. map_of (?zs @ [(u64_be (?s + 1), q)]) (u64_be (v_sequence_id (snd p))) = Some q' \<and>
      q_key q' = fst p \<and> q_position q' = v_position (snd p) \<and> q_value_length q' = v_value_length (snd p)"
    if "p \<in> set (upd_sorted k i xs)" for p
  proof (cases "p = (k, i)")
    case True
    with new q s(2) show ?thesis by simp
  next
    case False
    with that set_upd_sorted [of k i xs] have "p \<in> set xs" by blast
    with ok obtain q' where "map_of ?zs (u64_be (v_sequence_id (snd p))) = Some q'" "q_key q' = fst p"
      "q_position q' = v_position (snd p)" "q_value_length q' = v_value_length (snd p)"
      unfolding versions_ok_def by blast
    with old show ?thesis by blast
  qed
  show "versions_ok (upd_sorted k i xs) (ys @ seq_entries ch') (ec_current_sequence ch')"
    unfolding versions_ok_def zs' cur by (intro conjI ballI sorted bound link)
qed

lemma ve_apply_keys_versions:
  assumes "apply_keys (ve_context v crc32 red order mc) ks (xs, op, (ch, res), w) = (Ok u, xs', op', (ch', res'), w')"
    and "versions_ok xs (ys @ seq_entries ch) (ec_current_sequence ch)"
  shows "versions_ok xs' (ys @ seq_entries ch') (ec_current_sequence ch') \<and>
    unat (ec_current_sequence ch') + length (ec_changes ch) = unat (ec_current_sequence ch) + length (ec_changes ch') \<and>
    length (ec_changes ch') \<le> length (ec_changes ch) + length ks"
  using assms
proof (induction ks arbitrary: xs op ch res w)
  case (Cons k ks)
  obtain r1 xs1 op1 c1 w1 where
    "apply_key (ve_context v crc32 red order mc) k (xs, op, (ch, res), w) = (r1, xs1, op1, c1, w1)"
    by (metis prod_cases5)
  then obtain ch1 res1 where 1:
    "apply_key (ve_context v crc32 red order mc) k (xs, op, (ch, res), w) = (r1, xs1, op1, (ch1, res1), w1)"
    by (cases c1) auto
  with Cons.prems(1) obtain x where r1: "r1 = Ok x" and
    rest: "apply_keys (ve_context v crc32 red order mc) ks (xs1, op1, (ch1, res1), w1) = (Ok u, xs', op', (ch', res'), w')"
    by (cases r1) auto
  from 1 r1 have "apply_key (ve_context v crc32 red order mc) k (xs, op, (ch, res), w) = (Ok x, xs1, op1, (ch1, res1), w1)"
    by simp
  then show ?case
  proof (cases rule: ve_apply_key_cases)
    case same
    with Cons.IH [OF rest] Cons.prems(2) show ?thesis by simp
  next
    case (changed i)
    note step = versions_ok_changed [OF Cons.prems(2) changed(2)]
    have "length (ec_changes ch1) = length (ec_changes ch) + 1" using changed(2) by (simp add: changed_def)
    with Cons.IH [OF rest] step changed(1) show ?thesis by simp
  qed
qed simp

section \<open>A modification of both trees\<close>

lemma fold_upd_append:
  "ksorted (ys @ zs) \<Longrightarrow> fold (\<lambda>(k, b). upd_sorted k b) zs ys = ys @ zs"
proof (induction zs arbitrary: ys)
  case (Cons z zs)
  have "upd_sorted (fst z) (snd z) (ys @ []) = ys @ (fst z, snd z) # []"
    using Cons.prems by (intro upd_sorted_split(1)) (auto simp: sorted_wrt_append)
  with Cons.IH [of "ys @ [z]"] Cons.prems show ?case by (simp add: split_beta)
qed simp

lemma fold_upd_not_Nil: "ps \<noteq> [] \<Longrightarrow> fold (\<lambda>(k, b). upd_sorted k b) ps ys \<noteq> []"
  by (cases ps rule: rev_cases) (auto simp: split_beta)

lemma seq_apply_keys:
  fixes vs :: "'e by_sequence_index list"
  shows "length ks \<le> length vs \<Longrightarrow>
     apply_keys (seq_context order mc) ks (ys, OpSetEach (rev vs) :: (_, _, 's) operation, (), w) =
       (Ok (), fold (\<lambda>(k, b). upd_sorted k b) (zip ks vs) ys, OpSetEach (rev (drop (length ks) vs)), (), w)"
proof (induction ks arbitrary: vs ys)
  case (Cons k ks)
  then obtain b vs' where vs: "vs = b # vs'" "length ks \<le> length vs'" by (cases vs) auto
  have "apply_key (seq_context order mc) k (ys, OpSetEach (rev vs) :: (_, _, 's) operation, (), w) =
      (Ok (), upd_sorted k b ys, OpSetEach (rev vs'), (), w)"
    using vs by (cases "map_of ys k")
      (simp_all add: apply_key.simps key_decision_def seq_context_def seq_indexer_def res_map_def)
  with Cons.IH [OF vs(2)] vs(1) show ?case by simp
qed simp

lemma seq_keeps_entries:
  assumes "length vs = length ks"
  shows "keeps_entries (seq_context order mc) ks (ys, OpSetEach (rev vs) :: (_, _, 's) operation, (), w)"
  unfolding keeps_entries_def
proof (intro allI impI)
  fix ks1 ks2 xs' st' assume ks: "ks = ks1 @ ks2" "ks1 \<noteq> []"
    and run: "apply_keys (seq_context order mc) ks1 (ys, OpSetEach (rev vs) :: (_, _, 's) operation, (), w) =
      (Ok (), xs', st')"
  have "xs' = fold (\<lambda>(k, b). upd_sorted k b) (zip ks1 vs) ys"
    using run assms ks(1) by (simp add: seq_apply_keys)
  moreover have "zip ks1 vs \<noteq> []" using ks assms by (cases ks1; cases vs) auto
  ultimately show "xs' \<noteq> []" using fold_upd_not_Nil by metis
qed

lemma seq_total:
  assumes "nwf f by_sequence_reducer n (node e)"
  obtains st where "stats by_sequence_reducer e = Ok st"
    and "total_sequences st = of_nat (length (nflat f n (node e)))"
proof -
  have "total_sequences (reduce by_sequence_reducer xs) = of_nat (length xs)"
    for xs :: "'a by_sequence_index list" by (simp add: by_sequence_reducer_def)
  then show thesis using that by_sequence_stats.stats_of_contents [OF assms] by (metis length_map)
qed

context embedded_reducer
begin

lemma ve_total_keys:
  assumes "nwf f (versioned_reducer ered) n (node e)"
  obtains st where "stats (versioned_reducer ered) e = Ok st"
    and "total_keys st = of_nat (length (nflat f n (node e)))"
  using versioned_stats.stats_of_contents [OF assms]
  by (simp add: total_keys_reduce versioned_reducer_def)

end

lemma unat_total: "a + b < 2 ^ 64 \<Longrightarrow> unat (of_nat a + of_nat b :: u64) = a + b"
  by (simp add: unat_of_nat flip: of_nat_add)

text \<open>The sequence tree after a batch of changes that follow its contents.\<close>

lemma ve_modify_sequence_root_ok:
  fixes t :: "('e, 'es) versioned_root"
  assumes max_order: "\<forall>o'. max_order = Some o' \<longrightarrow> 4 \<le> o'"
    and root: "root_ok (seq_reader v crc32 edes w) by_sequence_reducer n (ve_by_sequence_root t)"
    and ys: "ys = contents (seq_reader v crc32 edes w) n (ve_by_sequence_root t)"
    and sorted: "ksorted (ys @ seq_entries ch)"
    and size: "length ys + length (ec_changes ch) < 2 ^ 64"
    and small: "length (ec_changes ch) \<le> 1 \<or>
      dynamic_order cbrt (length ys + length (ec_changes ch)) max_order \<le> 9"
    and fuel: "(n + length (ec_changes ch)) * (length (ec_changes ch) + 2) + 1 \<le> fuel"
  shows "\<exists>n' root'. ve_modify_sequence_root fuel cbrt v crc32 edes max_order
        (sequence_modification mode (ec_changes ch)) t w = (Ok (), t\<lparr>ve_by_sequence_root := root'\<rparr>, w) \<and>
    root_ok (seq_reader v crc32 edes w) by_sequence_reducer n' root' \<and>
    contents (seq_reader v crc32 edes w) n' root' = ys @ seq_entries ch \<and> n' \<le> n + length (ec_changes ch)"
proof -
  let ?cs = "ec_changes ch" and ?rd = "seq_reader v crc32 edes"
  let ?ks = "map change_key ?cs" and ?vs = "map change_index ?cs"
  define records where "records = length ys + length ?cs"
  define ctx where "ctx = (seq_context (dynamic_order cbrt records max_order)
    (minimum_children_for (dynamic_order cbrt records max_order) records) ::
    ('e by_sequence_index, _, _, _, _) modification_context)"
  let ?m = "\<lparr>persistence_mode = mode, keys = rev ?ks, operation = OpSetEach (rev ?vs)\<rparr> ::
    ('e by_sequence_index, 'e by_sequence_index, unit) modification"
  have ks: "sorted_wrt (<) ?ks" using sorted by (simp add: sorted_wrt_append seq_entries_def o_def)
  then have rev: "reverse (sequence_modification mode ?cs) = Ok ?m"
    by (simp add: reverse_def sequence_modification_def reverse_operation_def)
  from root obtain st where st: "stats by_sequence_reducer (ve_by_sequence_root t) = Ok st"
    "total_sequences st = of_nat (length ys)"
    using seq_total ys unfolding root_ok_def contents_def by metis
  have records: "unat (total_sequences st + of_nat (length ?ks)) = records"
    using unat_total [OF size] by (simp add: st records_def)
  have zip: "zip ?ks ?vs = seq_entries ch" by (simp add: seq_entries_def zip_map_map zip_same_conv_map)
  have ap: "apply_keys ctx ?ks (ys, operation ?m, (), w) = (Ok (), ys @ seq_entries ch, OpSetEach [], (), w)"
    using seq_apply_keys [of ?ks ?vs _ _ ys w] fold_upd_append [OF sorted] zip by (simp add: ctx_def)
  have keep: "keeps_entries ctx ?ks (ys, operation ?m, (), w)"
    unfolding ctx_def using seq_keeps_entries [of ?vs ?ks _ _ ys w] by simp
  have "\<exists>n' root'. modify_root (length ?ks) fuel False ctx ?rd (ve_by_sequence_root t) ?m () w =
      (Ok (), root', ?m\<lparr>keys := [], operation := OpSetEach []\<rparr>, (), w) \<and>
    root_ok (?rd w) (ctx_reducer ctx) n' root' \<and> contents (?rd w) n' root' = ys @ seq_entries ch \<and>
    n' \<le> n + length ?ks"
    unfolding ctx_def
    by (rule seq_nodes.modify_root_sized [where cbrt = cbrt and records = records and max_order = max_order and n = n])
      (use max_order root ks ap keep small fuel ys in \<open>simp_all add: seq_context_def ctx_def records_def\<close>)
  then obtain n' root' where run: "modify_root (length ?ks) fuel False ctx ?rd (ve_by_sequence_root t) ?m () w =
      (Ok (), root', ?m\<lparr>keys := [], operation := OpSetEach []\<rparr>, (), w)"
    and root': "root_ok (?rd w) (ctx_reducer ctx) n' root'" "contents (?rd w) n' root' = ys @ seq_entries ch"
      "n' \<le> n + length ?ks" by blast
  have "ve_modify_sequence_root fuel cbrt v crc32 edes max_order (sequence_modification mode ?cs) t w =
      (Ok (), t\<lparr>ve_by_sequence_root := root'\<rparr>, w)"
    using rev st(1) records run by (simp add: ve_modify_sequence_root_def Let_def ctx_def)
  with root' show ?thesis
    by (intro exI [of _ n'] exI [of _ root']) (simp add: ctx_def seq_context_def)
qed

interpretation ve_file: writer_relation "ve_context v crc32 red order min_children"
    "\<lambda>w w'. \<exists>rest. mf_buffer (pw_file w') = mf_buffer (pw_file w) @ rest"
  for v crc32 red order min_children
proof unfold_locales
  fix k val i c w r c' w' assume "indexer (ve_context v crc32 red order min_children) k val i c w = (Ok r, c', w')"
  then show "\<exists>rest. mf_buffer (pw_file w') = mf_buffer (pw_file w) @ rest"
    by (auto simp: ve_context_def ve_indexer_def split: option.splits prod.splits res.splits dest: write_chunk_file)
qed auto

lemma seq_reader_extends:
  assumes "mf_buffer (pw_file w') = mf_buffer (pw_file w) @ rest"
  shows "extends (seq_reader v crc32 edes w) (seq_reader v crc32 edes w')"
  using assms by (auto simp: seq_reader_def extends_def node_reader_def file_chunk_def chunk_at_prefix)

text \<open>A root with both trees well-formed, holding \<open>xs\<close> by id and \<open>zs\<close> by sequence.\<close>

definition ve_ok ::
    "vault option \<Rightarrow> (bytes \<Rightarrow> u32) \<Rightarrow> (bytes \<Rightarrow> ('e \<times> bytes) res) \<Rightarrow> (bytes \<Rightarrow> ('es \<times> bytes) res) \<Rightarrow>
     paged_writer \<Rightarrow> nat \<Rightarrow> nat \<Rightarrow> ('e, 'es) versioned_root \<Rightarrow> (bytes \<times> 'e versioned_by_id) list \<Rightarrow>
     (bytes \<times> 'e by_sequence_index) list \<Rightarrow> bool" where
  "ve_ok v crc32 edes esdes w n n' t xs zs \<longleftrightarrow>
     root_ok (ve_reader v crc32 edes esdes w) (ve_id_reducer t) n (ve_by_id_root t) \<and>
     contents (ve_reader v crc32 edes esdes w) n (ve_by_id_root t) = xs \<and>
     root_ok (seq_reader v crc32 edes w) by_sequence_reducer n' (ve_by_sequence_root t) \<and>
     contents (seq_reader v crc32 edes w) n' (ve_by_sequence_root t) = zs \<and>
     versions_ok xs zs (ve_sequence t)"

definition ve_spec ::
    "(nat \<Rightarrow> nat) \<Rightarrow> vault option \<Rightarrow> (bytes \<Rightarrow> u32) \<Rightarrow> ('e, 'es) versioned_root \<Rightarrow> nat option \<Rightarrow>
     (bytes, 'e versioned_by_id, 's) modification \<Rightarrow> (bytes \<times> 'e versioned_by_id) list \<Rightarrow> paged_writer \<Rightarrow>
     unit res \<times> (bytes, 'e versioned_by_id, 's, 'e ve_changes, paged_writer) spec_state"
where
  "ve_spec cbrt v crc32 t max_order m xs w =
     (let order = dynamic_order cbrt (length xs + length (keys m)) max_order in
      apply_keys (ve_context v crc32 (ve_reducer t) order (minimum_children_for order (length xs + length (keys m))))
        (keys m) (xs, reverse_operation (operation m),
          (\<lparr>ec_current_sequence = ve_sequence t, ec_changes = []\<rparr>, []), w))"

lemma ve_modify_id_root_ok:
  fixes m :: "(bytes, 'e versioned_by_id, 's) modification" and t :: "('e, 'es) versioned_root"
  assumes law: "embedded_reducer (e_reducer (ve_reducer t))"
    and max_order: "\<forall>o'. max_order = Some o' \<longrightarrow> 4 \<le> o'"
    and root: "root_ok (ve_reader v crc32 edes esdes w) (ve_id_reducer t) n (ve_by_id_root t)"
    and xs: "xs = contents (ve_reader v crc32 edes esdes w) n (ve_by_id_root t)"
    and sorted: "sorted_wrt (<) (keys m)"
    and size: "length xs + length (keys m) < 2 ^ 64"
    and small: "length (keys m) \<le> 1 \<or> dynamic_order cbrt (length xs + length (keys m)) max_order \<le> 9"
    and spec: "ve_spec cbrt v crc32 t max_order m xs w = (Ok (), xs', op', (ch, results), w')"
    and fuel: "(n + length (keys m)) * (length (keys m) + 2) + 1 \<le> fuel"
  shows "\<exists>n' root'. ve_modify_id_root fuel cbrt v crc32 edes esdes max_order m
        \<lparr>ec_current_sequence = ve_sequence t, ec_changes = []\<rparr> t w =
      (Ok results, op', ch, t\<lparr>ve_by_id_root := root', ve_sequence := ec_current_sequence ch\<rparr>, w') \<and>
    root_ok (ve_reader v crc32 edes esdes w') (ve_id_reducer t) n' root' \<and>
    contents (ve_reader v crc32 edes esdes w') n' root' = xs' \<and> n' \<le> n + length (keys m)"
proof -
  let ?ks = "keys m" and ?rd = "ve_reader v crc32 edes esdes" and ?red = "ve_id_reducer t"
  let ?c = "(\<lparr>ec_current_sequence = ve_sequence t, ec_changes = []\<rparr>, [])"
  define records where "records = length xs + length ?ks"
  define order where "order = dynamic_order cbrt records max_order"
  define ctx where "ctx = ve_context v crc32 (ve_reducer t) order (minimum_children_for order records)"
  let ?m = "m\<lparr>keys := rev ?ks, operation := reverse_operation (operation m)\<rparr>"
  from root have nwf: "nwf (?rd w) ?red n (node (ve_by_id_root t))" by (simp add: root_ok_def)
  from embedded_reducer.ve_total_keys [OF law nwf [unfolded ve_id_reducer_def]] obtain st
    where st: "stats ?red (ve_by_id_root t) = Ok st" "total_keys st = of_nat (length xs)"
    using xs by (auto simp: contents_def ve_id_reducer_def)
  have records: "unat (total_keys st + of_nat (length ?ks)) = records"
    using unat_total [OF size] by (simp add: st records_def)
  have red: "ctx_reducer ctx = ?red" by (simp add: ctx_def ve_context_def ve_id_reducer_def)
  have ap: "apply_keys ctx ?ks (xs, operation ?m, ?c, w) = (Ok (), xs', op', (ch, results), w')"
    using spec by (simp add: ve_spec_def Let_def ctx_def order_def records_def)
  have "\<exists>n' root'. modify_root (length ?ks) fuel True ctx ?rd (ve_by_id_root t) ?m ?c w =
      (Ok (), root', ?m\<lparr>keys := [], operation := op'\<rparr>, (ch, results), w') \<and>
    root_ok (?rd w') ?red n' root' \<and> contents (?rd w') n' root' = xs' \<and> n' \<le> n + length ?ks"
    unfolding red [symmetric] unfolding ctx_def
    by (rule ve_nodes.modify_root_sized [where cbrt = cbrt and records = records and max_order = max_order and n = n])
      (use max_order root sorted ap small fuel xs red in
        \<open>simp_all add: ve_context_def ctx_def order_def records_def\<close>)
  then obtain n' root' where run: "modify_root (length ?ks) fuel True ctx ?rd (ve_by_id_root t) ?m ?c w =
      (Ok (), root', ?m\<lparr>keys := [], operation := op'\<rparr>, (ch, results), w')"
    and root': "root_ok (?rd w') ?red n' root'" "contents (?rd w') n' root' = xs'" "n' \<le> n + length ?ks" by blast
  have "ve_modify_id_root fuel cbrt v crc32 edes esdes max_order m
        \<lparr>ec_current_sequence = ve_sequence t, ec_changes = []\<rparr> t w =
      (Ok results, op', ch, t\<lparr>ve_by_id_root := root', ve_sequence := ec_current_sequence ch\<rparr>, w')"
    using run sorted st records
    by (simp add: ve_modify_id_root_def reverse_def Let_def ctx_def order_def)
  with root' show ?thesis by blast
qed

lemma ve_modify_refines:
  fixes m :: "(bytes, 'e versioned_by_id, 's) modification" and t :: "('e, 'es) versioned_root"
  assumes law: "embedded_reducer (e_reducer (ve_reducer t))"
    and max_order: "\<forall>o'. max_order = Some o' \<longrightarrow> 4 \<le> o'"
    and ok: "ve_ok v crc32 edes esdes w n n' t xs zs"
    and sorted: "sorted_wrt (<) (keys m)"
    and size: "length xs + length (keys m) < 2 ^ 64" "length zs + length (keys m) < 2 ^ 64"
    and small: "length (keys m) \<le> 1 \<or> dynamic_order cbrt (length xs + length (keys m)) max_order \<le> 9"
      "\<forall>j \<le> length (keys m). dynamic_order cbrt (length zs + j) max_order \<le> 9 \<or> length (keys m) \<le> 1"
    and spec: "ve_spec cbrt v crc32 t max_order m xs w = (Ok (), xs', op', (ch, results), w')"
    and fuel: "(max n n' + length (keys m)) * (length (keys m) + 2) + 1 \<le> fuel"
  shows "\<exists>h h' t'. ve_modify fuel cbrt v crc32 edes esdes max_order m t w = (Ok results, op', t', w') \<and>
    ve_ok v crc32 edes esdes w' h h' t' xs' (zs @ seq_entries ch) \<and>
    h \<le> n + length (keys m) \<and> h' \<le> n' + length (keys m) \<and>
    ve_reducer t' = ve_reducer t \<and>
    unat (ve_sequence t') = unat (ve_sequence t) + length (ec_changes ch) \<and>
    ve_transaction_id t' = (case persistence_transaction_id (persistence_mode m) of
      Some i \<Rightarrow> i | None \<Rightarrow> ve_transaction_id t)"
proof -
  let ?c = "\<lparr>ec_current_sequence = ve_sequence t, ec_changes = []\<rparr>"
  note ok = ok [unfolded ve_ok_def]
  have vers: "versions_ok xs' (zs @ seq_entries ch) (ec_current_sequence ch)"
    and seq: "unat (ec_current_sequence ch) = unat (ve_sequence t) + length (ec_changes ch)"
    and len: "length (ec_changes ch) \<le> length (keys m)"
    using ve_apply_keys_versions [OF spec [unfolded ve_spec_def Let_def], of zs] ok
    by (simp_all add: seq_entries_def)
  have fuel1: "(h + j) * (j + 2) + 1 \<le> fuel" if "h \<le> max n n'" "j \<le> length (keys m)" for h j
    using fuel that mult_le_mono [of "h + j" "max n n' + length (keys m)" "j + 2" "length (keys m) + 2"] by linarith
  obtain n1 root1 where id: "ve_modify_id_root fuel cbrt v crc32 edes esdes max_order m ?c t w =
      (Ok results, op', ch, t\<lparr>ve_by_id_root := root1, ve_sequence := ec_current_sequence ch\<rparr>, w')"
    and root1: "root_ok (ve_reader v crc32 edes esdes w') (ve_id_reducer t) n1 root1"
      "contents (ve_reader v crc32 edes esdes w') n1 root1 = xs'" "n1 \<le> n + length (keys m)"
    using ve_modify_id_root_ok [OF law max_order _ _ sorted size(1) small(1) spec fuel1, of edes esdes n] ok by auto
  obtain rest where "mf_buffer (pw_file w') = mf_buffer (pw_file w) @ rest"
    using ve_file.apply_keys_step [OF spec [unfolded ve_spec_def Let_def]] by blast
  then have ext: "extends (seq_reader v crc32 edes w) (seq_reader v crc32 edes w')" by (rule seq_reader_extends)
  define t1 where "t1 = t\<lparr>ve_by_id_root := root1, ve_sequence := ec_current_sequence ch\<rparr>"
  have zs: "root_ok (seq_reader v crc32 edes w') by_sequence_reducer n' (ve_by_sequence_root t1)"
    "zs = contents (seq_reader v crc32 edes w') n' (ve_by_sequence_root t1)"
    using root_ok_extends [OF ext] ok by (auto simp: t1_def)
  have sm: "length (ec_changes ch) \<le> 1 \<or> dynamic_order cbrt (length zs + length (ec_changes ch)) max_order \<le> 9"
    using small(2) len by force
  have "ksorted (zs @ seq_entries ch)" "length zs + length (ec_changes ch) < 2 ^ 64"
    using vers size(2) len by (auto simp: versions_ok_def)
  from ve_modify_sequence_root_ok [OF max_order zs this sm fuel1 [OF _ len], of "persistence_mode m"]
  obtain n2 root2 where sq: "ve_modify_sequence_root fuel cbrt v crc32 edes max_order
        (sequence_modification (persistence_mode m) (ec_changes ch)) t1 w' =
      (Ok (), t1\<lparr>ve_by_sequence_root := root2\<rparr>, w')"
    and root2: "root_ok (seq_reader v crc32 edes w') by_sequence_reducer n2 root2"
      "contents (seq_reader v crc32 edes w') n2 root2 = zs @ seq_entries ch" "n2 \<le> n' + length (ec_changes ch)" by auto
  show ?thesis
    by (rule exI [of _ n1], rule exI [of _ n2], cases "persistence_transaction_id (persistence_mode m)")
      (use id [folded t1_def] sq root1 root2 vers seq len in
        \<open>simp_all add: ve_modify_def ve_ok_def ve_id_reducer_def t1_def\<close>)
qed

section \<open>Header round trip\<close>

text \<open>
  The tree by id reads back exactly. The tree by sequence does when its root node holds pointers
  only; a leaf may lose the embedded index of its last entry (\<open>by_sequence_round_trip\<close>).
\<close>

locale ve_tree = chunk_vault v + E: embedded_codec eser edes + S: embedded_codec esser esdes
  for v and eser :: "'e \<Rightarrow> bytes res" and edes and esser :: "'es \<Rightarrow> bytes res" and esdes

sublocale ve_tree \<subseteq> ve_store: tree_store "ser_versioned eser" "des_versioned edes"
    "ser_by_id_stats esser" "des_by_id_stats esdes" "write_chunk v crc32" "image_chunk v crc32" pw_inv pw_fits
  for crc32
  by unfold_locales

interpretation ve_plain: ve_tree None unit_ser unit_des unit_ser unit_des
  by unfold_locales

context ve_tree
begin

lemma ve_header_round_trip:
  assumes "ve_serialize v crc32 eser esser t w = (Ok b, t', w')"
    and "ser_entry (write_chunk v crc32) (ser_by_sequence eser) ser_by_sequence_stats (ve_by_sequence_root t) w =
      (Ok sb, sroot, w1)"
    and "des_entry (des_by_sequence edes) des_by_sequence_stats sb = Ok sroot"
  shows "ve_deserialize edes esdes (ve_reducer t) b = Ok t'"
proof -
  obtain r iroot w2 where ser: "ser_entry (write_chunk v crc32) (ser_versioned eser) (ser_by_id_stats esser)
      (ve_by_id_root t) w1 = (r, iroot, w2)" by (metis prod_cases3)
  with assms(1,2) obtain x where r: "r = Ok x" and len: "length sb < 2 ^ 32" "length x < 2 ^ 32"
    and b: "b = u64_be (ve_transaction_id t) @ u64_be (ve_sequence t) @ u32_be (of_nat (length sb)) @
      u32_be (of_nat (length x)) @ sb @ x"
    and t': "t' = t\<lparr>ve_by_sequence_root := sroot, ve_by_id_root := iroot\<rparr>"
    by (cases r) (auto simp: ve_serialize_def split: if_splits)
  have "des_entry (des_versioned edes) (des_by_id_stats esdes) x = Ok iroot"
    using ve_store.node_round_trip [OF ser [unfolded r]] by blast
  moreover have "unat (of_nat (length sb) :: u32) = length sb" "unat (of_nat (length x) :: u32) = length x"
    using len by (simp_all add: unat_of_nat)
  ultimately show ?thesis unfolding b ve_deserialize_def t' using assms(3)
    by (simp add: read_exact_def)
qed

end

end
