(* ===== verification/Compaction.thy ===== *)
theory Compaction
  imports Versioned
begin

text \<open>
  Copying the live data of a tree into a new file: \<^verbatim>\<open>copy_chunk\<close> of \<^verbatim>\<open>nebari/src/tree/mod.rs\<close>,
  \<^verbatim>\<open>copy_data_to\<close> of \<^verbatim>\<open>key_entry.rs\<close>, \<^verbatim>\<open>interior.rs\<close>, \<^verbatim>\<open>btree_entry.rs\<close> and of the two roots. The source file
  is only read (\<open>from\<close> is its bytes); the state that is threaded through is what the callback of a root
  captures, the map of the chunks copied so far, and the writer of the new file. Chunks are read with
  their checksum validated.
\<close>

section \<open>Chunks\<close>

type_synonym 'x copy_state = "'x \<times> (u64 \<rightharpoonup> u64) \<times> paged_writer"

definition copy_chunk ::
    "vault option \<Rightarrow> (bytes \<Rightarrow> u32) \<Rightarrow> bytes \<Rightarrow> u64 \<Rightarrow> ('x copy_state, u64) sres" where
  "copy_chunk v crc32 from original_position st =
     (case st of (x, copied_chunks, w) \<Rightarrow>
        if original_position = 0 then (Ok 0, st)
        else case copied_chunks original_position of
          Some new_position \<Rightarrow> (Ok new_position, st)
        | None \<Rightarrow>
            (case chunk_at v crc32 True from original_position of
               Ok chunk \<Rightarrow>
                 (case write_chunk v crc32 chunk w of
                    (Ok new_location, w') \<Rightarrow>
                      (Ok new_location, (x, copied_chunks(original_position \<mapsto> new_location), w'))
                  | (bad, w') \<Rightarrow> (lift_err bad, (x, copied_chunks, w')))
             | bad \<Rightarrow> (lift_err bad, st)))"

section \<open>Nodes\<close>

datatype node_inclusion = Exclude | IncludeNext | Include

fun inclusion_next :: "node_inclusion \<Rightarrow> node_inclusion" where
  "inclusion_next Exclude = Exclude"
| "inclusion_next IncludeNext = Include"
| "inclusion_next Include = Include"

definition should_include :: "node_inclusion \<Rightarrow> bool" where
  "should_include inc \<longleftrightarrow> inc = Include"

text \<open>The callback of a root: it may change the index and tells whether data was copied.\<close>

type_synonym ('i, 'x) copy_callback = "bytes \<Rightarrow> 'i \<Rightarrow> 'x copy_state \<Rightarrow> bool res \<times> 'i \<times> 'x copy_state"

text \<open>\<^verbatim>\<open>for child in children { any_changes = child.copy_data_to(..)? || any_changes }\<close>\<close>

fun copy_all ::
    "('c \<Rightarrow> 'x copy_state \<Rightarrow> bool res \<times> 'c \<times> 'x copy_state) \<Rightarrow> 'c list \<Rightarrow> 'x copy_state \<Rightarrow>
     bool res \<times> 'c list \<times> 'x copy_state" where
  "copy_all copy [] st = (Ok False, [], st)"
| "copy_all copy (c # cs) st =
     (case copy c st of
        (Ok b, c', st1) \<Rightarrow>
          (case copy_all copy cs st1 of (r, cs', st2) \<Rightarrow> (res_map (\<lambda>b'. b \<or> b') r, c' # cs', st2))
      | (bad, c', st1) \<Rightarrow> (bad, c' # cs, st1))"

definition copy_key_entry ::
    "('i, 'x) copy_callback \<Rightarrow> 'i key_entry \<Rightarrow> 'x copy_state \<Rightarrow> bool res \<times> 'i key_entry \<times> 'x copy_state" where
  "copy_key_entry cb l st =
     (case cb (ke_key l) (ke_index l) st of (r, i', st') \<Rightarrow> (r, KeyEntry (ke_key l) i', st'))"

text \<open>
  The encoders and the reader of nodes of a kind of tree; \<open>source\<close> reads a node of the source file.
\<close>

record ('i, 'r) node_format =
  nf_index :: "'i \<Rightarrow> bytes res"
  nf_stats :: "'r \<Rightarrow> bytes res"
  nf_source :: "u64 \<Rightarrow> ('i, 'r) entry res"

text \<open>The end of \<^verbatim>\<open>Interior::copy_data_to\<close>: write the node, or forget it.\<close>

definition finish_interior ::
    "vault option \<Rightarrow> (bytes \<Rightarrow> u32) \<Rightarrow> ('i, 'r) node_format \<Rightarrow> node_inclusion \<Rightarrow> bytes \<Rightarrow> 'r \<Rightarrow> u64 option \<Rightarrow>
     ('i, 'r) entry \<Rightarrow> bool \<Rightarrow> 'x copy_state \<Rightarrow> bool res \<times> ('i, 'r) interior \<times> 'x copy_state" where
  "finish_interior v crc32 fmt inc key s prev e any st =
     (case st of (x, copied, w) \<Rightarrow>
        if should_include inc then
          (case ser_entry (write_chunk v crc32) (nf_index fmt) (nf_stats fmt) e w of
             (Ok b, e', w1) \<Rightarrow>
               (case write_chunk v crc32 b w1 of
                  (Ok position, w2) \<Rightarrow> (Ok True, InteriorEntry key (OnDisk position) s, (x, copied, w2))
                | (bad, w2) \<Rightarrow> (lift_err bad, InteriorEntry key (Loaded prev e') s, (x, copied, w2)))
           | (bad, e', w1) \<Rightarrow> (lift_err bad, InteriorEntry key (Loaded prev e') s, (x, copied, w1)))
        else
          (Ok any, InteriorEntry key (case prev of Some p \<Rightarrow> OnDisk p | None \<Rightarrow> Loaded prev e) s, st))"

text \<open>\<^verbatim>\<open>Interior::copy_data_to\<close>, given the copying of the node below.\<close>

definition copy_interior ::
    "(('i, 'r) entry \<Rightarrow> 'x copy_state \<Rightarrow> bool res \<times> ('i, 'r) entry \<times> 'x copy_state) \<Rightarrow>
     vault option \<Rightarrow> (bytes \<Rightarrow> u32) \<Rightarrow> ('i, 'r) node_format \<Rightarrow> node_inclusion \<Rightarrow> ('i, 'r) interior \<Rightarrow>
     'x copy_state \<Rightarrow> bool res \<times> ('i, 'r) interior \<times> 'x copy_state" where
  "copy_interior copy v crc32 fmt inc c st =
     (case pointer_load (\<lambda>u. nf_source fmt) () (i_position c) of
        Ok (Loaded prev e) \<Rightarrow>
          (case copy e st of
             (Ok any, e', st1) \<Rightarrow> finish_interior v crc32 fmt inc (i_key c) (i_stats c) prev e' any st1
           | (bad, e', st1) \<Rightarrow> (bad, InteriorEntry (i_key c) (Loaded prev e') (i_stats c), st1))
      | Ok (OnDisk p) \<Rightarrow> (Panic, c, st)
      | bad \<Rightarrow> (lift_err bad, c, st))"

primrec copy_entry ::
    "nat \<Rightarrow> vault option \<Rightarrow> (bytes \<Rightarrow> u32) \<Rightarrow> ('i, 'r) node_format \<Rightarrow> ('i, 'x) copy_callback \<Rightarrow>
     node_inclusion \<Rightarrow> ('i, 'r) entry \<Rightarrow> 'x copy_state \<Rightarrow> bool res \<times> ('i, 'r) entry \<times> 'x copy_state" where
  "copy_entry 0 v crc32 fmt cb inc e st = (OutOfFuel, e, st)"
| "copy_entry (Suc fuel) v crc32 fmt cb inc e st =
     (case node e of
        Leaf children \<Rightarrow>
          (case copy_all (copy_key_entry cb) children st of
             (Ok b, children', st') \<Rightarrow> (Ok b, BTreeEntry True (Leaf children'), st')
           | (bad, children', st') \<Rightarrow> (bad, BTreeEntry (dirty e) (Leaf children'), st'))
      | Interior children \<Rightarrow>
          (case copy_all (copy_interior (copy_entry fuel v crc32 fmt cb (inclusion_next inc)) v crc32 fmt
              (inclusion_next inc)) children st of
             (Ok b, children', st') \<Rightarrow> (Ok b, BTreeEntry True (Interior children'), st')
           | (bad, children', st') \<Rightarrow> (bad, BTreeEntry (dirty e) (Interior children'), st'))
      | Uninitialized \<Rightarrow> (Panic, e, st))"

section \<open>Roots\<close>

definition un_copy_callback ::
    "vault option \<Rightarrow> (bytes \<Rightarrow> u32) \<Rightarrow> bytes \<Rightarrow> ('e unversioned_by_id, unit) copy_callback" where
  "un_copy_callback v crc32 from key i st =
     (case copy_chunk v crc32 from (u_position i) st of
        (Ok new_position, st') \<Rightarrow>
          (if new_position = u_position i then (Ok False, i, st')
           else (Ok True, i\<lparr>u_position := new_position\<rparr>, st'))
      | (bad, st') \<Rightarrow> (lift_err bad, i, st'))"

definition un_format ::
    "vault option \<Rightarrow> (bytes \<Rightarrow> u32) \<Rightarrow> ('e \<Rightarrow> bytes res) \<Rightarrow> ('es \<Rightarrow> bytes res) \<Rightarrow> (bytes \<Rightarrow> ('e \<times> bytes) res) \<Rightarrow>
     (bytes \<Rightarrow> ('es \<times> bytes) res) \<Rightarrow> bytes \<Rightarrow> ('e unversioned_by_id, 'es by_id_stats) node_format" where
  "un_format v crc32 eser esser edes esdes from =
     \<lparr>nf_index = ser_unversioned eser, nf_stats = ser_by_id_stats esser,
      nf_source = node_reader (chunk_at v crc32 True) (des_unversioned edes) (des_by_id_stats esdes) from\<rparr>"

definition un_copy_data_to ::
    "nat \<Rightarrow> vault option \<Rightarrow> (bytes \<Rightarrow> u32) \<Rightarrow> ('e \<Rightarrow> bytes res) \<Rightarrow> ('es \<Rightarrow> bytes res) \<Rightarrow>
     (bytes \<Rightarrow> ('e \<times> bytes) res) \<Rightarrow> (bytes \<Rightarrow> ('es \<times> bytes) res) \<Rightarrow> bool \<Rightarrow> bytes \<Rightarrow> ('e, 'es) unversioned_root \<Rightarrow>
     (u64 \<rightharpoonup> u64) \<Rightarrow> paged_writer \<Rightarrow> unit res \<times> ('e, 'es) unversioned_root \<times> (u64 \<rightharpoonup> u64) \<times> paged_writer" where
  "un_copy_data_to fuel v crc32 eser esser edes esdes include_nodes from t copied w =
     (case copy_entry fuel v crc32 (un_format v crc32 eser esser edes esdes from) (un_copy_callback v crc32 from)
         (if include_nodes then IncludeNext else Exclude) (un_by_id_root t) ((), copied, w) of
        (r, root', (u, copied', w')) \<Rightarrow> (res_map (\<lambda>_. ()) r, t\<lparr>un_by_id_root := root'\<rparr>, copied', w'))"

definition ve_copy_callback ::
    "vault option \<Rightarrow> (bytes \<Rightarrow> u32) \<Rightarrow> bytes \<Rightarrow>
     ('e versioned_by_id, (bytes \<times> 'e by_sequence_index) list) copy_callback" where
  "ve_copy_callback v crc32 from key i st =
     (case copy_chunk v crc32 from (v_position i) st of
        (Ok new_position, (sequence_indexes, copied, w)) \<Rightarrow>
          (Ok True, i\<lparr>v_position := new_position\<rparr>,
           (sequence_indexes @
              [(key, \<lparr>q_key = key, q_last_sequence = None, q_value_length = v_value_length i,
                      q_position = new_position, q_embedded = Some (v_embedded i)\<rparr>)], copied, w))
      | (bad, st') \<Rightarrow> (lift_err bad, i, st'))"

definition ve_format ::
    "vault option \<Rightarrow> (bytes \<Rightarrow> u32) \<Rightarrow> ('e \<Rightarrow> bytes res) \<Rightarrow> ('es \<Rightarrow> bytes res) \<Rightarrow> (bytes \<Rightarrow> ('e \<times> bytes) res) \<Rightarrow>
     (bytes \<Rightarrow> ('es \<times> bytes) res) \<Rightarrow> bytes \<Rightarrow> ('e versioned_by_id, 'es by_id_stats) node_format" where
  "ve_format v crc32 eser esser edes esdes from =
     \<lparr>nf_index = ser_versioned eser, nf_stats = ser_by_id_stats esser,
      nf_source = node_reader (chunk_at v crc32 True) (des_versioned edes) (des_by_id_stats esdes) from\<rparr>"

text \<open>The truncated sequence tree: one call of \<^verbatim>\<open>modify\<close>, on keys that were not reversed.\<close>

definition ve_truncate_sequences ::
    "nat \<Rightarrow> (nat \<Rightarrow> nat) \<Rightarrow> vault option \<Rightarrow> (bytes \<Rightarrow> u32) \<Rightarrow> (bytes \<Rightarrow> ('e \<times> bytes) res) \<Rightarrow>
     (bytes \<times> 'e by_sequence_index) list \<Rightarrow> ('e, 'es) versioned_root \<Rightarrow> paged_writer \<Rightarrow>
     unit res \<times> ('e, 'es) versioned_root \<times> paged_writer" where
  "ve_truncate_sequences fuel cbrt v crc32 edes sequence_indexes t w =
     (let sorted = sort_key fst sequence_indexes;
          order = dynamic_order cbrt (length sorted) None;
          min_children = minimum_children_for order (length sorted);
          m = \<lparr>persistence_mode = Transactional (ve_transaction_id t), keys = map fst sorted,
               operation = OpSetEach (map snd sorted) :: (_, _, unit) operation\<rparr> in
      case modify fuel (seq_context order min_children) (seq_reader v crc32 edes) None default_entry m () w of
        (r, root', m', c', w') \<Rightarrow> (res_map (\<lambda>_. ()) r, t\<lparr>ve_by_sequence_root := root'\<rparr>, w'))"

definition ve_copy_data_to ::
    "nat \<Rightarrow> (nat \<Rightarrow> nat) \<Rightarrow> vault option \<Rightarrow> (bytes \<Rightarrow> u32) \<Rightarrow> ('e \<Rightarrow> bytes res) \<Rightarrow> ('es \<Rightarrow> bytes res) \<Rightarrow>
     (bytes \<Rightarrow> ('e \<times> bytes) res) \<Rightarrow> (bytes \<Rightarrow> ('es \<times> bytes) res) \<Rightarrow> bool \<Rightarrow> bytes \<Rightarrow> ('e, 'es) versioned_root \<Rightarrow>
     (u64 \<rightharpoonup> u64) \<Rightarrow> paged_writer \<Rightarrow> unit res \<times> ('e, 'es) versioned_root \<times> (u64 \<rightharpoonup> u64) \<times> paged_writer" where
  "ve_copy_data_to fuel cbrt v crc32 eser esser edes esdes include_nodes from t copied w =
     (case copy_entry fuel v crc32 (ve_format v crc32 eser esser edes esdes from) (ve_copy_callback v crc32 from)
         (if include_nodes then IncludeNext else Exclude) (ve_by_id_root t) ([], copied, w) of
        (Ok b, root', (sequence_indexes, copied', w1)) \<Rightarrow>
          (case ve_truncate_sequences fuel cbrt v crc32 edes sequence_indexes (t\<lparr>ve_by_id_root := root'\<rparr>) w1 of
             (r, t', w') \<Rightarrow> (r, t', copied', w'))
      | (bad, root', (sequence_indexes, copied', w1)) \<Rightarrow>
          (lift_err bad, t\<lparr>ve_by_id_root := root'\<rparr>, copied', w1))"

section \<open>Copying keeps the contents\<close>

lemma list_all2_last: "list_all2 P xs ys \<Longrightarrow> xs \<noteq> [] \<Longrightarrow> ys \<noteq> [] \<and> P (last xs) (last ys)"
  by (induction rule: list_all2_induct) (auto simp: list_all2_Nil2 list_all2_Nil)

definition copy_writer :: "'x copy_state \<Rightarrow> paged_writer" where
  "copy_writer st = snd (snd st)"

text \<open>
  What copying relies on of the callback of a root. \<open>moved w i j\<close> says that index \<open>j\<close> of the new file
  stands for index \<open>i\<close> of the old one; \<open>good\<close> is what holds of the state between two calls.
\<close>

locale index_copy = tree_store iser ides rser rdes "write_chunk v crc32" "image_chunk v crc32" pw_started pw_fits
  for iser :: "'i \<Rightarrow> bytes res" and ides and rser :: "'r \<Rightarrow> bytes res" and rdes and v and crc32 +
  fixes cb :: "('i, 'x) copy_callback" and fmt :: "('i, 'r) node_format" and red :: "('i, 'r) reducer"
    and moved :: "paged_writer \<Rightarrow> 'i \<Rightarrow> 'i \<Rightarrow> bool" and good :: "'x copy_state \<Rightarrow> bool"
  assumes format: "nf_index fmt = iser" "nf_stats fmt = rser"
    and good_started: "good st \<Longrightarrow> pw_started (copy_writer st)"
    and cb_grows: "pw_started (copy_writer st) \<Longrightarrow> cb k i st = (r, i', st') \<Longrightarrow>
      grows (copy_writer st) (copy_writer st')"
    and cb_ok: "good st \<Longrightarrow> cb k i st = (Ok b, i', st') \<Longrightarrow> pw_fits (copy_writer st') \<Longrightarrow>
      good st' \<and> moved (copy_writer st') i i'"
    and moved_grows: "grows w w' \<Longrightarrow> moved w i j \<Longrightarrow> moved w' i j"
    and good_grows: "grows w w' \<Longrightarrow> good (x, copied, w) \<Longrightarrow> good (x, copied, w')"
    and moved_reduce: "list_all2 (moved w) is js \<Longrightarrow> reduce red is = reduce red js"
begin

text \<open>Copying one child: it extends the new file, and when it succeeds the copy is related by \<open>Q\<close>.\<close>

definition copy_extends :: "('c \<Rightarrow> 'x copy_state \<Rightarrow> bool res \<times> 'c \<times> 'x copy_state) \<Rightarrow> 'c \<Rightarrow> bool" where
  "copy_extends f c \<longleftrightarrow> (\<forall>st r c' st'. pw_started (copy_writer st) \<longrightarrow> f c st = (r, c', st') \<longrightarrow>
     grows (copy_writer st) (copy_writer st'))"

definition copy_related ::
    "('c \<Rightarrow> 'x copy_state \<Rightarrow> bool res \<times> 'c \<times> 'x copy_state) \<Rightarrow> (paged_writer \<Rightarrow> 'c \<Rightarrow> 'c \<Rightarrow> bool) \<Rightarrow> 'c \<Rightarrow> bool" where
  "copy_related f Q c \<longleftrightarrow> (\<forall>st b c' st'. good st \<longrightarrow> f c st = (Ok b, c', st') \<longrightarrow> pw_fits (copy_writer st') \<longrightarrow>
     good st' \<and> Q (copy_writer st') c c')"

lemma copy_extendsD:
  "copy_extends f c \<Longrightarrow> pw_started (copy_writer st) \<Longrightarrow> f c st = (r, c', st') \<Longrightarrow>
     grows (copy_writer st) (copy_writer st')"
  unfolding copy_extends_def by blast

lemma copy_relatedD:
  "copy_related f Q c \<Longrightarrow> good st \<Longrightarrow> f c st = (Ok b, c', st') \<Longrightarrow> pw_fits (copy_writer st') \<Longrightarrow>
     good st' \<and> Q (copy_writer st') c c'"
  unfolding copy_related_def by blast

lemma copy_all_grows:
  assumes "\<forall>c \<in> set cs. copy_extends f c"
    and "pw_started (copy_writer st)" and "copy_all f cs st = (r, cs', st')"
  shows "grows (copy_writer st) (copy_writer st')"
  using assms
proof (induction cs arbitrary: st r cs' st')
  case (Cons c cs)
  obtain r1 c1 st1 where 1: "f c st = (r1, c1, st1)" by (metis prod_cases3)
  have g1: "grows (copy_writer st) (copy_writer st1)"
    using copy_extendsD [of f c, OF _ Cons.prems(2) 1] Cons.prems(1) by simp
  obtain r2 cs2 st2 where 2: "copy_all f cs st1 = (r2, cs2, st2)" by (metis prod_cases3)
  have "pw_started (copy_writer st1)" using g1 by (simp add: grows_def)
  then have "grows (copy_writer st1) (copy_writer st2)" using Cons.IH [OF _ _ 2] Cons.prems(1) by simp
  with g1 have "grows (copy_writer st) (copy_writer st2)" by (rule grows_trans)
  with g1 1 2 Cons.prems(3) show ?case by (cases r1) auto
qed (auto simp: grows_refl)

lemma copy_all_ok:
  assumes mono: "\<And>w w' c c'. grows w w' \<Longrightarrow> Q w c c' \<Longrightarrow> Q w' c c'"
    and "\<forall>c \<in> set cs. copy_extends f c \<and> copy_related f Q c"
    and "good st" and "copy_all f cs st = (Ok b, cs', st')" and "pw_fits (copy_writer st')"
  shows "good st' \<and> list_all2 (Q (copy_writer st')) cs cs'"
  using assms(2-)
proof (induction cs arbitrary: st b cs' st')
  case (Cons c cs)
  obtain r1 c1 st1 where 1: "f c st = (r1, c1, st1)" by (metis prod_cases3)
  with Cons.prems(3) obtain b1 where r1: "r1 = Ok b1" by (cases r1) auto
  obtain r2 cs2 st2 where 2: "copy_all f cs st1 = (r2, cs2, st2)" by (metis prod_cases3)
  with Cons.prems(3) 1 r1 obtain b2 where r2: "r2 = Ok b2" "cs' = c1 # cs2" "st' = st2"
    by (cases r2) (auto simp: res_map_def)
  have "grows (copy_writer st) (copy_writer st1)"
    using copy_extendsD [of f c, OF _ good_started [OF Cons.prems(2)] 1] Cons.prems(1) by simp
  then have "pw_started (copy_writer st1)" by (simp add: grows_def)
  then have g2: "grows (copy_writer st1) (copy_writer st')"
    using copy_all_grows [of cs f st1 r2 cs2 st2] Cons.prems(1) 2 r2(3) by simp
  then have "pw_fits (copy_writer st1)" using Cons.prems(4) by (simp add: grows_def)
  then have c1: "good st1" "Q (copy_writer st1) c c1"
    using copy_relatedD [of f Q c, OF _ Cons.prems(2) 1 [unfolded r1]] Cons.prems(1) by simp_all
  have "good st' \<and> list_all2 (Q (copy_writer st')) cs cs2"
    using Cons.IH [OF _ c1(1) 2 [unfolded r2(1)]] Cons.prems(1,4) r2(3) by simp
  with mono [OF g2 c1(2)] r2(2) show ?case by simp
qed auto

text \<open>Keys stay, indexes move.\<close>

definition moved_pair :: "paged_writer \<Rightarrow> bytes \<times> 'i \<Rightarrow> bytes \<times> 'i \<Rightarrow> bool" where
  "moved_pair w p q \<longleftrightarrow> fst p = fst q \<and> moved w (snd p) (snd q)"

definition moved_leaf :: "paged_writer \<Rightarrow> 'i key_entry \<Rightarrow> 'i key_entry \<Rightarrow> bool" where
  "moved_leaf w l l' \<longleftrightarrow> moved_pair w (key_pair l) (key_pair l')"

definition moved_child :: "nat \<Rightarrow> paged_writer \<Rightarrow> ('i, 'r) interior \<Rightarrow> ('i, 'r) interior \<Rightarrow> bool" where
  "moved_child n w c c' \<longleftrightarrow> child_ok (rd w) red n c' \<and> i_key c' = i_key c \<and> i_stats c' = i_stats c \<and>
     list_all2 (moved_pair w) (cflat (nf_source fmt) n c) (cflat (rd w) n c')"

lemma moved_pair_grows: "grows w w' \<Longrightarrow> list_all2 (moved_pair w) xs ys \<Longrightarrow> list_all2 (moved_pair w') xs ys"
  by (auto elim!: list_all2_mono simp: moved_pair_def dest: moved_grows)

lemma moved_child_grows:
  assumes "grows w w'" and "moved_child n w c c'"
  shows "moved_child n w' c c'"
proof -
  have ext: "extends (rd w) (rd w')" using assms(1) by (simp add: grows_def)
  show ?thesis using assms(2) child_ok_extends [OF ext] moved_pair_grows [OF assms(1)]
    by (auto simp: moved_child_def)
qed

lemma copy_key_entry_extends: "copy_extends (copy_key_entry cb) l"
  unfolding copy_extends_def copy_key_entry_def using cb_grows by (auto split: prod.splits)

lemma copy_key_entry_related: "copy_related (copy_key_entry cb) moved_leaf l"
  unfolding copy_related_def
proof (intro allI impI)
  fix st b l' st' assume *: "good st" "copy_key_entry cb l st = (Ok b, l', st')" "pw_fits (copy_writer st')"
  then obtain i' where "cb (ke_key l) (ke_index l) st = (Ok b, i', st')" "l' = KeyEntry (ke_key l) i'"
    by (auto simp: copy_key_entry_def split: prod.splits)
  with cb_ok [OF *(1) _ *(3)] show "good st' \<and> moved_leaf (copy_writer st') l l'"
    by (cases l) (auto simp: moved_leaf_def moved_pair_def)
qed

lemma finish_interior_grows:
  assumes "pw_started (copy_writer st)" and "finish_interior v crc32 fmt inc key s prev e any st = (r, c', st')"
  shows "grows (copy_writer st) (copy_writer st')"
proof -
  obtain x copied w where st: "st = (x, copied, w)" by (metis prod_cases3)
  have started: "pw_started w" using assms(1) by (simp add: copy_writer_def st)
  obtain r1 e1 w1 where 1: "ser_entry (write_chunk v crc32) iser rser e w = (r1, e1, w1)" by (metis prod_cases3)
  have g1: "grows w w1" using ser_grows(1) [OF started, of e] 1 by simp
  have g2: "grows w w2" if "write_chunk v crc32 b w1 = (r2, w2)" for b r2 w2
    using g1 grows_write [OF _ that] by (auto simp: grows_def intro: grows_trans extends_trans)
  show ?thesis using assms(2) 1 g1 g2 grows_refl [OF started]
    by (cases r1) (auto simp: finish_interior_def st copy_writer_def format split: if_splits prod.splits res.splits)
qed

lemma copy_interior_extends:
  assumes "\<And>e. copy_extends copy e"
  shows "copy_extends (copy_interior copy v crc32 fmt inc) c"
  unfolding copy_extends_def
proof (intro allI impI)
  fix st r c' st' assume st: "pw_started (copy_writer st)" and run: "copy_interior copy v crc32 fmt inc c st = (r, c', st')"
  show "grows (copy_writer st) (copy_writer st')"
  proof (cases "pointer_load (\<lambda>u. nf_source fmt) () (i_position c)")
    case (Ok p)
    show ?thesis
    proof (cases p)
      case (Loaded prev e)
      obtain r1 e1 st1 where 1: "copy e st = (r1, e1, st1)" by (metis prod_cases3)
      have g1: "grows (copy_writer st) (copy_writer st1)" by (rule copy_extendsD [of copy e, OF assms st 1])
      then have "pw_started (copy_writer st1)" by (simp add: grows_def)
      from finish_interior_grows [OF this] have
        "grows (copy_writer st) (copy_writer st2)"
        if "finish_interior v crc32 fmt inc (i_key c) (i_stats c) prev e1 any st1 = (r, c', st2)" for any st2
        using grows_trans [OF g1] that by blast
      with run Ok Loaded 1 g1 show ?thesis by (cases r1) (auto simp: copy_interior_def)
    qed (use run Ok grows_refl [OF st] in \<open>auto simp: copy_interior_def\<close>)
  qed (use run grows_refl [OF st] in \<open>auto simp: copy_interior_def\<close>)
qed

lemma copy_entry_extends: "copy_extends (copy_entry fuel v crc32 fmt cb inc) e"
proof (induction fuel arbitrary: inc e)
  case 0
  then show ?case by (simp add: copy_extends_def grows_refl)
next
  case (Suc fuel)
  let ?f = "copy_interior (copy_entry fuel v crc32 fmt cb (inclusion_next inc)) v crc32 fmt (inclusion_next inc)"
  have f: "\<forall>c \<in> set cs. copy_extends ?f c" for cs using copy_interior_extends [OF Suc.IH] by blast
  have l: "\<forall>c \<in> set cs. copy_extends (copy_key_entry cb) c" for cs using copy_key_entry_extends by blast
  have "grows (copy_writer st) (copy_writer st')"
    if st: "pw_started (copy_writer st)" and "copy_entry (Suc fuel) v crc32 fmt cb inc e st = (r, e', st')" for e st r e' st'
    using that(2) copy_all_grows [OF l st] copy_all_grows [OF f st] grows_refl [OF st]
    by (auto split: node.splits prod.splits res.splits)
  then show ?case unfolding copy_extends_def by blast
qed

text \<open>The relation between a node and its copy.\<close>

definition copied_node :: "nat \<Rightarrow> paged_writer \<Rightarrow> ('i, 'r) entry \<Rightarrow> ('i, 'r) entry \<Rightarrow> bool" where
  "copied_node n w e e' \<longleftrightarrow> nwf (rd w) red n (node e') \<and> stats red e' = stats red e \<and>
     list_all2 (moved_pair w) (nflat (nf_source fmt) n (node e)) (nflat (rd w) n (node e'))"

lemma finish_interior_ok:
  assumes good: "good st" and e: "copied_node n (copy_writer st) e e'"
    and c: "child_ok (nf_source fmt) red n c" "resolve (nf_source fmt) (i_position c) = Ok e"
    and run: "finish_interior v crc32 fmt Include (i_key c) (i_stats c) prev e' any st = (Ok b, c', st')"
    and fits: "pw_fits (copy_writer st')"
  shows "good st' \<and> moved_child n (copy_writer st') c c'"
proof -
  obtain x copied w where st: "st = (x, copied, w)" by (metis prod_cases3)
  have started: "pw_started w" using good_started [OF good] by (simp add: copy_writer_def st)
  obtain r1 e1 w1 where 1: "ser_entry (write_chunk v crc32) iser rser e' w = (r1, e1, w1)" by (metis prod_cases3)
  with run obtain b1 where r1: "r1 = Ok b1"
    by (cases r1) (auto simp: finish_interior_def st should_include_def format)
  obtain r2 w2 where 2: "write_chunk v crc32 b1 w1 = (r2, w2)" by fastforce
  with run 1 r1 obtain p where r2: "r2 = Ok p" and c': "c' = InteriorEntry (i_key c) (OnDisk p) (i_stats c)"
    and st': "st' = (x, copied, w2)"
    by (cases r2) (auto simp: finish_interior_def st should_include_def format)
  have g1: "grows w w1" using ser_grows(1) [OF started, of e'] 1 by simp
  then have started1: "pw_started w1" by (simp add: grows_def)
  have g2: "grows w1 w2" by (rule grows_write [OF started1 2])
  have fits2: "pw_fits w2" using fits by (simp add: st' copy_writer_def)
  then have fits1: "pw_fits w1" using g2 by (simp add: grows_def)
  note e = e [unfolded copied_node_def st copy_writer_def, simplified]
  have e1: "nwf (rd w1) red n (node e1)" "nflat (rd w1) n (node e1) = nflat (rd w) n (node e')"
    using ser_entry_ok [OF started 1 [unfolded r1] fits1] e by auto
  have rt: "des_entry ides rdes b1 = Ok e1" "stats red e1 = stats red e'"
    using node_round_trip [OF 1 [unfolded r1]] by auto
  have ext: "extends (rd w1) (rd w2)" using g2 by (simp add: grows_def)
  have rd2: "rd w2 p = Ok e1"
    using read_back [OF started1] 2 r2 rt(1) fits2 by (auto simp: node_reader_def)
  have e2: "nwf (rd w2) red n (node e1)" "nflat (rd w2) n (node e1) = nflat (rd w) n (node e')"
    using e1 nwf_extends [OF ext] nflat_extends [OF ext] by auto
  have mv: "list_all2 (moved_pair w2) (nflat (nf_source fmt) n (node e)) (nflat (rd w2) n (node e1))"
    using moved_pair_grows [OF grows_trans [OF g1 g2]] e e2(2) by auto
  from c have c_e: "nflat (nf_source fmt) n (node e) \<noteq> []" "stats red e = Ok (i_stats c)"
    "i_key c = fst (last (nflat (nf_source fmt) n (node e)))"
    by (auto elim: child_okE)
  then have "nflat (rd w2) n (node e1) \<noteq> []" "fst (last (nflat (rd w2) n (node e1))) = i_key c"
    using list_all2_last [OF mv] by (auto simp: moved_pair_def)
  with e2(1) rd2 rt(2) e c_e c' have "child_ok (rd w2) red n c'" by (simp add: child_ok_def)
  with mv rd2 c(2) c' st' good_grows [OF grows_trans [OF g1 g2]] good st show ?thesis
    by (simp add: moved_child_def copy_writer_def cflat_def)
qed

lemma copy_interior_related:
  assumes ok: "child_ok (nf_source fmt) red n c"
    and ext: "\<And>e. copy_extends copy e"
    and below: "\<And>e. nwf (nf_source fmt) red n (node e) \<Longrightarrow> copy_related copy (copied_node n) e"
  shows "copy_related (copy_interior copy v crc32 fmt Include) (moved_child n) c"
  unfolding copy_related_def
proof (intro allI impI)
  fix st b c' st' assume st: "good st" and run: "copy_interior copy v crc32 fmt Include c st = (Ok b, c', st')"
    and fits: "pw_fits (copy_writer st')"
  from ok obtain e where e: "resolve (nf_source fmt) (i_position c) = Ok e" "nwf (nf_source fmt) red n (node e)"
    by (blast elim: child_okE)
  obtain prev where load: "pointer_load (\<lambda>u. nf_source fmt) () (i_position c) = Ok (Loaded prev e)"
    using e(1) by (cases "i_position c") (auto simp: res_map_def)
  obtain r1 e1 st1 where 1: "copy e st = (r1, e1, st1)" by (metis prod_cases3)
  with run load obtain any where r1: "r1 = Ok any"
    and fin: "finish_interior v crc32 fmt Include (i_key c) (i_stats c) prev e1 any st1 = (Ok b, c', st')"
    by (cases r1) (auto simp: copy_interior_def)
  have "pw_started (copy_writer st1)"
    using copy_extendsD [of copy e, OF ext good_started [OF st] 1] by (simp add: grows_def)
  then have "pw_fits (copy_writer st1)" using finish_interior_grows [OF _ fin] fits by (simp add: grows_def)
  then have "good st1" "copied_node n (copy_writer st1) e e1"
    using copy_relatedD [of copy _ e, OF below [OF e(2)] st 1 [unfolded r1]] by auto
  then show "good st' \<and> moved_child n (copy_writer st') c c'"
    by (rule finish_interior_ok [OF _ _ ok e(1) fin fits])
qed

theorem copy_entry_ok:
  assumes "good st" and "nwf (nf_source fmt) red n (node e)" and "inc \<noteq> Exclude"
    and "copy_entry fuel v crc32 fmt cb inc e st = (Ok b, e', st')" and "pw_fits (copy_writer st')"
  shows "good st' \<and> copied_node n (copy_writer st') e e'"
  using assms
proof (induction n arbitrary: fuel e inc st b e' st')
  case 0
  then obtain ls fuel' where ls: "node e = Leaf ls" "fuel = Suc fuel'" by (cases fuel) (auto elim: nwf_0E)
  obtain r ls' st1 where 1: "copy_all (copy_key_entry cb) ls st = (r, ls', st1)" by (metis prod_cases3)
  with 0 ls have r: "r = Ok b" "e' = BTreeEntry True (Leaf ls')" "st1 = st'" by (cases r; auto)+
  have ok: "good st'" "list_all2 (moved_leaf (copy_writer st')) ls ls'"
    using copy_all_ok [of moved_leaf ls "copy_key_entry cb" st b ls' st'] 0 1 r
      copy_key_entry_extends copy_key_entry_related moved_grows
    by (auto simp: moved_leaf_def moved_pair_def)
  have "list_all2 (moved (copy_writer st')) (map ke_index ls) (map ke_index ls')"
    using ok(2) by (auto simp: list_all2_map1 list_all2_map2 moved_leaf_def moved_pair_def elim!: list_all2_mono
        split: key_entry.splits)
  from moved_reduce [OF this] ok ls(1) r(2) show ?case
    by (cases e) (auto simp: copied_node_def list_all2_map1 list_all2_map2 moved_leaf_def elim: list_all2_mono)
next
  case (Suc n)
  then obtain cs fuel' where cs: "node e = Interior cs" "\<forall>c \<in> set cs. child_ok (nf_source fmt) red n c" "fuel = Suc fuel'"
    by (cases fuel) (auto elim: nwf_SucE)
  have inc: "inclusion_next inc = Include" using Suc.prems(3) by (cases inc) auto
  let ?copy = "copy_entry fuel' v crc32 fmt cb Include"
  let ?f = "copy_interior ?copy v crc32 fmt Include"
  obtain r cs' st1 where 1: "copy_all ?f cs st = (r, cs', st1)" by (metis prod_cases3)
  with Suc.prems(4) cs inc have r: "r = Ok b" "e' = BTreeEntry True (Interior cs')" "st1 = st'"
    by (cases r; auto)+
  have "copy_related ?copy (copied_node n) d" if "nwf (nf_source fmt) red n (node d)" for d
    unfolding copy_related_def using Suc.IH [OF _ that] by blast
  then have each: "\<forall>c \<in> set cs. copy_extends ?f c \<and> copy_related ?f (moved_child n) c"
    using cs(2) copy_interior_extends [OF copy_entry_extends] copy_interior_related [OF _ copy_entry_extends] by blast
  have ok: "good st'" "list_all2 (moved_child n (copy_writer st')) cs cs'"
    using copy_all_ok [OF moved_child_grows each Suc.prems(1)] 1 r Suc.prems(5) by auto
  have "map i_stats cs' = map i_stats cs" "\<forall>c \<in> set cs'. child_ok (rd (copy_writer st')) red n c"
    and "list_all2 (moved_pair (copy_writer st')) (cflats (nf_source fmt) n cs) (cflats (rd (copy_writer st')) n cs')"
    using ok(2) by (induction rule: list_all2_induct) (auto simp: moved_child_def list_all2_appendI)
  with ok(1) r(2) cs(1) show ?case
    by (cases e) (auto simp: copied_node_def nwf_Suc nflat_Suc)
qed

end

section \<open>The callbacks of the roots\<close>

text \<open>A position of the new file stands for one of the source: both 0, or both the same chunk.\<close>

definition same_chunk :: "vault option \<Rightarrow> (bytes \<Rightarrow> u32) \<Rightarrow> bytes \<Rightarrow> paged_writer \<Rightarrow> u64 \<Rightarrow> u64 \<Rightarrow> bool" where
  "same_chunk v crc32 from w p q \<longleftrightarrow> (p = 0 \<longleftrightarrow> q = 0) \<and>
     (p \<noteq> 0 \<longrightarrow> (\<exists>x. chunk_at v crc32 True from p = Ok x \<and> image_chunk v crc32 w q = Ok x))"

definition copies_ok :: "vault option \<Rightarrow> (bytes \<Rightarrow> u32) \<Rightarrow> bytes \<Rightarrow> 'x copy_state \<Rightarrow> bool" where
  "copies_ok v crc32 from st \<longleftrightarrow> pw_started (copy_writer st) \<and>
     (\<forall>p q. fst (snd st) p = Some q \<longrightarrow> p \<noteq> 0 \<longrightarrow> same_chunk v crc32 from (copy_writer st) p q)"

definition un_moved ::
    "vault option \<Rightarrow> (bytes \<Rightarrow> u32) \<Rightarrow> bytes \<Rightarrow> paged_writer \<Rightarrow> 'e unversioned_by_id \<Rightarrow> 'e unversioned_by_id \<Rightarrow> bool" where
  "un_moved v crc32 from w i j \<longleftrightarrow> u_value_length j = u_value_length i \<and> u_embedded j = u_embedded i \<and>
     same_chunk v crc32 from w (u_position i) (u_position j)"

definition ve_moved ::
    "vault option \<Rightarrow> (bytes \<Rightarrow> u32) \<Rightarrow> bytes \<Rightarrow> paged_writer \<Rightarrow> 'e versioned_by_id \<Rightarrow> 'e versioned_by_id \<Rightarrow> bool" where
  "ve_moved v crc32 from w i j \<longleftrightarrow> v_sequence_id j = v_sequence_id i \<and> v_value_length j = v_value_length i \<and>
     v_embedded j = v_embedded i \<and> same_chunk v crc32 from w (v_position i) (v_position j)"

lemma same_chunk_0: "same_chunk v crc32 from w 0 0"
  by (simp add: same_chunk_def)

lemma copy_chunk_writer:
  assumes "copy_chunk v crc32 from p (x, copied, w) = (r, st')"
  obtains "st' = (x, copied, w)"
  | b r' w' where "write_chunk v crc32 b w = (r', w')" and "copy_writer st' = w'"
  using assms by (auto simp: copy_chunk_def copy_writer_def split: if_splits option.splits res.splits prod.splits)

context chunk_vault
begin

lemma copy_chunk_ok:
  assumes good: "copies_ok v crc32 from (x, copied, w)"
    and run: "copy_chunk v crc32 from p (x, copied, w) = (Ok q, st')" and fits: "pw_fits (copy_writer st')"
  shows "fst st' = x \<and> copies_ok v crc32 from st' \<and> same_chunk v crc32 from (copy_writer st') p q"
proof (cases "p = 0 \<or> copied p \<noteq> None")
  case True
  with run good show ?thesis
    by (auto simp: copy_chunk_def copies_ok_def copy_writer_def same_chunk_0 split: if_splits)
next
  case False
  then obtain c w' where c: "chunk_at v crc32 True from p = Ok c" "write_chunk v crc32 c w = (Ok q, w')"
    and st': "st' = (x, copied(p \<mapsto> q), w')"
    using run by (auto simp: copy_chunk_def split: res.splits prod.splits)
  have w: "pw_started w" using good by (simp add: copies_ok_def copy_writer_def)
  have fits': "pw_fits w'" using fits by (simp add: st' copy_writer_def)
  have "image_chunk v crc32 w' q = Ok c" by (rule started_store.read_back [OF w c(2) fits'])
  moreover have "q \<noteq> 0"
  proof -
    have inv: "pw_inv w" and ne: "pw_image w \<noteq> []" using w by (simp_all add: pw_started_def)
    from inv c(2) show ?thesis
    proof (cases rule: write_chunk_cases)
      case (ok d)
      then have "length (pw_image w) < 2 ^ 64" using fits' by (simp add: pw_appends_def pw_fits_def)
      then have "unat (of_nat (length (pw_image w)) :: u64) = length (pw_image w)" by (simp add: unat_of_nat)
      with ok(3) ne show ?thesis by (metis length_0_conv res.inject(1) unat_0)
    qed simp
  qed
  ultimately have pq: "same_chunk v crc32 from w' p q" using False c(1) by (simp add: same_chunk_def)
  have old: "same_chunk v crc32 from w a b \<Longrightarrow> same_chunk v crc32 from w' a b" for a b
    using started_store.keeps [OF w c(2)] unfolding same_chunk_def by blast
  show ?thesis using pq old good started_store.inv_step [OF w c(2)] st'
    by (auto simp: copies_ok_def copy_writer_def)
qed

end

lemma list_all2_reduce:
  assumes "list_all2 P is js"
    and "\<And>i j. P i j \<Longrightarrow> size_of i = size_of j \<and> emb i = emb j \<and> (pos i > 0 \<longleftrightarrow> pos j > (0 :: u64))"
  shows "reduce (by_id_reducer size_of pos emb red) is = reduce (by_id_reducer size_of pos emb red) js"
proof -
  have eq: "map g is = map g js" if "\<And>i j. P i j \<Longrightarrow> g i = g j" for g :: "_ \<Rightarrow> 'z"
    using assms(1) by (induction rule: list_all2_induct) (auto dest: that)
  note eqs = eq [of "\<lambda>x. if pos x > 0 then 1 else 0 :: u64"] eq [of "\<lambda>x. if pos x > 0 then 0 else 1 :: u64"]
    eq [of "\<lambda>x. if pos x > 0 then ucast (size_of x) else 0 :: u64"]
  have "map emb is = map emb js"
    using assms(1) by (induction rule: list_all2_induct) (auto dest: assms(2))
  then show ?thesis using eqs assms(2) by (simp add: by_id_reducer_def)
qed

sublocale un_tree \<subseteq> un_started: tree_store "ser_unversioned eser" "des_unversioned edes"
    "ser_by_id_stats esser" "des_by_id_stats esdes" "write_chunk v crc32" "image_chunk v crc32" pw_started pw_fits
  for crc32
  by unfold_locales

sublocale ve_tree \<subseteq> ve_started: tree_store "ser_versioned eser" "des_versioned edes"
    "ser_by_id_stats esser" "des_by_id_stats esdes" "write_chunk v crc32" "image_chunk v crc32" pw_started pw_fits
  for crc32
  by unfold_locales

lemma same_chunk_keeps:
  "\<forall>q x. image_chunk v crc32 w q = Ok x \<longrightarrow> image_chunk v crc32 w' q = Ok x \<Longrightarrow>
     same_chunk v crc32 from w p q \<Longrightarrow> same_chunk v crc32 from w' p q"
  unfolding same_chunk_def by blast

lemma copies_ok_keeps:
  assumes "\<forall>q x. image_chunk v crc32 w q = Ok x \<longrightarrow> image_chunk v crc32 w' q = Ok x" and "pw_started w'"
    and "copies_ok v crc32 from (x, copied, w)"
  shows "copies_ok v crc32 from (x, copied, w')"
  using assms(2,3) same_chunk_keeps [OF assms(1)] by (simp add: copies_ok_def copy_writer_def)

lemma copies_ok_started: "copies_ok v crc32 from st \<Longrightarrow> pw_started (copy_writer st)"
  by (simp add: copies_ok_def)

sublocale un_tree \<subseteq> un_copy: index_copy "ser_unversioned eser" "des_unversioned edes"
    "ser_by_id_stats esser" "des_by_id_stats esdes" v crc32 "un_copy_callback v crc32 src"
    "un_format v crc32 eser esser edes esdes src" "unversioned_reducer ered"
    "un_moved v crc32 src" "copies_ok v crc32 src"
  for crc32 src ered
proof unfold_locales
  fix st k i r i' st' assume w: "pw_started (copy_writer st)" and run: "un_copy_callback v crc32 src k i st = (r, i', st')"
  obtain x copied w where st: "st = (x, copied, w)" by (metis prod_cases3)
  obtain q where "copy_chunk v crc32 src (u_position i) (x, copied, w) = (q, st')"
    using run by (auto simp: un_copy_callback_def st split: prod.splits res.splits if_splits)
  then show "un_started.grows crc32 (copy_writer st) (copy_writer st')"
    by (cases rule: copy_chunk_writer)
      (use w st un_started.grows_refl un_started.grows_write in \<open>auto simp: copy_writer_def\<close>)
next
  fix st k i b i' st' assume good: "copies_ok v crc32 src st" and fits: "pw_fits (copy_writer st')"
    and run: "un_copy_callback v crc32 src k i st = (Ok b, i', st')"
  obtain x copied w where st: "st = (x, copied, w)" by (metis prod_cases3)
  from run obtain q where q: "copy_chunk v crc32 src (u_position i) (x, copied, w) = (Ok q, st')"
    and i': "i' = i\<lparr>u_position := q\<rparr>"
    by (auto simp: un_copy_callback_def st split: prod.splits res.splits if_splits)
  from copy_chunk_ok [OF good [unfolded st] q fits] i'
  show "copies_ok v crc32 src st' \<and> un_moved v crc32 src (copy_writer st') i i'" by (simp add: un_moved_def)
next
  fix w and ii js :: "'e unversioned_by_id list" assume "list_all2 (un_moved v crc32 src w) ii js"
  then show "reduce (unversioned_reducer ered) ii = reduce (unversioned_reducer ered) js"
    unfolding unversioned_reducer_def
    by (rule list_all2_reduce) (auto simp: un_moved_def same_chunk_def word_gt_0)
qed (auto simp: un_format_def un_moved_def un_started.grows_def
    intro: same_chunk_keeps copies_ok_keeps copies_ok_started)

sublocale ve_tree \<subseteq> ve_copy: index_copy "ser_versioned eser" "des_versioned edes"
    "ser_by_id_stats esser" "des_by_id_stats esdes" v crc32 "ve_copy_callback v crc32 src"
    "ve_format v crc32 eser esser edes esdes src" "versioned_reducer ered"
    "ve_moved v crc32 src" "copies_ok v crc32 src"
  for crc32 src ered
proof unfold_locales
  fix st k i r i' st' assume w: "pw_started (copy_writer st)" and run: "ve_copy_callback v crc32 src k i st = (r, i', st')"
  obtain x copied w where st: "st = (x, copied, w)" by (metis prod_cases3)
  obtain q st1 where "copy_chunk v crc32 src (v_position i) (x, copied, w) = (q, st1)"
    and st1: "copy_writer st' = copy_writer st1"
    using run by (auto simp: ve_copy_callback_def st copy_writer_def split: prod.splits res.splits)
  from this(1) show "ve_started.grows crc32 (copy_writer st) (copy_writer st')" unfolding st1
    by (cases rule: copy_chunk_writer)
      (use w st ve_started.grows_refl ve_started.grows_write in \<open>auto simp: copy_writer_def\<close>)
next
  fix st k i b i' st' assume good: "copies_ok v crc32 src st" and fits: "pw_fits (copy_writer st')"
    and run: "ve_copy_callback v crc32 src k i st = (Ok b, i', st')"
  obtain x copied w where st: "st = (x, copied, w)" by (metis prod_cases3)
  from run obtain q st1 where q: "copy_chunk v crc32 src (v_position i) (x, copied, w) = (Ok q, st1)"
    and i': "i' = i\<lparr>v_position := q\<rparr>" and st1: "snd st' = snd st1"
    by (auto simp: ve_copy_callback_def st split: prod.splits res.splits)
  have "pw_fits (copy_writer st1)" using fits st1 by (simp add: copy_writer_def)
  from copy_chunk_ok [OF good [unfolded st] q this] i' st1
  show "copies_ok v crc32 src st' \<and> ve_moved v crc32 src (copy_writer st') i i'"
    by (simp add: ve_moved_def copies_ok_def copy_writer_def)
next
  fix w and ii js :: "'e versioned_by_id list" assume "list_all2 (ve_moved v crc32 src w) ii js"
  then show "reduce (versioned_reducer ered) ii = reduce (versioned_reducer ered) js"
    unfolding versioned_reducer_def
    by (rule list_all2_reduce) (auto simp: ve_moved_def same_chunk_def word_gt_0)
qed (auto simp: ve_format_def ve_moved_def ve_started.grows_def
    intro: same_chunk_keeps copies_ok_keeps copies_ok_started)

section \<open>Compacting an unversioned tree\<close>

text \<open>The copy of an unversioned root in the new file: same keys, each index moved.\<close>

context un_tree
begin

lemma un_compaction_ok:
  assumes w: "copies_ok v crc32 src ((), copied, w)"
    and root: "root_ok (nf_source (un_format v crc32 eser esser edes esdes src)) (un_id_reducer t) n (un_by_id_root t)"
    and run: "un_copy_data_to fuel v crc32 eser esser edes esdes True src t copied w = (Ok (), t', copied', w')"
    and fits: "pw_fits w'"
  shows "root_ok (un_started.rd crc32 w') (un_id_reducer t') n (un_by_id_root t') \<and>
    list_all2 (\<lambda>p q. fst p = fst q \<and> un_moved v crc32 src w' (snd p) (snd q))
      (contents (nf_source (un_format v crc32 eser esser edes esdes src)) n (un_by_id_root t))
      (contents (un_started.rd crc32 w') n (un_by_id_root t'))"
proof -
  let ?fmt = "un_format v crc32 eser esser edes esdes src"
  obtain r root' st' where 1: "copy_entry fuel v crc32 ?fmt (un_copy_callback v crc32 src) IncludeNext
      (un_by_id_root t) ((), copied, w) = (r, root', st')" by (metis prod_cases3)
  with run obtain b where r: "r = Ok b" and t': "t' = t\<lparr>un_by_id_root := root'\<rparr>" "copy_writer st' = w'"
    by (cases r) (auto simp: un_copy_data_to_def res_map_def copy_writer_def split: prod.splits)
  have "un_copy.copied_node crc32 src (e_reducer (un_reducer t)) n w' (un_by_id_root t) root'"
    using un_copy.copy_entry_ok [OF w, of "e_reducer (un_reducer t)" n "un_by_id_root t" IncludeNext fuel b root' st']
      root 1 r t'(2) fits by (simp add: root_ok_def un_id_reducer_def)
  then have c: "nwf (un_started.rd crc32 w') (un_id_reducer t) n (node root')"
    "list_all2 (\<lambda>p q. fst p = fst q \<and> un_moved v crc32 src w' (snd p) (snd q))
      (nflat (nf_source ?fmt) n (node (un_by_id_root t))) (nflat (un_started.rd crc32 w') n (node root'))"
    unfolding un_copy.copied_node_def un_copy.moved_pair_def un_id_reducer_def by auto
  have keys: "map fst (nflat (un_started.rd crc32 w') n (node root')) = map fst (nflat (nf_source ?fmt) n (node (un_by_id_root t)))"
    using c(2) by (induction rule: list_all2_induct) auto
  have "ksorted (nflat (un_started.rd crc32 w') n (node root'))"
    using root keys by (metis root_ok_def sorted_wrt_map)
  with root c t'(1) show ?thesis
    by (auto simp: root_ok_def contents_def un_id_reducer_def)
qed

end

end
