(* ===== verification/Tree_State.thy ===== *)
theory Tree_State
  imports BTree_Query Compaction
begin

text \<open>
  The state of a tree file and the operations that run under its locks:
  \<^verbatim>\<open>nebari/src/tree/state.rs\<close> and, of \<^verbatim>\<open>nebari/src/tree/mod.rs\<close>, \<^verbatim>\<open>initialize_state\<close>, \<^verbatim>\<open>save_tree\<close> and the
  file operations \<^verbatim>\<open>TreeModifier\<close>, \<^verbatim>\<open>TreeWriter\<close>, \<^verbatim>\<open>TreeCompactor\<close>, \<^verbatim>\<open>TreeGetter\<close> and \<^verbatim>\<open>TreeScanner\<close>.

  A file operation runs with the file and the lock it takes, so each is one step here. Cloning a
  state is a copy. \<^verbatim>\<open>synchronize\<close> has no effect on a memory file and is left out, as are paths and the
  transaction that locks a tree during its compaction.
\<close>

section \<open>The root interface\<close>

text \<open>
  What a \<^verbatim>\<open>Root\<close> provides. \<^verbatim>\<open>get_multiple\<close> and \<^verbatim>\<open>scan\<close> of both roots go to the tree by id, so the
  interface gives that tree and the reader of its nodes. The vault, the checksum and the fuel of the
  recursions are kept here too.
\<close>

record ('t, 'i, 'r, 's) root_ops =
  ro_vault :: "vault option"
  ro_crc32 :: "bytes \<Rightarrow> u32"
  ro_fuel :: nat
  ro_header :: u8
  ro_initialized :: "'t \<Rightarrow> bool"
  ro_initialize_default :: "'t \<Rightarrow> 't"
  ro_dirty :: "'t \<Rightarrow> bool"
  ro_transaction_id :: "'t \<Rightarrow> transaction_id"
  ro_serialize :: "'t \<Rightarrow> paged_writer \<Rightarrow> bytes res \<times> 't \<times> paged_writer"
  ro_deserialize :: "'t \<Rightarrow> bytes \<Rightarrow> 't res"
  ro_modify :: "nat option \<Rightarrow> (bytes, 'i, 's) modification \<Rightarrow> 't \<Rightarrow> paged_writer \<Rightarrow>
    'i modification_result list res \<times> (bytes, 'i, 's) operation \<times> 't \<times> paged_writer"
  ro_copy_data_to :: "bool \<Rightarrow> bytes \<Rightarrow> 't \<Rightarrow> (u64 \<rightharpoonup> u64) \<Rightarrow> paged_writer \<Rightarrow>
    unit res \<times> 't \<times> (u64 \<rightharpoonup> u64) \<times> paged_writer"
  ro_by_id :: "'t \<Rightarrow> ('i, 'r) entry"
  ro_reducer :: "'t \<Rightarrow> ('i, 'r) reducer"
  ro_node :: "bytes \<Rightarrow> u64 \<Rightarrow> ('i, 'r) entry res"
  ro_position :: "'i \<Rightarrow> u64"

definition versioned_header :: u8 where
  "versioned_header = 2"

definition unversioned_header :: u8 where
  "unversioned_header = 3"

definition page_header_try_from :: "u8 \<Rightarrow> u8 res" where
  "page_header_try_from b =
     (if b = 2 then Ok versioned_header
      else if b = 3 then Ok unversioned_header
      else Err (DataIntegrity (Message ''invalid block header'')))"

definition un_ops ::
    "nat \<Rightarrow> (nat \<Rightarrow> nat) \<Rightarrow> vault option \<Rightarrow> (bytes \<Rightarrow> u32) \<Rightarrow> ('e \<Rightarrow> bytes res) \<Rightarrow> ('es \<Rightarrow> bytes res) \<Rightarrow>
     (bytes \<Rightarrow> ('e \<times> bytes) res) \<Rightarrow> (bytes \<Rightarrow> ('es \<times> bytes) res) \<Rightarrow>
     (('e, 'es) unversioned_root, 'e unversioned_by_id, 'es by_id_stats, 's) root_ops" where
  "un_ops fuel cbrt v crc32 eser esser edes esdes =
     \<lparr>ro_vault = v, ro_crc32 = crc32, ro_fuel = fuel, ro_header = unversioned_header,
      ro_initialized = un_initialized, ro_initialize_default = un_initialize_default, ro_dirty = un_dirty,
      ro_transaction_id = un_get_transaction_id, ro_serialize = un_serialize v crc32 eser esser,
      ro_deserialize = (\<lambda>t. un_deserialize edes esdes (un_reducer t)),
      ro_modify = un_modify fuel cbrt v crc32 edes esdes,
      ro_copy_data_to = un_copy_data_to fuel v crc32 eser esser edes esdes,
      ro_by_id = un_by_id_root, ro_reducer = un_id_reducer,
      ro_node = node_reader (chunk_at v crc32 False) (des_unversioned edes) (des_by_id_stats esdes),
      ro_position = u_position\<rparr>"

definition ve_ops ::
    "nat \<Rightarrow> (nat \<Rightarrow> nat) \<Rightarrow> vault option \<Rightarrow> (bytes \<Rightarrow> u32) \<Rightarrow> ('e \<Rightarrow> bytes res) \<Rightarrow> ('es \<Rightarrow> bytes res) \<Rightarrow>
     (bytes \<Rightarrow> ('e \<times> bytes) res) \<Rightarrow> (bytes \<Rightarrow> ('es \<times> bytes) res) \<Rightarrow>
     (('e, 'es) versioned_root, 'e versioned_by_id, 'es by_id_stats, 's) root_ops" where
  "ve_ops fuel cbrt v crc32 eser esser edes esdes =
     \<lparr>ro_vault = v, ro_crc32 = crc32, ro_fuel = fuel, ro_header = versioned_header,
      ro_initialized = ve_initialized, ro_initialize_default = ve_initialize_default, ro_dirty = ve_dirty,
      ro_transaction_id = ve_transaction_id, ro_serialize = ve_serialize v crc32 eser esser,
      ro_deserialize = (\<lambda>t. ve_deserialize edes esdes (ve_reducer t)),
      ro_modify = ve_modify fuel cbrt v crc32 edes esdes,
      ro_copy_data_to = ve_copy_data_to fuel cbrt v crc32 eser esser edes esdes,
      ro_by_id = ve_by_id_root, ro_reducer = ve_id_reducer,
      ro_node = node_reader (chunk_at v crc32 False) (des_versioned edes) (des_by_id_stats esdes),
      ro_position = v_position\<rparr>"

section \<open>State\<close>

record 't active_state =
  as_file_id :: "u64 option"
  as_position :: u64
  as_root :: 't
  as_max_order :: "nat option"

record 't state =
  st_reader :: "'t active_state"
  st_writer :: "'t active_state"

definition state_new :: "u64 option \<Rightarrow> nat option \<Rightarrow> 't \<Rightarrow> 't state" where
  "state_new file_id max_order root =
     (let s = \<lparr>as_file_id = file_id, as_position = 0, as_root = root, as_max_order = max_order\<rparr> in
      \<lparr>st_reader = s, st_writer = s\<rparr>)"

definition state_initialized ::
    "('t, 'i, 'r, 's) root_ops \<Rightarrow> u64 option \<Rightarrow> nat option \<Rightarrow> 't \<Rightarrow> 't state" where
  "state_initialized ops file_id max_order root = state_new file_id max_order (ro_initialize_default ops root)"

definition publish :: "'t state \<Rightarrow> 't state" where
  "publish st = st\<lparr>st_reader := st_writer st\<rparr>"

definition rollback :: "'t state \<Rightarrow> 't state" where
  "rollback st = st\<lparr>st_writer := (st_writer st)\<lparr>as_root := as_root (st_reader st)\<rparr>\<rparr>"

section \<open>Opening a file\<close>

text \<open>What the loop of \<^verbatim>\<open>initialize_state\<close> finds at one block.\<close>

datatype 't block = RootAt 't | NoHeader | NotCommitted

definition nbr :: bytes where
  "nbr = [0x4e, 0x62, 0x72]"

definition not_successful :: "(transaction_id \<Rightarrow> bool res) option \<Rightarrow> transaction_id \<Rightarrow> bool res" where
  "not_successful manager i =
     (case manager of
        Some transaction_was_successful \<Rightarrow>
          (if i > 0 then res_map Not (transaction_was_successful i) else Ok False)
      | None \<Rightarrow> Ok False)"

fun wrap_integrity :: "'a res \<Rightarrow> 'a res" where
  "wrap_integrity (Err e) = Err (DataIntegrity e)"
| "wrap_integrity r = r"

definition read_block ::
    "('t, 'i, 'r, 's) root_ops \<Rightarrow> (transaction_id \<Rightarrow> bool res) option \<Rightarrow> bytes \<Rightarrow> 't \<Rightarrow> nat \<Rightarrow> 't block res" where
  "read_block ops manager buf current n =
     res_bind (fst (mf_read_exact 4 \<lparr>mf_buffer = buf, mf_position = n * page_size\<rparr>)) (\<lambda>scratch.
       if take 3 scratch = nbr \<and> is_ok (page_header_try_from (scratch ! 3)) then
         if page_header_try_from (scratch ! 3) \<noteq> Ok (ro_header ops)
         then Err (DataIntegrity (Message ''contained another header type''))
         else
           res_bind (chunk_at (ro_vault ops) (ro_crc32 ops) True buf (of_nat (n * page_size + 4))) (\<lambda>content.
           res_bind (wrap_integrity (ro_deserialize ops current content)) (\<lambda>root.
           res_bind (not_successful manager (ro_transaction_id ops root)) (\<lambda>bad.
             Ok (if bad then NotCommitted else RootAt root))))
       else Ok NoHeader)"

text \<open>The loop, from block \<open>n\<close> back to block 0, and what it ends with.\<close>

datatype 't search = FoundRoot 't | NoPages | NothingWritten

primrec scan_back :: "(nat \<Rightarrow> 't block res) \<Rightarrow> nat \<Rightarrow> 't search res" where
  "scan_back rb 0 =
     res_map (\<lambda>b. case b of RootAt t \<Rightarrow> FoundRoot t | NoHeader \<Rightarrow> NoPages | NotCommitted \<Rightarrow> NothingWritten) (rb 0)"
| "scan_back rb (Suc n) =
     res_bind (rb (Suc n)) (\<lambda>b. case b of RootAt t \<Rightarrow> Ok (FoundRoot t) | _ \<Rightarrow> scan_back rb n)"

text \<open>The last block with room for the four bytes of a page header; none in a file of 1 to 3 bytes.\<close>

definition last_block :: "nat \<Rightarrow> nat option" where
  "last_block file_length =
     (let n = file_length div page_size in
      if file_length - n * page_size < 4 then if n = 0 then None else Some (n - 1) else Some n)"

definition initialize_state ::
    "('t, 'i, 'r, 's) root_ops \<Rightarrow> (transaction_id \<Rightarrow> bool res) option \<Rightarrow> u64 option \<Rightarrow> bytes \<Rightarrow> 't state \<Rightarrow>
     unit res \<times> 't state" where
  "initialize_state ops manager file_id buf st =
     (if ro_initialized ops (as_root (st_reader st)) then (Ok (), st)
      else if ro_initialized ops (as_root (st_writer st)) then (Ok (), st)
      else
        let a = (st_writer st)\<lparr>as_file_id := file_id\<rparr>;
            default = a\<lparr>as_root := ro_initialize_default ops (as_root a)\<rparr>;
            file_length = length buf in
        if file_length = 0 then (Ok (), publish (st\<lparr>st_writer := default\<rparr>))
        else case last_block file_length of
          None \<Rightarrow> (Panic, st\<lparr>st_writer := a\<rparr>)
        | Some n \<Rightarrow>
            (case scan_back (read_block ops manager buf (as_root a)) n of
               Ok (FoundRoot root) \<Rightarrow>
                 (Ok (), publish (st\<lparr>st_writer := a\<lparr>as_root := root, as_position := of_nat file_length\<rparr>\<rparr>))
             | Ok NoPages \<Rightarrow>
                 (Ok (), publish (st\<lparr>st_writer := default\<lparr>as_position := of_nat file_length\<rparr>\<rparr>))
             | Ok NothingWritten \<Rightarrow> (Ok (), st\<lparr>st_writer := default\<rparr>)
             | bad \<Rightarrow> (lift_err bad, st\<lparr>st_writer := a\<rparr>)))"

section \<open>Saving\<close>

text \<open>When a writer is dropped unfinished, what it has buffered is lost.\<close>

definition save_tree ::
    "('t, 'i, 'r, 's) root_ops \<Rightarrow> 't active_state \<Rightarrow> paged_writer \<Rightarrow> unit res \<times> 't active_state \<times> memory_file" where
  "save_tree ops a w =
     (case ro_serialize ops (as_root a) w of
        (Ok scratch, root, w1) \<Rightarrow>
          (case pw_finish w1 of
             (file, after_data) \<Rightarrow>
               (let a1 = a\<lparr>as_root := root, as_position := after_data\<rparr> in
                case pw_new (Some (ro_header ops)) file after_data of
                  (Ok u, h) \<Rightarrow>
                    (case write_chunk (ro_vault ops) (ro_crc32 ops) scratch h of
                       (Ok p, h1) \<Rightarrow>
                         (case pw_finish h1 of
                            (file', after_header) \<Rightarrow> (Ok (), a1\<lparr>as_position := after_header\<rparr>, file'))
                     | (bad, h1) \<Rightarrow> (lift_err bad, a1, pw_file h1))
                | (bad, h) \<Rightarrow> (bad, a1, pw_file h)))
      | (bad, root, w1) \<Rightarrow> (lift_err bad, a\<lparr>as_root := root\<rparr>, pw_file w1))"

section \<open>File operations\<close>

record 't tree_file =
  tf_file :: memory_file
  tf_id :: "u64 option"
  tf_state :: "'t state"

definition tree_modifier ::
    "('t, 'i, 'r, 's) root_ops \<Rightarrow> (bytes, 'i, 's) modification \<Rightarrow> 't tree_file \<Rightarrow>
     'i modification_result list res \<times> (bytes, 'i, 's) operation \<times> 't tree_file" where
  "tree_modifier ops m tf =
     (let a = st_writer (tf_state tf);
          stored = (\<lambda>a' file. tf\<lparr>tf_file := file, tf_state := (tf_state tf)\<lparr>st_writer := a'\<rparr>\<rparr>) in
      if as_file_id a \<noteq> tf_id tf then (Err TreeCompacted, operation m, tf)
      else case pw_new None (tf_file tf) (as_position a) of
        (Ok u, w) \<Rightarrow>
          (case ro_modify ops (as_max_order a) m (as_root a) w of
             (Ok results, op', root, w1) \<Rightarrow>
               (if persistence_transaction_id (persistence_mode m) \<noteq> None then
                  (case pw_finish w1 of
                     (file, new_position) \<Rightarrow>
                       (Ok results, op', stored (a\<lparr>as_root := root, as_position := new_position\<rparr>) file))
                else
                  (case save_tree ops (a\<lparr>as_root := root\<rparr>) w1 of
                     (Ok u, a', file) \<Rightarrow>
                       (let tf' = stored a' file in (Ok results, op', tf'\<lparr>tf_state := publish (tf_state tf')\<rparr>))
                   | (bad, a', file) \<Rightarrow> (lift_err bad, op', stored a' file)))
           | (bad, op', root, w1) \<Rightarrow> (bad, op', stored (a\<lparr>as_root := root\<rparr>) (pw_file w1)))
      | (bad, w) \<Rightarrow> (lift_err bad, operation m, stored a (pw_file w)))"

definition tree_writer :: "('t, 'i, 'r, 's) root_ops \<Rightarrow> 't tree_file \<Rightarrow> unit res \<times> 't tree_file" where
  "tree_writer ops tf =
     (let a = st_writer (tf_state tf);
          stored = (\<lambda>a' file. tf\<lparr>tf_file := file, tf_state := (tf_state tf)\<lparr>st_writer := a'\<rparr>\<rparr>) in
      if as_file_id a \<noteq> tf_id tf then (Err TreeCompacted, tf)
      else if ro_dirty ops (as_root a) then
        (case pw_new None (tf_file tf) (as_position a) of
           (Ok u, w) \<Rightarrow> (case save_tree ops a w of (r, a', file) \<Rightarrow> (r, stored a' file))
         | (bad, w) \<Rightarrow> (bad, stored a (pw_file w)))
      else (Ok (), tf))"

text \<open>The state a read uses, and the check that the file is the one the state is about.\<close>

definition read_state :: "bool \<Rightarrow> 't tree_file \<Rightarrow> 't active_state res" where
  "read_state from_transaction tf =
     (let a = (if from_transaction then st_writer (tf_state tf) else st_reader (tf_state tf)) in
      if as_file_id a \<noteq> tf_id tf then Err TreeCompacted else Ok a)"

definition tree_value :: "('t, 'i, 'r, 's) root_ops \<Rightarrow> 't tree_file \<Rightarrow> u64 \<Rightarrow> bytes res" where
  "tree_value ops tf = chunk_at (ro_vault ops) (ro_crc32 ops) False (mf_buffer (tf_file tf))"

definition tree_getter ::
    "('t, 'i, 'r, 's) root_ops \<Rightarrow> bool \<Rightarrow> ('i, 'c) get_multiple_args \<Rightarrow> bytes list \<Rightarrow> 't tree_file \<Rightarrow> 'c \<Rightarrow>
     unit res \<times> 'c" where
  "tree_getter ops from_transaction args ks tf c =
     (case read_state from_transaction tf of
        Ok a \<Rightarrow>
          get_multiple (ro_fuel ops) (ro_node ops (mf_buffer (tf_file tf))) (ro_position ops) (tree_value ops tf) args
            (ro_by_id ops (as_root a)) ks c
      | bad \<Rightarrow> (lift_err bad, c))"

definition tree_scanner ::
    "('t, 'i, 'r, 's) root_ops \<Rightarrow> bool \<Rightarrow> ('i, 'r, 'c) scan_args \<Rightarrow> range \<Rightarrow> 't tree_file \<Rightarrow> 'c \<Rightarrow> bool res \<times> 'c" where
  "tree_scanner ops from_transaction args r tf c =
     (case read_state from_transaction tf of
        Ok a \<Rightarrow>
          scan (ro_fuel ops) (ro_node ops (mf_buffer (tf_file tf))) (ro_position ops) (tree_value ops tf) args r 0
            (ro_by_id ops (as_root a)) c
      | bad \<Rightarrow> (lift_err bad, c))"

text \<open>
  The compactor copies what the readers see, then what the writer has, into an empty file and saves
  the writer's tree there. It changes the writer's state as it goes, also when it fails.
\<close>

definition tree_compactor ::
    "('t, 'i, 'r, 's) root_ops \<Rightarrow> 't tree_file \<Rightarrow> memory_file res \<times> 't tree_file" where
  "tree_compactor ops tf =
     (let a = st_writer (tf_state tf); from = mf_buffer (tf_file tf);
          stored = (\<lambda>a'. tf\<lparr>tf_state := (tf_state tf)\<lparr>st_writer := a'\<rparr>\<rparr>) in
      case pw_new None \<lparr>mf_buffer = [], mf_position = 0\<rparr> 0 of
        (Ok u, w) \<Rightarrow>
          (case ro_copy_data_to ops False from (as_root (st_reader (tf_state tf))) Map.empty w of
             (Ok u1, temporary_header, copied_chunks, w1) \<Rightarrow>
               (case ro_copy_data_to ops True from (as_root a) copied_chunks w1 of
                  (Ok u2, root, copied_chunks', w2) \<Rightarrow>
                    (case save_tree ops (a\<lparr>as_root := root\<rparr>) w2 of
                       (Ok u3, a', file) \<Rightarrow> (Ok file, stored a')
                     | (bad, a', file) \<Rightarrow> (lift_err bad, stored a'))
                | (bad, root, copied_chunks', w2) \<Rightarrow> (lift_err bad, stored (a\<lparr>as_root := root\<rparr>)))
           | (bad, temporary_header, copied_chunks, w1) \<Rightarrow> (lift_err bad, tf))
      | (bad, w) \<Rightarrow> (lift_err bad, tf))"

definition compaction_finish :: "u64 \<Rightarrow> 't tree_file \<Rightarrow> 't tree_file" where
  "compaction_finish new_file_id tf =
     (let a = (st_writer (tf_state tf))\<lparr>as_file_id := Some new_file_id\<rparr> in
      tf\<lparr>tf_state := publish ((tf_state tf)\<lparr>st_writer := a\<rparr>)\<rparr>)"

end
