(* ===== verification/Tree_File.thy ===== *)
theory Tree_File
  imports Tree_State
begin

text \<open>
  The operations of \<^verbatim>\<open>TreeFile\<close> (\<^verbatim>\<open>nebari/src/tree/mod.rs\<close>): each builds the closures it hands to a file
  operation of \<^verbatim>\<open>Tree_State\<close>. The variables a closure captures are the state \<open>c\<close> of the callbacks.
\<close>

section \<open>Opening\<close>

definition tree_file_new :: "memory_file \<Rightarrow> u64 option \<Rightarrow> 't state \<Rightarrow> 't tree_file" where
  "tree_file_new file file_id st = \<lparr>tf_file = file, tf_id = file_id, tf_state = st\<rparr>"

text \<open>\<^verbatim>\<open>TreeFile::write\<close> and \<^verbatim>\<open>TreeFile::read\<close> on a file that the file manager has opened.\<close>

definition tree_open ::
    "('t, 'i, 'r, 's) root_ops \<Rightarrow> (transaction_id \<Rightarrow> bool res) option \<Rightarrow> memory_file \<Rightarrow> u64 option \<Rightarrow> 't state \<Rightarrow>
     't tree_file res \<times> 't state" where
  "tree_open ops manager file file_id st =
     (case initialize_state ops manager file_id (mf_buffer file) st of
        (Ok u, st') \<Rightarrow> (Ok (tree_file_new file file_id st'), st')
      | (bad, st') \<Rightarrow> (lift_err bad, st'))"

section \<open>Modifying\<close>

definition single ::
    "persistence_mode \<Rightarrow> bytes \<Rightarrow> (bytes, 'i, 's) operation \<Rightarrow> (bytes, 'i, 's) modification" where
  "single mode key op = \<lparr>persistence_mode = mode, keys = [key], operation = op\<rparr>"

text \<open>\<^verbatim>\<open>.into_iter().next().unwrap().index.unwrap()\<close>\<close>

definition first_index :: "'i modification_result list \<Rightarrow> 'i res" where
  "first_index results = (case results of [] \<Rightarrow> Panic | r # rs \<Rightarrow> unwrap (mr_index r))"

definition tf_set ::
    "('t, 'i, 'r, 's) root_ops \<Rightarrow> persistence_mode \<Rightarrow> bytes \<Rightarrow> bytes \<Rightarrow> 't tree_file \<Rightarrow> 'i res \<times> 't tree_file" where
  "tf_set ops mode key b tf =
     (case tree_modifier ops (single mode key (OpSet b)) tf of
        (r, op', tf') \<Rightarrow> (res_bind r first_index, tf'))"

definition tf_modify ::
    "('t, 'i, 'r, 's) root_ops \<Rightarrow> (bytes, 'i, 's) modification \<Rightarrow> 't tree_file \<Rightarrow>
     'i modification_result list res \<times> (bytes, 'i, 's) operation \<times> 't tree_file" where
  "tf_modify ops m tf = tree_modifier ops m tf"

text \<open>What a compare-swap closure holds after the call.\<close>

fun captured :: "(bytes, 'i, 's) operation \<Rightarrow> 's \<Rightarrow> 's" where
  "captured (OpCompareSwap f s) d = s"
| "captured _ d = d"

datatype compare_and_swap_error = Conflict "bytes option" | CasError error_kind

text \<open>The closure captures \<^verbatim>\<open>new\<close> (taken when used) and \<^verbatim>\<open>result\<close> (a conflict, if any).\<close>

definition cas_callback ::
    "bytes option \<Rightarrow> (bytes, 'i, bytes option \<times> bytes option option) compare_swap_fn" where
  "cas_callback old s key idx val =
     (case s of (new, conflict) \<Rightarrow>
        if val = old then
          (case new of
             Some b \<Rightarrow> (KeySet b, (None, conflict))
           | None \<Rightarrow> (KeyRemove, (None, conflict)))
        else (KeySkip, (new, Some val)))"

definition tf_compare_and_swap ::
    "('t, 'i, 'r, bytes option \<times> bytes option option) root_ops \<Rightarrow> bytes \<Rightarrow> bytes option \<Rightarrow> bytes option \<Rightarrow>
     persistence_mode \<Rightarrow> 't tree_file \<Rightarrow> (compare_and_swap_error + unit) res \<times> 't tree_file" where
  "tf_compare_and_swap ops key old new mode tf =
     (case tf_modify ops (single mode key (OpCompareSwap (cas_callback old) (new, None))) tf of
        (Ok results, op', tf') \<Rightarrow>
          (Ok (case snd (captured op' (new, None)) of None \<Rightarrow> Inr () | Some val \<Rightarrow> Inl (Conflict val)), tf')
      | (Err e, op', tf') \<Rightarrow> (Ok (Inl (CasError e)), tf')
      | (bad, op', tf') \<Rightarrow> (lift_err bad, tf'))"

definition remove_callback :: "(bytes, 'i, (bytes \<times> 'i) option) compare_swap_fn" where
  "remove_callback s key idx val =
     (KeyRemove, case (idx, val) of (Some i, Some b) \<Rightarrow> Some (b, i) | _ \<Rightarrow> None)"

definition tf_remove ::
    "('t, 'i, 'r, (bytes \<times> 'i) option) root_ops \<Rightarrow> bytes \<Rightarrow> persistence_mode \<Rightarrow> 't tree_file \<Rightarrow>
     (bytes \<times> 'i) option res \<times> 't tree_file" where
  "tf_remove ops key mode tf =
     (case tf_modify ops (single mode key (OpCompareSwap remove_callback None)) tf of
        (r, op', tf') \<Rightarrow> (res_map (\<lambda>_. captured op' None) r, tf'))"

text \<open>
  The closure of \<^verbatim>\<open>replace\<close> takes the value it sets: a second call would panic. It is called once, for
  the one key of the modification, so the model keeps the value.
\<close>

definition replace_callback :: "bytes \<Rightarrow> (bytes, 'i, bytes option) compare_swap_fn" where
  "replace_callback b s key idx val = (KeySet b, val)"

definition tf_replace ::
    "('t, 'i, 'r, bytes option) root_ops \<Rightarrow> bytes \<Rightarrow> bytes \<Rightarrow> persistence_mode \<Rightarrow> 't tree_file \<Rightarrow>
     (bytes option \<times> 'i) res \<times> 't tree_file" where
  "tf_replace ops key b mode tf =
     (case tf_modify ops (single mode key (OpCompareSwap (replace_callback b) None)) tf of
        (r, op', tf') \<Rightarrow>
          (res_bind r (\<lambda>results. res_map (\<lambda>i. (captured op' None, i)) (first_index results)), tf'))"

section \<open>Looking up\<close>

definition tf_get ::
    "('t, 'i, 'r, 's) root_ops \<Rightarrow> bytes \<Rightarrow> bool \<Rightarrow> 't tree_file \<Rightarrow> bytes option res" where
  "tf_get ops key in_transaction tf =
     (case tree_getter ops in_transaction
         \<lparr>gm_evaluator = (\<lambda>c k i. (ReadData, c)), gm_reader = (\<lambda>c k val i. (Ok (), Some val))\<rparr> [key] tf None of
        (r, buffer) \<Rightarrow> res_map (\<lambda>_. buffer) r)"

definition tf_get_index ::
    "('t, 'i, 'r, 's) root_ops \<Rightarrow> bytes \<Rightarrow> bool \<Rightarrow> 't tree_file \<Rightarrow> 'i option res" where
  "tf_get_index ops key in_transaction tf =
     (case tree_getter ops in_transaction
         \<lparr>gm_evaluator = (\<lambda>c k i. (Skip, Some i)), gm_reader = (\<lambda>c k val i. (Panic, c))\<rparr> [key] tf None of
        (r, found_index) \<Rightarrow> res_map (\<lambda>_. found_index) r)"

definition tf_get_with_index ::
    "('t, 'i, 'r, 's) root_ops \<Rightarrow> bytes \<Rightarrow> bool \<Rightarrow> 't tree_file \<Rightarrow> (bytes \<times> 'i) option res" where
  "tf_get_with_index ops key in_transaction tf =
     (case tree_getter ops in_transaction
         \<lparr>gm_evaluator = (\<lambda>c k i. (ReadData, c)),
          gm_reader = (\<lambda>c k val i. (Ok (), (Some val, Some i)))\<rparr> [key] tf (None, None) of
        (r, (buffer, found_index)) \<Rightarrow>
          res_map (\<lambda>_. case (buffer, found_index) of (Some b, Some i) \<Rightarrow> Some (b, i) | _ \<Rightarrow> None) r)"

text \<open>The closures that read every entry and push something to a list.\<close>

definition pushing :: "(bytes \<Rightarrow> bytes \<Rightarrow> 'i \<Rightarrow> 'x) \<Rightarrow> ('i, 'x list) get_multiple_args" where
  "pushing f =
     \<lparr>gm_evaluator = (\<lambda>c k i. (ReadData, c)), gm_reader = (\<lambda>c k val i. (Ok (), c @ [f k val i]))\<rparr>"

definition tf_get_multiple ::
    "('t, 'i, 'r, 's) root_ops \<Rightarrow> bytes list \<Rightarrow> bool \<Rightarrow> 't tree_file \<Rightarrow> (bytes \<times> bytes) list res" where
  "tf_get_multiple ops ks in_transaction tf =
     (case tree_getter ops in_transaction (pushing (\<lambda>k val i. (k, val))) ks tf [] of
        (r, buffers) \<Rightarrow> res_map (\<lambda>_. buffers) r)"

definition tf_get_multiple_indexes ::
    "('t, 'i, 'r, 's) root_ops \<Rightarrow> bytes list \<Rightarrow> bool \<Rightarrow> 't tree_file \<Rightarrow> (bytes \<times> 'i) list res" where
  "tf_get_multiple_indexes ops ks in_transaction tf =
     (case tree_getter ops in_transaction (pushing (\<lambda>k val i. (k, i))) ks tf [] of
        (r, buffers) \<Rightarrow> res_map (\<lambda>_. buffers) r)"

definition tf_get_multiple_with_indexes ::
    "('t, 'i, 'r, 's) root_ops \<Rightarrow> bytes list \<Rightarrow> bool \<Rightarrow> 't tree_file \<Rightarrow> (bytes \<times> bytes \<times> 'i) list res" where
  "tf_get_multiple_with_indexes ops ks in_transaction tf =
     (case tree_getter ops in_transaction (pushing (\<lambda>k val i. (k, val, i))) ks tf [] of
        (r, buffers) \<Rightarrow> res_map (\<lambda>_. buffers) r)"

section \<open>Scanning\<close>

text \<open>\<^verbatim>\<open>scan\<close>: the caller's closures, which share the state \<open>c\<close>.\<close>

definition tf_scan ::
    "('t, 'i, 'r, 's) root_ops \<Rightarrow> range \<Rightarrow> bool \<Rightarrow> ('i, 'r, 'c) scan_args \<Rightarrow> 't tree_file \<Rightarrow> 'c \<Rightarrow> unit res \<times> 'c" where
  "tf_scan ops r in_transaction args tf c =
     (case tree_scanner ops in_transaction args r tf c of (res, c') \<Rightarrow> (res_map (\<lambda>_. ()) res, c'))"

definition read_all :: "'c \<Rightarrow> bytes \<Rightarrow> 'r \<Rightarrow> nat \<Rightarrow> scan_evaluation \<times> 'c" where
  "read_all c mk st depth = (ReadData, c)"

definition tf_get_range ::
    "('t, 'i, 'r, 's) root_ops \<Rightarrow> range \<Rightarrow> bool \<Rightarrow> 't tree_file \<Rightarrow> (bytes \<times> bytes) list res" where
  "tf_get_range ops r in_transaction tf =
     (case tf_scan ops r in_transaction
         \<lparr>forwards = True, node_evaluator = read_all, key_evaluator = (\<lambda>c k i. (ReadData, c)),
          data_callback = (\<lambda>c k i val. (Ok (), c @ [(k, val)]))\<rparr> tf [] of
        (res, results) \<Rightarrow> res_map (\<lambda>_. results) res)"

definition tf_get_range_indexes ::
    "('t, 'i, 'r, 's) root_ops \<Rightarrow> range \<Rightarrow> bool \<Rightarrow> 't tree_file \<Rightarrow> (bytes \<times> 'i) list res" where
  "tf_get_range_indexes ops r in_transaction tf =
     (case tf_scan ops r in_transaction
         \<lparr>forwards = True, node_evaluator = read_all, key_evaluator = (\<lambda>c k i. (Skip, c @ [(k, i)])),
          data_callback = (\<lambda>c k i val. (Panic, c))\<rparr> tf [] of
        (res, results) \<Rightarrow> res_map (\<lambda>_. results) res)"

definition tf_get_range_with_indexes ::
    "('t, 'i, 'r, 's) root_ops \<Rightarrow> range \<Rightarrow> bool \<Rightarrow> 't tree_file \<Rightarrow> (bytes \<times> bytes \<times> 'i) list res" where
  "tf_get_range_with_indexes ops r in_transaction tf =
     (case tf_scan ops r in_transaction
         \<lparr>forwards = True, node_evaluator = read_all, key_evaluator = (\<lambda>c k i. (ReadData, c)),
          data_callback = (\<lambda>c k i val. (Ok (), c @ [(k, val, i)]))\<rparr> tf [] of
        (res, results) \<Rightarrow> res_map (\<lambda>_. results) res)"

text \<open>The closures of \<^verbatim>\<open>first_key\<close> and \<^verbatim>\<open>last_key\<close>, and of \<^verbatim>\<open>first\<close> and \<^verbatim>\<open>last\<close>.\<close>

definition stopping_args :: "bool \<Rightarrow> ('i, 'r, bytes option) scan_args" where
  "stopping_args fwd =
     \<lparr>forwards = fwd, node_evaluator = read_all, key_evaluator = (\<lambda>c k i. (Stop, Some k)),
      data_callback = (\<lambda>c k i val. (Ok (), c))\<rparr>"

definition one_entry_args :: "bool \<Rightarrow> ('i, 'r, (bytes \<times> bytes) option \<times> bool) scan_args" where
  "one_entry_args fwd =
     \<lparr>forwards = fwd, node_evaluator = read_all,
      key_evaluator = (\<lambda>c k i. if snd c then (Stop, c) else (ReadData, (fst c, True))),
      data_callback = (\<lambda>c k i val. (Ok (), (Some (k, val), snd c)))\<rparr>"

definition tf_first_key :: "('t, 'i, 'r, 's) root_ops \<Rightarrow> bool \<Rightarrow> 't tree_file \<Rightarrow> bytes option res" where
  "tf_first_key ops in_transaction tf =
     (case tf_scan ops (Unbounded, Unbounded) in_transaction (stopping_args True) tf None of
        (res, result) \<Rightarrow> res_map (\<lambda>_. result) res)"

definition tf_first :: "('t, 'i, 'r, 's) root_ops \<Rightarrow> bool \<Rightarrow> 't tree_file \<Rightarrow> (bytes \<times> bytes) option res" where
  "tf_first ops in_transaction tf =
     (case tf_scan ops (Unbounded, Unbounded) in_transaction (one_entry_args True) tf (None, False) of
        (res, result) \<Rightarrow> res_map (\<lambda>_. fst result) res)"

definition tf_last_key :: "('t, 'i, 'r, 's) root_ops \<Rightarrow> bool \<Rightarrow> 't tree_file \<Rightarrow> bytes option res" where
  "tf_last_key ops in_transaction tf =
     (case tf_scan ops (Unbounded, Unbounded) in_transaction (stopping_args False) tf None of
        (res, result) \<Rightarrow> res_map (\<lambda>_. result) res)"

definition tf_last :: "('t, 'i, 'r, 's) root_ops \<Rightarrow> bool \<Rightarrow> 't tree_file \<Rightarrow> (bytes \<times> bytes) option res" where
  "tf_last ops in_transaction tf =
     (case tf_scan ops (Unbounded, Unbounded) in_transaction (one_entry_args False) tf (None, False) of
        (res, result) \<Rightarrow> res_map (\<lambda>_. fst result) res)"

section \<open>Reducing\<close>

record ('i, 'r) depth_state =
  ds_reduced :: "'r list"
  ds_indexes :: "'i list"

definition depth_default :: "('i, 'r) depth_state" where
  "depth_default = \<lparr>ds_reduced = [], ds_indexes = []\<rparr>"

definition depth_finish :: "('i, 'r) reducer \<Rightarrow> ('i, 'r) depth_state \<Rightarrow> 'r option" where
  "depth_finish red d =
     (let reduced = ds_reduced d @ (if ds_indexes d \<noteq> [] then [reduce red (ds_indexes d)] else []) in
      if reduced \<noteq> [] then Some (rereduce red reduced) else None)"

text \<open>\<^verbatim>\<open>ReduceState\<close>: a stack of depths (the last is the deepest). \<^verbatim>\<open>lowest_key\<close> stays the empty key.\<close>

record ('i, 'r) reduce_state =
  rs_depths :: "('i, 'r) depth_state list"
  rs_lowest_key :: bytes

definition reduce_new :: "('i, 'r) reduce_state" where
  "reduce_new = \<lparr>rs_depths = [depth_default], rs_lowest_key = []\<rparr>"

function reduce_to_depth :: "('i, 'r) reducer \<Rightarrow> nat \<Rightarrow> ('i, 'r) depth_state list \<Rightarrow> ('i, 'r) depth_state list" where
  "reduce_to_depth red depth ds =
     (if length ds > depth + 1 then
        reduce_to_depth red depth
          (case depth_finish red (last ds) of
             Some reduced \<Rightarrow>
               (butlast ds)[length ds - 2 :=
                 (ds ! (length ds - 2))\<lparr>ds_reduced := ds_reduced (ds ! (length ds - 2)) @ [reduced]\<rparr>]
           | None \<Rightarrow> butlast ds)
      else ds)"
  by pat_completeness auto
termination
  by (relation "measure (\<lambda>(red, depth, ds). length ds)") (auto split: option.splits)

declare reduce_to_depth.simps [simp del]

definition push_reduced :: "nat \<Rightarrow> 'r \<Rightarrow> ('i, 'r) depth_state list \<Rightarrow> ('i, 'r) depth_state list" where
  "push_reduced depth reduced ds =
     (let ds' = ds @ replicate (depth + 1 - length ds) depth_default in
      ds'[depth := (ds' ! depth)\<lparr>ds_reduced := ds_reduced (ds' ! depth) @ [reduced]\<rparr>])"

definition push_index :: "'i \<Rightarrow> ('i, 'r) depth_state list \<Rightarrow> ('i, 'r) depth_state list" where
  "push_index i ds = butlast ds @ [(last ds)\<lparr>ds_indexes := ds_indexes (last ds) @ [i]\<rparr>]"

definition reduce_finish :: "('i, 'r) reducer \<Rightarrow> ('i, 'r) reduce_state \<Rightarrow> 'r option" where
  "reduce_finish red rs = depth_finish red (last (reduce_to_depth red 0 (rs_depths rs)))"

fun start_after :: "bytes bound \<Rightarrow> bytes \<Rightarrow> bool" where
  "start_after Unbounded mk = False"
| "start_after (Excluded start) mk = (start \<ge> mk)"
| "start_after (Included start) mk = (start > mk)"

fun start_lowest :: "bytes bound \<Rightarrow> bytes \<Rightarrow> bool" where
  "start_lowest Unbounded lowest = True"
| "start_lowest (Excluded start) lowest = (start < lowest)"
| "start_lowest (Included start) lowest = (start \<le> lowest)"

text \<open>The comparison as the code has it: true when the range ends at or before the maximum.\<close>

fun end_included :: "bytes bound \<Rightarrow> bytes \<Rightarrow> bool" where
  "end_included (Included e) mk = (e \<le> mk)"
| "end_included (Excluded e) mk = (e < mk)"
| "end_included Unbounded mk = True"

definition reduce_node ::
    "('i, 'r) reducer \<Rightarrow> range \<Rightarrow> ('i, 'r) reduce_state \<Rightarrow> bytes \<Rightarrow> 'r \<Rightarrow> nat \<Rightarrow>
     scan_evaluation \<times> ('i, 'r) reduce_state" where
  "reduce_node red r rs mk st depth =
     (let ds = reduce_to_depth red depth (rs_depths rs) in
      if start_after (fst r) mk then (Stop, rs\<lparr>rs_depths := ds\<rparr>)
      else if end_included (snd r) mk \<and> start_lowest (fst r) (rs_lowest_key rs)
      then (Skip, rs\<lparr>rs_depths := push_reduced depth st ds\<rparr>)
      else (ReadData, rs\<lparr>rs_depths := ds\<rparr>))"

definition reduce_key ::
    "range \<Rightarrow> ('i, 'r) reduce_state \<Rightarrow> bytes \<Rightarrow> 'i \<Rightarrow> scan_evaluation \<times> ('i, 'r) reduce_state" where
  "reduce_key r rs key i =
     (Skip, if range_contains r key then rs\<lparr>rs_depths := push_index i (rs_depths rs)\<rparr> else rs)"

definition tf_reduce :: "('t, 'i, 'r, 's) root_ops \<Rightarrow> range \<Rightarrow> bool \<Rightarrow> 't tree_file \<Rightarrow> 'r option res" where
  "tf_reduce ops r in_transaction tf =
     (let red = ro_reducer ops (as_root (st_writer (tf_state tf))) in
      case tree_scanner ops in_transaction
         \<lparr>forwards = True, node_evaluator = reduce_node red r, key_evaluator = reduce_key r,
          data_callback = (\<lambda>c k i val. (Panic, c))\<rparr> r tf reduce_new of
        (res, rs) \<Rightarrow> res_map (\<lambda>_. reduce_finish red rs) res)"

section \<open>Committing and compacting\<close>

definition tf_commit :: "('t, 'i, 'r, 's) root_ops \<Rightarrow> 't tree_file \<Rightarrow> unit res \<times> 't tree_file" where
  "tf_commit ops tf = tree_writer ops tf"

text \<open>\<^verbatim>\<open>replace_with\<close> puts the new file, with its new id, in the place of the old one.\<close>

definition tf_compact ::
    "('t, 'i, 'r, 's) root_ops \<Rightarrow> u64 \<Rightarrow> 't tree_file \<Rightarrow> unit res \<times> 't tree_file" where
  "tf_compact ops new_file_id tf =
     (case tree_compactor ops tf of
        (Ok file, tf') \<Rightarrow>
          (Ok (), (compaction_finish new_file_id tf')\<lparr>tf_file := file, tf_id := Some new_file_id\<rparr>)
      | (bad, tf') \<Rightarrow> (lift_err bad, tf'))"

end
