(* ===== verification/Tree_Sequences.thy ===== *)
theory Tree_Sequences
  imports Tree_File
begin

text \<open>
  Reading a versioned tree by sequence (\<^verbatim>\<open>nebari/src/tree/mod.rs\<close>): \<^verbatim>\<open>U64Range\<close>, \<^verbatim>\<open>TreeSequenceGetter\<close>,
  \<^verbatim>\<open>TreeSequenceScanner\<close> and the operations of \<^verbatim>\<open>TreeFile<VersionedTreeRoot>\<close>. The evaluators decode the
  key as a sequence number and panic when it is not one: the captured state is then \<open>None\<close>.
\<close>

section \<open>Ranges of numbers as ranges of keys\<close>

record u64_range =
  ur_start :: "u64 bound"
  ur_start_bytes :: "bytes bound"
  ur_end :: "u64 bound"
  ur_end_bytes :: "bytes bound"

definition u64_range_new :: "u64 bound \<times> u64 bound \<Rightarrow> u64_range" where
  "u64_range_new r =
     \<lparr>ur_start = fst r, ur_start_bytes = map_bound u64_be (fst r), ur_end = snd r,
      ur_end_bytes = map_bound u64_be (snd r)\<rparr>"

definition borrow_as_bytes :: "u64_range \<Rightarrow> range" where
  "borrow_as_bytes r = (ur_start_bytes r, ur_end_bytes r)"

lemma u64_be_le [simp]: "u64_be x \<le> u64_be y \<longleftrightarrow> x \<le> y"
  by (simp add: le_less)

lemma borrowed_range_contains:
  "range_contains (borrow_as_bytes (u64_range_new r)) (u64_be x) \<longleftrightarrow> range_contains r x"
  by (cases "fst r"; cases "snd r") (simp_all add: range_contains_def borrow_as_bytes_def u64_range_new_def)

section \<open>Decoding keys\<close>

text \<open>\<^verbatim>\<open>SequenceId::try_from(&[u8])\<close> and \<^verbatim>\<open>BigEndian::read_u64\<close>\<close>

definition sequence_try_from :: "bytes \<Rightarrow> u64 option" where
  "sequence_try_from k = (if length k = 8 then Some (of_nat (nat_be k)) else None)"

definition be_read_u64 :: "bytes \<Rightarrow> u64 option" where
  "be_read_u64 k = (if length k \<ge> 8 then Some (of_nat (nat_be (take 8 k))) else None)"

lemma sequence_of_u64_be [simp]: "sequence_try_from (u64_be s) = Some s" "be_read_u64 (u64_be s) = Some s"
  using unat_u64_bound [of s] by (simp_all add: sequence_try_from_def be_read_u64_def u64_be_def del: be_nat.simps)

definition key_sequence_of :: "u64 \<Rightarrow> 'e by_sequence_index \<Rightarrow> 'e key_sequence" where
  "key_sequence_of s i =
     \<lparr>ks_key = q_key i, ks_sequence = s, ks_last_sequence = q_last_sequence i, ks_embedded = q_embedded i\<rparr>"

section \<open>The file operations\<close>

definition seq_node ::
    "(('e, 'es) versioned_root, 'i, 'r, 's) root_ops \<Rightarrow> (bytes \<Rightarrow> ('e \<times> bytes) res) \<Rightarrow> bytes \<Rightarrow> u64 \<Rightarrow>
     ('e by_sequence_index, by_sequence_stats) entry res" where
  "seq_node ops edes =
     node_reader (chunk_at (ro_vault ops) (ro_crc32 ops) False) (des_by_sequence edes) des_by_sequence_stats"

definition sequence_getter ::
    "(('e, 'es) versioned_root, 'i, 'r, 's) root_ops \<Rightarrow> (bytes \<Rightarrow> ('e \<times> bytes) res) \<Rightarrow> bool \<Rightarrow>
     ('c \<Rightarrow> u64 \<Rightarrow> 'e by_sequence_index \<Rightarrow> scan_evaluation \<times> 'c) \<Rightarrow>
     ('c \<Rightarrow> u64 \<Rightarrow> 'e by_sequence_index \<Rightarrow> bytes \<Rightarrow> unit res \<times> 'c) \<Rightarrow> u64 list \<Rightarrow>
     ('e, 'es) versioned_root tree_file \<Rightarrow> 'c \<Rightarrow> 'c res" where
  "sequence_getter ops edes from_transaction evaluate reader sequences tf c =
     (case read_state from_transaction tf of
        Ok a \<Rightarrow>
          (case get_multiple (ro_fuel ops) (seq_node ops edes (mf_buffer (tf_file tf))) q_position (tree_value ops tf)
              \<lparr>gm_evaluator = (\<lambda>c k i.
                 case (c, sequence_try_from k) of
                   (Some c, Some s) \<Rightarrow> (case evaluate c s i of (ev, c') \<Rightarrow> (ev, Some c'))
                 | _ \<Rightarrow> (Stop, None)),
               gm_reader = (\<lambda>c k val i.
                 case (c, sequence_try_from k) of
                   (Some c, Some s) \<Rightarrow> (case reader c s i val of (r, c') \<Rightarrow> (r, Some c'))
                 | _ \<Rightarrow> (Panic, None))\<rparr>
              (ve_by_sequence_root (as_root a)) (map u64_be sequences) (Some c) of
             (r, Some c') \<Rightarrow> res_map (\<lambda>_. c') r
           | (r, None) \<Rightarrow> Panic)
      | bad \<Rightarrow> lift_err bad)"

definition sequence_scanner ::
    "(('e, 'es) versioned_root, 'i, 'r, 's) root_ops \<Rightarrow> (bytes \<Rightarrow> ('e \<times> bytes) res) \<Rightarrow> bool \<Rightarrow> bool \<Rightarrow>
     ('c \<Rightarrow> 'e key_sequence \<Rightarrow> scan_evaluation \<times> 'c) \<Rightarrow>
     ('c \<Rightarrow> 'e key_sequence \<Rightarrow> bytes \<Rightarrow> unit res \<times> 'c) \<Rightarrow> range \<Rightarrow>
     ('e, 'es) versioned_root tree_file \<Rightarrow> 'c \<Rightarrow> unit res \<times> 'c option" where
  "sequence_scanner ops edes fwd from_transaction evaluate callback r tf c =
     (case read_state from_transaction tf of
        Ok a \<Rightarrow>
          (case scan (ro_fuel ops) (seq_node ops edes (mf_buffer (tf_file tf))) q_position (tree_value ops tf)
              \<lparr>forwards = fwd, node_evaluator = read_all,
               key_evaluator = (\<lambda>c k i.
                 case (c, be_read_u64 k) of
                   (Some c, Some s) \<Rightarrow> (case evaluate c (key_sequence_of s i) of (ev, c') \<Rightarrow> (ev, Some c'))
                 | _ \<Rightarrow> (Stop, None)),
               data_callback = (\<lambda>c k i val.
                 case (c, be_read_u64 k) of
                   (Some c, Some s) \<Rightarrow> (case callback c (key_sequence_of s i) val of (r, c') \<Rightarrow> (r, Some c'))
                 | _ \<Rightarrow> (Panic, None))\<rparr> r 0 (ve_by_sequence_root (as_root a)) (Some c) of
             (res, Some c') \<Rightarrow> (res_map (\<lambda>_. ()) res, Some c')
           | (res, None) \<Rightarrow> (Panic, None))
      | bad \<Rightarrow> (lift_err bad, Some c))"

section \<open>The operations\<close>

definition tf_scan_sequences ::
    "(('e, 'es) versioned_root, 'i, 'r, 's) root_ops \<Rightarrow> (bytes \<Rightarrow> ('e \<times> bytes) res) \<Rightarrow> u64 bound \<times> u64 bound \<Rightarrow>
     bool \<Rightarrow> bool \<Rightarrow> ('c \<Rightarrow> 'e key_sequence \<Rightarrow> scan_evaluation \<times> 'c) \<Rightarrow>
     ('c \<Rightarrow> 'e key_sequence \<Rightarrow> bytes \<Rightarrow> unit res \<times> 'c) \<Rightarrow>
     ('e, 'es) versioned_root tree_file \<Rightarrow> 'c \<Rightarrow> unit res \<times> 'c option" where
  "tf_scan_sequences ops edes r fwd in_transaction evaluate callback =
     sequence_scanner ops edes fwd in_transaction evaluate callback (borrow_as_bytes (u64_range_new r))"

text \<open>A \<^verbatim>\<open>HashMap\<close> of results: a map. \<^verbatim>\<open>get_mut(..).expect(..)\<close> panics on a missing entry.\<close>

definition tf_get_multiple_by_sequence ::
    "(('e, 'es) versioned_root, 'i, 'r, 's) root_ops \<Rightarrow> (bytes \<Rightarrow> ('e \<times> bytes) res) \<Rightarrow> u64 list \<Rightarrow> bool \<Rightarrow>
     ('e, 'es) versioned_root tree_file \<Rightarrow> (u64 \<rightharpoonup> bytes \<times> bytes option) res" where
  "tf_get_multiple_by_sequence ops edes sequences in_transaction tf =
     sequence_getter ops edes in_transaction
       (\<lambda>c s i. (ReadData, c(s \<mapsto> (q_key i, None))))
       (\<lambda>c s i val. case c s of Some (k, b) \<Rightarrow> (Ok (), c(s \<mapsto> (k, Some val))) | None \<Rightarrow> (Panic, c))
       sequences tf Map.empty"

record 'e sequence_index =
  si_sequence :: u64
  si_index :: "'e by_sequence_index"

definition tf_get_multiple_indexes_by_sequence ::
    "(('e, 'es) versioned_root, 'i, 'r, 's) root_ops \<Rightarrow> (bytes \<Rightarrow> ('e \<times> bytes) res) \<Rightarrow> u64 list \<Rightarrow> bool \<Rightarrow>
     ('e, 'es) versioned_root tree_file \<Rightarrow> 'e sequence_index list res" where
  "tf_get_multiple_indexes_by_sequence ops edes sequences in_transaction tf =
     sequence_getter ops edes in_transaction
       (\<lambda>c s i. (Skip, c @ [\<lparr>si_sequence = s, si_index = i\<rparr>])) (\<lambda>c s i val. (Panic, c)) sequences tf []"

record 'e sequence_entry =
  se_index :: "'e by_sequence_index"
  se_value :: "bytes option"

definition tf_get_multiple_with_indexes_by_sequence ::
    "(('e, 'es) versioned_root, 'i, 'r, 's) root_ops \<Rightarrow> (bytes \<Rightarrow> ('e \<times> bytes) res) \<Rightarrow> u64 list \<Rightarrow> bool \<Rightarrow>
     ('e, 'es) versioned_root tree_file \<Rightarrow> (u64 \<rightharpoonup> 'e sequence_entry) res" where
  "tf_get_multiple_with_indexes_by_sequence ops edes sequences in_transaction tf =
     sequence_getter ops edes in_transaction
       (\<lambda>c s i. (ReadData, c(s \<mapsto> \<lparr>se_index = i, se_value = None\<rparr>)))
       (\<lambda>c s i val. case c s of Some e \<Rightarrow> (Ok (), c(s \<mapsto> e\<lparr>se_value := Some val\<rparr>)) | None \<Rightarrow> (Panic, c))
       sequences tf Map.empty"

end
