(* ===== verification/Tree_Save.thy ===== *)
theory Tree_Save
  imports Tree_Sequences
begin

text \<open>
  Saving a tree and opening its file again, for any root that keeps the contract \<open>root_contract\<close>:
  the layout of what \<open>save_tree\<close> appends, that the saved root is the one \<open>initialize_state\<close> finds, and
  that what was appended after it without a header is ignored.
\<close>

section \<open>Files that keep their chunks\<close>

definition keeps_chunks :: "vault option \<Rightarrow> (bytes \<Rightarrow> u32) \<Rightarrow> bytes \<Rightarrow> bytes \<Rightarrow> bool" where
  "keeps_chunks v crc32 buf buf' \<longleftrightarrow>
     (\<forall>q x. chunk_at v crc32 False buf q = Ok x \<longrightarrow> chunk_at v crc32 False buf' q = Ok x)"

lemma keeps_chunks_refl [simp]: "keeps_chunks v crc32 buf buf"
  by (simp add: keeps_chunks_def)

lemma keeps_chunks_append [simp]: "keeps_chunks v crc32 buf (buf @ rest)"
  by (simp add: keeps_chunks_def chunk_at_prefix)

lemma keeps_chunks_trans:
  "keeps_chunks v crc32 a b \<Longrightarrow> keeps_chunks v crc32 b c \<Longrightarrow> keeps_chunks v crc32 a c"
  by (simp add: keeps_chunks_def)

lemma keeps_chunks_extends:
  "keeps_chunks v crc32 buf buf' \<Longrightarrow>
     extends (node_reader (chunk_at v crc32 False) ides rdes buf) (node_reader (chunk_at v crc32 False) ides rdes buf')"
  by (auto simp: keeps_chunks_def extends_def node_reader_def)

section \<open>Starting and finishing a writer\<close>

lemma pw_new_plain:
  assumes "length (mf_buffer f) < 2 ^ 64"
  obtains w where "pw_new None f (of_nat (length (mf_buffer f))) = (Ok (), w)" and "pw_started w"
    and "mf_buffer (pw_file w) = mf_buffer f"
    and "pw_image w = mf_buffer f @ (if mf_buffer f = [] then nbr @ [0x69] else [])"
proof -
  define w0 where "w0 = \<lparr>pw_file = f, pw_position = of_nat (length (mf_buffer f)) :: u64, pw_offset = 0,
    pw_buffered = replicate write_buffer_size (0 :: u8)\<rparr>"
  have inv0: "pw_inv w0" "pw_image w0 = mf_buffer f" "pw_file w0 = f"
    by (simp_all add: pw_inv_def w0_def pw_image_def write_buffer_size_def)
  show thesis
  proof (cases "mf_buffer f = []")
    case False
    then have "current_position w0 \<noteq> 0"
      using assms of_nat_u64_neq_0 [of "length (mf_buffer f)"] by (simp add: current_position_def w0_def)
    then show ?thesis
      using False inv0 by (intro that [of w0]) (simp_all add: pw_new_def bindS_def w0_def [symmetric] pw_started_def)
  next
    case True
    then have pos: "current_position w0 = 0" by (simp add: current_position_def w0_def)
    define w1 where "w1 = w0\<lparr>pw_buffered := [0x4e, 0x62, 0x72, 0x69] @ drop 4 (pw_buffered w0), pw_offset := 4\<rparr>"
    have size: "min write_buffer_size 4 = 4" "4 < write_buffer_size" by (simp_all add: write_buffer_size_def)
    have fill: "pw_fill [0x4e, 0x62, 0x72, 0x69] w0 = ([], w1)"
      using size by (simp add: pw_fill_def w0_def w1_def Let_def)
    have "length (pw_buffered w0) = write_buffer_size" by (simp add: w0_def)
    then have "pw_write [0x4e, 0x62, 0x72, 0x69] w0 = (Ok 4, w1)"
      using size fill by (simp add: pw_write_def)
    then have "pw_new None f (of_nat (length (mf_buffer f))) = (Ok (), w1)"
      using pos by (simp add: pw_new_def bindS_def w0_def [symmetric])
    moreover have "pw_started w1" "pw_image w1 = nbr @ [0x69]" "mf_buffer (pw_file w1) = mf_buffer f"
      using True size by (simp_all add: pw_started_def pw_inv_def w1_def w0_def pw_image_def nbr_def)
    ultimately show ?thesis using True that by simp
  qed
qed

lemma pw_finish_ok:
  assumes "pw_inv w" and "pw_finish w = (f, p)"
  shows "mf_buffer f = pw_image w" and "p = of_nat (length (pw_image w))"
  using assms
  by (auto simp: pw_finish_def pw_commit_if_needed_def pw_commit_def mf_write_def pw_image_def pw_inv_def Let_def
      split: if_splits)

definition page_padding :: "nat \<Rightarrow> nat" where
  "page_padding len = page_size - len mod page_size"

lemma page_padding_aligned: "page_size dvd len + page_padding len" and page_padding_pos: "0 < page_padding len"
proof -
  define q where "q = len div 256"
  define r where "r = len mod 256"
  have len: "len = q * 256 + r" "r < 256" by (simp_all add: q_def r_def)
  have pad: "page_padding len = 256 - r" by (simp add: page_padding_def page_size_def r_def)
  have "len + page_padding len = (q + 1) * 256" using len pad by simp
  then show "page_size dvd len + page_padding len" by (metis dvd_triv_right page_size_def)
  show "0 < page_padding len" using len pad by simp
qed

lemma pw_new_header:
  assumes "length (mf_buffer f) + page_padding (length (mf_buffer f)) + 4 < 2 ^ 64"
  obtains w where "pw_new (Some h) f (of_nat (length (mf_buffer f))) = (Ok (), w)" and "pw_inv w"
    and "pw_image w = mf_buffer f @ replicate (page_padding (length (mf_buffer f))) h @ nbr @ [h]"
proof -
  define w0 where "w0 = \<lparr>pw_file = f, pw_position = of_nat (length (mf_buffer f)) :: u64, pw_offset = 0,
    pw_buffered = replicate write_buffer_size (0 :: u8)\<rparr>"
  let ?data = "replicate (page_padding (length (mf_buffer f))) h @ nbr @ [h]"
  have inv0: "pw_inv w0" "pw_image w0 = mf_buffer f"
    by (simp_all add: pw_inv_def w0_def pw_image_def write_buffer_size_def)
  obtain w where w: "pw_write ?data w0 = (Ok (length ?data), w)" "pw_appends ?data w0 w"
    by (rule pw_write_ok [OF inv0(1)])
  have "unat (pw_position w0) = length (mf_buffer f)"
    using assms by (simp add: w0_def unat_of_nat)
  then have pad: "page_size - unat (pw_position w0) mod page_size = page_padding (length (mf_buffer f))"
    by (simp add: page_padding_def)
  have img: "pw_inv w" "pw_image w = mf_buffer f @ ?data" using w(2) inv0 by (auto simp: pw_appends_def)
  have "current_position w \<noteq> 0"
    using assms current_position_image [OF img(1)] of_nat_u64_neq_0 [of "length (pw_image w)"]
    by (simp add: img(2) nbr_def)
  then have "pw_new (Some h) f (of_nat (length (mf_buffer f))) = (Ok (), w)"
    using w(1) pad by (simp add: pw_new_def w0_def [symmetric] bindS_def Let_def nbr_def)
  with img that show thesis by simp
qed

lemma pw_finish_image: "mf_buffer (fst (pw_finish w)) = pw_image w"
  by (simp add: pw_finish_def pw_commit_if_needed_def pw_commit_def mf_write_def pw_image_def Let_def)

lemma pw_new_file: "\<exists>rest. mf_buffer (pw_file (snd (pw_new h f p))) = mf_buffer f @ rest"
proof -
  have app: "\<exists>rest. mf_buffer (pw_file (snd (bindS (pw_write data) (\<lambda>_. returnS ()) w))) = mf_buffer (pw_file w) @ rest"
    for data w
    using pw_write_file [of data w] by (auto simp: bindS_def split: prod.splits res.splits)
  define w0 where "w0 = \<lparr>pw_file = f, pw_position = p, pw_offset = 0, pw_buffered = replicate write_buffer_size (0 :: u8)\<rparr>"
  have start: "pw_file w0 = f" by (simp add: w0_def)
  define m where "m = (\<lambda>w. case h of Some h \<Rightarrow>
      (let padding_needed = page_size - unat (pw_position w) mod page_size in
       bindS (pw_write (replicate padding_needed h @ [0x4e, 0x62, 0x72, h])) (\<lambda>_. returnS ()) w) | None \<Rightarrow> (Ok (), w))"
  obtain r1 w1 where 1: "m w0 = (r1, w1)" by fastforce
  have "\<exists>rest. mf_buffer (pw_file w1) = mf_buffer f @ rest"
    using app [of _ w0] 1 start by (cases h) (auto simp: m_def Let_def, metis snd_conv)
  moreover have "pw_new h f p = (case r1 of Ok u \<Rightarrow>
      if current_position w1 = 0 then bindS (pw_write [0x4e, 0x62, 0x72, 0x69]) (\<lambda>_. returnS ()) w1 else (Ok (), w1)
      | bad \<Rightarrow> (lift_err bad, w1))"
    using 1 by (cases r1) (simp_all add: pw_new_def m_def w0_def bindS_def)
  ultimately show ?thesis using app [of "[0x4e, 0x62, 0x72, 0x69]" w1]
    by (cases r1) auto
qed

lemma save_tree_grows:
  assumes "save_tree ops a w = (Ok (), a', file)"
  shows "length (pw_image (snd (snd (ro_serialize ops (as_root a) w)))) \<le> length (mf_buffer file)"
proof -
  obtain r root w1 where ser: "ro_serialize ops (as_root a) w = (r, root, w1)" by (metis prod_cases3)
  with assms obtain b where b: "r = Ok b" by (cases r) (auto simp: save_tree_def)
  obtain f p where fin: "pw_finish w1 = (f, p)" by fastforce
  obtain r2 h where new: "pw_new (Some (ro_header ops)) f p = (r2, h)" by fastforce
  obtain r3 h1 where wc: "write_chunk (ro_vault ops) (ro_crc32 ops) b h = (r3, h1)" by fastforce
  have saved: "mf_buffer file = pw_image h1"
    using assms ser b fin new wc pw_finish_image [of h1]
    by (cases r2; cases r3) (auto simp: save_tree_def Let_def split: prod.splits)
  obtain rest where "mf_buffer (pw_file h) = mf_buffer f @ rest"
    using pw_new_file [of "Some (ro_header ops)" f p] new by auto
  moreover obtain rest' where "mf_buffer (pw_file h1) = mf_buffer (pw_file h) @ rest'"
    using write_chunk_file [OF wc] by auto
  moreover have "mf_buffer f = pw_image w1" using pw_finish_image [of w1] fin by simp
  ultimately show ?thesis using ser saved by (simp add: pw_image_def)
qed

section \<open>The contract of a root\<close>

text \<open>
  \<open>view buf t kv\<close>: in a file with the bytes \<open>buf\<close>, the root \<open>t\<close> holds the key-value list \<open>kv\<close>.
  \<open>same t t'\<close>: both roots have the same reducer.
\<close>

locale root_contract =
  fixes ops :: "('t, 'i, 'r, 's) root_ops" and view :: "bytes \<Rightarrow> 't \<Rightarrow> (bytes \<times> bytes) list \<Rightarrow> bool"
    and same :: "'t \<Rightarrow> 't \<Rightarrow> bool"
  assumes view_keeps: "keeps_chunks (ro_vault ops) (ro_crc32 ops) buf buf' \<Longrightarrow> view buf t kv \<Longrightarrow> view buf' t kv"
    and serialize_writes: "pw_inv w \<Longrightarrow> ro_serialize ops t w = (r, t', w') \<Longrightarrow>
      pw_inv w' \<and> (pw_fits w' \<longrightarrow> pw_fits w) \<and>
      keeps_chunks (ro_vault ops) (ro_crc32 ops) (pw_image w) (pw_image w')"
    and serialize_view: "pw_inv w \<Longrightarrow> ro_serialize ops t w = (Ok b, t', w') \<Longrightarrow> pw_fits w' \<Longrightarrow>
      view (pw_image w) t kv \<Longrightarrow> view (pw_image w') t' kv"
    and serialize_same: "ro_serialize ops t w = (r, t', w') \<Longrightarrow> same t t'"
begin

abbreviation saved_as :: "bytes \<Rightarrow> bytes \<Rightarrow> bytes \<Rightarrow> bool" where
  "saved_as pre c buf \<equiv> buf = pre @ replicate (page_padding (length pre)) (ro_header ops) @ nbr @ [ro_header ops] @
     chunk_bytes (ro_crc32 ops) c"

lemma save_layout:
  assumes inv: "pw_inv w" and save: "save_tree ops a w = (Ok (), a', file)"
    and fits: "length (mf_buffer file) + 260 < 2 ^ 64"
  obtains b root w1 c where "ro_serialize ops (as_root a) w = (Ok b, root, w1)"
    and "encrypt_with (ro_vault ops) b = Ok c" and "length c < 2 ^ 32"
    and "saved_as (pw_image w1) c (mf_buffer file)"
    and "a' = a\<lparr>as_root := root, as_position := of_nat (length (mf_buffer file))\<rparr>"
proof -
  obtain r root w1 where ser: "ro_serialize ops (as_root a) w = (r, root, w1)" by (metis prod_cases3)
  with save obtain b where b: "r = Ok b" by (cases r) (auto simp: save_tree_def)
  obtain f p where fin: "pw_finish w1 = (f, p)" by fastforce
  have inv1: "pw_inv w1" using serialize_writes [OF inv ser] by simp
  note f = pw_finish_ok [OF inv1 fin]
  have "page_padding (length (mf_buffer f)) \<le> 256" by (simp add: page_padding_def page_size_def)
  with fits ser save_tree_grows [OF save] have "length (mf_buffer f) + page_padding (length (mf_buffer f)) + 4 < 2 ^ 64" by (simp add: f(1))
  then obtain h where h: "pw_new (Some (ro_header ops)) f (of_nat (length (mf_buffer f))) = (Ok (), h)" "pw_inv h"
    "pw_image h = mf_buffer f @ replicate (page_padding (length (mf_buffer f))) (ro_header ops) @ nbr @ [ro_header ops]"
    by (rule pw_new_header)
  obtain r2 h1 where wc: "write_chunk (ro_vault ops) (ro_crc32 ops) b h = (r2, h1)" by fastforce
  obtain f' p' where fin': "pw_finish h1 = (f', p')" by fastforce
  from save have r2: "\<exists>q. r2 = Ok q" and res: "a' = a\<lparr>as_root := root, as_position := p'\<rparr>" "file = f'"
    using ser b fin h(1) wc fin' f by (cases r2; simp add: save_tree_def Let_def)+
  from h(2) wc show thesis
  proof (cases rule: write_chunk_cases)
    case (ok c)
    have inv2: "pw_inv h1" using ok(4) by (simp add: pw_appends_def)
    note f' = pw_finish_ok [OF inv2 fin']
    show thesis
      by (rule that [OF ser [unfolded b] ok(1,2)])
        (use ok(4) h(3) f f' res in \<open>auto simp: pw_appends_def\<close>)
  qed (use r2 in auto)
qed

text \<open>Saving succeeds when the root serializes and its header fits a chunk.\<close>

lemma save_succeeds:
  assumes inv: "pw_inv w" and ser: "ro_serialize ops (as_root a) w = (Ok b, root, w1)"
    and enc: "encrypt_with (ro_vault ops) b = Ok c" "length c < 2 ^ 32" and fits: "length (pw_image w1) + 260 < 2 ^ 64"
  obtains a' f where "save_tree ops a w = (Ok (), a', f)" and "saved_as (pw_image w1) c (mf_buffer f)"
    and "as_root a' = root"
proof -
  obtain f p where fin: "pw_finish w1 = (f, p)" by fastforce
  have inv1: "pw_inv w1" using serialize_writes [OF inv ser] by simp
  note f = pw_finish_ok [OF inv1 fin]
  have "page_padding (length (mf_buffer f)) \<le> 256" by (simp add: page_padding_def page_size_def)
  with fits have "length (mf_buffer f) + page_padding (length (mf_buffer f)) + 4 < 2 ^ 64" by (simp add: f(1))
  then obtain h where h: "pw_new (Some (ro_header ops)) f (of_nat (length (mf_buffer f))) = (Ok (), h)" "pw_inv h"
    "pw_image h = mf_buffer f @ replicate (page_padding (length (mf_buffer f))) (ro_header ops) @ nbr @ [ro_header ops]"
    by (rule pw_new_header)
  obtain h1 where wc: "write_chunk (ro_vault ops) (ro_crc32 ops) b h = (Ok (of_nat (length (pw_image h))), h1)"
    "pw_appends (chunk_bytes (ro_crc32 ops) c) h h1" by (rule write_chunk_ok [OF h(2) enc])
  obtain f' p' where fin': "pw_finish h1 = (f', p')" by fastforce
  have "pw_inv h1" using wc(2) by (simp add: pw_appends_def)
  note f' = pw_finish_ok [OF this fin']
  show thesis
    by (rule that [of "a\<lparr>as_root := root, as_position := p'\<rparr>" f'])
      (use ser fin f h wc fin' f' in \<open>auto simp: save_tree_def Let_def pw_appends_def\<close>)
qed

lemma save_view:
  assumes inv: "pw_inv w" and save: "save_tree ops a w = (Ok (), a', file)"
    and fits: "length (mf_buffer file) + 260 < 2 ^ 64"
    and kv: "view (pw_image w) (as_root a) kv"
  shows "view (mf_buffer file) (as_root a') kv"
    and "keeps_chunks (ro_vault ops) (ro_crc32 ops) (pw_image w) (mf_buffer file)"
    and "\<exists>root. a' = a\<lparr>as_root := root, as_position := of_nat (length (mf_buffer file))\<rparr> \<and> same (as_root a) root"
proof -
  obtain b root w1 c where s: "ro_serialize ops (as_root a) w = (Ok b, root, w1)"
    "saved_as (pw_image w1) c (mf_buffer file)"
    "a' = a\<lparr>as_root := root, as_position := of_nat (length (mf_buffer file))\<rparr>"
    by (rule save_layout [OF inv save fits])
  have "pw_fits w1" using fits s(2) by (simp add: pw_fits_def)
  from serialize_view [OF inv s(1) this kv] s(2,3) view_keeps [OF keeps_chunks_append]
  show "view (mf_buffer file) (as_root a') kv" by simp
  show "keeps_chunks (ro_vault ops) (ro_crc32 ops) (pw_image w) (mf_buffer file)"
    using serialize_writes [OF inv s(1)] unfolding s(2) by (meson keeps_chunks_append keeps_chunks_trans)
  show "\<exists>root. a' = a\<lparr>as_root := root, as_position := of_nat (length (mf_buffer file))\<rparr> \<and> same (as_root a) root"
    using s(3) serialize_same [OF s(1)] by blast
qed

end

section \<open>Running a modification\<close>

text \<open>
  The writer a modification starts with; what the file operation does once the root is modified is
  to finish the writer (in a transaction) or to save the tree.
\<close>

definition fresh_writer :: "bytes \<Rightarrow> paged_writer \<Rightarrow> bool" where
  "fresh_writer buf w \<longleftrightarrow> pw_started w \<and> mf_buffer (pw_file w) = buf \<and>
     pw_image w = buf @ (if buf = [] then nbr @ [0x69] else [])"

lemma tree_modifier_run:
  assumes "as_file_id (st_writer (tf_state tf)) = tf_id tf"
    and "as_position (st_writer (tf_state tf)) = of_nat (length (mf_buffer (tf_file tf)))"
    and "length (mf_buffer (tf_file tf)) < 2 ^ 64"
    and modify: "\<And>w. fresh_writer (mf_buffer (tf_file tf)) w \<Longrightarrow>
      \<exists>results op' root w'. ro_modify ops (as_max_order (st_writer (tf_state tf))) m (as_root (st_writer (tf_state tf))) w =
        (Ok results, op', root, w') \<and> P w results op' root w'"
  obtains w results op' root w' where "fresh_writer (mf_buffer (tf_file tf)) w" and "P w results op' root w'"
    and "tree_modifier ops m tf =
      (let a = st_writer (tf_state tf);
           stored = (\<lambda>a' file. tf\<lparr>tf_file := file, tf_state := (tf_state tf)\<lparr>st_writer := a'\<rparr>\<rparr>) in
       if persistence_transaction_id (persistence_mode m) \<noteq> None
       then (Ok results, op', stored (a\<lparr>as_root := root, as_position := snd (pw_finish w')\<rparr>) (fst (pw_finish w')))
       else (case save_tree ops (a\<lparr>as_root := root\<rparr>) w' of
          (Ok u, a', file) \<Rightarrow>
            (let tf' = stored a' file in (Ok results, op', tf'\<lparr>tf_state := publish (tf_state tf')\<rparr>))
        | (bad, a', file) \<Rightarrow> (lift_err bad, op', stored a' file)))"
proof -
  obtain w where new: "pw_new None (tf_file tf) (of_nat (length (mf_buffer (tf_file tf)))) = (Ok (), w)"
    and "pw_started w" "mf_buffer (pw_file w) = mf_buffer (tf_file tf)"
      "pw_image w = mf_buffer (tf_file tf) @ (if mf_buffer (tf_file tf) = [] then nbr @ [0x69] else [])"
    by (rule pw_new_plain [OF assms(3)])
  then have w: "pw_new None (tf_file tf) (as_position (st_writer (tf_state tf))) = (Ok (), w)"
    "fresh_writer (mf_buffer (tf_file tf)) w" by (simp_all add: assms(2) fresh_writer_def)
  from modify [OF w(2)] obtain results op' root w' where
    m: "ro_modify ops (as_max_order (st_writer (tf_state tf))) m (as_root (st_writer (tf_state tf))) w =
        (Ok results, op', root, w')" "P w results op' root w'" by blast
  show thesis
    by (rule that [OF w(2) m(2)])
      (use assms(1) w(1) m(1) in \<open>simp add: tree_modifier_def Let_def split: prod.splits\<close>)
qed

section \<open>Opening a saved file\<close>

lemma scan_back_found:
  assumes "\<And>m. n < m \<Longrightarrow> m \<le> k \<Longrightarrow> rb m = Ok NoHeader \<or> rb m = Ok NotCommitted"
    and "rb n = Ok (RootAt t)" and "n \<le> k"
  shows "scan_back rb k = Ok (FoundRoot t)"
  using assms(1,3)
proof (induction k)
  case 0
  then show ?case using assms(2) by (simp add: res_map_def)
next
  case (Suc k)
  show ?case
  proof (cases "n = Suc k")
    case True
    then show ?thesis using assms(2) by simp
  next
    case False
    with Suc.prems have "rb (Suc k) = Ok NoHeader \<or> rb (Suc k) = Ok NotCommitted" "n \<le> k" by auto
    moreover from this(2) Suc have "scan_back rb k = Ok (FoundRoot t)" by simp
    ultimately show ?thesis by auto
  qed
qed

text \<open>A block that starts like a header page.\<close>

definition is_header :: "bytes \<Rightarrow> nat \<Rightarrow> bool" where
  "is_header buf n \<longleftrightarrow> take 3 (drop (n * page_size) buf) = nbr \<and>
     is_ok (page_header_try_from (buf ! (n * page_size + 3)))"

lemma read_block_no_header:
  assumes "\<not> is_header buf n" and "n * page_size + 4 \<le> length buf"
  shows "read_block ops manager buf t n = Ok NoHeader"
proof -
  have "mf_read_exact 4 \<lparr>mf_buffer = buf, mf_position = n * page_size\<rparr> =
      (Ok (take 4 (drop (n * page_size) buf)), \<lparr>mf_buffer = buf, mf_position = n * page_size + 4\<rparr>)"
    using assms(2) by (simp add: mf_read_exact_def)
  moreover have "take 4 (drop (n * page_size) buf) ! 3 = buf ! (n * page_size + 3)"
    using assms(2) by simp
  ultimately show ?thesis using assms(1) by (auto simp: read_block_def is_header_def min_def is_ok_iff)
qed

lemma last_block_covers:
  assumes "n * page_size + 4 \<le> len"
  obtains k where "last_block len = Some k" and "n \<le> k" and "k * page_size + 4 \<le> len" and "len < (k + 1) * page_size + 4"
proof -
  define q where "q = len div 256"
  define r where "r = len mod 256"
  have len: "len = q * 256 + r" "r < 256" by (simp_all add: q_def r_def)
  have lb: "last_block len = (if r < 4 then if q = 0 then None else Some (q - 1) else Some q)"
    using len by (simp add: last_block_def page_size_def)
  show thesis
  proof (cases "r < 4")
    case True
    with assms len have "n < q" by (simp add: page_size_def)
    with True len lb show thesis by (intro that [of "q - 1"]) (auto simp: page_size_def)
  next
    case False
    with assms len have "n \<le> q" by (simp add: page_size_def)
    with False len lb show thesis by (intro that [of q]) (auto simp: page_size_def)
  qed
qed

definition header_block :: "bytes \<Rightarrow> nat" where
  "header_block pre = (length pre + page_padding (length pre)) div page_size"

lemma header_block_start: "header_block pre * page_size = length pre + page_padding (length pre)"
  using page_padding_aligned [of "length pre"] by (simp add: header_block_def)

text \<open>A root whose header reads back, given the same reducer.\<close>

locale root_reopens = root_contract ops view same + chunk_vault "ro_vault ops"
  for ops :: "('t, 'i, 'r, 's) root_ops" and view and same :: "'t \<Rightarrow> 't \<Rightarrow> bool" +
  assumes header_byte: "page_header_try_from (ro_header ops) = Ok (ro_header ops)"
    and round_trip: "ro_serialize ops t w = (Ok b, t', w') \<Longrightarrow> same t t0 \<Longrightarrow> ro_deserialize ops t0 b = Ok t'"
begin

lemma read_saved_block:
  assumes saved: "saved_as pre c buf" and enc: "encrypt_with (ro_vault ops) b = Ok c" and len: "length c < 2 ^ 32"
    and des: "ro_deserialize ops t0 b = Ok root" and fits: "length pre + 260 < 2 ^ 64"
    and tx: "not_successful manager (ro_transaction_id ops root) = Ok bad"
  shows "read_block ops manager (buf @ rest) t0 (header_block pre) = Ok (if bad then NotCommitted else RootAt root)"
proof -
  let ?h = "ro_header ops" and ?p = "header_block pre * page_size"
  define before where "before = pre @ replicate (page_padding (length pre)) ?h"
  have start: "length before = ?p" by (simp add: before_def header_block_start)
  have buf: "buf @ rest = before @ nbr @ [?h] @ chunk_bytes (ro_crc32 ops) c @ rest" by (simp add: saved before_def)
  have four: "fst (mf_read_exact 4 \<lparr>mf_buffer = buf @ rest, mf_position = ?p\<rparr>) = Ok (nbr @ [?h])"
    unfolding buf start [symmetric] by (simp add: mf_read_exact_def nbr_def)
  have "page_padding (length pre) \<le> 256" by (simp add: page_padding_def page_size_def)
  then have len': "?p + 4 < 2 ^ 64" using fits header_block_start [of pre] by linarith
  have "chunk_at (ro_vault ops) (ro_crc32 ops) True
      ((before @ nbr @ [?h]) @ chunk_bytes (ro_crc32 ops) c @ rest) (of_nat (length (before @ nbr @ [?h]))) = Ok b"
    by (rule chunk_at_here [OF len decrypt_encrypt [OF enc]]) (use len' start in \<open>simp add: nbr_def\<close>)
  then have chunk: "chunk_at (ro_vault ops) (ro_crc32 ops) True (buf @ rest) (of_nat (?p + 4)) = Ok b"
    by (simp add: buf start nbr_def add.commute)
  show ?thesis using four chunk des tx header_byte by (simp add: read_block_def nbr_def)
qed

lemma initialize_saved:
  assumes saved: "saved_as pre c buf" and enc: "encrypt_with (ro_vault ops) b = Ok c" and len: "length c < 2 ^ 32"
    and ser: "ro_serialize ops t w = (Ok b, root, w')" and same: "same t (as_root (st_writer st))"
    and fits: "length pre + 260 < 2 ^ 64"
    and tx: "not_successful manager (ro_transaction_id ops root) = Ok False"
    and fresh: "\<not> ro_initialized ops (as_root (st_reader st))" "\<not> ro_initialized ops (as_root (st_writer st))"
    and tail: "\<forall>m. header_block pre < m \<longrightarrow> m * page_size + 4 \<le> length (buf @ rest) \<longrightarrow> \<not> is_header (buf @ rest) m"
  shows "initialize_state ops manager file_id (buf @ rest) st =
    (Ok (), let a = (st_writer st)\<lparr>as_file_id := file_id, as_root := root, as_position := of_nat (length (buf @ rest))\<rparr> in
            \<lparr>st_reader = a, st_writer = a\<rparr>)"
proof -
  let ?t0 = "as_root (st_writer st)"
  have pos: "header_block pre * page_size + 4 \<le> length (buf @ rest)"
    by (simp add: saved header_block_start nbr_def)
  then obtain k where k: "last_block (length (buf @ rest)) = Some k" "header_block pre \<le> k"
    "k * page_size + 4 \<le> length (buf @ rest)" by (rule last_block_covers)
  have "scan_back (read_block ops manager (buf @ rest) ?t0) k = Ok (FoundRoot root)"
  proof (rule scan_back_found [OF _ _ k(2)])
    fix m assume m: "header_block pre < m" "m \<le> k"
    have "m * page_size + 4 \<le> length (buf @ rest)" using k(3) m(2) mult_le_mono1 [OF m(2), of page_size] by linarith
    then show "read_block ops manager (buf @ rest) ?t0 m = Ok NoHeader \<or> read_block ops manager (buf @ rest) ?t0 m = Ok NotCommitted"
      using tail m(1) read_block_no_header [of "buf @ rest" m ops manager ?t0] by blast
  next
    show "read_block ops manager (buf @ rest) ?t0 (header_block pre) = Ok (RootAt root)"
      using read_saved_block [OF saved enc len round_trip [OF ser same] fits tx] by simp
  qed
  moreover have "buf @ rest \<noteq> []" using pos by auto
  ultimately show ?thesis using k(1) fresh
    by (cases st) (auto simp: initialize_state_def publish_def Let_def)
qed

end

end
