(* ===== verification/Un_File.thy ===== *)
theory Un_File
  imports Tree_Save
begin

text \<open>
  The tree file of an unversioned root as a map from keys to values: an invariant of the file and its
  two states, and what every operation of \<^verbatim>\<open>TreeFile\<close> does to the map the readers see and to the map
  the writer sees.
\<close>

section \<open>What a root holds\<close>

definition un_node ::
    "vault option \<Rightarrow> (bytes \<Rightarrow> u32) \<Rightarrow> (bytes \<Rightarrow> ('e \<times> bytes) res) \<Rightarrow> (bytes \<Rightarrow> ('es \<times> bytes) res) \<Rightarrow> bytes \<Rightarrow> u64 \<Rightarrow>
     ('e unversioned_by_id, 'es by_id_stats) entry res" where
  "un_node v crc32 edes esdes = node_reader (chunk_at v crc32 False) (des_unversioned edes) (des_by_id_stats esdes)"

text \<open>In a file with the bytes \<open>buf\<close>, the root \<open>t\<close> is a tree of height \<open>n\<close> that holds \<open>kv\<close>.\<close>

definition un_holds ::
    "vault option \<Rightarrow> (bytes \<Rightarrow> u32) \<Rightarrow> (bytes \<Rightarrow> ('e \<times> bytes) res) \<Rightarrow> (bytes \<Rightarrow> ('es \<times> bytes) res) \<Rightarrow> nat \<Rightarrow> bytes \<Rightarrow>
     ('e, 'es) unversioned_root \<Rightarrow> (bytes \<times> bytes) list \<Rightarrow> bool" where
  "un_holds v crc32 edes esdes n buf t kv \<longleftrightarrow>
     root_ok (un_node v crc32 edes esdes buf) (un_id_reducer t) n (un_by_id_root t) \<and>
     un_stores v crc32 buf (contents (un_node v crc32 edes esdes buf) n (un_by_id_root t)) kv"

lemma un_reader_eq: "un_reader v crc32 edes esdes w = un_node v crc32 edes esdes (mf_buffer (pw_file w))"
  by (simp add: un_reader_def un_node_def node_reader_def file_chunk_def fun_eq_iff)

lemma un_image_eq:
  "node_reader (image_chunk v crc32) (des_unversioned edes) (des_by_id_stats esdes) w =
     un_node v crc32 edes esdes (pw_image w)"
  by (simp add: un_node_def node_reader_def image_chunk_def fun_eq_iff)

lemma un_stores_keeps:
  "keeps_chunks v crc32 buf buf' \<Longrightarrow> un_stores v crc32 buf xs kv \<Longrightarrow> un_stores v crc32 buf' xs kv"
  unfolding un_stores_def by (erule list_all2_mono) (auto simp: un_stored_def keeps_chunks_def)

lemma un_holds_keeps:
  assumes "keeps_chunks v crc32 buf buf'" and "un_holds v crc32 edes esdes n buf t kv"
  shows "un_holds v crc32 edes esdes n buf' t kv"
  using keeps_chunks_extends [OF assms(1)] assms root_ok_extends un_stores_keeps [OF assms(1)]
  unfolding un_holds_def un_node_def by metis

lemma un_holds_length:
  "un_holds v crc32 edes esdes n buf t kv \<Longrightarrow>
     length (contents (un_node v crc32 edes esdes buf) n (un_by_id_root t)) = length kv"
  unfolding un_holds_def un_stores_def by (auto dest: list_all2_lengthD)

lemma un_stores_fst: "un_stores v crc32 buf xs kv \<Longrightarrow> map fst kv = map fst xs"
  unfolding un_stores_def by (induction rule: list_all2_induct) (auto simp: un_stored_def)

lemma un_holds_sorted: "un_holds v crc32 edes esdes n buf t kv \<Longrightarrow> ksorted kv"
  unfolding un_holds_def root_ok_def contents_def by (metis sorted_wrt_map un_stores_fst)

section \<open>Modifications of the root\<close>

context chunk_vault
begin

text \<open>The outcome of a modification that leaves the root with \<open>kv'\<close> in a tree of height \<open>n'\<close>.\<close>

definition un_modified ::
    "(bytes \<Rightarrow> u32) \<Rightarrow> (bytes \<Rightarrow> ('e \<times> bytes) res) \<Rightarrow> (bytes \<Rightarrow> ('es \<times> bytes) res) \<Rightarrow>
     (bytes, 'e unversioned_by_id, 's) modification \<Rightarrow> ('e, 'es) unversioned_root \<Rightarrow> paged_writer \<Rightarrow>
     nat \<Rightarrow> (bytes \<times> bytes) list \<Rightarrow> ('e, 'es) unversioned_root \<Rightarrow> paged_writer \<Rightarrow> bool" where
  "un_modified crc32 edes esdes m t w n' kv' t' w' \<longleftrightarrow>
     pw_started w' \<and> (\<exists>rest. pw_image w' = pw_image w @ rest) \<and>
     length (pw_image w') \<le> length (pw_image w) + length (keys m) * chunk_limit \<and>
     un_holds v crc32 edes esdes n' (pw_image w') t' kv' \<and> un_reducer t' = un_reducer t \<and>
     un_transaction_id t' = (case persistence_transaction_id (persistence_mode m) of
       Some i \<Rightarrow> Some i | None \<Rightarrow> un_transaction_id t)"

lemma un_modify_applies:
  fixes m :: "(bytes, 'e unversioned_by_id, 's) modification" and t :: "('e, 'es) unversioned_root"
  assumes law: "embedded_reducer (e_reducer (un_reducer t))"
    and max_order: "\<forall>o'. max_order = Some o' \<longrightarrow> 4 \<le> o'"
    and holds: "un_holds v crc32 edes esdes n (mf_buffer (pw_file w)) t kv"
    and xs: "xs = contents (un_node v crc32 edes esdes (mf_buffer (pw_file w))) n (un_by_id_root t)"
    and sorted: "sorted_wrt (<) (keys m)"
    and size: "length kv + length (keys m) < 2 ^ 64"
    and small: "length (keys m) \<le> 1 \<or> dynamic_order cbrt (length kv + length (keys m)) max_order \<le> 9"
    and fuel: "(n + length (keys m)) * (length (keys m) + 2) + 1 \<le> fuel"
    and spec: "un_spec cbrt v crc32 (un_reducer t) max_order m xs w = (Ok (), xs', op', results, w')"
    and w': "pw_started w'" "\<exists>rest. pw_image w' = pw_image w @ rest"
      "length (pw_image w') \<le> length (pw_image w) + length (keys m) * chunk_limit"
      "un_stores v crc32 (pw_image w') xs' kv'"
  shows "\<exists>t'. un_modify fuel cbrt v crc32 edes esdes max_order m t w = (Ok results, op', t', w') \<and>
    (\<exists>n' \<le> n + length (keys m). un_modified crc32 edes esdes m t w n' kv' t' w')"
proof -
  have len: "length xs = length kv" using un_holds_length [OF holds] xs by simp
  have root: "root_ok (un_reader v crc32 edes esdes w) (un_id_reducer t) n (un_by_id_root t)"
    "xs = contents (un_reader v crc32 edes esdes w) n (un_by_id_root t)"
    using holds xs by (simp_all add: un_holds_def un_reader_eq)
  from un_modify_refines [OF law max_order root sorted, of cbrt xs' op' results w' fuel] size small spec fuel len
  obtain n' t' where run: "un_modify fuel cbrt v crc32 edes esdes max_order m t w = (Ok results, op', t', w')"
    and t': "root_ok (un_reader v crc32 edes esdes w') (un_id_reducer t') n' (un_by_id_root t')"
      "contents (un_reader v crc32 edes esdes w') n' (un_by_id_root t') = xs'" "n' \<le> n + length (keys m)" "un_reducer t' = un_reducer t"
      "un_transaction_id t' = (case persistence_transaction_id (persistence_mode m) of
        Some i \<Rightarrow> Some i | None \<Rightarrow> un_transaction_id t)" by auto
  have "extends (un_node v crc32 edes esdes (mf_buffer (pw_file w'))) (un_node v crc32 edes esdes (pw_image w'))"
    unfolding un_node_def by (rule keeps_chunks_extends) (simp add: pw_image_def)
  from root_ok_extends [OF this t'(1) [unfolded un_reader_eq]] t'(2) w'(4)
  have "un_holds v crc32 edes esdes n' (pw_image w') t' kv'" by (simp add: un_holds_def un_reader_eq)
  with run t'(3-5) w' show ?thesis by (auto simp: un_modified_def)
qed

lemma un_modify_many:
  fixes m :: "(bytes, 'e unversioned_by_id, 's) modification" and t :: "('e, 'es) unversioned_root"
  assumes law: "embedded_reducer (e_reducer (un_reducer t))"
    and max_order: "\<forall>o'. max_order = Some o' \<longrightarrow> 4 \<le> o'"
    and holds: "un_holds v crc32 edes esdes n (mf_buffer (pw_file w)) t kv"
    and w: "pw_started w" "length (pw_image w) + length (keys m) * chunk_limit < 2 ^ 64"
    and sorted: "sorted_wrt (<) (keys m)"
    and size: "length kv + length (keys m) < 2 ^ 64"
    and small: "length (keys m) \<le> 1 \<or> dynamic_order cbrt (length kv + length (keys m)) max_order \<le> 9"
    and fuel: "(n + length (keys m)) * (length (keys m) + 2) + 1 \<le> fuel"
    and kv': "store_keys (keys m) (reverse_operation (operation m)) kv = Some kv'"
    and st: "\<forall>b \<in> op_values (operation m). storable v b"
  shows "\<exists>results op' t' w'. un_modify fuel cbrt v crc32 edes esdes max_order m t w = (Ok results, op', t', w') \<and>
    (\<exists>n' \<le> n + length (keys m). un_modified crc32 edes esdes m t w n' kv' t' w')"
proof -
  define xs where "xs = contents (un_node v crc32 edes esdes (mf_buffer (pw_file w))) n (un_by_id_root t)"
  have stores: "un_stores v crc32 (pw_image w) xs kv"
    using holds un_stores_prefix [of v crc32 "mf_buffer (pw_file w)" xs kv] by (simp add: un_holds_def xs_def pw_image_def)
  have st': "\<forall>b \<in> op_values (reverse_operation (operation m)). storable v b"
    using st by (cases "operation m") (simp_all add: reverse_operation_def)
  let ?order = "dynamic_order cbrt (length xs + length (keys m)) max_order"
  from un_apply_keys_stores [OF w stores kv' st', of "un_reducer t" ?order
      "minimum_children_for ?order (length xs + length (keys m))" "[]"]
  obtain xs' op' c' w' where ap: "un_spec cbrt v crc32 (un_reducer t) max_order m xs w = (Ok (), xs', op', c', w')"
    and w': "pw_started w'" "\<exists>rest. pw_image w' = pw_image w @ rest"
      "length (pw_image w') \<le> length (pw_image w) + length (keys m) * chunk_limit"
      "un_stores v crc32 (pw_image w') xs' kv'" by (auto simp: un_spec_def Let_def)
  from un_modify_applies [OF law max_order holds xs_def sorted size small fuel ap w'] show ?thesis by blast
qed

lemma un_modify_one:
  fixes m :: "(bytes, 'e unversioned_by_id, 's) modification" and t :: "('e, 'es) unversioned_root"
  assumes law: "embedded_reducer (e_reducer (un_reducer t))"
    and max_order: "\<forall>o'. max_order = Some o' \<longrightarrow> 4 \<le> o'"
    and holds: "un_holds v crc32 edes esdes n (mf_buffer (pw_file w)) t kv"
    and w: "pw_started w" "length (pw_image w) + chunk_limit < 2 ^ 64"
    and ks: "keys m = [k]" and size: "length kv + 1 < 2 ^ 64" and fuel: "(n + 1) * 3 + 1 \<le> fuel"
    and i: "i = map_of (contents (un_node v crc32 edes esdes (mf_buffer (pw_file w))) n (un_by_id_root t)) k"
    and dec: "value_decision k i (map_of kv k) (reverse_operation (operation m)) = Some (d, op')"
    and st: "\<forall>b. d = KeySet b \<longrightarrow> storable v b"
  shows "\<exists>results t' w'. un_modify fuel cbrt v crc32 edes esdes max_order m t w = (Ok results, op', t', w') \<and>
    (\<exists>n' \<le> n + 1. un_modified crc32 edes esdes m t w n' (update_contents k d kv) t' w') \<and>
    (\<forall>b. d = KeySet b \<longrightarrow> (\<exists>j. results = [\<lparr>mr_key = k, mr_index = Some j\<rparr>]))"
proof -
  define xs where "xs = contents (un_node v crc32 edes esdes (mf_buffer (pw_file w))) n (un_by_id_root t)"
  have stores0: "un_stores v crc32 (mf_buffer (pw_file w)) xs kv" using holds by (simp add: un_holds_def xs_def)
  then have stores: "un_stores v crc32 (pw_image w) xs kv" unfolding pw_image_def by (rule un_stores_prefix)
  have loads: "\<forall>f s j. reverse_operation (operation m) = OpCompareSwap f s \<longrightarrow> map_of xs k = Some j \<longrightarrow>
      file_chunk v crc32 w (u_position j) = Ok (the (map_of kv k))"
    using un_stores_map_of [OF stores0, of k] by (auto simp: file_chunk_def un_stored_def) blast
  let ?order = "dynamic_order cbrt (length xs + length (keys m)) max_order"
  from un_apply_key_decides [OF w stores dec [unfolded i, folded xs_def] st loads, of "un_reducer t" ?order
      "minimum_children_for ?order (length xs + length (keys m))" "[]"]
  obtain xs' c' w' where ap: "un_spec cbrt v crc32 (un_reducer t) max_order m xs w = (Ok (), xs', op', c', w')"
    and w': "pw_started w'" "\<exists>rest. pw_image w' = pw_image w @ rest"
      "length (pw_image w') \<le> length (pw_image w) + length (keys m) * chunk_limit"
      "un_stores v crc32 (pw_image w') xs' (update_contents k d kv)"
    and res: "\<forall>b. d = KeySet b \<longrightarrow> (\<exists>j. c' = [\<lparr>mr_key = k, mr_index = Some j\<rparr>])"
    by (auto simp: un_spec_def Let_def ks)
  have "sorted_wrt (<) (keys m)" by (simp add: ks)
  from un_modify_applies [OF law max_order holds xs_def this _ _ _ ap w', of fuel] size fuel res show ?thesis
    by (auto simp: ks algebra_simps)
qed

end

section \<open>Saving and opening\<close>

lemma un_ops_simps [simp]:
  "ro_vault (un_ops fuel cbrt v crc32 eser esser edes esdes) = v"
  "ro_crc32 (un_ops fuel cbrt v crc32 eser esser edes esdes) = crc32"
  "ro_fuel (un_ops fuel cbrt v crc32 eser esser edes esdes) = fuel"
  "ro_header (un_ops fuel cbrt v crc32 eser esser edes esdes) = unversioned_header"
  "ro_initialized (un_ops fuel cbrt v crc32 eser esser edes esdes) = un_initialized"
  "ro_dirty (un_ops fuel cbrt v crc32 eser esser edes esdes) = un_dirty"
  "ro_transaction_id (un_ops fuel cbrt v crc32 eser esser edes esdes) = un_get_transaction_id"
  "ro_serialize (un_ops fuel cbrt v crc32 eser esser edes esdes) = un_serialize v crc32 eser esser"
  "ro_deserialize (un_ops fuel cbrt v crc32 eser esser edes esdes) t = un_deserialize edes esdes (un_reducer t)"
  "ro_modify (un_ops fuel cbrt v crc32 eser esser edes esdes) = un_modify fuel cbrt v crc32 edes esdes"
  "ro_by_id (un_ops fuel cbrt v crc32 eser esser edes esdes) = un_by_id_root"
  "ro_reducer (un_ops fuel cbrt v crc32 eser esser edes esdes) = un_id_reducer"
  "ro_node (un_ops fuel cbrt v crc32 eser esser edes esdes) = un_node v crc32 edes esdes"
  "ro_position (un_ops fuel cbrt v crc32 eser esser edes esdes) = u_position"
  by (simp_all add: un_ops_def un_node_def)

sublocale un_tree \<subseteq> un_file: root_reopens
    "un_ops fuel cbrt v crc32 eser esser edes esdes :: (('e, 'es) unversioned_root, 'e unversioned_by_id, 'es by_id_stats, 'cs) root_ops"
    "un_holds v crc32 edes esdes n" "\<lambda>t t'. un_reducer t = un_reducer t'"
  for fuel cbrt crc32 n
proof (unfold_locales, unfold un_ops_simps)
  fix buf buf' t kv assume "keeps_chunks v crc32 buf buf'" "un_holds v crc32 edes esdes n buf t kv"
  then show "un_holds v crc32 edes esdes n buf' t kv" by (rule un_holds_keeps)
next
  fix w t r t' w' assume w: "pw_inv w" and ser: "un_serialize v crc32 eser esser t w = (r, t', w')"
  let ?ser = "ser_entry (write_chunk v crc32) (ser_unversioned eser) (ser_by_id_stats esser) (un_by_id_root t) w"
  have "w' = w \<or> w' = snd (snd ?ser)" using ser by (auto simp: un_serialize_def split: option.splits prod.splits)
  then show "pw_inv w' \<and> (pw_fits w' \<longrightarrow> pw_fits w) \<and> keeps_chunks v crc32 (pw_image w) (pw_image w')"
    using un_store.ser_grows(1) [OF w, of crc32 "un_by_id_root t"] w
    by (auto simp: un_store.grows_def keeps_chunks_def image_chunk_def)
next
  fix w t b t' w' kv assume w: "pw_inv w" and ser: "un_serialize v crc32 eser esser t w = (Ok b, t', w')"
    and fits: "pw_fits w'" and view: "un_holds v crc32 edes esdes n (pw_image w) t kv"
  from view have n: "root_ok (un_store.rd crc32 w) (un_id_reducer t) n (un_by_id_root t)"
    "un_stores v crc32 (pw_image w) (contents (un_store.rd crc32 w) n (un_by_id_root t)) kv"
    by (auto simp: un_holds_def un_image_eq)
  have "w' = snd (snd (ser_entry (write_chunk v crc32) (ser_unversioned eser) (ser_by_id_stats esser) (un_by_id_root t) w))"
    using ser by (auto simp: un_serialize_def split: option.splits prod.splits)
  then have "keeps_chunks v crc32 (pw_image w) (pw_image w')"
    using un_store.ser_grows(1) [OF w, of crc32 "un_by_id_root t"]
    by (auto simp: un_store.grows_def keeps_chunks_def image_chunk_def)
  from un_stores_keeps [OF this n(2)] un_persisted [OF w ser fits n(1)]
  show "un_holds v crc32 edes esdes n (pw_image w') t' kv" by (simp add: un_holds_def un_image_eq)
next
  fix w t r t' w' assume "un_serialize v crc32 eser esser t w = (r, t', w')"
  then show "un_reducer t = un_reducer t'" by (auto simp: un_serialize_def split: option.splits prod.splits)
next
  fix t t0 :: "('e, 'es) unversioned_root" and w b t' w'
  assume "un_serialize v crc32 eser esser t w = (Ok b, t', w')" "un_reducer t = un_reducer t0"
  then show "un_deserialize edes esdes (un_reducer t0) b = Ok t'" using un_header_round_trip by metis
qed (simp_all add: page_header_try_from_def unversioned_header_def decrypt_encrypt)

section \<open>The tree file\<close>

text \<open>
  The invariant: the readers see \<open>kr\<close> (in a tree of height \<open>nr\<close>), the writer sees \<open>kw\<close> (height \<open>nw\<close>), both
  states are about this file, and the writer's position is the end of the file.
\<close>

definition un_file_ok ::
    "vault option \<Rightarrow> (bytes \<Rightarrow> u32) \<Rightarrow> (bytes \<Rightarrow> ('e \<times> bytes) res) \<Rightarrow> (bytes \<Rightarrow> ('es \<times> bytes) res) \<Rightarrow>
     nat \<Rightarrow> (bytes \<times> bytes) list \<Rightarrow> nat \<Rightarrow> (bytes \<times> bytes) list \<Rightarrow> ('e, 'es) unversioned_root tree_file \<Rightarrow> bool" where
  "un_file_ok v crc32 edes esdes nr kr nw kw tf \<longleftrightarrow>
     un_holds v crc32 edes esdes nr (mf_buffer (tf_file tf)) (as_root (st_reader (tf_state tf))) kr \<and>
     un_holds v crc32 edes esdes nw (mf_buffer (tf_file tf)) (as_root (st_writer (tf_state tf))) kw \<and>
     as_file_id (st_reader (tf_state tf)) = tf_id tf \<and> as_file_id (st_writer (tf_state tf)) = tf_id tf \<and>
     as_position (st_writer (tf_state tf)) = of_nat (length (mf_buffer (tf_file tf))) \<and>
     embedded_reducer (e_reducer (un_reducer (as_root (st_writer (tf_state tf))))) \<and>
     (\<forall>o'. as_max_order (st_writer (tf_state tf)) = Some o' \<longrightarrow> 4 \<le> o')"

text \<open>A file with room for the values of a modification of \<open>k\<close> keys, and for a header.\<close>

definition has_room :: "nat \<Rightarrow> 't tree_file \<Rightarrow> bool" where
  "has_room k tf \<longleftrightarrow> length (mf_buffer (tf_file tf)) + 4 + k * chunk_limit < 2 ^ 64"

text \<open>
  A file that is ready for one more key: the invariant, room in the file and in the key count, and
  fuel for the heights of the trees.
\<close>

definition un_ready ::
    "vault option \<Rightarrow> (bytes \<Rightarrow> u32) \<Rightarrow> (bytes \<Rightarrow> ('e \<times> bytes) res) \<Rightarrow> (bytes \<Rightarrow> ('es \<times> bytes) res) \<Rightarrow> nat \<Rightarrow>
     nat \<Rightarrow> (bytes \<times> bytes) list \<Rightarrow> nat \<Rightarrow> (bytes \<times> bytes) list \<Rightarrow> ('e, 'es) unversioned_root tree_file \<Rightarrow> bool" where
  "un_ready v crc32 edes esdes fuel nr kr nw kw tf \<longleftrightarrow>
     un_file_ok v crc32 edes esdes nr kr nw kw tf \<and> has_room 1 tf \<and> length kw + 1 < 2 ^ 64 \<and>
     nr < fuel \<and> (nw + 1) * 3 + 1 \<le> fuel"

lemma fresh_writer_room: "fresh_writer (mf_buffer (tf_file tf)) w \<Longrightarrow> has_room k tf \<Longrightarrow>
    pw_started w \<and> mf_buffer (pw_file w) = mf_buffer (tf_file tf) \<and> length (pw_image w) + k * chunk_limit < 2 ^ 64 \<and>
    keeps_chunks v crc32 (mf_buffer (tf_file tf)) (pw_image w)"
  by (auto simp: fresh_writer_def has_room_def nbr_def)

context un_tree
begin

text \<open>From the modification of the root to the file operation.\<close>

lemma un_modifier:
  fixes m :: "(bytes, 'e unversioned_by_id, 'cs) modification"
  assumes ok: "un_file_ok v crc32 edes esdes nr kr nw kw tf" and room: "has_room (length (keys m)) tf"
    and modify: "\<And>w. fresh_writer (mf_buffer (tf_file tf)) w \<Longrightarrow>
      \<exists>results op' t' w'. un_modify fuel cbrt v crc32 edes esdes (as_max_order (st_writer (tf_state tf))) m
          (as_root (st_writer (tf_state tf))) w = (Ok results, op', t', w') \<and>
        (\<exists>n' \<le> n. un_modified crc32 edes esdes m (as_root (st_writer (tf_state tf))) w n' kv' t' w') \<and> Q results op'"
    and run: "tree_modifier (un_ops fuel cbrt v crc32 eser esser edes esdes) m tf = (r, op', tf')"
  shows "\<exists>results. Q results op' \<and>
    (if persistence_transaction_id (persistence_mode m) \<noteq> None
     then r = Ok results \<and> st_reader (tf_state tf') = st_reader (tf_state tf) \<and>
       length (mf_buffer (tf_file tf')) \<le> length (mf_buffer (tf_file tf)) + 4 + length (keys m) * chunk_limit \<and>
       (\<exists>nw' \<le> n. un_file_ok v crc32 edes esdes nr kr nw' kv' tf')
     else \<forall>results'. r = Ok results' \<longrightarrow> length (mf_buffer (tf_file tf')) + 260 < 2 ^ 64 \<longrightarrow>
       results' = results \<and> st_reader (tf_state tf') = st_writer (tf_state tf') \<and>
       (\<exists>nw' \<le> n. un_file_ok v crc32 edes esdes nw' kv' nw' kv' tf'))"
proof -
  let ?ops = "un_ops fuel cbrt v crc32 eser esser edes esdes :: (_, _, _, 'cs) root_ops"
  let ?a = "st_writer (tf_state tf)"
  define P where "P = (\<lambda>w results (op' :: (bytes, 'e unversioned_by_id, 'cs) operation) t' w'.
    (\<exists>n' \<le> n. un_modified crc32 edes esdes m (as_root ?a) w n' kv' t' w') \<and> Q results op')"
  note ok = ok [unfolded un_file_ok_def]
  have len: "length (mf_buffer (tf_file tf)) < 2 ^ 64" using room by (simp add: has_room_def)
  obtain w results op1 root w' where w: "fresh_writer (mf_buffer (tf_file tf)) w" and P: "P w results op1 root w'"
    and tm: "tree_modifier ?ops m tf =
      (let a = st_writer (tf_state tf);
           stored = (\<lambda>a' file. tf\<lparr>tf_file := file, tf_state := (tf_state tf)\<lparr>st_writer := a'\<rparr>\<rparr>) in
       if persistence_transaction_id (persistence_mode m) \<noteq> None
       then (Ok results, op1, stored (a\<lparr>as_root := root, as_position := snd (pw_finish w')\<rparr>) (fst (pw_finish w')))
       else (case save_tree ?ops (a\<lparr>as_root := root\<rparr>) w' of
          (Ok u, a', file) \<Rightarrow>
            (let tf' = stored a' file in (Ok results, op1, tf'\<lparr>tf_state := publish (tf_state tf')\<rparr>))
        | (bad, a', file) \<Rightarrow> (lift_err bad, op1, stored a' file)))"
    by (rule tree_modifier_run [of tf ?ops m P])
      (use ok len modify in \<open>auto simp: P_def\<close>)
  obtain nw' where mod: "un_modified crc32 edes esdes m (as_root ?a) w nw' kv' root w'" "nw' \<le> n" and Q: "Q results op1"
    using P by (auto simp: P_def)
  have inv': "pw_inv w'" using mod(1) by (simp add: un_modified_def pw_started_def)
  have keeps: "keeps_chunks v crc32 (mf_buffer (tf_file tf)) (pw_image w')"
    using fresh_writer_room [OF w room] mod(1) unfolding un_modified_def
    by (metis keeps_chunks_append keeps_chunks_trans)
  have view: "un_holds v crc32 edes esdes nw' (pw_image w') root kv'" and red: "un_reducer root = un_reducer (as_root ?a)"
    using mod(1) by (simp_all add: un_modified_def)
  show ?thesis
  proof (cases "persistence_transaction_id (persistence_mode m) \<noteq> None")
    case True
    obtain f p where fin: "pw_finish w' = (f, p)" by fastforce
    from True tm run fin have res: "r = Ok results" "op' = op1"
      "tf' = tf\<lparr>tf_file := f, tf_state := (tf_state tf)\<lparr>st_writer := ?a\<lparr>as_root := root, as_position := p\<rparr>\<rparr>\<rparr>"
      by (simp_all add: Let_def)
    note f = pw_finish_ok [OF inv' fin]
    have "un_holds v crc32 edes esdes nr (pw_image w') (as_root (st_reader (tf_state tf))) kr"
      using un_holds_keeps [OF keeps] ok by blast
    then have "un_file_ok v crc32 edes esdes nr kr nw' kv' tf'"
      using ok red view by (simp add: un_file_ok_def res(3) f)
    moreover have "length (pw_image w) \<le> length (mf_buffer (tf_file tf)) + 4"
      using w by (simp add: fresh_writer_def nbr_def)
    then have "length (mf_buffer (tf_file tf')) \<le> length (mf_buffer (tf_file tf)) + 4 + length (keys m) * chunk_limit"
      using mod(1) by (simp add: un_modified_def res(3) f)
    ultimately show ?thesis using True Q res mod(2) by auto
  next
    case False
    obtain r2 a' file' where save: "save_tree ?ops (?a\<lparr>as_root := root\<rparr>) w' = (r2, a', file')" by (metis prod_cases3)
    have op: "op' = op1" using tm run False save by (cases r2) (auto simp: Let_def)
    moreover have "results' = results \<and> st_reader (tf_state tf') = st_writer (tf_state tf') \<and>
        (\<exists>nw' \<le> n. un_file_ok v crc32 edes esdes nw' kv' nw' kv' tf')"
      if res: "r = Ok results'" and fits: "length (mf_buffer (tf_file tf')) + 260 < 2 ^ 64" for results'
    proof -
      from res tm run False save have r2: "r2 = Ok ()" and res': "results' = results"
        and tf': "tf' = tf\<lparr>tf_file := file', tf_state := \<lparr>st_reader = a', st_writer = a'\<rparr>\<rparr>"
        by (cases r2; cases "tf_state tf"; auto simp: Let_def publish_def)+
      have fits': "length (mf_buffer file') + 260 < 2 ^ 64" using fits by (simp add: tf')
      note sv = un_file.save_view [OF inv' save [unfolded r2] fits', of nw' kv', simplified]
      from sv(1) view have nw': "un_holds v crc32 edes esdes nw' (mf_buffer file') (as_root a') kv'" by simp
      from sv(3) view obtain root2 where "a' = ?a\<lparr>as_root := root2, as_position := of_nat (length (mf_buffer file'))\<rparr>"
        "un_reducer root = un_reducer root2" by auto
      then have "un_file_ok v crc32 edes esdes nw' kv' nw' kv' tf'"
        using ok red nw' by (simp add: un_file_ok_def tf')
      then show ?thesis using res' tf' mod(2) by auto
    qed
    ultimately show ?thesis using False Q by auto
  qed
qed

lemma un_modifier_one:
  fixes op :: "(bytes, 'e unversioned_by_id, 'cs) operation"
  assumes ok: "un_file_ok v crc32 edes esdes nr kr nw kw tf" and room: "has_room 1 tf"
    and size: "length kw + 1 < 2 ^ 64" and fuel: "(nw + 1) * 3 + 1 \<le> fuel"
    and i: "i = map_of (contents (un_node v crc32 edes esdes (mf_buffer (tf_file tf))) nw
      (un_by_id_root (as_root (st_writer (tf_state tf))))) k"
    and op: "reverse_operation op = op" "value_decision k i (map_of kw k) op = Some (d, op1)"
    and st: "\<forall>b. d = KeySet b \<longrightarrow> storable v b"
    and run: "tree_modifier (un_ops fuel cbrt v crc32 eser esser edes esdes) (single mode k op) tf = (r, op', tf')"
  shows "op' = op1 \<and> (\<exists>results. (\<forall>b. d = KeySet b \<longrightarrow> (\<exists>j. results = [\<lparr>mr_key = k, mr_index = Some j\<rparr>])) \<and>
    (if persistence_transaction_id mode \<noteq> None
     then r = Ok results \<and> st_reader (tf_state tf') = st_reader (tf_state tf) \<and>
       length (mf_buffer (tf_file tf')) \<le> length (mf_buffer (tf_file tf)) + 4 + chunk_limit \<and>
       (\<exists>nw' \<le> nw + 1. un_file_ok v crc32 edes esdes nr kr nw' (update_contents k d kw) tf')
     else \<forall>results'. r = Ok results' \<longrightarrow> length (mf_buffer (tf_file tf')) + 260 < 2 ^ 64 \<longrightarrow>
       results' = results \<and> st_reader (tf_state tf') = st_writer (tf_state tf') \<and>
       (\<exists>nw' \<le> nw + 1. un_file_ok v crc32 edes esdes nw' (update_contents k d kw) nw' (update_contents k d kw) tf')))"
proof -
  let ?m = "single mode k op" and ?a = "st_writer (tf_state tf)"
  have m: "keys ?m = [k]" "operation ?m = op" "persistence_mode ?m = mode" by (simp_all add: single_def)
  define Q where "Q = (\<lambda>results (op' :: (bytes, 'e unversioned_by_id, 'cs) operation). op' = op1 \<and>
    (\<forall>b. d = KeySet b \<longrightarrow> (\<exists>j. results = [\<lparr>mr_key = k, mr_index = Some j :: 'e unversioned_by_id option\<rparr>])))"
  have "\<exists>results op' t' w'. un_modify fuel cbrt v crc32 edes esdes (as_max_order ?a) ?m (as_root ?a) w =
      (Ok results, op', t', w') \<and>
      (\<exists>n' \<le> nw + 1. un_modified crc32 edes esdes ?m (as_root ?a) w n' (update_contents k d kw) t' w') \<and> Q results op'"
    if w: "fresh_writer (mf_buffer (tf_file tf)) w" for w
  proof -
    have w': "pw_started w" "mf_buffer (pw_file w) = mf_buffer (tf_file tf)" "length (pw_image w) + chunk_limit < 2 ^ 64"
      using fresh_writer_room [OF w room] by simp_all
    have "\<exists>results t' w'. un_modify fuel cbrt v crc32 edes esdes (as_max_order ?a) ?m (as_root ?a) w =
        (Ok results, op1, t', w') \<and>
        (\<exists>n' \<le> nw + 1. un_modified crc32 edes esdes ?m (as_root ?a) w n' (update_contents k d kw) t' w') \<and>
        (\<forall>b. d = KeySet b \<longrightarrow> (\<exists>j. results = [\<lparr>mr_key = k, mr_index = Some j\<rparr>]))"
      by (rule un_modify_one [where n = nw and i = i])
        (use ok size fuel op st w' m i in \<open>simp_all add: un_file_ok_def\<close>)
    then obtain results t' w' where "un_modify fuel cbrt v crc32 edes esdes (as_max_order ?a) ?m (as_root ?a) w =
        (Ok results, op1, t', w')" "\<exists>n' \<le> nw + 1. un_modified crc32 edes esdes ?m (as_root ?a) w n' (update_contents k d kw) t' w'"
      and res: "\<forall>b. d = KeySet b \<longrightarrow> (\<exists>j. results = [\<lparr>mr_key = k, mr_index = Some j\<rparr>])"
      by (elim exE conjE) (rule that, auto)
    moreover from res have "Q results op1" unfolding Q_def by simp
    ultimately show ?thesis by blast
  qed
  from un_modifier [OF ok _ this run] room m show ?thesis by (auto simp: Q_def)
qed

text \<open>In a transaction a single key always goes through.\<close>

lemma un_transaction_one:
  fixes op :: "(bytes, 'e unversioned_by_id, 'cs) operation"
  assumes ready: "un_ready v crc32 edes esdes fuel nr kr nw kw tf"
    and op: "reverse_operation op = op"
      "\<And>i. (map_of kw k = None \<longleftrightarrow> i = None) \<Longrightarrow> value_decision k i (map_of kw k) op = Some (d, op_after i)"
    and st: "\<forall>b. d = KeySet b \<longrightarrow> storable v b"
  obtains i results nw' tf' where
    "tree_modifier (un_ops fuel cbrt v crc32 eser esser edes esdes) (single (Transactional tx) k op) tf = (Ok results, op_after i, tf')"
    and "map_of kw k = None \<longleftrightarrow> i = None"
    and "\<forall>b. d = KeySet b \<longrightarrow> (\<exists>j. results = [\<lparr>mr_key = k, mr_index = Some j\<rparr>])"
    and "st_reader (tf_state tf') = st_reader (tf_state tf)"
    and "length (mf_buffer (tf_file tf')) \<le> length (mf_buffer (tf_file tf)) + 4 + chunk_limit"
    and "nw' \<le> nw + 1" and "un_file_ok v crc32 edes esdes nr kr nw' (update_contents k d kw) tf'"
proof -
  note ready = ready [unfolded un_ready_def]
  define i where "i = map_of (contents (un_node v crc32 edes esdes (mf_buffer (tf_file tf))) nw
      (un_by_id_root (as_root (st_writer (tf_state tf))))) k"
  have i: "map_of kw k = None \<longleftrightarrow> i = None"
    using ready un_stores_map_of(2) by (fastforce simp: un_file_ok_def un_holds_def i_def)
  obtain r op' tf' where run: "tree_modifier (un_ops fuel cbrt v crc32 eser esser edes esdes)
      (single (Transactional tx) k op) tf = (r, op', tf')" by (metis prod_cases3)
  from ready have "un_file_ok v crc32 edes esdes nr kr nw kw tf" "has_room 1 tf" "length kw + 1 < 2 ^ 64"
    "(nw + 1) * 3 + 1 \<le> fuel" by simp_all
  from un_modifier_one [OF this i_def op(1) op(2) [OF i] st run] run i that show thesis by auto
qed

text \<open>A modification of several keys: \<^verbatim>\<open>Set\<close>, \<^verbatim>\<open>SetEach\<close> and \<^verbatim>\<open>Remove\<close>.\<close>

lemma un_modifier_many:
  fixes m :: "(bytes, 'e unversioned_by_id, 'cs) modification"
  assumes ok: "un_file_ok v crc32 edes esdes nr kr nw kw tf" and room: "has_room (length (keys m)) tf"
    and sorted: "sorted_wrt (<) (keys m)" and size: "length kw + length (keys m) < 2 ^ 64"
    and small: "length (keys m) \<le> 1 \<or>
      dynamic_order cbrt (length kw + length (keys m)) (as_max_order (st_writer (tf_state tf))) \<le> 9"
    and fuel: "(nw + length (keys m)) * (length (keys m) + 2) + 1 \<le> fuel"
    and kv': "store_keys (keys m) (reverse_operation (operation m)) kw = Some kv'"
    and st: "\<forall>b \<in> op_values (operation m). storable v b"
    and run: "tree_modifier (un_ops fuel cbrt v crc32 eser esser edes esdes) m tf = (r, op', tf')"
  shows "if persistence_transaction_id (persistence_mode m) \<noteq> None
     then is_ok r \<and> st_reader (tf_state tf') = st_reader (tf_state tf) \<and>
       (\<exists>nw' \<le> nw + length (keys m). un_file_ok v crc32 edes esdes nr kr nw' kv' tf')
     else is_ok r \<longrightarrow> length (mf_buffer (tf_file tf')) + 260 < 2 ^ 64 \<longrightarrow>
       st_reader (tf_state tf') = st_writer (tf_state tf') \<and>
       (\<exists>nw' \<le> nw + length (keys m). un_file_ok v crc32 edes esdes nw' kv' nw' kv' tf')"
proof -
  let ?a = "st_writer (tf_state tf)"
  have "\<exists>results op' t' w'. un_modify fuel cbrt v crc32 edes esdes (as_max_order ?a) m (as_root ?a) w =
      (Ok results, op', t', w') \<and>
      (\<exists>n' \<le> nw + length (keys m). un_modified crc32 edes esdes m (as_root ?a) w n' kv' t' w') \<and> True"
    if w: "fresh_writer (mf_buffer (tf_file tf)) w" for w
  proof -
    have w': "pw_started w" "mf_buffer (pw_file w) = mf_buffer (tf_file tf)"
      "length (pw_image w) + length (keys m) * chunk_limit < 2 ^ 64"
      using fresh_writer_room [OF w room] by simp_all
    have "\<exists>results op' t' w'. un_modify fuel cbrt v crc32 edes esdes (as_max_order ?a) m (as_root ?a) w =
        (Ok results, op', t', w') \<and>
      (\<exists>n' \<le> nw + length (keys m). un_modified crc32 edes esdes m (as_root ?a) w n' kv' t' w')"
      by (rule un_modify_many [where n = nw])
        (use ok sorted size small fuel kv' st w' in \<open>simp_all add: un_file_ok_def\<close>)
    then show ?thesis by blast
  qed
  from un_modifier [OF ok room this run] show ?thesis by (auto simp: is_ok_iff)
qed

end

end
