(* ===== verification/Append_Only.thy ===== *)
theory Append_Only
  imports Tree_Save
begin

text \<open>
  The files are append-only: whatever an operation does, and whether it succeeds or not, the bytes that
  were in the file stay where they are. Proved for every modification and every save, of both kinds of
  root, with no assumption on the tree.
\<close>

section \<open>Files that grow\<close>

text \<open>A step of a writer that only appends to its file, and keeps the invariant of a writer.\<close>

definition file_grows :: "paged_writer \<Rightarrow> paged_writer \<Rightarrow> bool" where
  "file_grows w w' \<longleftrightarrow> (\<exists>rest. mf_buffer (pw_file w') = mf_buffer (pw_file w) @ rest) \<and> (pw_inv w \<longrightarrow> pw_inv w')"

lemma file_grows_refl [simp]: "file_grows w w"
  by (simp add: file_grows_def)

lemma file_grows_trans: "file_grows a b \<Longrightarrow> file_grows b c \<Longrightarrow> file_grows a c"
  by (auto simp: file_grows_def)

lemma write_chunk_grows: "write_chunk v crc32 b w = (r, w') \<Longrightarrow> file_grows w w'"
  using write_chunk_file write_chunk_cases by (fastforce simp: file_grows_def pw_appends_def)

section \<open>Modifications\<close>

text \<open>A context whose indexer, the only one of its functions that writes, appends.\<close>

locale appending_context =
  fixes ctx :: "('v, 'i, 'r, 'c, paged_writer) modification_context"
  assumes indexer_grows: "indexer ctx k val existing c w = (res, c', w') \<Longrightarrow> file_grows w w'"
begin

lemma matched_grows: "matched_operation ctx key cur op c w = (r, op', c', w') \<Longrightarrow> file_grows w w'"
  by (cases op) (auto dest: indexer_grows split: prod.splits res.splits key_operation.splits if_splits)

lemma unmatched_grows: "unmatched_operation ctx key op c w = (r, op', c', w') \<Longrightarrow> file_grows w w'"
  by (cases op) (auto dest: indexer_grows split: prod.splits res.splits key_operation.splits if_splits)

lemma modify_leaf_loop_grows:
  "modify_leaf_loop ctx max_len max_k li ch children m c w = (r, children', m', c', w') \<Longrightarrow> file_grows w w'"
proof (induction "length (keys m)" arbitrary: li ch children m c w rule: less_induct)
  case less
  note step = less.prems [unfolded modify_leaf_loop.simps [of ctx max_len max_k li]]
  show ?case
  proof (cases "w' = w")
    case False
    with step obtain op1 c1 w1 li1 ch1 children1 where "file_grows w w1" "keys m \<noteq> []"
      and rest: "w' = w1 \<or> modify_leaf_loop ctx max_len max_k li1 ch1 children1 (m\<lparr>keys := butlast (keys m), operation := op1\<rparr>) c1 w1 =
        (r, children', m', c', w')"
      by (auto simp: Let_def split: if_splits Search.search.splits prod.splits res.splits key_operation.splits
          dest!: matched_grows unmatched_grows) blast+
    with less.hyps [of "m\<lparr>keys := butlast (keys m), operation := op1\<rparr>"] show ?thesis using file_grows_trans by fastforce
  qed simp
qed

lemma modify_leaf_grows: "modify_leaf ctx max_k children m c w = (r, children', m', c', w') \<Longrightarrow> file_grows w w'"
  unfolding modify_leaf_def by (rule modify_leaf_loop_grows)

lemma modify_grows:
  "modify fuel ctx rd max_k e m c w = (r, e', m', c', w') \<Longrightarrow> file_grows w w'"
  "modify_interior fuel ctx rd max_k li ch children m c w = (r, children', m', c', w') \<Longrightarrow> file_grows w w'"
proof (induction fuel arbitrary: max_k e li ch children m c w r e' children' m' c' w')
  case (Suc fuel)
  {
    case 1
    then show ?case
      by (auto split: node.splits prod.splits res.splits change_result.splits if_splits dest: modify_leaf_grows Suc.IH(2))
  next
    case 2
    show ?case
    proof (cases "w' = w")
      case False
      obtain lx pe where cc: "containing_child children li (last (keys m)) = (lx, pe)" by fastforce
      obtain r0 children1 where load: "bindS (load_child rd w lx) (\<lambda>_. child_entry lx) children = (r0, children1)" by fastforce
      from False 2 cc load obtain e1 where e1: "r0 = Ok e1"
        and go: "\<not> (keys m = [] \<or> length children \<le> li \<or> exceeds max_k (last (keys m)))"
        by (cases r0) (auto split: if_splits)
      let ?mk = "Some (max_key_for_modification pe (last (keys m)) max_k (i_key (children ! lx)))"
      obtain r1 e2 m1 c1 w1 where mod: "modify fuel ctx rd ?mk e1 m c w = (r1, e2, m1, c1, w1)" by (metis prod_cases5)
      have "w' = w1 \<or> (\<exists>li1 ch1 children1. modify_interior fuel ctx rd max_k li1 ch1 children1 m1 c1 w1 = (r, children', m', c', w'))"
        using 2 cc load [unfolded e1] go mod
        by (cases r1) (auto simp: Let_def split: prod.splits res.splits change_result.splits)
      then show ?thesis using Suc.IH(1) [OF mod] Suc.IH(2) file_grows_trans by metis
    qed simp
  }
qed simp_all

lemma modify_root_grows:
  "modify_root rounds fuel reset ctx rd root m c w = (r, root', m', c', w') \<Longrightarrow> file_grows w w'"
proof (induction rounds arbitrary: root m c w)
  case (Suc rounds)
  show ?case
  proof (cases "w' = w")
    case False
    obtain r1 root1 m1 c1 w1 where mod: "modify fuel ctx rd None root m c w = (r1, root1, m1, c1, w1)" by (metis prod_cases5)
    with False Suc.prems have "w' = w1 \<or> (\<exists>root2. modify_root rounds fuel reset ctx rd root2 m1 c1 w1 = (r, root', m', c', w'))"
      by (auto split: res.splits change_result.splits if_splits)
    with Suc.IH [of _ m1 c1 w1] have "file_grows w1 w'" by auto
    with modify_grows(1) [OF mod] show ?thesis by (rule file_grows_trans)
  qed simp
qed (simp split: if_splits)

end

interpretation un_appending: appending_context "un_context v crc32 red order min_children"
  for v crc32 red order min_children
  by unfold_locales
    (auto simp: un_context_def un_indexer_def Let_def split: option.splits prod.splits res.splits dest: write_chunk_grows)

interpretation ve_appending: appending_context "ve_context v crc32 red order min_children"
  for v crc32 red order min_children
  by unfold_locales
    (auto simp: ve_context_def ve_indexer_def split: option.splits prod.splits res.splits dest: write_chunk_grows)

interpretation seq_appending: appending_context "seq_context order min_children"
  for order min_children
  by unfold_locales (auto simp: seq_context_def seq_indexer_def)

section \<open>Serialization\<close>

lemma ser_file_grows:
  "ser_entry (write_chunk v crc32) iser rser e w = (r, e', w') \<Longrightarrow> file_grows w w'"
  "ser_interiors (write_chunk v crc32) iser rser cs w = (rs, cs', w') \<Longrightarrow> file_grows w w'"
  "ser_interior (write_chunk v crc32) iser rser ic w = (ri, ic', w') \<Longrightarrow> file_grows w w'"
proof (induction "write_chunk v crc32" iser rser e w and "write_chunk v crc32" iser rser cs w and
    "write_chunk v crc32" iser rser ic w arbitrary: r e' w' and rs cs' w' and ri ic' w'
    rule: ser_entry_ser_interiors_ser_interior.induct)
qed (auto split: prod.splits res.splits if_splits dest: write_chunk_grows intro: file_grows_trans)

section \<open>Roots and tree files\<close>

locale appending_root =
  fixes ops :: "('t, 'i, 'r, 's) root_ops"
  assumes modify_appends: "ro_modify ops max_order m t w = (r, op', t', w') \<Longrightarrow> file_grows w w'"
    and serialize_appends: "ro_serialize ops t w = (rb, t', w') \<Longrightarrow> file_grows w w'"
begin

lemma save_appends:
  assumes "save_tree ops a w = (r, a', f)"
  shows "\<exists>rest. mf_buffer f = mf_buffer (pw_file w) @ rest"
proof -
  obtain rb root w1 where ser: "ro_serialize ops (as_root a) w = (rb, root, w1)" by (metis prod_cases3)
  obtain f1 p where fin: "pw_finish w1 = (f1, p)" by fastforce
  obtain r2 h where new: "pw_new (Some (ro_header ops)) f1 p = (r2, h)" by fastforce
  obtain r3 h1 where wc: "write_chunk (ro_vault ops) (ro_crc32 ops) (ok_val rb) h = (r3, h1)" by fastforce
  obtain f2 q where fin2: "pw_finish h1 = (f2, q)" by fastforce
  have "file_grows w w1" by (rule serialize_appends [OF ser])
  moreover have "\<exists>rest. mf_buffer f1 = mf_buffer (pw_file w1) @ rest"
    using pw_finish_image [of w1] fin by (simp add: pw_image_def)
  moreover have "\<exists>rest. mf_buffer (pw_file h) = mf_buffer f1 @ rest" using pw_new_file [of _ f1 p] new by (metis snd_conv)
  moreover have "file_grows h h1" by (rule write_chunk_grows [OF wc])
  moreover have "\<exists>rest. mf_buffer f2 = mf_buffer (pw_file h1) @ rest"
    using pw_finish_image [of h1] fin2 by (simp add: pw_image_def)
  ultimately have grows: "\<exists>rest. mf_buffer (pw_file w1) = mf_buffer (pw_file w) @ rest"
    "\<exists>rest. mf_buffer (pw_file h) = mf_buffer (pw_file w) @ rest"
    "\<exists>rest. mf_buffer (pw_file h1) = mf_buffer (pw_file w) @ rest" "\<exists>rest. mf_buffer f2 = mf_buffer (pw_file w) @ rest"
    by (auto simp: file_grows_def)
  have "f = pw_file w1 \<or> f = pw_file h \<or> f = pw_file h1 \<or> f = f2"
    using assms ser fin new wc fin2 by (cases rb; cases r2; cases r3) (auto simp: save_tree_def Let_def)
  with grows show ?thesis by blast
qed

text \<open>A modification only appends, and what the readers see changes only when it is published.\<close>

lemma modifier_appends:
  assumes "tree_modifier ops m tf = (r, op', tf')"
  shows "\<exists>rest. mf_buffer (tf_file tf') = mf_buffer (tf_file tf) @ rest"
    and "tf_id tf' = tf_id tf"
    and "persistence_transaction_id (persistence_mode m) \<noteq> None \<or> \<not> is_ok r \<Longrightarrow>
      st_reader (tf_state tf') = st_reader (tf_state tf)"
proof -
  let ?a = "st_writer (tf_state tf)"
  obtain r1 w where new: "pw_new None (tf_file tf) (as_position ?a) = (r1, w)" by fastforce
  obtain r2 op2 root w1 where mod: "ro_modify ops (as_max_order ?a) m (as_root ?a) w = (r2, op2, root, w1)" by (metis prod_cases4)
  obtain f p where fin: "pw_finish w1 = (f, p)" by fastforce
  obtain r3 a' f' where save: "save_tree ops (?a\<lparr>as_root := root\<rparr>) w1 = (r3, a', f')" by (metis prod_cases3)
  have w: "\<exists>rest. mf_buffer (pw_file w) = mf_buffer (tf_file tf) @ rest" using pw_new_file [of None "tf_file tf"] new by (metis snd_conv)
  have w1: "\<exists>rest. mf_buffer (pw_file w1) = mf_buffer (tf_file tf) @ rest"
    using w modify_appends [OF mod] by (auto simp: file_grows_def)
  moreover have "\<exists>rest. mf_buffer f = mf_buffer (tf_file tf) @ rest"
    using w1 pw_finish_image [of w1] fin by (auto simp: pw_image_def)
  moreover have "\<exists>rest. mf_buffer f' = mf_buffer (tf_file tf) @ rest" using w1 save_appends [OF save] by auto
  ultimately show "\<exists>rest. mf_buffer (tf_file tf') = mf_buffer (tf_file tf) @ rest"
    using assms new mod fin save w by (cases r1; cases r2; cases r3) (auto simp: tree_modifier_def Let_def split: if_splits)
  show "tf_id tf' = tf_id tf"
    using assms new mod fin save by (cases r1; cases r2; cases r3) (auto simp: tree_modifier_def Let_def split: if_splits)
  show "st_reader (tf_state tf') = st_reader (tf_state tf)"
    if "persistence_transaction_id (persistence_mode m) \<noteq> None \<or> \<not> is_ok r"
    using that assms new mod fin save
    by (cases r1; cases r2; cases r3) (auto simp: tree_modifier_def Let_def split: if_splits)
qed

lemma writer_appends:
  assumes "tree_writer ops tf = (r, tf')"
  shows "\<exists>rest. mf_buffer (tf_file tf') = mf_buffer (tf_file tf) @ rest"
    and "st_reader (tf_state tf') = st_reader (tf_state tf)" and "tf_id tf' = tf_id tf"
proof -
  let ?a = "st_writer (tf_state tf)"
  obtain r1 w where new: "pw_new None (tf_file tf) (as_position ?a) = (r1, w)" by fastforce
  obtain r3 a' f' where save: "save_tree ops ?a w = (r3, a', f')" by (metis prod_cases3)
  have w: "\<exists>rest. mf_buffer (pw_file w) = mf_buffer (tf_file tf) @ rest" using pw_new_file [of None "tf_file tf"] new by (metis snd_conv)
  with save_appends [OF save] have "\<exists>rest. mf_buffer f' = mf_buffer (tf_file tf) @ rest" by auto
  with w show "\<exists>rest. mf_buffer (tf_file tf') = mf_buffer (tf_file tf) @ rest"
    using assms new save by (cases r1) (auto simp: tree_writer_def Let_def split: if_splits)
  show "st_reader (tf_state tf') = st_reader (tf_state tf)" "tf_id tf' = tf_id tf"
    using assms new save by (cases r1; auto simp: tree_writer_def Let_def split: if_splits)+
qed

end

interpretation un_appending_root: appending_root "un_ops fuel cbrt v crc32 eser esser edes esdes"
  for fuel cbrt v crc32 eser esser edes esdes
proof
  fix max_order m t w r op' t' w'
  assume "ro_modify (un_ops fuel cbrt v crc32 eser esser edes esdes) max_order m t w = (r, op', t', w')"
  then show "file_grows w w'"
    by (auto simp: un_ops_def un_modify_def un_modify_id_root_def Let_def split: prod.splits res.splits
        dest: un_appending.modify_root_grows)
next
  fix t w rb t' w' assume "ro_serialize (un_ops fuel cbrt v crc32 eser esser edes esdes) t w = (rb, t', w')"
  then show "file_grows w w'"
    by (auto simp: un_ops_def un_serialize_def split: option.splits prod.splits dest: ser_file_grows(1))
qed

interpretation ve_appending_root: appending_root "ve_ops fuel cbrt v crc32 eser esser edes esdes"
  for fuel cbrt v crc32 eser esser edes esdes
proof
  fix max_order m t w r op' t' w'
  assume run: "ro_modify (ve_ops fuel cbrt v crc32 eser esser edes esdes) max_order m t w = (r, op', t', w')"
  have ids: "file_grows w w1" if "ve_modify_id_root fuel cbrt v crc32 edes esdes max_order m ch t w = (r1, op1, ch1, t1, w1)"
    for ch r1 op1 ch1 t1 w1
    using that by (auto simp: ve_modify_id_root_def Let_def split: prod.splits res.splits dest: ve_appending.modify_root_grows)
  have sequences: "file_grows w1 w2" if "ve_modify_sequence_root fuel cbrt v crc32 edes max_order sm t1 w1 = (r2, t2, w2)"
    for sm t1 w1 r2 t2 w2
    using that by (auto simp: ve_modify_sequence_root_def Let_def split: prod.splits res.splits dest: seq_appending.modify_root_grows)
  from run show "file_grows w w'"
    by (auto simp: ve_ops_def ve_modify_def split: prod.splits res.splits dest!: ids sequences intro: file_grows_trans)
next
  fix t w rb t' w' assume "ro_serialize (ve_ops fuel cbrt v crc32 eser esser edes esdes) t w = (rb, t', w')"
  then show "file_grows w w'"
    by (auto simp: ve_ops_def ve_serialize_def split: prod.splits res.splits dest!: ser_file_grows(1) intro: file_grows_trans)
qed

section \<open>Durability\<close>

text \<open>The file ends with a header for this root, which starts at page \<open>n\<close>.\<close>

definition saved_at :: "('t, 'i, 'r, 's) root_ops \<Rightarrow> nat \<Rightarrow> bytes \<Rightarrow> 't \<Rightarrow> bool" where
  "saved_at ops n buf root \<longleftrightarrow> (\<exists>pre b c t w w'. n = header_block pre \<and> ro_serialize ops t w = (Ok b, root, w') \<and>
     encrypt_with (ro_vault ops) b = Ok c \<and> length c < 2 ^ 32 \<and>
     buf = pre @ replicate (page_padding (length pre)) (ro_header ops) @ nbr @ [ro_header ops] @ chunk_bytes (ro_crc32 ops) c)"

text \<open>No page after page \<open>n\<close> starts like a header.\<close>

definition last_header :: "nat \<Rightarrow> bytes \<Rightarrow> bool" where
  "last_header n buf \<longleftrightarrow> (\<forall>m > n. m * page_size + 4 \<le> length buf \<longrightarrow> \<not> is_header buf m)"

locale durable_root = root_reopens ops view same + appending_root ops
  for ops :: "('t, 'i, 'r, 's) root_ops" and view and same :: "'t \<Rightarrow> 't \<Rightarrow> bool" +
  assumes same_trans: "same a b \<Longrightarrow> same b c \<Longrightarrow> same a c"
begin

lemma modifier_saved:
  assumes pos: "as_position (st_writer (tf_state tf)) = of_nat (length (mf_buffer (tf_file tf)))"
    "length (mf_buffer (tf_file tf)) < 2 ^ 64"
    and run: "tree_modifier ops m tf = (Ok results, op', tf')" and mode: "persistence_transaction_id (persistence_mode m) = None"
    and fits: "length (mf_buffer (tf_file tf')) + 260 < 2 ^ 64"
  shows "\<exists>n. saved_at ops n (mf_buffer (tf_file tf')) (as_root (st_writer (tf_state tf')))"
    and "st_reader (tf_state tf') = st_writer (tf_state tf')"
proof -
  let ?a = "st_writer (tf_state tf)"
  obtain w where new: "pw_new None (tf_file tf) (as_position ?a) = (Ok (), w)" and w: "pw_inv w"
    using pw_new_plain [OF pos(2)] pos(1) by (metis pw_started_def)
  obtain r2 op2 root w1 where mod: "ro_modify ops (as_max_order ?a) m (as_root ?a) w = (r2, op2, root, w1)" by (metis prod_cases4)
  have w1: "pw_inv w1" using w modify_appends [OF mod] by (simp add: file_grows_def)
  obtain r3 a' f' where save: "save_tree ops (?a\<lparr>as_root := root\<rparr>) w1 = (r3, a', f')" by (metis prod_cases3)
  from run new mod save mode have r3: "r3 = Ok ()" and tf': "tf_file tf' = f'" "st_writer (tf_state tf') = a'" "st_reader (tf_state tf') = a'"
    by (cases r2; cases r3; auto simp: tree_modifier_def Let_def publish_def split: if_splits)+
  obtain b root2 w2 c where "ro_serialize ops root w1 = (Ok b, root2, w2)" "encrypt_with (ro_vault ops) b = Ok c"
    "length c < 2 ^ 32" "saved_as (pw_image w2) c (mf_buffer f')" "as_root a' = root2"
    by (rule save_layout [OF w1 save [unfolded r3]]) (use fits tf'(1) in simp_all)
  then have "saved_at ops (header_block (pw_image w2)) (mf_buffer f') (as_root a')" unfolding saved_at_def by blast
  then show "\<exists>n. saved_at ops n (mf_buffer (tf_file tf')) (as_root (st_writer (tf_state tf')))"
    "st_reader (tf_state tf') = st_writer (tf_state tf')" by (auto simp: tf')
qed

text \<open>Opening a file after a crash: what was written after the last header is ignored.\<close>

lemma open_saved:
  assumes saved: "saved_at ops n buf root" and same: "same root (as_root (st_writer st))"
    and fits: "length buf + 260 < 2 ^ 64" and tail: "last_header n (buf @ rest)"
    and tx: "not_successful manager (ro_transaction_id ops root) = Ok False"
    and fresh: "\<not> ro_initialized ops (as_root (st_reader st))" "\<not> ro_initialized ops (as_root (st_writer st))"
  shows "initialize_state ops manager file_id (buf @ rest) st =
    (Ok (), let a = (st_writer st)\<lparr>as_file_id := file_id, as_root := root, as_position := of_nat (length (buf @ rest))\<rparr> in
            \<lparr>st_reader = a, st_writer = a\<rparr>)"
proof -
  from saved obtain pre b c t w w' where n: "n = header_block pre" and ser: "ro_serialize ops t w = (Ok b, root, w')"
    and c: "encrypt_with (ro_vault ops) b = Ok c" "length c < 2 ^ 32" and buf: "saved_as pre c buf"
    unfolding saved_at_def by blast
  have "same t (as_root (st_writer st))" by (rule same_trans [OF serialize_same [OF ser] same])
  moreover have "length pre + 260 < 2 ^ 64" using fits buf by simp
  moreover have "\<forall>m. header_block pre < m \<longrightarrow> m * page_size + 4 \<le> length (buf @ rest) \<longrightarrow> \<not> is_header (buf @ rest) m"
    using tail n unfolding last_header_def by blast
  ultimately show ?thesis by (intro initialize_saved [OF buf c ser _ _ tx fresh]) 
qed

text \<open>A header whose transaction did not succeed is passed over.\<close>

lemma open_passes_over:
  assumes first: "saved_at ops n buf root" and second: "saved_at ops k (buf @ added) root2" and order: "n < k"
    and same: "same root (as_root (st_writer st))" "same root2 (as_root (st_writer st))"
    and fits: "length (buf @ added) + 260 < 2 ^ 64" and tail: "last_header k (buf @ added)"
    and between: "\<forall>m. n < m \<longrightarrow> m < k \<longrightarrow> \<not> is_header (buf @ added) m"
    and tx: "not_successful manager (ro_transaction_id ops root) = Ok False"
      "not_successful manager (ro_transaction_id ops root2) = Ok True"
    and fresh: "\<not> ro_initialized ops (as_root (st_reader st))" "\<not> ro_initialized ops (as_root (st_writer st))"
  shows "initialize_state ops manager file_id (buf @ added) st =
    (Ok (), let a = (st_writer st)\<lparr>as_file_id := file_id, as_root := root, as_position := of_nat (length (buf @ added))\<rparr> in
            \<lparr>st_reader = a, st_writer = a\<rparr>)"
proof -
  let ?t0 = "as_root (st_writer st)" and ?buf = "buf @ added"
  have block: "read_block ops manager (b1 @ rest) ?t0 i = Ok (if bad then NotCommitted else RootAt r)"
    and start: "i * page_size + 4 \<le> length (b1 @ rest)"
    if "saved_at ops i b1 r" "same r ?t0" "length b1 + 260 < 2 ^ 64" "not_successful manager (ro_transaction_id ops r) = Ok bad"
    for i b1 r bad rest
  proof -
    from that(1) obtain pre b c t w w' where n: "i = header_block pre" and ser: "ro_serialize ops t w = (Ok b, r, w')"
      and c: "encrypt_with (ro_vault ops) b = Ok c" "length c < 2 ^ 32" and buf: "saved_as pre c b1"
      unfolding saved_at_def by blast
    have "ro_deserialize ops ?t0 b = Ok r"
      by (rule round_trip [OF ser same_trans [OF serialize_same [OF ser] that(2)]])
    moreover have "length pre + 260 < 2 ^ 64" using that(3) buf by simp
    ultimately show "read_block ops manager (b1 @ rest) ?t0 i = Ok (if bad then NotCommitted else RootAt r)"
      unfolding n by (rule read_saved_block [OF buf c _ _ that(4)])
    show "i * page_size + 4 \<le> length (b1 @ rest)" by (simp add: n buf header_block_start nbr_def)
  qed
  have at_n: "read_block ops manager ?buf ?t0 n = Ok (RootAt root)"
    using block [OF first same(1) _ tx(1), of added] fits by simp
  have at_k: "read_block ops manager ?buf ?t0 k = Ok NotCommitted"
    using block [OF second same(2) _ tx(2), of "[]"] fits by simp
  have k: "k * page_size + 4 \<le> length ?buf" using start [OF second same(2) _ tx(2), of "[]"] fits by simp
  then obtain l where l: "last_block (length ?buf) = Some l" "k \<le> l" "l * page_size + 4 \<le> length ?buf" by (rule last_block_covers)
  have "scan_back (read_block ops manager ?buf ?t0) l = Ok (FoundRoot root)"
  proof (rule scan_back_found [where n = n])
    fix m assume m: "n < m" "m \<le> l"
    have len: "m * page_size + 4 \<le> length ?buf" using l(3) m(2) mult_le_mono1 [OF m(2), of page_size] by linarith
    show "read_block ops manager ?buf ?t0 m = Ok NoHeader \<or> read_block ops manager ?buf ?t0 m = Ok NotCommitted"
    proof (cases "m = k")
      case False
      with between tail m(1) len have "\<not> is_header ?buf m" by (auto simp: last_header_def nat_neq_iff)
      from read_block_no_header [OF this len, of ops manager] show ?thesis by simp
    qed (use at_k in simp)
  qed (use order l(2) at_n in simp_all)
  moreover have "?buf \<noteq> []" using k by auto
  ultimately show ?thesis using l(1) fresh
    by (cases st) (auto simp: initialize_state_def publish_def Let_def)
qed

end

end
