(* ===== verification/Un_Queries.thy ===== *)
theory Un_Queries
  imports Un_File Append_Only "HOL-Library.Multiset"
begin

text \<open>
  What the read operations of \<^verbatim>\<open>TreeFile\<close> return on an unversioned tree, in terms of the key-value list
  of the state they read: the readers' outside a transaction, the writer's inside.
\<close>

section \<open>The state that is read\<close>

definition seen :: "bool \<Rightarrow> 'a \<Rightarrow> 'a \<Rightarrow> 'a" where
  "seen in_transaction reader writer = (if in_transaction then writer else reader)"

lemma un_read_state:
  assumes "un_file_ok v crc32 edes esdes nr kr nw kw tf"
  obtains a xs where "read_state tx tf = Ok a"
    and "nwf (un_node v crc32 edes esdes (mf_buffer (tf_file tf))) (un_id_reducer (as_root a)) (seen tx nr nw)
      (node (un_by_id_root (as_root a)))"
    and "ksorted xs" and "un_stores v crc32 (mf_buffer (tf_file tf)) xs (seen tx kr kw)"
    and "xs = nflat (un_node v crc32 edes esdes (mf_buffer (tf_file tf))) (seen tx nr nw) (node (un_by_id_root (as_root a)))"
proof (cases tx)
  case True
  show thesis
    by (rule that [of "st_writer (tf_state tf)"])
      (use assms True in \<open>simp_all add: un_file_ok_def read_state_def seen_def un_holds_def root_ok_def contents_def\<close>)
next
  case False
  show thesis
    by (rule that [of "st_reader (tf_state tf)"])
      (use assms False in \<open>simp_all add: un_file_ok_def read_state_def seen_def un_holds_def root_ok_def contents_def\<close>)
qed

lemma tree_value_un: "tree_value (un_ops fuel cbrt v crc32 eser esser edes esdes) tf =
    chunk_at v crc32 False (mf_buffer (tf_file tf))"
  by (simp add: tree_value_def)

section \<open>Lookup\<close>

text \<open>The values of the keys that are found, in the order in which the file holds them.\<close>

lemma un_getter:
  fixes tf :: "('e, 'es) unversioned_root tree_file"
  assumes ok: "un_file_ok v crc32 edes esdes nr kr nw kw tf" and fuel: "seen tx nr nw < fuel"
    and reads: "\<And>c k i. gm_evaluator args c k i = (ReadData, c)" and sorted: "sorted_wrt (<) ks"
  obtains xs where "un_stores v crc32 (mf_buffer (tf_file tf)) xs (seen tx kr kw)"
    and "tree_getter (un_ops fuel cbrt v crc32 eser esser edes esdes :: (_, _, _, 'cs) root_ops) tx args ks tf c =
      read_positions u_position (chunk_at v crc32 False (mf_buffer (tf_file tf))) args
        (sort_key (\<lambda>p. u_position (snd p)) (found_entries u_position xs ks)) c"
proof -
  from ok obtain a xs where a: "read_state tx tf = Ok a"
      "nwf (un_node v crc32 edes esdes (mf_buffer (tf_file tf))) (un_id_reducer (as_root a)) (seen tx nr nw)
        (node (un_by_id_root (as_root a)))"
    and xs: "ksorted xs" "un_stores v crc32 (mf_buffer (tf_file tf)) xs (seen tx kr kw)"
      "xs = nflat (un_node v crc32 edes esdes (mf_buffer (tf_file tf))) (seen tx nr nw) (node (un_by_id_root (as_root a)))"
    by (rule un_read_state)
  show thesis
    by (rule that [OF xs(2)])
      (use a(1) get_multiple_eq [OF reads a(2) xs(1) [unfolded xs(3)] sorted fuel] xs(3) in
        \<open>simp add: tree_getter_def tree_value_un\<close>)
qed

lemma found_entries_single:
  assumes "un_stores v crc32 buf xs kv"
  shows "found_entries u_position xs [k] = (case map_of xs k of None \<Rightarrow> [] | Some i \<Rightarrow> [(k, i)])"
proof (cases "map_of xs k")
  case (Some i)
  with un_stores_map_of(2) [OF assms, of k] obtain b where "map_of kv k = Some b" by auto
  with un_stores_map_of(1) [OF assms, of k b] Some have "u_position i \<noteq> 0" by (auto simp: un_stored_def)
  with Some show ?thesis by (simp add: found_entries_def word_gt_0)
qed (simp add: found_entries_def)

lemma un_stored_value:
  assumes "un_stores v crc32 buf xs kv" and "map_of xs k = Some i"
  obtains b where "map_of kv k = Some b" and "chunk_at v crc32 False buf (u_position i) = Ok b" and "u_position i > 0"
proof -
  from un_stores_map_of(2) [OF assms(1), of k] assms(2) obtain b where b: "map_of kv k = Some b" by auto
  with un_stores_map_of(1) [OF assms(1), of k b] assms(2) that show thesis
    by (auto simp: un_stored_def word_gt_0)
qed

lemma un_get:
  fixes tf :: "('e, 'es) unversioned_root tree_file"
  assumes ok: "un_file_ok v crc32 edes esdes nr kr nw kw tf" and fuel: "seen tx nr nw < fuel"
  shows "tf_get (un_ops fuel cbrt v crc32 eser esser edes esdes :: (_, _, _, 'cs) root_ops) key tx tf = Ok (map_of (seen tx kr kw) key)"
proof -
  let ?args = "\<lparr>gm_evaluator = (\<lambda>c k (i :: 'e unversioned_by_id). (ReadData, c)),
    gm_reader = (\<lambda>c k val i. (Ok (), Some val))\<rparr>"
  obtain xs where xs: "un_stores v crc32 (mf_buffer (tf_file tf)) xs (seen tx kr kw)"
    and run: "tree_getter (un_ops fuel cbrt v crc32 eser esser edes esdes :: (_, _, _, 'cs) root_ops) tx ?args [key] tf None =
      read_positions u_position (chunk_at v crc32 False (mf_buffer (tf_file tf))) ?args
        (sort_key (\<lambda>p. u_position (snd p)) (found_entries u_position xs [key])) None"
    by (rule un_getter [OF ok fuel, of ?args "[key]"]) simp_all
  show ?thesis
  proof (cases "map_of xs key")
    case None
    with un_stores_map_of(2) [OF xs, of key] run show ?thesis
      by (simp add: tf_get_def found_entries_single [OF xs] res_map_def)
  next
    case (Some i)
    then obtain b where "map_of (seen tx kr kw) key = Some b"
      "chunk_at v crc32 False (mf_buffer (tf_file tf)) (u_position i) = Ok b" "u_position i > 0"
      by (rule un_stored_value [OF xs])
    with Some run show ?thesis by (simp add: tf_get_def found_entries_single [OF xs] res_map_def)
  qed
qed

section \<open>Lookup of several keys\<close>

lemma read_positions_pushing:
  assumes "\<forall>p \<in> set ps. pos (snd p) > 0 \<and> (\<exists>b. read (pos (snd p)) = Ok b)"
  shows "read_positions pos read (pushing f) ps c =
    (Ok (), c @ map (\<lambda>p. f (fst p) (ok_val (read (pos (snd p)))) (snd p)) ps)"
  using assms by (induction ps arbitrary: c) (auto simp: pushing_def)

lemma un_found_entries:
  assumes "un_stores v crc32 buf xs kv" and "p \<in> set (found_entries u_position xs ks)"
  obtains b where "fst p \<in> set ks" and "map_of kv (fst p) = Some b" and "u_position (snd p) > 0"
    and "chunk_at v crc32 False buf (u_position (snd p)) = Ok b"
proof -
  from assms(2) obtain k i where p: "p = (k, i)" "k \<in> set ks" "map_of xs k = Some i"
    by (auto simp: found_entries_def split: option.splits if_splits)
  from un_stored_value [OF assms(1) p(3)] that p show thesis by auto
qed

lemma found_entries_keys:
  assumes "un_stores v crc32 buf xs kv"
  shows "map fst (found_entries u_position xs ks) = filter (\<lambda>k. map_of kv k \<noteq> None) ks"
proof (induction ks)
  case (Cons k ks)
  have "found_entries u_position xs (k # ks) = found_entries u_position xs [k] @ found_entries u_position xs ks"
    by (simp add: found_entries_def)
  with Cons un_stores_map_of(2) [OF assms, of k] show ?case
    by (auto simp: found_entries_single [OF assms] split: option.splits)
qed (simp add: found_entries_def)

lemma un_get_multiple:
  fixes tf :: "('e, 'es) unversioned_root tree_file"
  assumes ok: "un_file_ok v crc32 edes esdes nr kr nw kw tf" and fuel: "seen tx nr nw < fuel"
    and sorted: "sorted_wrt (<) ks"
  obtains out where "tf_get_multiple (un_ops fuel cbrt v crc32 eser esser edes esdes :: (_, _, _, 'cs) root_ops) ks tx tf = Ok out"
    and "mset out = mset (map (\<lambda>k. (k, the (map_of (seen tx kr kw) k))) (filter (\<lambda>k. map_of (seen tx kr kw) k \<noteq> None) ks))"
proof -
  let ?args = "pushing (\<lambda>k val (i :: 'e unversioned_by_id). (k, val))" and ?buf = "mf_buffer (tf_file tf)"
  let ?kv = "seen tx kr kw"
  obtain xs where xs: "un_stores v crc32 ?buf xs ?kv"
    and run: "tree_getter (un_ops fuel cbrt v crc32 eser esser edes esdes :: (_, _, _, 'cs) root_ops) tx ?args ks tf [] =
      read_positions u_position (chunk_at v crc32 False ?buf) ?args
        (sort_key (\<lambda>p. u_position (snd p)) (found_entries u_position xs ks)) []"
    by (rule un_getter [OF ok fuel, of ?args ks]) (use sorted in \<open>simp_all add: pushing_def\<close>)
  let ?fs = "found_entries u_position xs ks"
  have all: "\<forall>p \<in> set ?fs. u_position (snd p) > 0 \<and> chunk_at v crc32 False ?buf (u_position (snd p)) = Ok (the (map_of ?kv (fst p)))"
  proof
    fix p assume "p \<in> set ?fs"
    from un_found_entries [OF xs this] show "u_position (snd p) > 0 \<and>
      chunk_at v crc32 False ?buf (u_position (snd p)) = Ok (the (map_of ?kv (fst p)))" by fastforce
  qed
  define out where "out = map (\<lambda>p. (fst p, ok_val (chunk_at v crc32 False ?buf (u_position (snd p)))))
    (sort_key (\<lambda>p. u_position (snd p)) ?fs)"
  have "tf_get_multiple (un_ops fuel cbrt v crc32 eser esser edes esdes :: (_, _, _, 'cs) root_ops) ks tx tf = Ok out"
    using run all by (simp add: tf_get_multiple_def read_positions_pushing out_def res_map_def)
  moreover have "mset out = mset (map (\<lambda>p. (fst p, the (map_of ?kv (fst p)))) ?fs)"
  proof -
    have "image_mset (\<lambda>p. (fst p, ok_val (chunk_at v crc32 False ?buf (u_position (snd p))))) (mset ?fs) =
        image_mset (\<lambda>p. (fst p, the (map_of ?kv (fst p)))) (mset ?fs)"
      by (rule image_mset_cong) (use all in simp)
    then show ?thesis by (simp add: out_def)
  qed
  moreover have "map (\<lambda>p. (fst p, the (map_of ?kv (fst p)))) ?fs = map (\<lambda>k. (k, the (map_of ?kv k))) (map fst ?fs)" by simp
  ultimately show thesis using found_entries_keys [OF xs, of ks] by (intro that) simp_all
qed

section \<open>Scans\<close>

lemma un_scanner:
  fixes tf :: "('e, 'es) unversioned_root tree_file"
  assumes ok: "un_file_ok v crc32 edes esdes nr kr nw kw tf" and fuel: "seen tx nr nw < fuel"
    and reads: "node_evaluator args = read_all"
  obtains xs where "un_stores v crc32 (mf_buffer (tf_file tf)) xs (seen tx kr kw)"
    and "tree_scanner (un_ops fuel cbrt v crc32 eser esser edes esdes :: (_, _, _, 'cs) root_ops) tx args r tf c =
      scan_list args u_position (chunk_at v crc32 False (mf_buffer (tf_file tf)))
        (in_direction (forwards args) (filter (\<lambda>p. range_contains r (fst p)) xs)) c"
proof -
  from ok obtain a xs where a: "read_state tx tf = Ok a"
      "nwf (un_node v crc32 edes esdes (mf_buffer (tf_file tf))) (un_id_reducer (as_root a)) (seen tx nr nw)
        (node (un_by_id_root (as_root a)))"
    and xs: "ksorted xs" "un_stores v crc32 (mf_buffer (tf_file tf)) xs (seen tx kr kw)"
      "xs = nflat (un_node v crc32 edes esdes (mf_buffer (tf_file tf))) (seen tx nr nw) (node (un_by_id_root (as_root a)))"
    by (rule un_read_state)
  have reads': "\<And>s k st d. node_evaluator args s k st d = (ReadData, s)" by (simp add: reads read_all_def)
  show thesis
    by (rule that [OF xs(2)])
      (use a(1) scan_eq [OF a(2) xs(1) [unfolded xs(3)] fuel reads'] xs(3) in
        \<open>simp add: tree_scanner_def tree_value_un\<close>)
qed

lemma un_stores_filter:
  assumes "un_stores v crc32 buf xs kv"
  shows "un_stores v crc32 buf (in_direction fwd (filter (\<lambda>p. P (fst p)) xs)) (in_direction fwd (filter (\<lambda>p. P (fst p)) kv))"
proof -
  have "list_all2 (un_stored v crc32 buf) (filter (\<lambda>p. P (fst p)) xs) (filter (\<lambda>p. P (fst p)) kv)"
    using assms unfolding un_stores_def by (induction rule: list_all2_induct) (auto simp: un_stored_def)
  then show ?thesis by (simp add: un_stores_def in_direction_def)
qed

lemma scan_list_pushing:
  assumes "un_stores v crc32 buf xs kv"
  shows "scan_list \<lparr>forwards = fwd, node_evaluator = ne, key_evaluator = (\<lambda>c k i. (ReadData, c)),
      data_callback = (\<lambda>c k i val. (Ok (), c @ [(k, val)]))\<rparr> u_position (chunk_at v crc32 False buf) xs c =
    (Ok True, c @ kv)"
  using assms unfolding un_stores_def
proof (induction arbitrary: c rule: list_all2_induct)
  case (Cons x xs y kv)
  then show ?case by (cases x; cases y) (auto simp: visit_entry_def un_stored_def word_gt_0)
qed simp

lemma un_get_range:
  fixes tf :: "('e, 'es) unversioned_root tree_file"
  assumes ok: "un_file_ok v crc32 edes esdes nr kr nw kw tf" and fuel: "seen tx nr nw < fuel"
  shows "tf_get_range (un_ops fuel cbrt v crc32 eser esser edes esdes :: (_, _, _, 'cs) root_ops) r tx tf =
    Ok (filter (\<lambda>p. range_contains r (fst p)) (seen tx kr kw))"
proof -
  let ?args = "\<lparr>forwards = True, node_evaluator = read_all,
    key_evaluator = (\<lambda>c k (i :: 'e unversioned_by_id). (ReadData, c)),
    data_callback = (\<lambda>c k i val. (Ok (), c @ [(k, val)]))\<rparr>
    :: ('e unversioned_by_id, 'es by_id_stats, (bytes \<times> bytes) list) scan_args"
  have ne: "node_evaluator ?args = read_all" by simp
  obtain xs where xs: "un_stores v crc32 (mf_buffer (tf_file tf)) xs (seen tx kr kw)"
    and run: "tree_scanner (un_ops fuel cbrt v crc32 eser esser edes esdes :: (_, _, _, 'cs) root_ops) tx ?args r tf [] =
      scan_list ?args u_position (chunk_at v crc32 False (mf_buffer (tf_file tf)))
        (in_direction (forwards ?args) (filter (\<lambda>p. range_contains r (fst p)) xs)) []"
    by (rule un_scanner [OF ok fuel ne])
  show ?thesis
    using run un_stores_filter [OF xs, of True "range_contains r"]
    by (simp add: tf_get_range_def tf_scan_def in_direction_def res_map_def scan_list_pushing)
qed

lemma in_direction_all: "in_direction fwd (filter (\<lambda>p. range_contains (Unbounded, Unbounded) (fst p)) xs) = in_direction fwd xs"
  by (simp add: range_contains_def)

text \<open>\<^verbatim>\<open>first\<close> and \<^verbatim>\<open>last\<close>: the first entry in the direction of the scan.\<close>

lemma scan_list_one_entry:
  assumes "un_stores v crc32 buf (xs :: (bytes \<times> 'e unversioned_by_id) list) kv"
  shows "\<exists>b. scan_list (one_entry_args fwd :: ('e unversioned_by_id, 'r, _) scan_args) u_position (chunk_at v crc32 False buf) xs (None, False) =
    (Ok b, (case kv of [] \<Rightarrow> None | p # _ \<Rightarrow> Some p), kv \<noteq> [])"
proof -
  let ?args = "one_entry_args fwd :: ('e unversioned_by_id, 'r, _) scan_args"
  show ?thesis
  proof (cases xs)
    case Nil
    with assms have "kv = []" by (simp add: un_stores_def)
    with Nil show ?thesis by auto
  next
    case (Cons x xs')
    with assms obtain y kv' where kv: "kv = y # kv'" "un_stored v crc32 buf x y" by (auto simp: un_stores_def list_all2_Cons1)
    then have first: "visit_entry ?args u_position (chunk_at v crc32 False buf) (fst x) (snd x) (None, False) =
        (Ok True, (Some y, True))"
      by (cases y) (auto simp: visit_entry_def one_entry_args_def un_stored_def word_gt_0)
    show ?thesis
    proof (cases xs')
      case Nil
      with Cons kv first show ?thesis by (cases x) auto
    next
      case (Cons x2 xs2)
      have "visit_entry ?args u_position (chunk_at v crc32 False buf) (fst x2) (snd x2) (Some y, True) =
          (Ok False, (Some y, True))" by (simp add: visit_entry_def one_entry_args_def)
      with Cons kv first \<open>xs = x # xs'\<close> show ?thesis by (cases x; cases x2) auto
    qed
  qed
qed

lemma un_first_last:
  fixes tf :: "('e, 'es) unversioned_root tree_file"
  assumes ok: "un_file_ok v crc32 edes esdes nr kr nw kw tf" and fuel: "seen tx nr nw < fuel"
  shows "tf_first (un_ops fuel cbrt v crc32 eser esser edes esdes :: (_, _, _, 'cs) root_ops) tx tf =
      Ok (case seen tx kr kw of [] \<Rightarrow> None | p # _ \<Rightarrow> Some p)"
    and "tf_last (un_ops fuel cbrt v crc32 eser esser edes esdes :: (_, _, _, 'cs) root_ops) tx tf =
      Ok (case rev (seen tx kr kw) of [] \<Rightarrow> None | p # _ \<Rightarrow> Some p)"
proof -
  have one: "\<exists>b. tree_scanner (un_ops fuel cbrt v crc32 eser esser edes esdes :: (_, _, _, 'cs) root_ops) tx (one_entry_args fwd :: ('e unversioned_by_id, 'es by_id_stats, (bytes \<times> bytes) option \<times> bool) scan_args)
      (Unbounded, Unbounded) tf (None, False) =
    (Ok b, (case in_direction fwd (seen tx kr kw) of [] \<Rightarrow> None | p # _ \<Rightarrow> Some p),
     in_direction fwd (seen tx kr kw) \<noteq> [])" for fwd
  proof -
    have ne: "node_evaluator (one_entry_args fwd :: ('e unversioned_by_id, 'es by_id_stats, (bytes \<times> bytes) option \<times> bool) scan_args) = read_all"
      by (simp add: one_entry_args_def)
    obtain xs where xs: "un_stores v crc32 (mf_buffer (tf_file tf)) xs (seen tx kr kw)"
      and run: "tree_scanner (un_ops fuel cbrt v crc32 eser esser edes esdes :: (_, _, _, 'cs) root_ops) tx (one_entry_args fwd :: ('e unversioned_by_id, 'es by_id_stats, (bytes \<times> bytes) option \<times> bool) scan_args)
          (Unbounded, Unbounded) tf (None, False) =
        scan_list (one_entry_args fwd :: ('e unversioned_by_id, 'es by_id_stats, (bytes \<times> bytes) option \<times> bool) scan_args) u_position (chunk_at v crc32 False (mf_buffer (tf_file tf)))
          (in_direction (forwards (one_entry_args fwd :: ('e unversioned_by_id, 'es by_id_stats, (bytes \<times> bytes) option \<times> bool) scan_args))
            (filter (\<lambda>p. range_contains (Unbounded, Unbounded) (fst p)) xs)) (None, False)"
      by (rule un_scanner [OF ok fuel ne])
    have "un_stores v crc32 (mf_buffer (tf_file tf)) (in_direction fwd xs) (in_direction fwd (seen tx kr kw))"
      using un_stores_filter [OF xs, of fwd "range_contains (Unbounded, Unbounded)"] by (simp add: in_direction_all)
    from scan_list_one_entry [OF this, of fwd] run show ?thesis by (simp add: in_direction_all one_entry_args_def)
  qed
  from one [of True] one [of False] show "tf_first (un_ops fuel cbrt v crc32 eser esser edes esdes :: (_, _, _, 'cs) root_ops) tx tf =
      Ok (case seen tx kr kw of [] \<Rightarrow> None | p # _ \<Rightarrow> Some p)"
    "tf_last (un_ops fuel cbrt v crc32 eser esser edes esdes :: (_, _, _, 'cs) root_ops) tx tf =
      Ok (case rev (seen tx kr kw) of [] \<Rightarrow> None | p # _ \<Rightarrow> Some p)"
    by (auto simp: tf_first_def tf_last_def tf_scan_def in_direction_def res_map_def)
qed

section \<open>Readers while a file grows\<close>

text \<open>
  A file that has grown, with the same readers' state: whatever the writer's state has become, a reader
  gets what it got before.
\<close>

lemma un_readers_keep:
  fixes tf :: "('e, 'es) unversioned_root tree_file"
  assumes ok: "un_file_ok v crc32 edes esdes nr kr nw kw tf" and fuel: "nr < fuel"
    and grown: "\<exists>rest. mf_buffer (tf_file tf') = mf_buffer (tf_file tf) @ rest"
    and same: "tf_id tf' = tf_id tf" "st_reader (tf_state tf') = st_reader (tf_state tf)"
  shows "tf_get (un_ops fuel cbrt v crc32 eser esser edes esdes :: (_, _, _, 'cs) root_ops) key False tf' = Ok (map_of kr key)"
    and "tf_get_range (un_ops fuel cbrt v crc32 eser esser edes esdes :: (_, _, _, 'cs) root_ops) r False tf' =
      Ok (filter (\<lambda>p. range_contains r (fst p)) kr)"
proof -
  let ?ops = "un_ops fuel cbrt v crc32 eser esser edes esdes :: (_, _, _, 'cs) root_ops"
  let ?buf = "mf_buffer (tf_file tf')"
  define tf2 where "tf2 = tf'\<lparr>tf_state := \<lparr>st_reader = st_reader (tf_state tf),
    st_writer = (st_writer (tf_state tf))\<lparr>as_position := of_nat (length ?buf)\<rparr>\<rparr>\<rparr>"
  have "keeps_chunks v crc32 (mf_buffer (tf_file tf)) ?buf" using grown by auto
  then have ok2: "un_file_ok v crc32 edes esdes nr kr nw kw tf2"
    using ok same un_holds_keeps by (fastforce simp: un_file_ok_def tf2_def)
  have "read_state False tf' = read_state False tf2" "tf_file tf' = tf_file tf2"
    using same by (simp_all add: read_state_def tf2_def)
  then have "tf_get ?ops key False tf' = tf_get ?ops key False tf2" "tf_get_range ?ops r False tf' = tf_get_range ?ops r False tf2"
    by (simp_all only: tf_get_def tree_getter_def tree_value_def tf_get_range_def tf_scan_def tree_scanner_def)
  then show "tf_get ?ops key False tf' = Ok (map_of kr key)"
    "tf_get_range ?ops r False tf' = Ok (filter (\<lambda>p. range_contains r (fst p)) kr)"
    using un_get [OF ok2, of False fuel cbrt eser esser key, where 'cs = 'cs]
      un_get_range [OF ok2, of False fuel cbrt eser esser r, where 'cs = 'cs] fuel by (simp_all add: seen_def)
qed

end
