(* ===== verification/Un_Durable.thy ===== *)
theory Un_Durable
  imports Un_Queries
begin

text \<open>
  An unversioned tree file across a restart: the published state is the one found when the file is
  opened again.
\<close>

lemma chunk_at_unvalidated: "chunk_at v crc32 True buf p = Ok x \<Longrightarrow> chunk_at v crc32 False buf p = Ok x"
  by (auto simp: chunk_at_def read_chunk_split Let_def split: prod.splits res.splits if_splits)

context embedded_reducer
begin

lemmas unversioned_stats_of_contents = unversioned_stats.stats_of_contents

end

sublocale un_tree \<subseteq> un_durable: durable_root
    "un_ops fuel cbrt v crc32 eser esser edes esdes :: (('e, 'es) unversioned_root, 'e unversioned_by_id, 'es by_id_stats, 'cs) root_ops"
    "un_holds v crc32 edes esdes n" "\<lambda>t t'. un_reducer t = un_reducer t'"
  for fuel cbrt crc32 n
  by unfold_locales (auto dest: un_appending_root.modify_appends un_appending_root.serialize_appends)

context un_tree
begin

lemma un_modifier_saved:
  fixes tf :: "('e, 'es) unversioned_root tree_file"
  assumes "un_file_ok v crc32 edes esdes nr kr nw kw tf" and "length (mf_buffer (tf_file tf)) < 2 ^ 64"
    and "tree_modifier (un_ops fuel cbrt v crc32 eser esser edes esdes :: (_, _, _, 'cs) root_ops) m tf = (Ok results, op', tf')"
    and "persistence_transaction_id (persistence_mode m) = None"
    and "length (mf_buffer (tf_file tf')) + 260 < 2 ^ 64"
  shows "\<exists>page. saved_at (un_ops fuel cbrt v crc32 eser esser edes esdes :: (_, _, _, 'cs) root_ops) page
    (mf_buffer (tf_file tf')) (as_root (st_writer (tf_state tf')))"
  by (rule un_durable.modifier_saved(1) [OF _ assms(2-5)]) (use assms(1) in \<open>simp add: un_file_ok_def\<close>)

text \<open>Nodes that are written.\<close>

lemma un_node_round_trip:
  "ser_entry (write_chunk v crc32) (ser_unversioned eser) (ser_by_id_stats esser) e w = (Ok b, e', w') \<Longrightarrow>
     des_entry (des_unversioned edes) (des_by_id_stats esdes) b = Ok e' \<and> \<not> dirty e' \<and> stats red e' = stats red e"
  by (rule un_store.node_round_trip)

lemma un_node_written:
  "pw_inv w \<Longrightarrow> ser_entry (write_chunk v crc32) (ser_unversioned eser) (ser_by_id_stats esser) e w = (Ok b, e', w') \<Longrightarrow>
     pw_fits w' \<Longrightarrow> nwf (un_node v crc32 edes esdes (pw_image w)) red n (node e) \<Longrightarrow>
     nwf (un_node v crc32 edes esdes (pw_image w')) red n (node e') \<and>
     nflat (un_node v crc32 edes esdes (pw_image w')) n (node e') = nflat (un_node v crc32 edes esdes (pw_image w)) n (node e)"
  using un_store.ser_entry_ok [of w crc32 e b e' w' red n] by (simp add: un_image_eq)

text \<open>
  A header of a transaction that did not succeed, after one that did: the file opens with the earlier
  root.
\<close>

lemmas un_open_passes_over = un_durable.open_passes_over

text \<open>A file opened on the bytes of a saved file, and on what was appended to them without a header.\<close>

lemma un_open_saved:
  assumes saved: "saved_at (un_ops fuel cbrt v crc32 eser esser edes esdes :: (_, _, _, 'cs) root_ops) p buf root"
    and holds: "un_holds v crc32 edes esdes n buf root kv"
    and red: "un_reducer root = un_reducer (as_root (st_writer st))" "embedded_reducer (e_reducer (un_reducer root))"
    and order: "\<forall>o'. as_max_order (st_writer st) = Some o' \<longrightarrow> 4 \<le> o'"
    and fits: "length buf + 260 < 2 ^ 64" and tail: "last_header p (buf @ rest)"
    and tx: "not_successful manager (un_get_transaction_id root) = Ok False"
    and fresh: "\<not> un_initialized (as_root (st_reader st))" "\<not> un_initialized (as_root (st_writer st))"
  shows "\<exists>tf. fst (tree_open (un_ops fuel cbrt v crc32 eser esser edes esdes :: (_, _, _, 'cs) root_ops) manager
      \<lparr>mf_buffer = buf @ rest, mf_position = pos\<rparr> file_id st) = Ok tf \<and> un_file_ok v crc32 edes esdes n kv n kv tf"
proof -
  let ?ops = "un_ops fuel cbrt v crc32 eser esser edes esdes :: (_, _, _, 'cs) root_ops"
  define a where "a = (st_writer st)\<lparr>as_file_id := file_id, as_root := root, as_position := of_nat (length (buf @ rest))\<rparr>"
  have "initialize_state ?ops manager file_id (buf @ rest) st = (Ok (), \<lparr>st_reader = a, st_writer = a\<rparr>)"
    using un_durable.open_saved [OF saved red(1) fits tail, of manager file_id] tx fresh by (simp add: a_def Let_def)
  then have "fst (tree_open ?ops manager \<lparr>mf_buffer = buf @ rest, mf_position = pos\<rparr> file_id st) =
      Ok (tree_file_new \<lparr>mf_buffer = buf @ rest, mf_position = pos\<rparr> file_id \<lparr>st_reader = a, st_writer = a\<rparr>)"
    by (simp add: tree_open_def)
  moreover have "un_holds v crc32 edes esdes n (buf @ rest) root kv" by (rule un_holds_keeps [OF keeps_chunks_append holds])
  then have "un_file_ok v crc32 edes esdes n kv n kv
      (tree_file_new \<lparr>mf_buffer = buf @ rest, mf_position = pos\<rparr> file_id \<lparr>st_reader = a, st_writer = a\<rparr>)"
    using red(2) order by (simp add: un_file_ok_def tree_file_new_def a_def)
  ultimately show ?thesis by blast
qed

end

end
