(* ===== verification/Sample_File.thy ===== *)
theory Sample_File
  imports Un_Durable
begin

text \<open>
  A concrete tree file on which the properties of the development are applied: no vault, no embedded
  index, a constant checksum, an empty file with default roots.
\<close>

definition no_index :: "(unit, unit) embedded_indexer" where
  "no_index = \<lparr>index = (\<lambda>k val. ()), e_reducer = unit_reducer\<rparr>"

definition no_crc :: "bytes \<Rightarrow> u32" where
  "no_crc b = 0"

definition no_root :: "nat \<Rightarrow> nat" where
  "no_root n = 0"

definition sample_file :: "(unit, unit) unversioned_root tree_file" where
  "sample_file = tree_file_new \<lparr>mf_buffer = [], mf_position = 0\<rparr> None
     (state_new None None (un_initialize_default (un_default_with no_index)))"

abbreviation sample_ops :: "(_, _, _, 'cs) root_ops" where
  "sample_ops \<equiv> un_ops 100 no_root None no_crc unit_ser unit_ser unit_des unit_des"

lemma no_index_reducer: "embedded_reducer (e_reducer no_index)"
  using unit_reducer_law.embedded_reducer_axioms by (simp add: no_index_def)

lemma sample_ready: "un_ready None no_crc unit_des unit_des 100 0 [] 0 [] sample_file"
  using no_index_reducer
  by (simp add: un_ready_def un_file_ok_def un_holds_def sample_file_def tree_file_new_def state_new_def
      un_default_with_def un_initialize_default_def root_ok_default un_stores_def has_room_def chunk_limit_def Let_def)

lemma sample_file_ok: "un_file_ok None no_crc unit_des unit_des 0 [] 0 [] sample_file"
  using sample_ready by (simp add: un_ready_def)

lemma short_storable: "length b < 2 ^ 32 \<Longrightarrow> storable None b"
  by (simp add: storable_def encrypt_with_def)

text \<open>The same file after \<^verbatim>\<open>set\<close> in a transaction.\<close>

definition sample_one :: "(unit, unit) unversioned_root tree_file" where
  "sample_one = snd (tf_set (sample_ops :: (_, _, _, unit) root_ops) (Transactional 1) [1] [2] sample_file)"

lemma sample_one_ready:
  obtains n where "un_ready None no_crc unit_des unit_des 100 0 [] n [([1], [2])] sample_one" and "n \<le> 1"
proof -
  obtain n tf' results where run: "tree_modifier (sample_ops :: (_, _, _, unit) root_ops)
      (single (Transactional 1) [1] (OpSet [2])) sample_file = (Ok results, OpSet [2], tf')"
    and tf': "length (mf_buffer (tf_file tf')) \<le> length (mf_buffer (tf_file sample_file)) + 4 + chunk_limit"
      "n \<le> 0 + 1" "un_file_ok None no_crc unit_des unit_des 0 [] n (update_contents [1] (KeySet [2]) []) tf'"
    by (rule un_plain.un_transaction_one [OF sample_ready, where op = "OpSet [2]" and d = "KeySet [2]" and
        k = "[1]" and op_after = "\<lambda>i. OpSet [2]" and cbrt = no_root and tx = 1])
      (auto simp: reverse_operation_def short_storable)
  have "sample_one = tf'" by (simp add: sample_one_def tf_set_def run)
  moreover have "length (mf_buffer (tf_file sample_file)) = 0" by (simp add: sample_file_def tree_file_new_def)
  ultimately show thesis using tf'
    by (intro that [of n]) (simp_all add: un_ready_def has_room_def chunk_limit_def upd_sorted_def)
qed

text \<open>The same file after \<^verbatim>\<open>set\<close> outside of a transaction: the modification of the root, and the file.\<close>

abbreviation sample_set :: "(bytes, unit unversioned_by_id, unit) operation" where
  "sample_set \<equiv> OpSet [2]"

lemma sample_modify:
  fixes w :: paged_writer
  assumes w: "write_chunk None no_crc [2] w = (Ok p, w')"
  shows "\<exists>i t'. un_modify 100 no_root None no_crc unit_des unit_des None (single mode [1] sample_set)
      (un_initialize_default (un_default_with no_index)) w = (Ok [\<lparr>mr_key = [1], mr_index = Some i\<rparr>], sample_set, t', w') \<and>
    un_transaction_id t' \<noteq> None \<and> un_reducer t' = no_index \<and> un_by_id_root t' = BTreeEntry True (Leaf [KeyEntry [1] i])"
proof -
  let ?i = "\<lparr>u_value_length = 1, u_position = p, u_embedded = ()\<rparr>"
  let ?m = "\<lparr>persistence_mode = mode, keys = [[1]], operation = sample_set\<rparr>"
  have leaf: "modify (Suc n) (un_context None no_crc no_index 4 1) rd None default_entry ?m [] w =
      (Ok Changed, BTreeEntry True (Leaf [KeyEntry [1] ?i]), ?m\<lparr>keys := []\<rparr>, [\<lparr>mr_key = [1], mr_index = Some ?i\<rparr>], w')" for n rd
  proof -
    define ctx where "ctx = un_context None no_crc no_index 4 1"
    have op: "unmatched_operation ctx [1] sample_set [] w = (Ok (KeySet ?i), sample_set, [\<lparr>mr_key = [1], mr_index = Some ?i\<rparr>], w')"
      using w by (simp add: ctx_def un_context_def un_indexer_def no_index_def Let_def)
    have "modify_leaf_loop ctx 4 None 0 False [] ?m [] w =
        (Ok True, [KeyEntry [1] ?i], ?m\<lparr>keys := []\<rparr>, [\<lparr>mr_key = [1], mr_index = Some ?i\<rparr>], w')"
      using op
      by (simp add: modify_leaf_loop.simps [of ctx] Let_def exceeds_def binary_search_def binary_search_loop.simps insert_nth_def
          del: unmatched_operation.simps)
    moreover have "current_order ctx = 4" "minimum_children ctx = 1" by (simp_all add: ctx_def un_context_def)
    ultimately show ?thesis
      unfolding ctx_def [symmetric] by (simp add: default_entry_def from_node_def modify_leaf_def clean_up_leaf_def)
  qed
  have "stats (un_id_reducer (un_initialize_default (un_default_with no_index))) default_entry =
      Ok \<lparr>alive_keys = 0, deleted_keys = 0, total_indexed_bytes = 0, s_embedded = ()\<rparr>"
    by (simp add: un_id_reducer_def unversioned_reducer_def by_id_reducer_def default_entry_def from_node_def)
  moreover have "dynamic_order no_root 1 None = 4" "minimum_children_for 4 1 = 1"
    by (simp_all add: dynamic_order_def default_max_order_def no_root_def minimum_children_for_def)
  ultimately show ?thesis
    using leaf [of 99 "un_reader None no_crc unit_des unit_des"]
    by (simp add: un_modify_def un_modify_id_root_def single_def reverse_def reverse_operation_def
        un_initialize_default_def un_default_with_def total_keys_def Let_def res_map_def split: option.splits)
qed

definition sample_saved :: "(unit, unit) unversioned_root tree_file" where
  "sample_saved = snd (tf_set (sample_ops :: (_, _, _, unit) root_ops) Sync [1] [2] sample_file)"

lemma sample_serialize:
  assumes "un_transaction_id t \<noteq> None" and "un_by_id_root t = BTreeEntry True (Leaf [KeyEntry [1] i])"
  shows "\<exists>b t'. un_serialize None no_crc unit_ser unit_ser t w = (Ok b, t', w) \<and> length b = 28 \<and> un_reducer t' = un_reducer t"
  using assms
  by (auto simp: un_serialize_def ser_key_entry_def put_key_def ser_unversioned_def unit_ser_def res_map_def)

lemma sample_saved_run:
  obtains i where "tf_set (sample_ops :: (_, _, _, unit) root_ops) Sync [1] [2] sample_file = (Ok i, sample_saved)"
    and "length (mf_buffer (tf_file sample_saved)) \<le> 400"
    and "un_reducer (as_root (st_writer (tf_state sample_saved))) = no_index"
proof -
  let ?a = "st_writer (tf_state sample_file)" and ?ops = "sample_ops :: (_, _, _, unit) root_ops"
  define P where "P = (\<lambda>w results (op' :: (bytes, unit unversioned_by_id, unit) operation) (root :: (unit, unit) unversioned_root) w'.
    (\<exists>i. results = [\<lparr>mr_key = [1], mr_index = Some i\<rparr>] \<and> un_transaction_id root \<noteq> None \<and> un_reducer root = no_index \<and>
      un_by_id_root root = BTreeEntry True (Leaf [KeyEntry [1] i])) \<and>
    pw_appends (chunk_bytes no_crc [2]) w w')"
  have a: "as_root ?a = un_initialize_default (un_default_with no_index)" "as_max_order ?a = None"
    "as_file_id ?a = tf_id sample_file" "as_position ?a = of_nat (length (mf_buffer (tf_file sample_file)))"
    "mf_buffer (tf_file sample_file) = []"
    by (simp_all add: sample_file_def tree_file_new_def state_new_def Let_def)
  have modify: "\<exists>results op' root w'. ro_modify ?ops (as_max_order ?a) (single Sync [1] sample_set) (as_root ?a) w =
      (Ok results, op', root, w') \<and> P w results op' root w'" if w: "fresh_writer (mf_buffer (tf_file sample_file)) w" for w
  proof -
    have "pw_inv w" "encrypt_with None [2] = Ok [2]" "length [2 :: u8] < 2 ^ 32"
      using w by (simp_all add: fresh_writer_def pw_started_def encrypt_with_def)
    then obtain w' where w': "write_chunk None no_crc [2] w = (Ok (of_nat (length (pw_image w))), w')"
      "pw_appends (chunk_bytes no_crc [2]) w w'" by (rule write_chunk_ok)
    from sample_modify [OF w'(1), of Sync] w'(2) show ?thesis by (auto simp: a P_def)
  qed
  obtain w results op' root w' where w: "fresh_writer (mf_buffer (tf_file sample_file)) w" and P: "P w results op' root w'"
    and run: "tree_modifier ?ops (single Sync [1] sample_set) sample_file =
      (let a = ?a; stored = (\<lambda>a' file. sample_file\<lparr>tf_file := file, tf_state := (tf_state sample_file)\<lparr>st_writer := a'\<rparr>\<rparr>) in
       if persistence_transaction_id (persistence_mode (single Sync [1] sample_set)) \<noteq> None
       then (Ok results, op', stored (a\<lparr>as_root := root, as_position := snd (pw_finish w')\<rparr>) (fst (pw_finish w')))
       else (case save_tree ?ops (a\<lparr>as_root := root\<rparr>) w' of
          (Ok u, a', file) \<Rightarrow>
            (let tf' = stored a' file in (Ok results, op', tf'\<lparr>tf_state := publish (tf_state tf')\<rparr>))
        | (bad, a', file) \<Rightarrow> (lift_err bad, op', stored a' file)))"
    by (rule tree_modifier_run [of sample_file ?ops "single Sync [1] sample_set" P]) (use a modify in simp_all)
  from P obtain b t' where ser: "un_serialize None no_crc unit_ser unit_ser root w' = (Ok b, t', w')" "length b = 28"
    "un_reducer t' = no_index"
    using sample_serialize [of root _ w'] by (auto simp: P_def)
  have w': "pw_inv w'" "length (pw_image w') = 13"
    using P w by (auto simp: P_def pw_appends_def fresh_writer_def a nbr_def)
  obtain a' f where save: "save_tree ?ops (?a\<lparr>as_root := root\<rparr>) w' = (Ok (), a', f)"
    and f: "mf_buffer f = pw_image w' @ replicate (page_padding (length (pw_image w'))) (ro_header ?ops) @ nbr @ [ro_header ?ops] @
      chunk_bytes no_crc b" and a': "as_root a' = t'"
    by (rule un_plain.un_file.save_succeeds [OF w'(1), of 100 no_root no_crc "?a\<lparr>as_root := root\<rparr>" b t' w' b, unfolded un_ops_simps])
      (use ser w' in \<open>simp_all add: encrypt_with_def\<close>)
  have "length (mf_buffer f) \<le> 400" using f w'(2) ser(2) by (simp add: page_padding_def page_size_def nbr_def)
  with run save P a' ser(3) show thesis
    by (auto simp: P_def Let_def publish_def single_def tf_set_def first_index_def sample_saved_def intro!: that)
qed

lemma sample_saved_ok:
  obtains n where "un_file_ok None no_crc unit_des unit_des n [([1], [2])] n [([1], [2])] sample_saved" and "n \<le> 1"
proof -
  let ?ops = "sample_ops :: (_, _, _, unit) root_ops"
  obtain i where set: "tf_set ?ops Sync [1] [2] sample_file = (Ok i, sample_saved)"
    and len: "length (mf_buffer (tf_file sample_saved)) \<le> 400" by (rule sample_saved_run)
  obtain r op' tf' where run: "tree_modifier ?ops (single Sync [1] sample_set) sample_file = (r, op', tf')" by (metis prod_cases3)
  with set obtain results where r: "r = Ok results" and tf': "tf' = sample_saved" by (cases r) (auto simp: tf_set_def)
  from sample_ready have ready: "has_room 1 sample_file" "length ([] :: (bytes \<times> bytes) list) + 1 < 2 ^ 64" "(0 + 1) * 3 + 1 \<le> (100 :: nat)"
    by (simp_all add: un_ready_def)
  have "value_decision [1] j (map_of [] [1]) sample_set = Some (KeySet [2], sample_set)" for j by simp
  from un_plain.un_modifier_one [OF sample_file_ok ready refl _ this _ run] r len tf' show thesis
    by (auto simp: reverse_operation_def short_storable upd_sorted_def intro: that)
qed

text \<open>Two saved headers, the second of transaction 5.\<close>

definition empty_root :: "transaction_id \<Rightarrow> (unit, unit) unversioned_root" where
  "empty_root i = \<lparr>un_transaction_id = Some i, un_by_id_root = BTreeEntry False (Leaf []), un_reducer = no_index\<rparr>"

definition empty_header :: "transaction_id \<Rightarrow> bytes" where
  "empty_header i = nbr @ [unversioned_header] @ chunk_bytes no_crc (u64_be i @ u32_be 1 @ [1])"

definition fresh_state :: "(unit, unit) unversioned_root state" where
  "fresh_state = state_new None None (un_default_with no_index)"

lemma empty_root_saved:
  "saved_at (sample_ops :: (_, _, _, unit) root_ops) (header_block pre)
     (pre @ replicate (page_padding (length pre)) unversioned_header @ empty_header i) (empty_root i)"
proof -
  have "ro_serialize (sample_ops :: (_, _, _, unit) root_ops) (empty_root i) w = (Ok (u64_be i @ u32_be 1 @ [1]), empty_root i, w)" for w
    by (simp add: un_serialize_def empty_root_def res_map_def)
  moreover have "encrypt_with None (u64_be i @ u32_be 1 @ [1]) = Ok (u64_be i @ u32_be 1 @ [1])" by (simp add: encrypt_with_def)
  ultimately show ?thesis unfolding saved_at_def empty_header_def
    by (intro exI [of _ pre] exI conjI) simp_all
qed

end
