(* ===== verification/Node_Properties.thy ===== *)
theory Node_Properties
  imports Sample_File
begin

text \<open>
  Properties of the lower components: chunks and the paged writer, nodes and their encodings, the
  traversal and the modification of a tree, and the statistics of its nodes.
\<close>

section \<open>Chunks\<close>

text \<open>
  C30. What \<^verbatim>\<open>write_chunk\<close> writes, \<^verbatim>\<open>read_chunk\<close> returns, with or without checksum validation; every chunk that
  could be read before can still be read; and the writer only appends.
\<close>

theorem chunk_round_trip:
  assumes "chunk_vault v" and w: "pw_inv w" and run: "write_chunk v crc32 b w = (Ok p, w')" and fits: "pw_fits w'"
  shows "chunk_at v crc32 validate (pw_image w') p = Ok b \<and>
    (\<forall>q x. chunk_at v crc32 validate (pw_image w) q = Ok x \<longrightarrow> chunk_at v crc32 validate (pw_image w') q = Ok x) \<and>
    (\<exists>data. pw_image w' = pw_image w @ data)"
  using w run
proof (cases rule: write_chunk_cases)
  case (ok c)
  have "decrypt_with v c = Ok b" by (rule chunk_vault.decrypt_encrypt [OF assms(1) ok(1)])
  moreover have img: "pw_image w' = pw_image w @ chunk_bytes crc32 c @ []" using ok(4) by (simp add: pw_appends_def)
  moreover have "length (pw_image w) < 2 ^ 64" using fits img by (simp add: pw_fits_def)
  ultimately have "chunk_at v crc32 validate (pw_image w') (of_nat (length (pw_image w))) = Ok b"
    using chunk_at_here [OF ok(2), of v b "pw_image w" crc32 validate "[]"] by simp
  then show ?thesis using img ok(3) chunk_at_prefix by auto
qed simp

theorem chunk_round_trip_witness:
  "\<exists>w' p. write_chunk None no_crc [7, 8] \<lparr>pw_file = \<lparr>mf_buffer = [1], mf_position = 1\<rparr>, pw_position = 1, pw_offset = 0,
      pw_buffered = [0, 0, 0]\<rparr> = (Ok p, w') \<and> chunk_at None no_crc True (pw_image w') p = Ok [7, 8]"
proof -
  let ?w = "\<lparr>pw_file = \<lparr>mf_buffer = [1], mf_position = 1\<rparr>, pw_position = 1, pw_offset = 0, pw_buffered = [0, 0, 0]\<rparr>"
  have w: "pw_inv ?w" "encrypt_with None [7, 8] = Ok [7, 8]" "length [7 :: u8, 8] < 2 ^ 32"
    by (simp_all add: pw_inv_def encrypt_with_def)
  then obtain w' where run: "write_chunk None no_crc [7, 8] ?w = (Ok (of_nat (length (pw_image ?w))), w')"
    and app: "pw_appends (chunk_bytes no_crc [7, 8]) ?w w'" by (rule write_chunk_ok)
  have "pw_fits w'" using app by (simp add: pw_appends_def pw_fits_def pw_image_def)
  from chunk_round_trip [OF plain.chunk_vault_axioms w(1) run this] run show ?thesis by blast
qed

text \<open>
  A chunk whose bytes do not match its checksum is reported as damaged, whatever the vault.
\<close>

theorem damaged_chunk_detected:
  assumes "length pre < 2 ^ 64" and "length c < 2 ^ 32" and "crc \<noteq> crc32 c"
  shows "chunk_at v crc32 True (pre @ u32_be (of_nat (length c)) @ u32_be crc @ c @ post) (of_nat (length pre)) =
    Err (DataIntegrity (Message ''crc32 failure''))"
  using chunk_at_stored [OF assms(2,1), of v crc32 True crc post] assms(3) by simp

theorem damaged_chunk_detected_witness:
  "chunk_at None no_crc True ([] @ u32_be (of_nat (length [5 :: u8])) @ u32_be 1 @ [5] @ []) (of_nat (length ([] :: bytes))) =
    Err (DataIntegrity (Message ''crc32 failure''))"
  by (rule damaged_chunk_detected) (simp_all add: no_crc_def)

section \<open>Nodes\<close>

text \<open>
  C29. A node of an unversioned tree that is serialized is read back as it is kept in memory, now clean and
  with its children on disk, and with the same statistics; and the whole tree below it has the same
  contents in the file.
\<close>

theorem node_serialization_round_trip:
  fixes e :: "('e unversioned_by_id, 'es by_id_stats) entry"
  assumes tree: "un_tree v eser edes esser esdes" and w: "pw_inv w" and fits: "pw_fits w'"
    and run: "ser_entry (write_chunk v crc32) (ser_unversioned eser) (ser_by_id_stats esser) e w = (Ok b, e', w')"
    and wf: "nwf (un_node v crc32 edes esdes (pw_image w)) red n (node e)"
  shows "des_entry (des_unversioned edes) (des_by_id_stats esdes) b = Ok e' \<and> \<not> dirty e' \<and> stats red e' = stats red e \<and>
    nwf (un_node v crc32 edes esdes (pw_image w')) red n (node e') \<and>
    nflat (un_node v crc32 edes esdes (pw_image w')) n (node e') = nflat (un_node v crc32 edes esdes (pw_image w)) n (node e)"
  using un_tree.un_node_round_trip [OF tree run] un_tree.un_node_written [OF tree w run fits] wf by simp

theorem node_serialization_round_trip_witness:
  "\<exists>b e' w'. ser_entry (write_chunk None no_crc) (ser_unversioned unit_ser) (ser_by_id_stats unit_ser)
      (BTreeEntry True (Leaf [KeyEntry [1] \<lparr>u_value_length = 1, u_position = 4, u_embedded = ()\<rparr>]))
      \<lparr>pw_file = \<lparr>mf_buffer = [], mf_position = 0\<rparr>, pw_position = 0, pw_offset = 0, pw_buffered = [0]\<rparr> = (Ok b, e', w') \<and>
     des_entry (des_unversioned unit_des) (des_by_id_stats unit_des) b = Ok e'"
proof -
  let ?e = "BTreeEntry True (Leaf [KeyEntry [1] \<lparr>u_value_length = 1, u_position = 4, u_embedded = ()\<rparr>])"
  let ?w = "\<lparr>pw_file = \<lparr>mf_buffer = [], mf_position = 0\<rparr>, pw_position = 0, pw_offset = 0, pw_buffered = [0]\<rparr>"
  obtain b e' where run: "ser_entry (write_chunk None no_crc) (ser_unversioned unit_ser) (ser_by_id_stats unit_ser) ?e ?w = (Ok b, e', ?w)"
    by (simp add: ser_key_entry_def put_key_def ser_unversioned_def unit_ser_def res_map_def)
  have "pw_inv ?w" "pw_fits ?w" "nwf (un_node None no_crc unit_des unit_des (pw_image ?w)) (unversioned_reducer unit_reducer) 0 (node ?e)"
    by (simp_all add: pw_inv_def pw_fits_def pw_image_def)
  from node_serialization_round_trip [OF un_plain.un_tree_axioms this(1,2) run this(3)] run show ?thesis by blast
qed



definition two_leaves :: "(u64, unit) entry" where
  "two_leaves = BTreeEntry True (Interior
     [InteriorEntry [2] (Loaded None (BTreeEntry True (Leaf [KeyEntry [1] 10, KeyEntry [2] 20]))) (),
      InteriorEntry [4] (Loaded None (BTreeEntry True (Leaf [KeyEntry [3] 30, KeyEntry [4] 40]))) ()])"

lemma two_leaves_ok:
  "nwf (\<lambda>p. Panic) unit_reducer (Suc 0) (node two_leaves)"
  "nflat (\<lambda>p. Panic) (Suc 0) (node two_leaves) = [([1], 10), ([2], 20), ([3], 30), ([4], 40)]"
  by (simp_all add: two_leaves_def unit_reducer_def nwf.simps nflat.simps)

lemma two_leaves_sorted: "ksorted (nflat (\<lambda>p. Panic) (Suc 0) (node two_leaves))"
  by (simp add: two_leaves_ok)


text \<open>
  C27. \<^verbatim>\<open>get\<close> of ascending keys calls the evaluator for exactly the keys that the tree holds, in order, for any
  evaluator that does not stop.
\<close>

theorem get_visits_found_keys:
  assumes "\<forall>s k i. fst (get_evaluator args s k i) \<noteq> Stop" and "nwf f red n (node e)" and "ksorted (nflat f n (node e))"
    and "sorted_wrt (<) ks" and "n < fuel"
  shows "\<exists>kr. get fuel f args e (key_range_new ks) s =
    (fst (get_list args (nflat f n (node e)) ks s), kr, snd (get_list args (nflat f n (node e)) ks s))"
  by (rule get_eq [OF assms]) blast

theorem get_visits_found_keys_witness:
  "\<exists>kr. get 2 (\<lambda>p. Panic) \<lparr>get_evaluator = (\<lambda>c k i. (Skip, c @ [i])), get_reader = (\<lambda>c k i. (Ok (), c))\<rparr> two_leaves
     (key_range_new [[2], [3], [5]]) [] = (Ok True, kr, [20, 30])"
proof -
  let ?args = "\<lparr>get_evaluator = (\<lambda>c k i. (Skip, c @ [i])), get_reader = (\<lambda>c k i. (Ok (), c))\<rparr>"
  from get_visits_found_keys [of ?args, OF _ two_leaves_ok(1) two_leaves_sorted, of "[[2], [3], [5]]" 2 "[]"] show ?thesis
    by (simp add: two_leaves_ok get_entry_def)
qed

section \<open>Modification of a tree\<close>


definition empty_writer :: paged_writer where
  "empty_writer = \<lparr>pw_file = \<lparr>mf_buffer = [1], mf_position = 1\<rparr>, pw_position = 1, pw_offset = 0, pw_buffered = [0, 0, 0]\<rparr>"





text \<open>
  C34. The order of a tree stays within its bounds, for any cube root, and the least number of children below
  which a node is absorbed is positive and less than half of the order.
\<close>

theorem order_bounds:
  assumes "case max_order of None \<Rightarrow> True | Some n \<Rightarrow> 4 \<le> n" and "0 < records"
  shows "4 \<le> dynamic_order cbrt records max_order \<and>
    dynamic_order cbrt records max_order \<le> (case max_order of None \<Rightarrow> 1000 | Some n \<Rightarrow> n) \<and>
    1 \<le> minimum_children_for (dynamic_order cbrt records max_order) records \<and>
    2 * minimum_children_for (dynamic_order cbrt records max_order) records < dynamic_order cbrt records max_order"
proof -
  note order = dynamic_order_bounds [OF assms(1), of cbrt records]
  have "minimum_children_for k records \<le> k div 2 - 1" if "4 \<le> k" for k
    using that by (simp add: minimum_children_for_def)
  from this [OF order(1)] order(1)
  have "2 * minimum_children_for (dynamic_order cbrt records max_order) records < dynamic_order cbrt records max_order" by linarith
  with order minimum_children_for_bounds(1) [OF order(1) assms(2)] show ?thesis
    by (auto simp: default_max_order_def split: option.splits)
qed

theorem order_bounds_witness: "4 \<le> dynamic_order no_root 7 (Some 5) \<and> dynamic_order no_root 7 (Some 5) \<le> 5"
  using order_bounds [of "Some 5" 7 no_root] by simp






section \<open>Statistics\<close>

text \<open>
  C33. The statistics at the root of an unversioned tree count its keys: \<^verbatim>\<open>count\<close> returns the number of
  entries, and the total of their value lengths is kept with it, both modulo the width of the counters.
\<close>

theorem count_is_number_of_entries:
  assumes law: "embedded_reducer (e_reducer (un_reducer t))" and holds: "un_holds v crc32 edes esdes n buf t kv"
  shows "un_count t = Ok (of_nat (length kv)) \<and>
    res_map total_indexed_bytes (stats (un_id_reducer t) (un_by_id_root t)) =
      Ok (sum_list (map (\<lambda>p. ucast (of_nat (length (snd p)) :: u32)) kv))"
proof -
  let ?xs = "contents (un_node v crc32 edes esdes buf) n (un_by_id_root t)"
  have st: "stats (un_id_reducer t) (un_by_id_root t) = Ok (reduce (un_id_reducer t) (map snd ?xs))"
    using holds embedded_reducer.unversioned_stats_of_contents [OF law, of "un_node v crc32 edes esdes buf" n "un_by_id_root t"]
    by (simp add: un_holds_def root_ok_def contents_def un_id_reducer_def)
  have "list_all2 (un_stored v crc32 buf) ?xs kv" using holds by (simp add: un_holds_def un_stores_def)
  then have "sum_list (map (\<lambda>x. if u_position x > 0 then 1 else 0) (map snd ?xs)) = (of_nat (length kv) :: u64) \<and>
      sum_list (map (\<lambda>x. if u_position x > 0 then ucast (u_value_length x) else 0) (map snd ?xs)) =
        (sum_list (map (\<lambda>p. ucast (of_nat (length (snd p)) :: u32)) kv) :: u64)"
    by (induction rule: list_all2_induct) (auto simp: un_stored_def word_gt_0)
  then show ?thesis using st
    by (simp add: un_count_def un_id_reducer_def unversioned_reducer_def by_id_reducer_def res_map_def)
qed

theorem count_is_number_of_entries_witness:
  "un_count (as_root (st_writer (tf_state sample_saved))) = Ok 1"
proof -
  obtain n where n: "un_file_ok None no_crc unit_des unit_des n [([1], [2])] n [([1], [2])] sample_saved" by (rule sample_saved_ok)
  then have "un_holds None no_crc unit_des unit_des n (mf_buffer (tf_file sample_saved))
      (as_root (st_writer (tf_state sample_saved))) [([1], [2])]"
    "embedded_reducer (e_reducer (un_reducer (as_root (st_writer (tf_state sample_saved)))))"
    by (simp_all add: un_file_ok_def)
  from count_is_number_of_entries [OF this(2,1)] show ?thesis by simp
qed




section \<open>Sequences\<close>

text \<open>
  The index of a sequence range: comparing the big-endian bytes of the bounds selects exactly the sequence
  numbers in the range.
\<close>

theorem sequence_range_contains:
  "range_contains (borrow_as_bytes (u64_range_new r)) (u64_be x) \<longleftrightarrow> range_contains r x"
  by (rule borrowed_range_contains)

text \<open>
  The last index of a node by sequence does not read back whole: its embedded index, which takes up no space for
  the unit index, comes back as absent although one was written.
\<close>

theorem last_sequence_index_loses_embedded:
  assumes "ser_by_sequence unit_ser x = Ok b" and "q_last_sequence x \<noteq> Some 0" and "q_embedded x = Some ()"
  shows "des_by_sequence unit_des b = Ok (x\<lparr>q_embedded := None\<rparr>, [])"
proof -
  from assms(1,3) obtain k where k: "put_key (q_key x) = Ok k"
    and b: "b = u32_be (q_value_length x) @ u64_be (q_position x) @
        u64_be (case q_last_sequence x of Some s \<Rightarrow> s | None \<Rightarrow> 0) @ k"
    by (auto simp: ser_by_sequence_def unit_ser_def)
  have "take_key k = Ok (q_key x, [])" using take_put_key [OF k, of "[]"] by simp
  then show ?thesis using assms(2) unfolding des_by_sequence_def b
    by (cases x) (auto simp: sequence_valid_def word_gt_0 split: option.splits)
qed

theorem last_sequence_index_loses_embedded_witness:
  "\<exists>b. ser_by_sequence unit_ser \<lparr>q_key = [1], q_last_sequence = None, q_value_length = 1, q_position = 4, q_embedded = Some ()\<rparr> = Ok b \<and>
     des_by_sequence unit_des b = Ok (\<lparr>q_key = [1], q_last_sequence = None, q_value_length = 1, q_position = 4, q_embedded = None\<rparr>, [])"
proof -
  let ?x = "\<lparr>q_key = [1], q_last_sequence = None, q_value_length = 1, q_position = 4, q_embedded = Some ()\<rparr>"
  obtain b where b: "ser_by_sequence unit_ser ?x = Ok b" by (simp add: ser_by_sequence_def put_key_def unit_ser_def)
  from last_sequence_index_loses_embedded [OF b] b show ?thesis by simp
qed

definition six_entries :: "(bytes \<times> unit by_sequence_index) list" where
  "six_entries = map (\<lambda>k. ([k], \<lparr>q_key = [k], q_last_sequence = None, q_value_length = 1, q_position = 9, q_embedded = Some ()\<rparr>))
     [1, 2, 3, 4, 5, 6]"

text \<open>
  Compacting a versioned tree does not keep its sequence tree: of six entries five remain, under the keys of the
  entries instead of their sequence numbers, and the tree is left with one entry more than its order allows.
\<close>

theorem compaction_truncates_sequences:
  "case ve_truncate_sequences 100 no_root None no_crc unit_des six_entries
       (ve_initialize_default (ve_default_with no_index) :: (unit, unit) versioned_root) empty_writer of
     (r, t', w') \<Rightarrow> r = Ok () \<and> contents (\<lambda>p. Panic) 0 (ve_by_sequence_root t') = tl six_entries"
proof -
  have order: "dynamic_order no_root 6 None = 4" "minimum_children_for 4 6 = 1"
    by (simp_all add: dynamic_order_def default_max_order_def no_root_def minimum_children_for_def)
  have sorted: "sort_key fst six_entries = six_entries" "length six_entries = 6" by code_simp+
  define m where "m = \<lparr>persistence_mode = Transactional 0, keys = map fst six_entries,
    operation = OpSetEach (map snd six_entries) :: (unit by_sequence_index, unit by_sequence_index, unit) operation\<rparr>"
  have "case modify 100 (seq_context 4 1) (seq_reader None no_crc unit_des) None default_entry m () empty_writer of
      (r, root', m', c', w') \<Rightarrow> is_ok r \<and> contents (\<lambda>p. Panic) 0 root' = tl six_entries"
    unfolding m_def by code_simp
  then show ?thesis
    by (auto simp: ve_truncate_sequences_def sorted order m_def ve_default_with_def ve_initialize_default_def res_map_def
        is_ok_iff Let_def split: prod.splits)
qed

end
