(* ===== verification/Log_Guess.thy ===== *)
theory Log_Guess
  imports Complex_Main "HOL-Library.Log_Nat" Modification
begin

text \<open>
  \<^verbatim>\<open>guess_page\<close> of \<^verbatim>\<open>nebari/src/transaction/log.rs\<close>: the page at which to look next for a transaction,
  estimated in double precision. The doubles that occur are not negative: a finite one is the rational it
  stands for, rounded to 53 significant bits (ties to even) after every operation; no operation leaves the
  range of the exponent.
\<close>

section \<open>Double precision\<close>

datatype f64 = Finite rat | Infinite | NaN

text \<open>The operands are integers below \<open>2 ^ 64\<close> and their quotients, so a value that is not zero is at
  least \<open>2 ^ (- 64)\<close>.\<close>

definition f64_exponent :: "rat \<Rightarrow> int" where
  "f64_exponent x = bitlen \<lfloor>x * 2 ^ 64\<rfloor> - 64 - 53"

definition half_even :: "rat \<Rightarrow> int" where
  "half_even x =
     (let d = x - of_int \<lfloor>x\<rfloor> in
      if d < 1 / 2 \<or> d = 1 / 2 \<and> even \<lfloor>x\<rfloor> then \<lfloor>x\<rfloor> else \<lfloor>x\<rfloor> + 1)"

definition f64_round :: "rat \<Rightarrow> rat" where
  "f64_round x =
     (if x = 0 then 0
      else let e = f64_exponent x in
        if e \<ge> 0 then of_int (half_even (x / 2 ^ nat e)) * 2 ^ nat e
        else of_int (half_even (x * 2 ^ nat (- e))) / 2 ^ nat (- e))"

definition f64_of :: "nat \<Rightarrow> f64" where
  "f64_of n = Finite (f64_round (of_nat n))"

fun f64_div :: "f64 \<Rightarrow> f64 \<Rightarrow> f64" where
  "f64_div (Finite x) (Finite y) =
     (if y = 0 then (if x = 0 then NaN else Infinite) else Finite (f64_round (x / y)))"
| "f64_div (Finite x) Infinite = Finite 0"
| "f64_div Infinite (Finite y) = Infinite"
| "f64_div x y = NaN"

fun f64_mul :: "f64 \<Rightarrow> f64 \<Rightarrow> f64" where
  "f64_mul (Finite x) (Finite y) = Finite (f64_round (x * y))"
| "f64_mul (Finite x) Infinite = (if x = 0 then NaN else Infinite)"
| "f64_mul Infinite (Finite y) = (if y = 0 then NaN else Infinite)"
| "f64_mul Infinite Infinite = Infinite"
| "f64_mul x y = NaN"

fun f64_floor :: "f64 \<Rightarrow> f64" where
  "f64_floor (Finite x) = Finite (of_int \<lfloor>x\<rfloor>)"
| "f64_floor x = x"

fun f64_ceil :: "f64 \<Rightarrow> f64" where
  "f64_ceil (Finite x) = Finite (of_int \<lceil>x\<rceil>)"
| "f64_ceil x = x"

text \<open>\<^verbatim>\<open>as u64\<close> saturates.\<close>

fun f64_as_u64 :: "f64 \<Rightarrow> nat" where
  "f64_as_u64 (Finite x) = nat (min \<lfloor>x\<rfloor> (2 ^ 64 - 1))"
| "f64_as_u64 Infinite = 2 ^ 64 - 1"
| "f64_as_u64 NaN = 0"

section \<open>The guess\<close>

definition log_page_size :: nat where
  "log_page_size = 1024"

definition estimate_between :: "nat \<Rightarrow> nat \<Rightarrow> nat \<Rightarrow> nat" where
  "estimate_between delta_from_current ids pages =
     f64_as_u64 (f64_floor (f64_mul (f64_of delta_from_current) (f64_div (f64_of ids) (f64_of pages))))"

definition estimate_back :: "nat \<Rightarrow> nat \<Rightarrow> nat \<Rightarrow> nat" where
  "estimate_back id_delta upper_id total_pages =
     f64_as_u64 (f64_ceil (f64_mul (f64_of id_delta) (f64_div (f64_of upper_id) (f64_of total_pages))))"

definition guess_page ::
    "transaction_id \<Rightarrow> nat option \<Rightarrow> transaction_id option \<Rightarrow> nat \<Rightarrow> transaction_id \<Rightarrow> nat option res" where
  "guess_page looking_for lower_location lower_id upper_location upper_id =
     (if looking_for = upper_id then Panic
      else
        let total_pages = upper_location div log_page_size in
        case (lower_location, lower_id) of
          (Some lower_location, Some lower_id) \<Rightarrow>
            (let current_page = lower_location div log_page_size in
             if looking_for < lower_id \<or> upper_id < lower_id \<or> total_pages < current_page then Panic
             else
               let delta_estimated_pages =
                     estimate_between (unat (looking_for - lower_id)) (unat (upper_id - lower_id)) (total_pages - current_page);
                   guess = lower_location + max delta_estimated_pages 1 * log_page_size in
               if guess \<ge> 2 ^ 64 then Panic
               else if guess \<ge> upper_location then
                 (if upper_location < log_page_size then Panic
                  else let capped_guess = upper_location - log_page_size in
                    Ok (if capped_guess > lower_location then Some capped_guess else None))
               else Ok (Some guess))
        | _ \<Rightarrow>
            if upper_id > looking_for then
              (let delta_bytes =
                     min (estimate_back (unat (upper_id - looking_for)) (unat upper_id) total_pages * log_page_size) (2 ^ 64 - 1) in
               Ok (Some (upper_location - delta_bytes)))
            else Ok None)"

end
