(* ===== verification/Transaction_Log.thy ===== *)
theory Transaction_Log
  imports Chunk_IO BTree_Query Log_Guess
begin

text \<open>
  The transaction log: \<^verbatim>\<open>nebari/src/transaction/log.rs\<close> and the log part of
  \<^verbatim>\<open>nebari/src/transaction/state.rs\<close>. The log is a file of pages of 1024 bytes; a transaction takes one
  page with the header byte 1 and a length of three bytes, and as many continuation pages with the header
  byte 0 as it needs. Positions in the file are naturals (a file is shorter than \<open>2 ^ 64\<close>); where the
  code's \<^verbatim>\<open>u64\<close> arithmetic would overflow the model panics. The cache of known transactions is an
  \<^verbatim>\<open>LruCache\<close> of the crate \<^verbatim>\<open>lru\<close>, a parameter.
\<close>

section \<open>Entries\<close>

record log_entry =
  le_id :: transaction_id
  le_data :: "bytes option"

definition le_set_data :: "bytes \<Rightarrow> (log_entry, unit) sres" where
  "le_set_data d e = (if length d \<le> 2 ^ 24 - 8 then (Ok (), e\<lparr>le_data := Some d\<rparr>) else (Err ValueTooLarge, e))"

definition le_serialize :: "log_entry \<Rightarrow> bytes" where
  "le_serialize e = u64_be (le_id e) @ (case le_data e of Some d \<Rightarrow> d | None \<Rightarrow> [])"

definition le_deserialize :: "bytes \<Rightarrow> log_entry res" where
  "le_deserialize buffer =
     res_bind (read_u64 buffer) (\<lambda>(i, rest). Ok \<lparr>le_id = i, le_data = (if rest = [] then None else Some rest)\<rparr>)"

section \<open>The state shared by the users of a log\<close>

record 'c lru_ops =
  lru_put :: "transaction_id \<Rightarrow> nat option \<Rightarrow> 'c \<Rightarrow> 'c"
  lru_get :: "transaction_id \<Rightarrow> 'c \<Rightarrow> nat option option \<times> 'c"

record 'c tx_state =
  ts_current_transaction_id :: u64
  ts_file_offset :: nat
  ts_last_written :: transaction_id
  ts_known :: 'c

definition ts_from_path :: "'c \<Rightarrow> 'c tx_state" where
  "ts_from_path empty_cache =
     \<lparr>ts_current_transaction_id = 0, ts_file_offset = 0, ts_last_written = 0, ts_known = empty_cache\<rparr>"

definition ts_initialize :: "transaction_id \<Rightarrow> nat \<Rightarrow> ('c tx_state, unit) sres" where
  "ts_initialize last_written log_position s =
     (if last_written = - 1 \<or> ts_current_transaction_id s \<noteq> 0 then (Panic, s)
      else (Ok (), s\<lparr>ts_current_transaction_id := last_written + 1, ts_file_offset := log_position,
                     ts_last_written := last_written\<rparr>))"

definition ts_current :: "'c tx_state \<Rightarrow> transaction_id option" where
  "ts_current s = (if ts_last_written s = 0 then None else Some (ts_last_written s))"

definition ts_next_transaction_id :: "'c tx_state \<Rightarrow> transaction_id" where
  "ts_next_transaction_id s = ts_current_transaction_id s"

definition ts_len :: "'c tx_state \<Rightarrow> nat" where
  "ts_len s = ts_file_offset s"

text \<open>\<^verbatim>\<open>State::new_transaction\<close>, once the trees are locked: \<^verbatim>\<open>fetch_add\<close> hands out the next id.\<close>

definition ts_new_transaction :: "'c tx_state \<Rightarrow> log_entry \<times> 'c tx_state" where
  "ts_new_transaction s =
     (\<lparr>le_id = ts_current_transaction_id s, le_data = None\<rparr>,
      s\<lparr>ts_current_transaction_id := ts_current_transaction_id s + 1\<rparr>)"

definition ts_note_status :: "'c lru_ops \<Rightarrow> transaction_id \<Rightarrow> nat option \<Rightarrow> 'c tx_state \<Rightarrow> 'c tx_state" where
  "ts_note_status lru i p s = s\<lparr>ts_known := lru_put lru i p (ts_known s)\<rparr>"

definition ts_note_completed :: "'c lru_ops \<Rightarrow> (transaction_id \<times> nat option) list \<Rightarrow> 'c tx_state \<Rightarrow> 'c tx_state" where
  "ts_note_completed lru ips s = s\<lparr>ts_known := fold (\<lambda>(i, p). lru_put lru i p) ips (ts_known s)\<rparr>"

definition ts_id_position :: "'c lru_ops \<Rightarrow> transaction_id \<Rightarrow> 'c tx_state \<Rightarrow> nat option option \<times> 'c tx_state" where
  "ts_id_position lru i s = (case lru_get lru i (ts_known s) of (r, c) \<Rightarrow> (r, s\<lparr>ts_known := c\<rparr>))"

section \<open>Scanning for a transaction\<close>

datatype scan_result = ScanFound log_entry nat nat | ScanNotFound nat

text \<open>The continuation pages of a payload of which \<open>n\<close> bytes are still to be read.\<close>

function log_read_rest :: "nat \<Rightarrow> (memory_file, bytes) sres" where
  "log_read_rest n =
     (if n = 0 then returnS []
      else bindS (\<lambda>f. (Ok (), snd (mf_seek (SeekCurrent 1) f))) (\<lambda>_.
           bindS (mf_read_exact (min (log_page_size - 1) n)) (\<lambda>b.
           bindS (log_read_rest (n - min (log_page_size - 1) n)) (\<lambda>rest. returnS (b @ rest)))))"
  by pat_completeness auto

termination log_read_rest
  by (relation "measure id") (auto simp: log_page_size_def)

declare log_read_rest.simps [simp del]

definition log_read_payload :: "nat \<Rightarrow> (memory_file, bytes) sres" where
  "log_read_payload n =
     (if n = 0 then returnS []
      else bindS (mf_read_exact (min (log_page_size - 4) n)) (\<lambda>b.
           bindS (log_read_rest (n - min (log_page_size - 4) n)) (\<lambda>rest. returnS (b @ rest))))"

definition log_decode :: "vault option \<Rightarrow> bytes \<Rightarrow> log_entry res" where
  "log_decode v payload =
     res_bind (decrypt_with v payload) (\<lambda>b.
       case le_deserialize b of Err e \<Rightarrow> Err (DataIntegrity e) | r \<Rightarrow> r)"

function scan_loop :: "vault option \<Rightarrow> bool \<Rightarrow> nat \<Rightarrow> nat \<Rightarrow> (memory_file, scan_result) sres" where
  "scan_loop v scan_forward file_length block_start =
     (if block_start \<ge> file_length then returnS (ScanNotFound block_start)
      else bindS (\<lambda>f. (Ok (), snd (mf_seek (SeekStart block_start) f))) (\<lambda>_.
           bindS (mf_read_exact 4) (\<lambda>header.
             if hd header = 0 then
               (if block_start = 0 then returnS (ScanNotFound 0)
                else if scan_forward then scan_loop v scan_forward file_length (block_start + log_page_size)
                else if block_start < log_page_size then failS Panic
                else scan_loop v scan_forward file_length (block_start - log_page_size))
             else if hd header = 1 then
               (let payload_length = nat_be (tl header) in
                bindS (log_read_payload payload_length) (\<lambda>payload.
                  failS (res_map (\<lambda>e. ScanFound e block_start payload_length) (log_decode v payload))))
             else failS Panic)))"
  by pat_completeness auto

termination scan_loop
  by (relation "measure (\<lambda>(v, fwd, fl, bs). if fwd then fl - bs else bs)") (auto simp: log_page_size_def)

declare scan_loop.simps [simp del]

definition scan_for_transaction :: "vault option \<Rightarrow> nat \<Rightarrow> bool \<Rightarrow> (memory_file, scan_result) sres" where
  "scan_for_transaction v block_start scan_forward f = scan_loop v scan_forward (mf_length f) block_start f"

section \<open>A log: the shared state and the file\<close>

record 'c tx_log =
  tl_state :: "'c tx_state"
  tl_file :: memory_file

definition on_file :: "(memory_file, 'a) sres \<Rightarrow> ('c tx_log, 'a) sres" where
  "on_file m l = (case m (tl_file l) of (r, f) \<Rightarrow> (r, l\<lparr>tl_file := f\<rparr>))"

definition on_state :: "('c tx_state \<Rightarrow> 'c tx_state) \<Rightarrow> ('c tx_log, unit) sres" where
  "on_state g l = (Ok (), l\<lparr>tl_state := g (tl_state l)\<rparr>)"

section \<open>Fetching an entry\<close>

type_synonym guess_fun =
  "transaction_id \<Rightarrow> nat option \<Rightarrow> transaction_id option \<Rightarrow> nat \<Rightarrow> transaction_id \<Rightarrow> nat option res"

function fetch_loop ::
    "guess_fun \<Rightarrow> 'c lru_ops \<Rightarrow> vault option \<Rightarrow> transaction_id \<Rightarrow> nat option \<Rightarrow> transaction_id option \<Rightarrow> nat \<Rightarrow>
     transaction_id \<Rightarrow> ('c tx_log, scan_result) sres" where
  "fetch_loop guess lru v i lower_location lower_id upper_location upper_id =
     bindS (failS (guess i lower_location lower_id upper_location upper_id)) (\<lambda>guessed.
       case guessed of
         None \<Rightarrow> returnS (ScanNotFound upper_location)
       | Some guessed_location \<Rightarrow>
           if guessed_location = upper_location then returnS (ScanNotFound upper_location)
           else bindS (on_file (scan_for_transaction v guessed_location (guessed_location \<ge> upper_location))) (\<lambda>r.
             case r of
               ScanNotFound nearest_position \<Rightarrow> returnS (ScanNotFound nearest_position)
             | ScanFound entry position payload_length \<Rightarrow>
                 bindS (on_state (ts_note_status lru (le_id entry) (Some position))) (\<lambda>_.
                   if le_id entry < i then
                     (if lower_id = None \<or> le_id entry > the lower_id
                      then fetch_loop guess lru v i (Some position) (Some (le_id entry)) upper_location upper_id
                      else returnS (ScanNotFound position))
                   else if le_id entry = i then returnS (ScanFound entry position payload_length)
                   else if le_id entry < upper_id
                   then fetch_loop guess lru v i lower_location lower_id position (le_id entry)
                   else returnS (ScanNotFound position))))"
  by pat_completeness auto

text \<open>Every round narrows the ids between which the transaction is looked for.\<close>

termination fetch_loop
  by (relation "measure (\<lambda>(guess, lru, v, i, ll, lid, ul, uid).
        (unat uid - unat i) + (case lid of None \<Rightarrow> Suc (unat i) | Some j \<Rightarrow> unat i - unat j))")
    (auto simp: word_less_nat_alt split: option.splits)

declare fetch_loop.simps [simp del]

definition fetch_entry :: "'c lru_ops \<Rightarrow> vault option \<Rightarrow> transaction_id \<Rightarrow> ('c tx_log, scan_result) sres" where
  "fetch_entry lru v i l =
     (if \<not> i > 0 then (Ok (ScanNotFound 0), l)
      else
        let upper_id = ts_next_transaction_id (tl_state l);
            upper_location = ts_len (tl_state l) in
        if upper_id \<le> i then (Ok (ScanNotFound upper_location), l)
        else fetch_loop guess_page lru v i None None upper_location upper_id l)"

definition log_get :: "'c lru_ops \<Rightarrow> vault option \<Rightarrow> transaction_id \<Rightarrow> ('c tx_log, log_entry option) sres" where
  "log_get lru v i =
     bindS (fetch_entry lru v i) (\<lambda>r.
       returnS (case r of ScanFound entry position payload_length \<Rightarrow> Some entry | ScanNotFound nearest \<Rightarrow> None))"

section \<open>Scanning a range of entries\<close>

definition next_page_start :: "nat \<Rightarrow> nat" where
  "next_page_start position = (position + log_page_size - 1) div log_page_size * log_page_size"

text \<open>The callback threads a state of the caller and says whether to go on. The loop ends when no entry
  follows; the fuel is the number of entries read.\<close>

type_synonym 'k log_callback = "log_entry \<Rightarrow> 'k \<Rightarrow> bool \<times> 'k"

fun log_scan_loop ::
    "nat \<Rightarrow> vault option \<Rightarrow> (transaction_id bound \<times> transaction_id bound) \<Rightarrow> 'k log_callback \<Rightarrow> nat \<Rightarrow> 'k \<Rightarrow>
     ('c tx_log, 'k) sres" where
  "log_scan_loop 0 v ids callback next_scan_start k = failS OutOfFuel"
| "log_scan_loop (Suc fuel) v ids callback next_scan_start k =
     bindS (on_file (scan_for_transaction v next_scan_start True)) (\<lambda>r.
       case r of
         ScanNotFound nearest \<Rightarrow> returnS k
       | ScanFound entry position payload_length \<Rightarrow>
           (case (if range_contains ids (le_id entry) then callback entry k else (True, k)) of
              (go_on, k') \<Rightarrow>
                if go_on then log_scan_loop fuel v ids callback (next_page_start (position + payload_length)) k'
                else returnS k'))"

fun start_id :: "transaction_id bound \<Rightarrow> transaction_id option" where
  "start_id (Included i) = Some i"
| "start_id (Excluded i) = Some i"
| "start_id Unbounded = None"

definition log_scan ::
    "nat \<Rightarrow> 'c lru_ops \<Rightarrow> vault option \<Rightarrow> (transaction_id bound \<times> transaction_id bound) \<Rightarrow> 'k log_callback \<Rightarrow> 'k \<Rightarrow>
     ('c tx_log, 'k) sres" where
  "log_scan fuel lru v ids callback k =
     bindS (case start_id (fst ids) of
         Some start_key \<Rightarrow>
           bindS (fetch_entry lru v start_key) (\<lambda>r.
             returnS (case r of
                 ScanFound entry position payload_length \<Rightarrow> (position, Some entry, payload_length)
               | ScanNotFound nearest_position \<Rightarrow> (nearest_position, None, 0)))
       | None \<Rightarrow> returnS (0, None, 0)) (\<lambda>(start_location, start_transaction, start_length).
       case (case start_transaction of
               Some entry \<Rightarrow> if range_contains ids (le_id entry) then callback entry k else (True, k)
             | None \<Rightarrow> (True, k)) of
         (go_on, k') \<Rightarrow>
           if go_on then log_scan_loop fuel v ids callback (next_page_start (start_location + start_length)) k'
           else returnS k')"

section \<open>Writing to the log\<close>

text \<open>The pages of one transaction. \<open>scratch\<close> is the page buffer, which keeps what an earlier page left
  in it after the end of the payload.\<close>

definition page_header :: "bytes \<Rightarrow> nat \<Rightarrow> bytes" where
  "page_header payload offset =
     (if offset = 0 then 1 # be_nat 3 (length payload) else [0])"

function log_write_pages :: "bytes \<Rightarrow> nat \<Rightarrow> bytes \<Rightarrow> ('c tx_log, bytes) sres" where
  "log_write_pages payload offset scratch =
     (if offset < length payload then
        (if offset = 0 \<and> length payload \<ge> 2 ^ 24 then failS (Err (Message ''transaction too large''))
         else
           bindS (\<lambda>l.
             let header = page_header payload offset;
                 bytes_to_write = min (length payload - offset) (log_page_size - length header);
                 page = header @ take bytes_to_write (drop offset payload) @
                   drop (length header + bytes_to_write) scratch in
             (Ok page, l\<lparr>tl_file := mf_write page (tl_file l),
                         tl_state := (tl_state l)\<lparr>ts_file_offset := ts_file_offset (tl_state l) + log_page_size\<rparr>\<rparr>)) (\<lambda>page.
           log_write_pages payload
             (offset + min (length payload - offset) (log_page_size - length (page_header payload offset))) page))
      else returnS scratch)"
  by pat_completeness auto

termination log_write_pages
  by (relation "measure (\<lambda>(payload, offset, scratch). length payload - offset)")
    (auto simp: log_page_size_def page_header_def)

declare log_write_pages.simps [simp del]

fun log_write_all ::
    "vault option \<Rightarrow> log_entry list \<Rightarrow> bytes \<Rightarrow> (transaction_id \<times> nat option) list \<Rightarrow>
     ('c tx_log, (transaction_id \<times> nat option) list) sres" where
  "log_write_all v [] scratch completed = returnS completed"
| "log_write_all v (e # es) scratch completed = (\<lambda>l.
     if le_id e > ts_last_written (tl_state l) then
       (let l1 = l\<lparr>tl_state := (tl_state l)\<lparr>ts_last_written := le_id e\<rparr>\<rparr>;
            completed' = completed @ [(le_id e, Some (ts_file_offset (tl_state l)))] in
        bindS (failS (encrypt_with v (le_serialize e))) (\<lambda>payload.
        bindS (log_write_pages payload 0 scratch) (\<lambda>scratch'.
        log_write_all v es scratch' completed')) l1)
     else (Err TransactionPushedOutOfOrder, l))"

definition log_push :: "'c lru_ops \<Rightarrow> vault option \<Rightarrow> log_entry list \<Rightarrow> ('c tx_log, unit) sres" where
  "log_push lru v transactions =
     bindS (log_write_all v transactions (replicate log_page_size 0) []) (\<lambda>completed.
       on_state (ts_note_completed lru completed))"

section \<open>Opening the log\<close>

text \<open>\<^verbatim>\<open>StateInitializer::execute\<close> and \<^verbatim>\<open>initialize_state\<close>; the file is \<open>None\<close> when it does not exist. Bytes after
  the last whole page are cut off.\<close>

definition initialize_from :: "vault option \<Rightarrow> nat \<Rightarrow> ('c tx_log, unit) sres" where
  "initialize_from v log_length =
     (if log_length < log_page_size then failS Panic
      else bindS (on_file (scan_for_transaction v (log_length - log_page_size) False)) (\<lambda>r.
        case r of
          ScanFound entry position payload_length \<Rightarrow>
            (\<lambda>l. case ts_initialize (le_id entry) log_length (tl_state l) of (res, s) \<Rightarrow> (res, l\<lparr>tl_state := s\<rparr>))
        | ScanNotFound nearest \<Rightarrow>
            failS (Err (DataIntegrity (Message ''No entries found in an existing transaction log'')))))"

definition log_initialize_state :: "vault option \<Rightarrow> bytes option \<Rightarrow> 'c tx_state \<Rightarrow> unit res \<times> 'c tx_log" where
  "log_initialize_state v stored s =
     (let file_bytes = (case stored of Some b \<Rightarrow> b | None \<Rightarrow> []);
          log_length = length file_bytes;
          l = \<lparr>tl_state = s, tl_file = \<lparr>mf_buffer = file_bytes, mf_position = 0\<rparr>\<rparr> in
      if log_length = 0 then
        (case ts_initialize 0 0 s of (r, s') \<Rightarrow> (r, l\<lparr>tl_state := s'\<rparr>))
      else
        let excess_length = log_length mod log_page_size;
            whole = log_length - excess_length in
        initialize_from v whole (l\<lparr>tl_file := \<lparr>mf_buffer = take whole file_bytes, mf_position = 0\<rparr>\<rparr>))"

end
