(* ===== verification/Log_Layout.thy ===== *)
theory Log_Layout
  imports Transaction_Log
begin

text \<open>
  What the pages of a transaction log mean: the layout of an entry, what the writer writes, and what
  scanning finds.
\<close>

section \<open>Pages\<close>

text \<open>The continuation pages of the rest of a payload; the last one ends with arbitrary bytes.\<close>

inductive cont_pages :: "bytes \<Rightarrow> bytes \<Rightarrow> bool" where
  cont_nil: "cont_pages [] []"
| cont_page: "c \<noteq> [] \<Longrightarrow> length stale = 1023 - min 1023 (length c) \<Longrightarrow> cont_pages (drop 1023 c) b \<Longrightarrow>
     cont_pages c (0 # take 1023 c @ stale @ b)"

inductive_cases cont_nilE: "cont_pages [] b"
inductive_cases cont_pagesE: "cont_pages c b"

definition entry_pages :: "bytes \<Rightarrow> bytes \<Rightarrow> bool" where
  "entry_pages c b \<longleftrightarrow> c \<noteq> [] \<and> length c < 2 ^ 24 \<and>
     (\<exists>stale rest. length stale = 1020 - min 1020 (length c) \<and> cont_pages (drop 1020 c) rest \<and>
        b = 1 # be_nat 3 (length c) @ take 1020 c @ stale @ rest)"

lemma cont_pages_length: "cont_pages c b \<Longrightarrow> \<exists>n. length b = 1024 * n \<and> n = (length c + 1022) div 1023"
proof (induction rule: cont_pages.induct)
  case (cont_page c stale b)
  then obtain n where n: "length b = 1024 * n" "n = (length c - 1023 + 1022) div 1023" by auto
  have "(length c + 1022) div 1023 = Suc n"
  proof (cases "length c \<le> 1023")
    case True
    moreover have "0 < length c" using cont_page by simp
    ultimately have "(length c + 1022) div 1023 = 1" by (intro div_nat_eqI) (simp_all add: Suc_le_eq)
    with True n show ?thesis by simp
  next
    case False
    then obtain d where "length c = 1023 + d" using le_Suc_ex by (metis nat_le_linear)
    with n show ?thesis by simp
  qed
  with cont_page n show ?case by (auto simp: min_def)
qed simp

lemma nth_second_page: "length p = 1024 \<Longrightarrow> (p @ rest) ! (1024 * Suc j) = rest ! (1024 * j)"
  by (simp add: nth_append)

lemma cont_pages_header: "cont_pages c b \<Longrightarrow> 1024 * k < length b \<Longrightarrow> b ! (1024 * k) = 0"
proof (induction arbitrary: k rule: cont_pages.induct)
  case (cont_page c stale b)
  show ?case
  proof (cases k)
    case (Suc j)
    have len: "length (0 # take 1023 c @ stale) = 1024" using cont_page by simp
    have "(0 # take 1023 c @ stale @ b) ! (1024 * k) = b ! (1024 * j)"
      using nth_second_page [OF len, of b j] Suc by simp
    moreover have "1024 * j < length b" using cont_page.prems len Suc by simp
    ultimately show ?thesis using cont_page.IH by simp
  qed simp
qed simp

lemma entry_pages_length:
  assumes "entry_pages c b"
  shows "\<exists>n. length b = 1024 * n \<and> 0 < n" and "length c < length b"
proof -
  from assms obtain stale rest where b: "length stale = 1020 - min 1020 (length c)" "cont_pages (drop 1020 c) rest"
    "b = 1 # be_nat 3 (length c) @ take 1020 c @ stale @ rest" by (auto simp: entry_pages_def)
  from cont_pages_length [OF b(2)] obtain n where n: "length rest = 1024 * n" "n = (length c - 1020 + 1022) div 1023"
    by auto
  have len: "length b = 1024 * Suc n" using b(1,3) n(1) by (simp del: be_nat.simps)
  then show "\<exists>n. length b = 1024 * n \<and> 0 < n" by blast
  have "length c - 1020 \<le> 1023 * n" using n(2) by simp
  with len show "length c < length b" by simp
qed

lemma entry_pages_header:
  assumes "entry_pages c b" and "1024 * k < length b"
  shows "b ! (1024 * k) = (if k = 0 then 1 else 0)"
proof -
  from assms(1) obtain stale rest where b: "length stale = 1020 - min 1020 (length c)" "cont_pages (drop 1020 c) rest"
    "b = 1 # be_nat 3 (length c) @ take 1020 c @ stale @ rest" by (auto simp: entry_pages_def)
  show ?thesis
  proof (cases k)
    case (Suc j)
    let ?p = "1 # be_nat 3 (length c) @ take 1020 c @ stale"
    have len: "length ?p = 1024" using b(1) by (simp del: be_nat.simps)
    have "b ! (1024 * k) = rest ! (1024 * j)"
      using nth_second_page [OF len, of rest j] Suc b(3) by (simp del: be_nat.simps)
    moreover have "1024 * j < length rest" using assms(2) b(3) len Suc by (simp del: be_nat.simps)
    ultimately show ?thesis using cont_pages_header [OF b(2)] Suc by simp
  qed (simp add: b(3))
qed

section \<open>Writing\<close>

definition log_appended :: "bytes \<Rightarrow> 'c tx_log \<Rightarrow> 'c tx_log" where
  "log_appended b l = l\<lparr>tl_file := mf_write b (tl_file l),
     tl_state := (tl_state l)\<lparr>ts_file_offset := ts_file_offset (tl_state l) + length b\<rparr>\<rparr>"

lemma log_appended_append: "log_appended b' (log_appended b l) = log_appended (b @ b') l"
  by (simp add: log_appended_def mf_write_def)

lemma log_appended_simps [simp]:
  "mf_buffer (tl_file (log_appended b l)) = mf_buffer (tl_file l) @ b"
  "ts_file_offset (tl_state (log_appended b l)) = ts_file_offset (tl_state l) + length b"
  "ts_last_written (tl_state (log_appended b l)) = ts_last_written (tl_state l)"
  "ts_current_transaction_id (tl_state (log_appended b l)) = ts_current_transaction_id (tl_state l)"
  "ts_known (tl_state (log_appended b l)) = ts_known (tl_state l)"
  by (simp_all add: log_appended_def mf_write_def)

lemma write_continuation:
  "0 < offset \<Longrightarrow> length scratch = 1024 \<Longrightarrow>
     \<exists>b scratch'. log_write_pages c offset scratch l = (Ok scratch', log_appended b l) \<and>
       cont_pages (drop offset c) b \<and> length scratch' = 1024"
proof (induction "length c - offset" arbitrary: offset scratch l rule: less_induct)
  case less
  show ?case
  proof (cases "offset < length c")
    case False
    then show ?thesis using less.prems
      by (subst log_write_pages.simps) (auto simp: log_appended_def mf_write_def intro!: exI [of _ "[]"] cont_nil)
  next
    case True
    let ?n = "min (length c - offset) 1023"
    let ?stale = "drop (Suc ?n) scratch"
    let ?page = "0 # take ?n (drop offset c) @ ?stale"
    have "length c - (offset + ?n) < length c - offset" "0 < offset + ?n" "length ?page = 1024"
      using True less.prems by auto
    from less.hyps [OF this, of "log_appended ?page l"] obtain b scratch' where ih: "log_write_pages c (offset + ?n) ?page (log_appended ?page l) =
        (Ok scratch', log_appended b (log_appended ?page l))" "cont_pages (drop (offset + ?n) c) b" "length scratch' = 1024"
      by blast
    have step: "log_write_pages c offset scratch l = (Ok scratch', log_appended (?page @ b) l)"
      using True less.prems ih(1)
      by (subst log_write_pages.simps)
        (simp add: bindS_def page_header_def log_page_size_def log_appended_def mf_write_def Let_def min.commute)
    have take: "take ?n (drop offset c) = take 1023 (drop offset c)" by (simp add: min_def)
    have drop: "drop (offset + ?n) c = drop 1023 (drop offset c)" by (simp add: min_def add.commute)
    have "cont_pages (drop offset c) (0 # take 1023 (drop offset c) @ ?stale @ b)"
      using True less.prems ih(2) drop by (intro cont_page) auto
    then show ?thesis using step ih(3) take by auto
  qed
qed

lemma write_entry:
  assumes "c \<noteq> []" and "length c < 2 ^ 24" and "length scratch = 1024"
  shows "\<exists>b scratch'. log_write_pages c 0 scratch l = (Ok scratch', log_appended b l) \<and>
    entry_pages c b \<and> length scratch' = 1024"
proof -
  let ?n = "min (length c) 1020"
  let ?stale = "drop (4 + ?n) scratch"
  let ?page = "1 # be_nat 3 (length c) @ take ?n c @ ?stale"
  have n: "0 < ?n" using assms by auto
  have "length ?page = 1024" using assms by (simp del: be_nat.simps)
  from write_continuation [OF n this, of c "log_appended ?page l"]
  obtain b scratch' where w: "log_write_pages c ?n ?page (log_appended ?page l) =
      (Ok scratch', log_appended b (log_appended ?page l))" "cont_pages (drop ?n c) b" "length scratch' = 1024" by auto
  have take: "take ?n c = take 1020 c" and drop: "drop ?n c = drop 1020 c" by (simp_all add: min_def)
  have "log_write_pages c 0 scratch l = (Ok scratch', log_appended (?page @ b) l)"
    using assms w(1)
    by (subst log_write_pages.simps)
      (simp add: bindS_def page_header_def log_page_size_def log_appended_def mf_write_def Let_def min.commute del: be_nat.simps)
  moreover have "entry_pages c (?page @ b)"
    using assms w(2) take drop unfolding entry_pages_def
    by (intro conjI exI [of _ ?stale] exI [of _ b]) (auto simp del: be_nat.simps)
  ultimately show ?thesis using w(3) by blast
qed

lemma write_too_large:
  assumes "2 ^ 24 \<le> length c"
  shows "log_write_pages c 0 scratch l = (Err (Message ''transaction too large''), l)"
proof -
  have "0 < length c" using assms by (cases c) auto
  with assms show ?thesis by (subst log_write_pages.simps) (simp add: bindS_def)
qed

section \<open>Reading\<close>

lemma seek_keeps [simp]: "mf_buffer (snd (mf_seek w f)) = mf_buffer f"
  by (simp add: mf_seek_def Let_def)

lemma seek_start [simp]: "snd (mf_seek (SeekStart p) f) = f\<lparr>mf_position := p\<rparr>"
  by (simp add: mf_seek_def)

lemma read_exact_keeps: "mf_read_exact n f = (r, f') \<Longrightarrow> mf_buffer f' = mf_buffer f"
  by (auto simp: mf_read_exact_def Let_def split: if_splits)

lemma bindS_keeps:
  assumes "bindS m g f = (r, f')" and "\<And>r f f'. m f = (r, f') \<Longrightarrow> P f' = P f"
    and "\<And>x f r f'. g x f = (r, f') \<Longrightarrow> P f' = P f"
  shows "P f' = P f"
  using assms(1) assms(2) [of f] assms(3) by (auto simp: bindS_def split: prod.splits res.splits)

lemma read_rest_keeps: "log_read_rest n f = (r, f') \<Longrightarrow> mf_buffer f' = mf_buffer f"
proof (induction n arbitrary: f r f' rule: log_read_rest.induct)
  case (1 n)
  show ?case
  proof (cases "n = 0")
    case True
    with 1 show ?thesis by (simp add: log_read_rest.simps)
  next
    case False
    have keep: "bindS (log_read_rest (n - min (log_page_size - 1) n)) (\<lambda>rest. returnS (b @ rest)) f = (r, f') \<Longrightarrow>
        mf_buffer f' = mf_buffer f" for b f r f'
      by (erule bindS_keeps) (use "1.IH" [OF False] in auto)
    have keep2: "bindS (mf_read_exact (min (log_page_size - 1) n)) (\<lambda>b.
        bindS (log_read_rest (n - min (log_page_size - 1) n)) (\<lambda>rest. returnS (b @ rest))) f = (r, f') \<Longrightarrow>
        mf_buffer f' = mf_buffer f" for f r f'
      by (erule bindS_keeps) (use read_exact_keeps keep in auto)
    have "bindS (\<lambda>f. (Ok (), snd (mf_seek (SeekCurrent 1) f))) (\<lambda>_.
        bindS (mf_read_exact (min (log_page_size - 1) n)) (\<lambda>b.
        bindS (log_read_rest (n - min (log_page_size - 1) n)) (\<lambda>rest. returnS (b @ rest)))) f = (r, f')"
      using "1.prems" False log_read_rest.simps [of n] by simp
    then show ?thesis by (rule bindS_keeps) (use keep2 in auto)
  qed
qed

lemma read_payload_keeps: "log_read_payload n f = (r, f') \<Longrightarrow> mf_buffer f' = mf_buffer f"
  by (auto simp: log_read_payload_def split: if_splits
      elim!: bindS_keeps [where P = mf_buffer] dest: read_exact_keeps read_rest_keeps)

lemma scan_loop_keeps: "scan_loop v fwd fl p f = (r, f') \<Longrightarrow> mf_buffer f' = mf_buffer f"
proof (induction v fwd fl p arbitrary: f r f' rule: scan_loop.induct)
  case (1 v fwd fl p)
  show ?case
  proof (cases "p < fl")
    case False
    with 1 show ?thesis by (simp add: scan_loop.simps)
  next
    case True
    have keep: "(if hd h = 0 then
               (if p = 0 then returnS (ScanNotFound 0)
                else if fwd then scan_loop v fwd fl (p + log_page_size)
                else if p < log_page_size then failS Panic
                else scan_loop v fwd fl (p - log_page_size))
             else if hd h = 1 then
               (let payload_length = nat_be (tl h) in
                bindS (log_read_payload payload_length) (\<lambda>payload.
                  failS (res_map (\<lambda>e. ScanFound e p payload_length) (log_decode v payload))))
             else failS Panic) f = (r, f') \<Longrightarrow> mf_buffer f' = mf_buffer f" for h f r f'
      using "1.IH" True
      by (auto simp: Let_def split: if_splits elim!: bindS_keeps [where P = mf_buffer] dest: read_payload_keeps)
    from "1.prems" True show ?thesis
      by (subst (asm) scan_loop.simps) (auto elim!: bindS_keeps [where P = mf_buffer] dest: read_exact_keeps keep)
  qed
qed

lemma scan_loop_position: "p < fl \<Longrightarrow> scan_loop v fwd fl p (f\<lparr>mf_position := q\<rparr>) = scan_loop v fwd fl p f"
  by (subst (1 2) scan_loop.simps) (simp add: bindS_def)

text \<open>What scanning a file with the given bytes finds.\<close>

definition scan_bytes :: "vault option \<Rightarrow> bool \<Rightarrow> bytes \<Rightarrow> nat \<Rightarrow> scan_result res" where
  "scan_bytes v fwd buf p = fst (scan_for_transaction v p fwd \<lparr>mf_buffer = buf, mf_position = 0\<rparr>)"

lemma scan_for_transaction_bytes:
  "\<exists>f'. scan_for_transaction v p fwd f = (scan_bytes v fwd (mf_buffer f) p, f') \<and> mf_buffer f' = mf_buffer f"
proof (cases "p < length (mf_buffer f)")
  case True
  have "f\<lparr>mf_position := 0\<rparr> = \<lparr>mf_buffer = mf_buffer f, mf_position = 0\<rparr>" by simp
  with True have "fst (scan_for_transaction v p fwd f) = scan_bytes v fwd (mf_buffer f) p"
    unfolding scan_bytes_def scan_for_transaction_def
    by (metis mf_length_def memory_file.select_convs(1) scan_loop_position)
  then show ?thesis using scan_loop_keeps unfolding scan_for_transaction_def
    by (metis prod.collapse)
next
  case False
  then show ?thesis by (simp add: scan_bytes_def scan_for_transaction_def scan_loop.simps mf_length_def)
qed

lemma scan_past_end: "length buf \<le> p \<Longrightarrow> scan_bytes v fwd buf p = Ok (ScanNotFound p)"
  by (simp add: scan_bytes_def scan_for_transaction_def scan_loop.simps mf_length_def)

lemma scan_skips:
  assumes "p + 4 \<le> length buf" and "buf ! p = 0" and "p \<noteq> 0" and "fwd \<or> 1024 \<le> p"
  shows "scan_bytes v fwd buf p = scan_bytes v fwd buf (if fwd then p + 1024 else p - 1024)"
proof -
  let ?q = "if fwd then p + 1024 else p - 1024"
  have h: "hd (take 4 (drop p buf)) = 0" using assms by (simp add: hd_drop_conv_nth)
  have "scan_bytes v fwd buf p =
      fst (scan_loop v fwd (length buf) ?q \<lparr>mf_buffer = buf, mf_position = p + 4\<rparr>)"
    unfolding scan_bytes_def scan_for_transaction_def mf_length_def using assms h
    by (subst scan_loop.simps) (auto simp: bindS_def mf_read_exact_def log_page_size_def)
  also have "\<dots> = scan_bytes v fwd buf ?q"
    using scan_for_transaction_bytes [of v ?q fwd "\<lparr>mf_buffer = buf, mf_position = p + 4\<rparr>"]
    by (auto simp: scan_for_transaction_def mf_length_def)
  finally show ?thesis .
qed

lemma read_exact_here:
  assumes "mf_buffer f = pre @ b @ post" and "mf_position f = length pre" and "length b = n"
  shows "mf_read_exact n f = (Ok b, f\<lparr>mf_position := length pre + n\<rparr>)"
  using assms by (auto simp: mf_read_exact_def)

lemma read_continuation:
  "cont_pages c b \<Longrightarrow> mf_buffer f = pre @ b @ post \<Longrightarrow> mf_position f = length pre \<Longrightarrow>
     length (mf_buffer f) < 2 ^ 64 \<Longrightarrow> fst (log_read_rest (length c) f) = Ok c"
proof (induction arbitrary: f pre rule: cont_pages.induct)
  case cont_nil
  then show ?case by (simp add: log_read_rest.simps)
next
  case (cont_page c stale b)
  let ?f = "f\<lparr>mf_position := length pre + 1\<rparr>"
  let ?g = "f\<lparr>mf_position := length pre + 1 + min 1023 (length c)\<rparr>"
  have seek: "snd (mf_seek (SeekCurrent 1) f) = ?f"
    using cont_page.prems by (simp add: mf_seek_def Let_def nat_add_distrib)
  have read: "mf_read_exact (min 1023 (length c)) ?f = (Ok (take 1023 c), ?g)"
    using read_exact_here [of ?f "pre @ [0]" "take 1023 c" "stale @ b @ post" "min 1023 (length c)"] cont_page.prems
    by (simp add: min.commute)
  have rest: "fst (log_read_rest (length c - min 1023 (length c)) ?g) = Ok (drop 1023 c)"
  proof (cases "length c \<le> 1023")
    case True
    then show ?thesis by (simp add: log_read_rest.simps)
  next
    case False
    then have "stale = []" using cont_page.hyps by simp
    then show ?thesis using cont_page.IH [of ?g "pre @ 0 # take 1023 c"] cont_page.prems False by simp
  qed
  from cont_page.hyps(1) show ?case
    by (subst log_read_rest.simps)
      (use seek read rest in \<open>auto simp: bindS_def log_page_size_def split: prod.splits res.splits\<close>)
qed

lemma read_payload_here:
  assumes "entry_pages c b" and "mf_buffer f = pre @ b @ post" and "mf_position f = length pre + 4"
    and "length (mf_buffer f) < 2 ^ 64"
  shows "fst (log_read_payload (length c) f) = Ok c"
proof -
  from assms(1) obtain stale rest where b: "length stale = 1020 - min 1020 (length c)" "cont_pages (drop 1020 c) rest"
    "b = 1 # be_nat 3 (length c) @ take 1020 c @ stale @ rest" "c \<noteq> []" by (auto simp: entry_pages_def)
  let ?g = "f\<lparr>mf_position := length pre + 4 + min 1020 (length c)\<rparr>"
  have read: "mf_read_exact (min 1020 (length c)) f = (Ok (take 1020 c), ?g)"
    using read_exact_here [of f "pre @ 1 # be_nat 3 (length c)" "take 1020 c" "stale @ rest @ post" "min 1020 (length c)"]
      assms b by (simp add: min.commute del: be_nat.simps)
  have rest: "fst (log_read_rest (length c - min 1020 (length c)) ?g) = Ok (drop 1020 c)"
  proof (cases "length c \<le> 1020")
    case True
    then show ?thesis by (simp add: log_read_rest.simps)
  next
    case False
    then have "stale = []" using b by simp
    then show ?thesis
      using read_continuation [OF b(2), of ?g "pre @ 1 # be_nat 3 (length c) @ take 1020 c" post] assms b False
      by (simp del: be_nat.simps)
  qed
  show ?thesis using b(4) read rest
    by (auto simp: log_read_payload_def bindS_def log_page_size_def split: prod.splits res.splits)
qed

lemma scan_here:
  assumes "entry_pages c b" and "length (pre @ b @ post) < 2 ^ 64"
  shows "scan_bytes v fwd (pre @ b @ post) (length pre) =
    res_map (\<lambda>e. ScanFound e (length pre) (length c)) (log_decode v c)"
proof -
  from assms(1) obtain t where b: "b = (1 # be_nat 3 (length c)) @ t" "length c < 2 ^ 24" by (auto simp: entry_pages_def)
  let ?f = "\<lparr>mf_buffer = pre @ b @ post, mf_position = length pre\<rparr>"
  let ?g = "\<lparr>mf_buffer = pre @ b @ post, mf_position = length pre + 4\<rparr>"
  have header: "mf_read_exact 4 ?f = (Ok (1 # be_nat 3 (length c)), ?g)"
    using read_exact_here [of ?f pre "1 # be_nat 3 (length c)" "t @ post" 4] b by (simp del: be_nat.simps)
  have len: "nat_be (be_nat 3 (length c)) = length c" using b(2) by (simp del: be_nat.simps)
  have payload: "fst (log_read_payload (length c) ?g) = Ok c"
    using read_payload_here [OF assms(1), of ?g pre post] assms(2) by simp
  have "length pre < length (pre @ b @ post)" using b by simp
  then show ?thesis unfolding scan_bytes_def scan_for_transaction_def mf_length_def
    by (subst scan_loop.simps)
      (use header len payload in \<open>auto simp: bindS_def Let_def res_map_def simp del: be_nat.simps split: prod.splits res.splits\<close>)
qed

end
