(* ===== verification/Log_Contents.thy ===== *)
theory Log_Contents
  imports Log_Layout
begin

text \<open>
  The transaction log as the list of its entries: what a scan finds from any page, that pushing appends
  to the list, that opening a log finds its last entry, and that a scan of a range visits the entries.
\<close>

section \<open>Entries and their bytes\<close>

text \<open>Reading an entry back does not tell empty data from no data.\<close>

definition le_norm :: "log_entry \<Rightarrow> log_entry" where
  "le_norm e = e\<lparr>le_data := (case le_data e of Some d \<Rightarrow> if d = [] then None else Some d | None \<Rightarrow> None)\<rparr>"

lemma le_norm_id [simp]: "le_id (le_norm e) = le_id e"
  by (simp add: le_norm_def)

lemma le_norm_idem [simp]: "le_norm (le_norm e) = le_norm e"
  by (cases e) (auto simp: le_norm_def split: option.splits)

lemma le_round_trip: "le_deserialize (le_serialize e) = Ok (le_norm e)"
  by (cases e) (auto simp: le_deserialize_def le_serialize_def le_norm_def split: option.splits)

definition entry_stored :: "vault option \<Rightarrow> log_entry \<Rightarrow> bytes \<Rightarrow> bool" where
  "entry_stored v e b \<longleftrightarrow> (\<exists>c. encrypt_with v (le_serialize e) = Ok c \<and> entry_pages c b)"

definition log_holds :: "vault option \<Rightarrow> log_entry list \<Rightarrow> bytes \<Rightarrow> bool" where
  "log_holds v es buf \<longleftrightarrow> (\<exists>bs. list_all2 (entry_stored v) es bs \<and> buf = concat bs)"

lemma log_holds_Nil [simp]: "log_holds v [] buf \<longleftrightarrow> buf = []"
  by (simp add: log_holds_def)

lemma log_holds_Cons: "log_holds v (e # es) buf \<longleftrightarrow> (\<exists>b rest. buf = b @ rest \<and> entry_stored v e b \<and> log_holds v es rest)"
proof
  assume "\<exists>b rest. buf = b @ rest \<and> entry_stored v e b \<and> log_holds v es rest"
  then obtain b bs where "buf = concat (b # bs)" "list_all2 (entry_stored v) (e # es) (b # bs)"
    by (auto simp: log_holds_def)
  then show "log_holds v (e # es) buf" unfolding log_holds_def by blast
qed (auto simp: log_holds_def list_all2_Cons1, blast)

lemma log_holds_append:
  "log_holds v (es @ es') buf \<longleftrightarrow> (\<exists>b b'. buf = b @ b' \<and> log_holds v es b \<and> log_holds v es' b')"
proof (induction es arbitrary: buf)
  case (Cons e es)
  then show ?case by (auto simp: log_holds_Cons) (metis append.assoc)+
qed simp

lemma entry_stored_length: "entry_stored v e b \<Longrightarrow> \<exists>n. length b = 1024 * n \<and> 0 < n"
  by (auto simp: entry_stored_def dest: entry_pages_length(1))

lemma log_holds_length: "log_holds v es buf \<Longrightarrow> \<exists>n. length buf = 1024 * n \<and> length es \<le> n"
proof (induction es arbitrary: buf)
  case (Cons e es)
  then obtain b rest n where b: "buf = b @ rest" "entry_stored v e b" "length rest = 1024 * n" "length es \<le> n"
    by (auto simp: log_holds_Cons) blast
  from entry_stored_length [OF b(2)] obtain m where "length b = 1024 * m" "0 < m" by blast
  with b show ?case by (intro exI [of _ "m + n"]) (simp add: add_mult_distrib2)
qed simp

section \<open>Scanning a log\<close>

lemma scan_start_of_entry:
  assumes "chunk_vault v" and "entry_stored v e b" and "length (pre @ b @ post) < 2 ^ 64"
  shows "\<exists>n. scan_bytes v fwd (pre @ b @ post) (length pre) = Ok (ScanFound (le_norm e) (length pre) n) \<and>
    0 < n \<and> n < length b"
proof -
  from assms(2) obtain c where c: "encrypt_with v (le_serialize e) = Ok c" "entry_pages c b"
    by (auto simp: entry_stored_def)
  have "log_decode v c = Ok (le_norm e)"
    using chunk_vault.decrypt_encrypt [OF assms(1) c(1)] by (simp add: log_decode_def le_round_trip)
  moreover have "0 < length c" "length c < length b"
    using c(2) entry_pages_length(2) [OF c(2)] by (auto simp: entry_pages_def)
  ultimately show ?thesis using scan_here [OF c(2) assms(3), of v fwd] by (simp add: res_map_def)
qed

lemma continuation_byte:
  assumes "entry_stored v e b" and "1024 * Suc j < length b"
  shows "(pre @ b @ post) ! (length pre + 1024 * Suc j) = 0"
    and "length pre + 1024 * Suc j + 1024 \<le> length (pre @ b @ post)"
proof -
  from assms obtain c where "entry_pages c b" by (auto simp: entry_stored_def)
  with assms(2) have "b ! (1024 * Suc j) = 0" using entry_pages_header by (metis nat.distinct(1))
  with assms(2) show "(pre @ b @ post) ! (length pre + 1024 * Suc j) = 0" by (simp add: nth_append)
  from entry_stored_length [OF assms(1)] obtain n where "length b = 1024 * n" by blast
  moreover from this assms(2) have "Suc (Suc j) \<le> n" by simp
  ultimately show "length pre + 1024 * Suc j + 1024 \<le> length (pre @ b @ post)"
    using mult_le_mono2 [of "Suc (Suc j)" n 1024] by simp
qed

lemma scan_back_to_start:
  "entry_stored v e b \<Longrightarrow> 1024 * j < length b \<Longrightarrow>
     scan_bytes v False (pre @ b @ post) (length pre + 1024 * j) = scan_bytes v False (pre @ b @ post) (length pre)"
proof (induction j)
  case (Suc j)
  from continuation_byte [OF Suc.prems, of pre post]
  have "scan_bytes v False (pre @ b @ post) (length pre + 1024 * Suc j) =
      scan_bytes v False (pre @ b @ post) (length pre + 1024 * j)"
    by (subst scan_skips) auto
  with Suc show ?case by simp
qed simp

lemma scan_forward_to_end:
  assumes "entry_stored v e b" and "0 < j" and "1024 * j \<le> length b"
  shows "scan_bytes v True (pre @ b @ post) (length pre + 1024 * j) = scan_bytes v True (pre @ b @ post) (length pre + length b)"
  using assms(2,3)
proof (induction "length b - 1024 * j" arbitrary: j rule: less_induct)
  case less
  from entry_stored_length [OF assms(1)] obtain n where n: "length b = 1024 * n" by blast
  show ?case
  proof (cases "j = n")
    case False
    then have lt: "1024 * j < length b" using less.prems n by simp
    obtain i where i: "j = Suc i" using less.prems by (cases j) auto
    from continuation_byte [OF assms(1) lt [unfolded i], of pre post]
    have "scan_bytes v True (pre @ b @ post) (length pre + 1024 * j) =
        scan_bytes v True (pre @ b @ post) (length pre + 1024 * Suc j)"
      unfolding i by (subst scan_skips) (auto simp: algebra_simps)
    also have "\<dots> = scan_bytes v True (pre @ b @ post) (length pre + length b)"
      using lt n by (intro less.hyps) auto
    finally show ?thesis .
  qed (simp add: n)
qed

text \<open>The entry to which a page belongs.\<close>

lemma page_owner:
  "log_holds v es buf \<Longrightarrow> 1024 * k < length buf \<Longrightarrow>
     \<exists>es1 e es2 pre b post j. es = es1 @ e # es2 \<and> buf = pre @ b @ post \<and> log_holds v es1 pre \<and>
       entry_stored v e b \<and> log_holds v es2 post \<and> 1024 * k = length pre + 1024 * j \<and> 1024 * j < length b"
proof (induction es arbitrary: buf k)
  case (Cons e es)
  then obtain b rest where b: "buf = b @ rest" "entry_stored v e b" "log_holds v es rest"
    by (auto simp: log_holds_Cons)
  show ?case
  proof (cases "1024 * k < length b")
    case True
    with b show ?thesis by (intro exI [of _ "[]"] exI [of _ e] exI [of _ es] exI [of _ b] exI [of _ rest] exI [of _ k]) auto
  next
    case False
    from entry_stored_length [OF b(2)] obtain n where n: "length b = 1024 * n" by blast
    with False Cons.prems b have "1024 * (k - n) < length rest" by (auto simp: diff_mult_distrib2)
    from Cons.IH [OF b(3) this] obtain es1 e' es2 pre b' post j where
      "es = es1 @ e' # es2" "rest = pre @ b' @ post" "log_holds v es1 pre" "entry_stored v e' b'"
      "log_holds v es2 post" "1024 * (k - n) = length pre + 1024 * j" "1024 * j < length b'" by blast
    moreover have "log_holds v (e # es1) (b @ pre)" using b calculation by (auto simp: log_holds_Cons)
    moreover have "1024 * k = 1024 * n + 1024 * (k - n)" using False n by (simp add: diff_mult_distrib2)
    ultimately show ?thesis using b n
      by (intro exI [of _ "e # es1"] exI [of _ e'] exI [of _ es2] exI [of _ "b @ pre"] exI [of _ b']
          exI [of _ post] exI [of _ j]) auto
  qed
qed simp

lemma scan_back:
  assumes "chunk_vault v" and "log_holds v es buf" and "length buf < 2 ^ 64" and "1024 * k < length buf"
  obtains es1 e es2 pre b post n where "es = es1 @ e # es2" and "buf = pre @ b @ post" and "log_holds v es1 pre"
    and "entry_stored v e b" and "log_holds v es2 post" and "length pre \<le> 1024 * k" and "1024 * k < length pre + length b"
    and "scan_bytes v False buf (1024 * k) = Ok (ScanFound (le_norm e) (length pre) n)"
proof -
  from page_owner [OF assms(2,4)] obtain es1 e es2 pre b post j where o: "es = es1 @ e # es2" "buf = pre @ b @ post"
    "log_holds v es1 pre" "entry_stored v e b" "log_holds v es2 post" "1024 * k = length pre + 1024 * j" "1024 * j < length b"
    by blast
  obtain n where "scan_bytes v False buf (length pre) = Ok (ScanFound (le_norm e) (length pre) n)"
    using scan_start_of_entry [OF assms(1) o(4), of pre post False] assms(3) o(2) by auto
  then have "scan_bytes v False buf (1024 * k) = Ok (ScanFound (le_norm e) (length pre) n)"
    using scan_back_to_start [OF o(4,7), of pre post] o(2,6) by simp
  then show ?thesis using o by (intro that [of es1 e es2 pre b post n]) simp_all
qed

section \<open>Pushing\<close>

text \<open>A log in use: its file holds the entries, in ascending order of their ids, and the shared state knows
  the length of the file and the last id.\<close>

definition ids_ascending :: "transaction_id \<Rightarrow> log_entry list \<Rightarrow> bool" where
  "ids_ascending last_id es \<longleftrightarrow> sorted_wrt (<) (last_id # map le_id es)"

definition last_id :: "transaction_id \<Rightarrow> log_entry list \<Rightarrow> transaction_id" where
  "last_id i es = (if es = [] then i else le_id (last es))"

definition log_ok :: "vault option \<Rightarrow> log_entry list \<Rightarrow> 'c tx_log \<Rightarrow> bool" where
  "log_ok v es l \<longleftrightarrow> log_holds v es (mf_buffer (tl_file l)) \<and> ts_file_offset (tl_state l) = length (mf_buffer (tl_file l)) \<and>
     ids_ascending 0 es \<and> ts_last_written (tl_state l) = last_id 0 es"

text \<open>An entry the log accepts: it can be encrypted, and fits the three bytes of the length.\<close>

definition pushable :: "vault option \<Rightarrow> log_entry \<Rightarrow> bool" where
  "pushable v e \<longleftrightarrow> (case encrypt_with v (le_serialize e) of Ok c \<Rightarrow> c \<noteq> [] \<and> length c < 2 ^ 24 | _ \<Rightarrow> False)"

lemma pushable_plain: "pushable None e \<longleftrightarrow> length (case le_data e of Some d \<Rightarrow> d | None \<Rightarrow> []) < 2 ^ 24 - 8"
proof -
  have "u64_be (le_id e) \<noteq> []" using length_u_be(3) [of "le_id e"] by force
  then show ?thesis by (auto simp: pushable_def encrypt_with_def le_serialize_def split: option.splits)
qed

lemma last_id_Cons [simp]: "last_id i (e # es) = last_id (le_id e) es" "last_id i [] = i"
  by (simp_all add: last_id_def)

lemma last_id_append: "last_id i (es @ es') = last_id (last_id i es) es'"
  by (simp add: last_id_def)

lemma ids_ascending_Cons: "ids_ascending i (e # es) \<longleftrightarrow> i < le_id e \<and> ids_ascending (le_id e) es"
  by (auto simp: ids_ascending_def)

lemma ids_ascending_append: "ids_ascending i (es @ es') \<longleftrightarrow> ids_ascending i es \<and> ids_ascending (last_id i es) es'"
  by (induction es arbitrary: i) (simp_all add: ids_ascending_Cons, simp add: ids_ascending_def)

lemma log_write_all_ok:
  "list_all (pushable v) es \<Longrightarrow> ids_ascending (ts_last_written (tl_state l)) es \<Longrightarrow> length scratch = 1024 \<Longrightarrow>
     \<exists>b completed'. log_write_all v es scratch completed l =
       (Ok (completed @ completed'), (log_appended b l)
          \<lparr>tl_state := (tl_state (log_appended b l))\<lparr>ts_last_written := last_id (ts_last_written (tl_state l)) es\<rparr>\<rparr>) \<and>
       log_holds v es b \<and> map fst completed' = map le_id es"
proof (induction es arbitrary: l scratch completed)
  case Nil
  have "l\<lparr>tl_state := (tl_state l)\<lparr>ts_last_written := ts_last_written (tl_state l)\<rparr>\<rparr> = l" by simp
  moreover have "log_appended [] l = l" by (simp add: log_appended_def mf_write_def)
  ultimately show ?case by (intro exI [of _ "[]"]) simp
next
  case (Cons e es)
  let ?l = "l\<lparr>tl_state := (tl_state l)\<lparr>ts_last_written := le_id e\<rparr>\<rparr>"
  from Cons.prems(1) obtain c where c: "encrypt_with v (le_serialize e) = Ok c" "c \<noteq> []" "length c < 2 ^ 24"
    by (auto simp: pushable_def split: res.splits)
  from write_entry [OF c(2,3) Cons.prems(3), of ?l] obtain b scratch' where
    w: "log_write_pages c 0 scratch ?l = (Ok scratch', log_appended b ?l)" "entry_pages c b" "length scratch' = 1024"
    by blast
  let ?p = "(le_id e, Some (ts_file_offset (tl_state l)))"
  have "ids_ascending (ts_last_written (tl_state (log_appended b ?l))) es"
    using Cons.prems(2) by (simp add: ids_ascending_Cons)
  from Cons.IH [OF _ this w(3), of "completed @ [?p]"] Cons.prems(1) obtain b' completed' where
    ih: "log_write_all v es scratch' (completed @ [?p]) (log_appended b ?l) =
       (Ok (completed @ ?p # completed'), (log_appended b' (log_appended b ?l))
          \<lparr>tl_state := (tl_state (log_appended b' (log_appended b ?l)))\<lparr>ts_last_written := last_id (le_id e) es\<rparr>\<rparr>)"
    "log_holds v es b'" "map fst completed' = map le_id es" by auto
  have "log_write_all v (e # es) scratch completed l =
      (Ok (completed @ ?p # completed'), (log_appended (b @ b') l)
        \<lparr>tl_state := (tl_state (log_appended (b @ b') l))\<lparr>ts_last_written := last_id (le_id e) es\<rparr>\<rparr>)"
    using Cons.prems(2) c(1) w(1) ih(1)
    by (simp add: bindS_def Let_def ids_ascending_Cons log_appended_def mf_write_def)
  moreover have "log_holds v (e # es) (b @ b')"
    using c(1) w(2) ih(2) by (auto simp: log_holds_Cons entry_stored_def)
  ultimately show ?case using ih(3) by (intro exI [of _ "b @ b'"] exI [of _ "?p # completed'"]) simp
qed

text \<open>Pushing ascending entries appends them.\<close>

lemma log_push_ok:
  assumes "log_ok v es l" and "list_all (pushable v) es'" and "ids_ascending (last_id 0 es) es'"
  shows "\<exists>l'. log_push lru v es' l = (Ok (), l') \<and> log_ok v (es @ es') l' \<and>
    ts_current_transaction_id (tl_state l') = ts_current_transaction_id (tl_state l)"
proof -
  have last: "ts_last_written (tl_state l) = last_id 0 es" using assms(1) by (simp add: log_ok_def)
  obtain b completed where w: "log_write_all v es' (replicate 1024 0) [] l =
      (Ok completed, (log_appended b l)
        \<lparr>tl_state := (tl_state (log_appended b l))\<lparr>ts_last_written := last_id (last_id 0 es) es'\<rparr>\<rparr>)"
    "log_holds v es' b"
    using log_write_all_ok [OF assms(2), of l "replicate 1024 0" "[]"] assms(3) last by auto
  then show ?thesis using assms
    by (auto simp: log_push_def bindS_def log_page_size_def on_state_def log_ok_def log_holds_append
        last_id_append ids_ascending_append ts_note_completed_def)
qed

lemma log_push_unordered:
  assumes "le_id e \<le> ts_last_written (tl_state l)"
  shows "log_push lru v (e # es) l = (Err TransactionPushedOutOfOrder, l)"
  using assms by (simp add: log_push_def bindS_def not_less [symmetric])

section \<open>Opening a log\<close>

lemma last_page_owner:
  assumes "chunk_vault v" and "log_holds v es buf" and "es \<noteq> []" and "length buf < 2 ^ 64"
  shows "\<exists>p n. scan_bytes v False buf (length buf - 1024) = Ok (ScanFound (le_norm (last es)) p n)"
proof -
  from log_holds_length [OF assms(2)] assms(3) obtain m where m: "length buf = 1024 * m" "0 < m"
    by (metis length_greater_0_conv less_le_trans)
  then have k: "1024 * (m - 1) < length buf" "length buf - 1024 = 1024 * (m - 1)" by (auto simp: diff_mult_distrib2)
  from scan_back [OF assms(1,2,4) k(1)] obtain es1 e es2 pre b post n where s: "es = es1 @ e # es2" "buf = pre @ b @ post"
    "entry_stored v e b" "log_holds v es2 post" "1024 * (m - 1) < length pre + length b" "log_holds v es1 pre"
    "scan_bytes v False buf (1024 * (m - 1)) = Ok (ScanFound (le_norm e) (length pre) n)" by metis
  from log_holds_length [OF s(4)] log_holds_length [OF s(6)] entry_stored_length [OF s(3)]
  obtain i j h where l: "length post = 1024 * i" "length es2 \<le> i" "length pre = 1024 * j" "length b = 1024 * h" by blast
  with m s(2) have "m = j + h + i" by simp
  with s(5) l have "i = 0" by simp
  with l(2) s(1) have "e = last es" by simp
  with s(7) k(2) show ?thesis by auto
qed

lemma log_initialize_ok:
  assumes "chunk_vault v" and "log_holds v es buf" and "es \<noteq> []" and "length (buf @ torn) < 2 ^ 64" and "length torn < 1024"
    and "le_id (last es) \<noteq> - 1" and "ids_ascending 0 es"
  shows "\<exists>l. log_initialize_state v (Some (buf @ torn)) (ts_from_path cache) = (Ok (), l) \<and> log_ok v es l \<and>
    mf_buffer (tl_file l) = buf \<and> ts_next_transaction_id (tl_state l) = le_id (last es) + 1"
proof -
  from log_holds_length [OF assms(2)] assms(3) obtain m where m: "length buf = 1024 * m" "0 < m"
    by (metis length_greater_0_conv less_le_trans)
  have cut: "length (buf @ torn) - length (buf @ torn) mod 1024 = length buf" using m assms(5) by simp
  obtain p n where p: "scan_bytes v False buf (length buf - 1024) = Ok (ScanFound (le_norm (last es)) p n)"
    using last_page_owner [OF assms(1-3)] assms(4) by auto
  let ?f = "\<lparr>mf_buffer = buf, mf_position = 0\<rparr>"
  from scan_for_transaction_bytes [of v "length buf - 1024" False ?f] p
  obtain f' where f': "scan_for_transaction v (length buf - 1024) False ?f = (Ok (ScanFound (le_norm (last es)) p n), f')"
    "mf_buffer f' = buf" by auto
  have "buf \<noteq> []" using m by auto
  then show ?thesis using cut f' assms m
    by (simp add: log_initialize_state_def initialize_from_def log_page_size_def Let_def on_file_def bindS_def
        ts_initialize_def ts_from_path_def log_ok_def last_id_def ts_next_transaction_id_def)
qed

end
