(* ===== verification/Log_Queries.thy ===== *)
theory Log_Queries
  imports Log_Contents
begin

text \<open>
  Queries on a transaction log: a scan visits the entries in order, an entry that is fetched is an entry
  of the log with the id asked for, and what opening does with a log that ends inside an entry.
\<close>

section \<open>Visiting the entries in a range\<close>

fun log_visit :: "(transaction_id bound \<times> transaction_id bound) \<Rightarrow> 'k log_callback \<Rightarrow> log_entry list \<Rightarrow> 'k \<Rightarrow> 'k" where
  "log_visit ids callback [] k = k"
| "log_visit ids callback (e # es) k =
     (case (if range_contains ids (le_id e) then callback e k else (True, k)) of
        (go_on, k') \<Rightarrow> if go_on then log_visit ids callback es k' else k')"

lemma on_file_scan:
  obtains l' where "on_file (scan_for_transaction v p fwd) l = (scan_bytes v fwd (mf_buffer (tl_file l)) p, l')"
    and "mf_buffer (tl_file l') = mf_buffer (tl_file l)" and "tl_state l' = tl_state l"
  using scan_for_transaction_bytes [of v p fwd "tl_file l"] by (auto simp: on_file_def)

lemma next_page_in_entry:
  assumes "0 < n" and "n < 1024 * m"
  shows "\<exists>j. next_page_start (1024 * k + n) = 1024 * k + 1024 * j \<and> 0 < j \<and> j \<le> m"
proof -
  have "(1024 * k + n + 1024 - 1) div 1024 = k + (n + 1023) div 1024"
    using div_mult_self1 [of 1024 "n + 1023" k] by (simp add: algebra_simps)
  moreover have "0 < (n + 1023) div 1024" "(n + 1023) div 1024 \<le> m" using assms by auto
  ultimately show ?thesis
    by (intro exI [of _ "(n + 1023) div 1024"]) (simp add: next_page_start_def log_page_size_def algebra_simps)
qed

lemma log_scan_loop_visits:
  "chunk_vault v \<Longrightarrow> mf_buffer (tl_file l) = pre @ rest \<Longrightarrow> log_holds v es1 pre \<Longrightarrow> log_holds v es rest \<Longrightarrow>
     length (pre @ rest) < 2 ^ 64 \<Longrightarrow> scan_bytes v True (pre @ rest) p = scan_bytes v True (pre @ rest) (length pre) \<Longrightarrow>
     length es < fuel \<Longrightarrow>
     \<exists>l'. log_scan_loop fuel v ids callback p k l = (Ok (log_visit ids callback (map le_norm es) k), l') \<and>
       mf_buffer (tl_file l') = mf_buffer (tl_file l) \<and> tl_state l' = tl_state l"
proof (induction fuel arbitrary: l pre rest es1 es p k)
  case (Suc fuel)
  obtain l1 where l1: "on_file (scan_for_transaction v p True) l = (scan_bytes v True (pre @ rest) (length pre), l1)"
    "mf_buffer (tl_file l1) = pre @ rest" "tl_state l1 = tl_state l"
    using on_file_scan [of v p True l] Suc.prems(2,6) by metis
  show ?case
  proof (cases es)
    case Nil
    then show ?thesis using Suc.prems l1 scan_past_end [of pre "length pre" v True] by (auto simp: bindS_def)
  next
    case (Cons e es')
    then obtain b post where b: "rest = b @ post" "entry_stored v e b" "log_holds v es' post"
      using Suc.prems(4) by (auto simp: log_holds_Cons)
    obtain n where n: "scan_bytes v True (pre @ rest) (length pre) = Ok (ScanFound (le_norm e) (length pre) n)"
      "0 < n" "n < length b"
      using scan_start_of_entry [OF Suc.prems(1) b(2), of pre post True] Suc.prems(5) b(1) by auto
    obtain i m where m: "length pre = 1024 * i" "length b = 1024 * m"
      using log_holds_length [OF Suc.prems(3)] entry_stored_length [OF b(2)] by blast
    then obtain j where j: "next_page_start (length pre + n) = length pre + 1024 * j" "0 < j" "1024 * j \<le> length b"
      using next_page_in_entry [of n m i] n by auto
    have before: "log_holds v (es1 @ [e]) (pre @ b)"
      using Suc.prems(3) b(2) by (auto simp: log_holds_append log_holds_Cons)
    have jump: "scan_bytes v True ((pre @ b) @ post) (next_page_start (length pre + n)) =
        scan_bytes v True ((pre @ b) @ post) (length (pre @ b))"
      using scan_forward_to_end [OF b(2) j(2,3), of pre post] j(1) by simp
    have step: "\<exists>l'. log_scan_loop fuel v ids callback (next_page_start (length pre + n)) k' l1 =
        (Ok (log_visit ids callback (map le_norm es') k'), l') \<and> mf_buffer (tl_file l') = mf_buffer (tl_file l1) \<and>
        tl_state l' = tl_state l1" for k'
      using Suc.prems(1,5,7) l1(2) b(1,3) Cons by (intro Suc.IH [OF _ _ before _ _ jump]) auto
    show ?thesis using l1 n(1) Suc.prems(2) Cons step by (auto simp: bindS_def split: prod.splits)
  qed
qed simp

lemma log_visit_skip:
  "\<forall>e \<in> set es. \<not> range_contains ids (le_id e) \<Longrightarrow> log_visit ids callback (es @ es') k = log_visit ids callback es' k"
  by (induction es) auto

section \<open>Where a scan ends\<close>

lemma scan_found:
  assumes "chunk_vault v" and "log_holds v es buf" and "length buf < 2 ^ 64"
    and "scan_bytes v fwd buf (1024 * k) = Ok (ScanFound e p n)"
  shows "\<exists>es1 e' es2 pre b post. es = es1 @ e' # es2 \<and> buf = pre @ b @ post \<and> log_holds v es1 pre \<and>
    entry_stored v e' b \<and> log_holds v es2 post \<and> e = le_norm e' \<and> p = length pre \<and> 0 < n \<and> n < length b"
proof -
  have at: ?thesis if "es = es1 @ e' # es2" "buf = pre @ b @ post" "log_holds v es1 pre" "entry_stored v e' b"
    "log_holds v es2 post" "scan_bytes v fwd buf (length pre) = Ok (ScanFound e p n)" for es1 e' es2 pre b post
  proof -
    from scan_start_of_entry [OF assms(1) that(4), of pre post fwd] assms(3) that
    have "e = le_norm e'" "p = length pre" "0 < n" "n < length b" by auto
    with that(1-5) show ?thesis by blast
  qed
  show ?thesis
  proof (cases "1024 * k < length buf")
    case False
    with assms(4) scan_past_end [of buf "1024 * k" v fwd] show ?thesis by simp
  next
    case True
    from page_owner [OF assms(2) True] obtain es1 e' es2 pre b post j where o: "es = es1 @ e' # es2" "buf = pre @ b @ post"
      "log_holds v es1 pre" "entry_stored v e' b" "log_holds v es2 post" "1024 * k = length pre + 1024 * j" "1024 * j < length b"
      by blast
    show ?thesis
    proof (cases "fwd \<and> 0 < j")
      case False
      then have "scan_bytes v fwd buf (1024 * k) = scan_bytes v fwd buf (length pre)"
        using scan_back_to_start [OF o(4,7), of pre post] o by (cases fwd) auto
      then show ?thesis using at [OF o(1-5)] assms(4) by simp
    next
      case fwd: True
      then have end_: "scan_bytes v fwd buf (length (pre @ b)) = Ok (ScanFound e p n)"
        using scan_forward_to_end [OF o(4) _ less_imp_le [OF o(7)], of pre post] o assms(4) by simp
      show ?thesis
      proof (cases es2)
        case Nil
        then show ?thesis using end_ o scan_past_end [of buf "length (pre @ b)" v fwd] by simp
      next
        case (Cons e2 es3)
        then obtain b2 post2 where "post = b2 @ post2" "entry_stored v e2 b2" "log_holds v es3 post2"
          using o(5) by (auto simp: log_holds_Cons)
        moreover have "log_holds v (es1 @ [e']) (pre @ b)" using o by (auto simp: log_holds_append log_holds_Cons)
        ultimately show ?thesis using at [of "es1 @ [e']" e2 es3 "pre @ b" b2 post2] o Cons end_ by simp
      qed
    qed
  qed
qed

section \<open>Fetching\<close>

definition aligned :: "nat \<Rightarrow> bool" where
  "aligned p \<longleftrightarrow> 1024 dvd p"

definition guess_aligned :: "guess_fun \<Rightarrow> bool" where
  "guess_aligned guess \<longleftrightarrow> (\<forall>i ll lid ul uid g. (\<forall>p. ll = Some p \<longrightarrow> aligned p) \<longrightarrow> aligned ul \<longrightarrow> ul < 2 ^ 64 \<longrightarrow>
     guess i ll lid ul uid = Ok (Some g) \<longrightarrow> aligned g)"

lemma aligned_diff [intro]: "aligned p \<Longrightarrow> aligned q \<Longrightarrow> aligned (p - q)"
  and aligned_add [intro]: "aligned p \<Longrightarrow> aligned q \<Longrightarrow> aligned (p + q)"
  and aligned_page [simp]: "aligned (x * log_page_size)" "aligned log_page_size"
  by (simp_all add: aligned_def log_page_size_def)

lemma aligned_saturated:
  assumes "aligned ul" and "ul < 2 ^ 64"
  shows "aligned (ul - min (x * log_page_size) (2 ^ 64 - 1))"
proof (cases "x * log_page_size \<le> 2 ^ 64 - 1")
  case True
  then show ?thesis using assms by (simp only: min_absorb1) (intro aligned_diff aligned_page)
next
  case False
  then show ?thesis using assms(2) by (simp add: aligned_def)
qed

lemma guess_page_aligned: "guess_aligned guess_page"
  unfolding guess_aligned_def
proof (intro allI impI)
  fix i ll lid ul uid g
  assume a: "\<forall>p. ll = Some p \<longrightarrow> aligned p" "aligned ul" "ul < 2 ^ 64" "guess_page i ll lid ul uid = Ok (Some g)"
  show "aligned g"
  proof (cases "ll = None \<or> lid = None")
    case True
    with a(4) have "\<exists>x. g = ul - min (x * log_page_size) (2 ^ 64 - 1)"
      unfolding guess_page_def by (fastforce simp: Let_def split: option.splits if_splits)
    then show ?thesis using aligned_saturated [OF a(2,3)] by blast
  next
    case False
    then obtain p j where p: "ll = Some p" "lid = Some j" by auto
    with a(4) have "g = ul - log_page_size \<or> (\<exists>x. g = p + x * log_page_size)"
      unfolding guess_page_def by (auto simp only: Let_def option.case prod.case res.inject option.inject split: if_splits)
    then show ?thesis using a(1,2) p(1) by auto
  qed
qed

text \<open>One round of the loop: it stops without an entry, or finds an entry at the guessed page, notes it, and
  then stops or narrows the search.\<close>

lemma fetch_round:
  assumes "fetch_loop guess lru v i ll lid ul uid l = (Ok r, l')"
  shows "((\<exists>p. r = ScanNotFound p) \<and> mf_buffer (tl_file l') = mf_buffer (tl_file l) \<and> tl_state l' = tl_state l) \<or>
    (\<exists>g e p n l1. guess i ll lid ul uid = Ok (Some g) \<and>
       scan_bytes v (g \<ge> ul) (mf_buffer (tl_file l)) g = Ok (ScanFound e p n) \<and>
       mf_buffer (tl_file l1) = mf_buffer (tl_file l) \<and>
       tl_state l1 = ts_note_status lru (le_id e) (Some p) (tl_state l) \<and>
       ((\<exists>p. r = ScanNotFound p) \<and> l' = l1 \<or>
        le_id e = i \<and> r = ScanFound e p n \<and> l' = l1 \<or>
        le_id e < i \<and> (lid = None \<or> le_id e > the lid) \<and>
          fetch_loop guess lru v i (Some p) (Some (le_id e)) ul uid l1 = (Ok r, l') \<or>
        i < le_id e \<and> le_id e < uid \<and> fetch_loop guess lru v i ll lid p (le_id e) l1 = (Ok r, l')))"
    (is "?stop \<or> ?found")
proof -
  note eq = assms [unfolded fetch_loop.simps [of guess lru v i ll lid ul uid]]
  from eq obtain gg where gg: "guess i ll lid ul uid = Ok gg" by (auto elim!: bindS_OkE)
  show ?thesis
  proof (cases "gg = None \<or> gg = Some ul")
    case True
    with eq gg have ?stop by (auto simp: bindS_def)
    then show ?thesis ..
  next
    case False
    then obtain g where g: "gg = Some g" "g \<noteq> ul" by auto
    obtain l0 where l0: "on_file (scan_for_transaction v g (g \<ge> ul)) l =
        (scan_bytes v (g \<ge> ul) (mf_buffer (tl_file l)) g, l0)"
      "mf_buffer (tl_file l0) = mf_buffer (tl_file l)" "tl_state l0 = tl_state l"
      by (rule on_file_scan [of v g "g \<ge> ul" l])
    from eq gg g l0 obtain sr where sr: "scan_bytes v (g \<ge> ul) (mf_buffer (tl_file l)) g = Ok sr"
      by (auto simp: bindS_def split: res.splits)
    show ?thesis
    proof (cases sr)
      case (ScanNotFound q)
      with eq gg g l0 sr have ?stop by (auto simp: bindS_def)
      then show ?thesis ..
    next
      case (ScanFound e p n)
      define l1 where "l1 = l0\<lparr>tl_state := ts_note_status lru (le_id e) (Some p) (tl_state l0)\<rparr>"
      have l1: "mf_buffer (tl_file l1) = mf_buffer (tl_file l)"
        "tl_state l1 = ts_note_status lru (le_id e) (Some p) (tl_state l)" using l0 by (simp_all add: l1_def)
      have "(\<exists>p. r = ScanNotFound p) \<and> l' = l1 \<or> le_id e = i \<and> r = ScanFound e p n \<and> l' = l1 \<or>
          le_id e < i \<and> (lid = None \<or> le_id e > the lid) \<and>
              fetch_loop guess lru v i (Some p) (Some (le_id e)) ul uid l1 = (Ok r, l') \<or>
          i < le_id e \<and> le_id e < uid \<and> fetch_loop guess lru v i ll lid p (le_id e) l1 = (Ok r, l')"
        using eq gg g l0(1) sr ScanFound
        by (cases "le_id e" i rule: linorder_cases) (auto simp: bindS_def on_state_def l1_def [symmetric] split: if_splits)
      with gg g sr ScanFound l1 have ?found by blast
      then show ?thesis ..
    qed
  qed
qed

text \<open>What the loop keeps and what it finds. \<open>I\<close> is a property of the shared state that survives noting the
  position of an entry of the log.\<close>

definition fetch_gap :: "transaction_id \<Rightarrow> transaction_id option \<Rightarrow> transaction_id \<Rightarrow> nat" where
  "fetch_gap i lid uid = (unat uid - unat i) + (case lid of None \<Rightarrow> Suc (unat i) | Some j \<Rightarrow> unat i - unat j)"

lemma fetch_gap_less:
  "j < i \<Longrightarrow> lid = None \<or> the lid < j \<Longrightarrow> fetch_gap i (Some j) uid < fetch_gap i lid uid"
  "i < j \<Longrightarrow> j < uid \<Longrightarrow> fetch_gap i lid j < fetch_gap i lid uid"
  by (auto simp: fetch_gap_def word_less_nat_alt split: option.splits)

lemma fetch_loop_rule:
  assumes guess: "guess_aligned guess" and v: "chunk_vault v" and buf: "log_holds v es buf" "length buf < 2 ^ 64"
    and note_ok: "\<And>e p s. e \<in> le_norm ` set es \<Longrightarrow> I s \<Longrightarrow> I (ts_note_status lru (le_id e) (Some p) s)"
  shows "mf_buffer (tl_file l) = buf \<Longrightarrow> I (tl_state l) \<Longrightarrow> \<forall>p. ll = Some p \<longrightarrow> aligned p \<Longrightarrow> aligned ul \<Longrightarrow> ul < 2 ^ 64 \<Longrightarrow>
     fetch_loop guess lru v i ll lid ul uid l = (Ok r, l') \<Longrightarrow>
     mf_buffer (tl_file l') = buf \<and> I (tl_state l') \<and>
     (\<forall>e p n. r = ScanFound e p n \<longrightarrow> le_id e = i \<and> (\<exists>fwd k. scan_bytes v fwd buf (1024 * k) = Ok (ScanFound e p n)))"
proof (induction "fetch_gap i lid uid" arbitrary: l ll lid ul uid rule: less_induct)
  case less
  from fetch_round [OF less.prems(6)] show ?case
  proof
    assume "(\<exists>p. r = ScanNotFound p) \<and> mf_buffer (tl_file l') = mf_buffer (tl_file l) \<and> tl_state l' = tl_state l"
    then show ?thesis using less.prems by auto
  next
    assume "\<exists>g e p n l1. guess i ll lid ul uid = Ok (Some g) \<and>
       scan_bytes v (g \<ge> ul) (mf_buffer (tl_file l)) g = Ok (ScanFound e p n) \<and>
       mf_buffer (tl_file l1) = mf_buffer (tl_file l) \<and>
       tl_state l1 = ts_note_status lru (le_id e) (Some p) (tl_state l) \<and>
       ((\<exists>p. r = ScanNotFound p) \<and> l' = l1 \<or>
        le_id e = i \<and> r = ScanFound e p n \<and> l' = l1 \<or>
        le_id e < i \<and> (lid = None \<or> le_id e > the lid) \<and>
          fetch_loop guess lru v i (Some p) (Some (le_id e)) ul uid l1 = (Ok r, l') \<or>
        i < le_id e \<and> le_id e < uid \<and> fetch_loop guess lru v i ll lid p (le_id e) l1 = (Ok r, l'))"
    then obtain g e p n l1 where g: "guess i ll lid ul uid = Ok (Some g)"
      and s: "scan_bytes v (g \<ge> ul) buf g = Ok (ScanFound e p n)"
      and l1: "mf_buffer (tl_file l1) = buf" "tl_state l1 = ts_note_status lru (le_id e) (Some p) (tl_state l)"
      and c: "(\<exists>p. r = ScanNotFound p) \<and> l' = l1 \<or> le_id e = i \<and> r = ScanFound e p n \<and> l' = l1 \<or>
        le_id e < i \<and> (lid = None \<or> le_id e > the lid) \<and>
          fetch_loop guess lru v i (Some p) (Some (le_id e)) ul uid l1 = (Ok r, l') \<or>
        i < le_id e \<and> le_id e < uid \<and> fetch_loop guess lru v i ll lid p (le_id e) l1 = (Ok r, l')"
      using less.prems(1) by auto
    from guess g less.prems(3-5) have "aligned g" unfolding guess_aligned_def by blast
    then obtain k where k: "g = 1024 * k" by (auto simp: aligned_def)
    from scan_found [OF v buf s [unfolded k]] obtain es1 e0 es2 pre b post where
      own: "es = es1 @ e0 # es2" "buf = pre @ b @ post" "log_holds v es1 pre" "e = le_norm e0" "p = length pre" by blast
    have p: "aligned p" "p < 2 ^ 64" using log_holds_length [OF own(3)] own buf(2) by (auto simp: aligned_def)
    have I: "I (tl_state l1)" using note_ok [of e "tl_state l" p] less.prems(2) own l1 by simp
    have pp: "\<forall>q. Some p = Some q \<longrightarrow> aligned q" using p by simp
    have up: ?thesis if "le_id e < i" "lid = None \<or> the lid < le_id e"
      "fetch_loop guess lru v i (Some p) (Some (le_id e)) ul uid l1 = (Ok r, l')"
      by (rule less.hyps [OF fetch_gap_less(1) [OF that(1,2)] l1(1) I pp less.prems(4,5) that(3)])
    have down: ?thesis if "i < le_id e" "le_id e < uid" "fetch_loop guess lru v i ll lid p (le_id e) l1 = (Ok r, l')"
      by (rule less.hyps [OF fetch_gap_less(2) [OF that(1,2)] l1(1) I less.prems(3) p that(3)])
    from c show ?thesis
    proof (elim disjE conjE)
      assume "le_id e < i" "lid = None" "fetch_loop guess lru v i (Some p) (Some (le_id e)) ul uid l1 = (Ok r, l')"
      then show ?thesis using up by blast
    next
      assume "le_id e < i" "the lid < le_id e" "fetch_loop guess lru v i (Some p) (Some (le_id e)) ul uid l1 = (Ok r, l')"
      then show ?thesis using up by blast
    next
      assume "i < le_id e" "le_id e < uid" "fetch_loop guess lru v i ll lid p (le_id e) l1 = (Ok r, l')"
      then show ?thesis using down by blast
    qed (use s k l1 I in auto)
  qed
qed

lemma fetch_entry_rule:
  assumes "chunk_vault v" and "log_ok v es l" and "length (mf_buffer (tl_file l)) < 2 ^ 64"
    and note_ok: "\<forall>e p s. e \<in> le_norm ` set es \<longrightarrow> I s \<longrightarrow> I (ts_note_status lru (le_id e) (Some p) s)"
    and "I (tl_state l)" and "fetch_entry lru v i l = (Ok r, l')"
  shows "mf_buffer (tl_file l') = mf_buffer (tl_file l)" and "I (tl_state l')"
    and "r = ScanFound e p n \<Longrightarrow> \<exists>es1 e' es2 pre b post. es = es1 @ e' # es2 \<and> mf_buffer (tl_file l) = pre @ b @ post \<and>
      log_holds v es1 pre \<and> entry_stored v e' b \<and> log_holds v es2 post \<and> e = le_norm e' \<and> le_id e' = i \<and> p = length pre \<and>
      0 < n \<and> n < length b"
proof -
  let ?buf = "mf_buffer (tl_file l)"
  have holds: "log_holds v es ?buf" and ul: "ts_len (tl_state l) = length ?buf"
    using assms(2) by (simp_all add: log_ok_def ts_len_def)
  have "aligned (length ?buf)" using log_holds_length [OF holds] by (auto simp: aligned_def)
  note loop = fetch_loop_rule [where I = I, OF guess_page_aligned assms(1) holds assms(3) note_ok [rule_format] refl assms(5) _ this assms(3),
      where ll = None, simplified]
  have all: "mf_buffer (tl_file l') = ?buf \<and> I (tl_state l') \<and> (\<forall>e p n. r = ScanFound e p n \<longrightarrow>
      le_id e = i \<and> (\<exists>fwd k. scan_bytes v fwd ?buf (1024 * k) = Ok (ScanFound e p n)))"
  proof (cases "i > 0 \<and> ts_next_transaction_id (tl_state l) > i")
    case True
    then have "fetch_loop guess_page lru v i None None (length ?buf) (ts_next_transaction_id (tl_state l)) l = (Ok r, l')"
      using assms(6) ul by (simp add: fetch_entry_def Let_def not_le [symmetric])
    from loop [OF this] show ?thesis by blast
  next
    case False
    then show ?thesis using assms(5,6) by (auto simp: fetch_entry_def Let_def split: if_splits)
  qed
  then show "mf_buffer (tl_file l') = ?buf" and "I (tl_state l')" by simp_all
  assume "r = ScanFound e p n"
  with all obtain fwd k where "le_id e = i" "scan_bytes v fwd ?buf (1024 * k) = Ok (ScanFound e p n)" by blast
  with scan_found [OF assms(1) holds assms(3) this(2)] show "\<exists>es1 e' es2 pre b post. es = es1 @ e' # es2 \<and>
      ?buf = pre @ b @ post \<and> log_holds v es1 pre \<and> entry_stored v e' b \<and> log_holds v es2 post \<and> e = le_norm e' \<and>
      le_id e' = i \<and> p = length pre \<and> 0 < n \<and> n < length b" by (metis le_norm_id)
qed

section \<open>A log that ends inside an entry\<close>

lemma cont_pages_more: "cont_pages (drop m c) b \<Longrightarrow> b \<noteq> [] \<Longrightarrow> m < length c"
  by (rule ccontr) (auto elim: cont_nilE)

lemma read_torn:
  "cont_pages c b \<Longrightarrow> 1024 * k < length b \<Longrightarrow> mf_buffer f = pre @ take (1024 * k) b \<Longrightarrow> mf_position f = length pre \<Longrightarrow>
     length pre + length b < 2 ^ 64 \<Longrightarrow> fst (log_read_rest (length c) f) = Err (Io UnexpectedEof)"
proof (induction arbitrary: f pre k rule: cont_pages.induct)
  case (cont_page c stale b)
  let ?f = "f\<lparr>mf_position := length pre + 1\<rparr>"
  have seek: "snd (mf_seek (SeekCurrent 1) f) = ?f"
    using cont_page.prems by (simp add: mf_seek_def Let_def nat_add_distrib)
  show ?case
  proof (cases k)
    case 0
    have "mf_read_exact (min 1023 (length c)) ?f = (Err (Io UnexpectedEof), ?f)"
      using cont_page.hyps(1) cont_page.prems 0 by (simp add: mf_read_exact_def)
    then show ?thesis using seek cont_page.hyps(1)
      by (subst log_read_rest.simps) (simp add: bindS_def log_page_size_def)
  next
    case (Suc j)
    let ?g = "f\<lparr>mf_position := length pre + 1 + min 1023 (length c)\<rparr>"
    have page: "length (0 # take 1023 c @ stale) = 1024" using cont_page.hyps by simp
    have more_bytes: "1024 * j < length b" using cont_page.prems(1) page Suc by simp
    then have "b \<noteq> []" by auto
    then have "length c > 1023" using cont_pages_more [OF cont_page.hyps(3)] by blast
    then have stale: "stale = []" using cont_page.hyps by simp
    have buf: "mf_buffer f = (pre @ 0 # take 1023 c) @ take (1024 * j) b"
    proof -
      have "take (1024 * k) (0 # take 1023 c @ stale @ b) = take (1024 * k) ((0 # take 1023 c @ stale) @ b)" by simp
      also have "\<dots> = (0 # take 1023 c @ stale) @ take (1024 * j) b"
        unfolding take_append page using Suc page by simp
      finally show ?thesis using cont_page.prems(2) stale by simp
    qed
    have read: "mf_read_exact (min 1023 (length c)) ?f = (Ok (take 1023 c), ?g)"
      using read_exact_here [of ?f "pre @ [0]" "take 1023 c" "take (1024 * j) b" "min 1023 (length c)"] buf
      by (simp add: min.commute)
    have "fst (log_read_rest (length (drop 1023 c)) ?g) = Err (Io UnexpectedEof)"
      using buf \<open>length c > 1023\<close> more_bytes cont_page.prems(4) stale
      by (intro cont_page.IH [of j ?g "pre @ 0 # take 1023 c"]) auto
    then show ?thesis using seek read cont_page.hyps(1) \<open>length c > 1023\<close>
      by (subst log_read_rest.simps) (auto simp: bindS_def log_page_size_def split: prod.splits res.splits)
  qed
qed simp

lemma scan_torn:
  assumes "entry_stored v e b" and "0 < k" and "1024 * k < length b" and "length (pre @ b) < 2 ^ 64"
  shows "scan_bytes v False (pre @ take (1024 * k) b) (length (pre @ take (1024 * k) b) - 1024) = Err (Io UnexpectedEof)"
proof -
  from assms(1) obtain c where pages: "entry_pages c b" by (auto simp: entry_stored_def)
  then obtain stale rest where b: "length stale = 1020 - min 1020 (length c)" "cont_pages (drop 1020 c) rest"
    "b = (1 # be_nat 3 (length c) @ take 1020 c @ stale) @ rest" "c \<noteq> []" "length c < 2 ^ 24" by (auto simp: entry_pages_def)
  let ?p = "1 # be_nat 3 (length c) @ take 1020 c @ stale"
  let ?buf = "pre @ take (1024 * k) b"
  have page: "length ?p = 1024" using b(1) by (simp del: be_nat.simps)
  obtain j where j: "k = Suc j" using assms(2) by (cases k) auto
  have take_b: "take (1024 * k) b = ?p @ take (1024 * j) rest"
    unfolding b(3) take_append page using j page by (simp del: be_nat.simps)
  have rest: "1024 * j < length rest" using assms(3) j page unfolding b(3) by (simp del: be_nat.simps)
  then have "rest \<noteq> []" by auto
  then have long: "length c > 1020" using cont_pages_more [OF b(2)] by blast
  then have stale: "stale = []" using b(1) by simp
  have to_start: "i < k \<Longrightarrow> scan_bytes v False ?buf (length pre + 1024 * i) = scan_bytes v False ?buf (length pre)" for i
  proof (induction i)
    case (Suc i)
    have "b ! (1024 * Suc i) = 0" using entry_pages_header [OF pages, of "Suc i"] Suc.prems assms(3) by simp
    then have "?buf ! (length pre + 1024 * Suc i) = 0" using Suc.prems assms(3) by (simp add: nth_append)
    moreover have "length pre + 1024 * Suc i + 4 \<le> length ?buf" using Suc.prems assms(3) by simp
    ultimately have "scan_bytes v False ?buf (length pre + 1024 * Suc i) = scan_bytes v False ?buf (length pre + 1024 * i)"
      by (subst scan_skips) auto
    with Suc show ?case by simp
  qed simp
  let ?g = "\<lparr>mf_buffer = ?buf, mf_position = length pre + 4\<rparr>"
  let ?h = "\<lparr>mf_buffer = ?buf, mf_position = length (pre @ ?p)\<rparr>"
  have header: "mf_read_exact 4 \<lparr>mf_buffer = ?buf, mf_position = length pre\<rparr> = (Ok (1 # be_nat 3 (length c)), ?g)"
    using read_exact_here [of "\<lparr>mf_buffer = ?buf, mf_position = length pre\<rparr>" pre "1 # be_nat 3 (length c)"
        "take 1020 c @ stale @ take (1024 * j) rest" 4] take_b by (simp del: be_nat.simps)
  have first: "mf_read_exact (min 1020 (length c)) ?g = (Ok (take 1020 c), ?h)"
    using read_exact_here [of ?g "pre @ 1 # be_nat 3 (length c)" "take 1020 c" "take (1024 * j) rest" 1020]
      take_b stale long page by (simp del: be_nat.simps)
  have "length (pre @ ?p) + length rest < 2 ^ 64" using assms(4) unfolding b(3) by (simp del: be_nat.simps)
  with read_torn [OF b(2) rest, of ?h "pre @ ?p"] take_b have torn: "fst (log_read_rest (length (drop 1020 c)) ?h) = Err (Io UnexpectedEof)"
    by (simp del: be_nat.simps)
  have payload: "fst (log_read_payload (length c) ?g) = Err (Io UnexpectedEof)"
    using first torn long by (auto simp: log_read_payload_def bindS_def log_page_size_def split: prod.splits res.splits)
  have "length pre < length ?buf" using take_b by simp
  then have "scan_bytes v False ?buf (length pre) = Err (Io UnexpectedEof)"
    unfolding scan_bytes_def scan_for_transaction_def mf_length_def
    by (subst scan_loop.simps) (use header payload b(5) in
        \<open>auto simp: bindS_def Let_def res_map_def simp del: be_nat.simps split: prod.splits res.splits\<close>)
  moreover have "length ?buf - 1024 = length pre + 1024 * (k - 1)"
    using assms(2,3) by (simp add: diff_mult_distrib2)
  ultimately show ?thesis using to_start [of "k - 1"] assms(2) by simp
qed

end
