(* ===== verification/Id_Sequence.thy ===== *)
theory Id_Sequence
  imports Prelude
begin

unbundle bit_operations_syntax

text \<open>
  \<^verbatim>\<open>IdSequence\<close> of \<^verbatim>\<open>nebari/src/transaction/manager.rs\<close>: the bit set with which the manager thread knows
  whether every transaction id handed out so far has been committed or dropped. A \<^verbatim>\<open>usize\<close> is 64 bits
  wide; an overflow of \<^verbatim>\<open>id + 1\<close> and a failed \<^verbatim>\<open>checked_sub\<close> panic.
\<close>

record id_sequence =
  ids_start :: u64
  ids_length :: u64
  ids_statuses :: "u64 list"

definition ids_new :: "u64 \<Rightarrow> id_sequence" where
  "ids_new start = \<lparr>ids_start = start, ids_length = 0, ids_statuses = []\<rparr>"

definition ids_complete :: "id_sequence \<Rightarrow> bool" where
  "ids_complete q \<longleftrightarrow> ids_length q = 0"

definition ids_mask_bits :: "id_sequence \<Rightarrow> nat" where
  "ids_mask_bits q = min (unat (ids_length q)) 64"

definition ids_mask :: "nat \<Rightarrow> u64" where
  "ids_mask mask_bits = drop_bit (64 - mask_bits) (- 1)"

lemma ids_mask_bits_le: "of_nat (ids_mask_bits q) \<le> ids_length q"
  and unat_ids_mask_bits [simp]: "unat (of_nat (ids_mask_bits q) :: u64) = ids_mask_bits q"
  and ids_mask_bits_pos: "ids_length q > 0 \<Longrightarrow> 0 < ids_mask_bits q"
proof -
  show u: "unat (of_nat (ids_mask_bits q) :: u64) = ids_mask_bits q"
    by (simp add: ids_mask_bits_def unat_of_nat)
  show "of_nat (ids_mask_bits q) \<le> ids_length q"
    by (simp add: word_le_nat_alt u del: word_of_nat_less_eq_iff) (simp add: ids_mask_bits_def)
  show "ids_length q > 0 \<Longrightarrow> 0 < ids_mask_bits q"
    by (simp add: ids_mask_bits_def word_less_nat_alt)
qed

function ids_truncate :: "id_sequence \<Rightarrow> id_sequence res" where
  "ids_truncate q =
     (if ids_length q > 0 then
        (case ids_statuses q of
           [] \<Rightarrow> Panic
         | s # rest \<Rightarrow>
             if s AND ids_mask (ids_mask_bits q) = ids_mask (ids_mask_bits q) then
               ids_truncate (q\<lparr>ids_start := ids_start q + of_nat (ids_mask_bits q),
                 ids_length := ids_length q - of_nat (ids_mask_bits q), ids_statuses := rest\<rparr>)
             else Ok q)
      else Ok q)"
  by pat_completeness auto

termination ids_truncate
proof (relation "measure (\<lambda>q. unat (ids_length q))")
  fix q :: id_sequence and rest
  assume "0 < ids_length q"
  then show "(q\<lparr>ids_start := ids_start q + of_nat (ids_mask_bits q),
      ids_length := ids_length q - of_nat (ids_mask_bits q), ids_statuses := rest\<rparr>, q)
      \<in> measure (\<lambda>q. unat (ids_length q))"
    using ids_mask_bits_pos [of q] ids_mask_bits_le [of q] by (simp add: unat_sub word_less_nat_alt)
qed simp

declare ids_truncate.simps [simp del]

definition ids_note :: "u64 \<Rightarrow> id_sequence \<Rightarrow> id_sequence res" where
  "ids_note i q =
     (if i = - 1 \<or> i + 1 < ids_start q \<or> i < ids_start q then Panic
      else
        (let new_length = max (i + 1 - ids_start q) (ids_length q);
             offset = unat (i - ids_start q);
             index = offset div 64;
             statuses = ids_statuses q @ replicate (index + 1 - length (ids_statuses q)) 0;
             bit_offset = offset mod 64 in
         ids_truncate \<lparr>ids_start = ids_start q, ids_length = new_length,
           ids_statuses = statuses[index := statuses ! index OR push_bit bit_offset 1]\<rparr>))"

fun ids_note_all :: "u64 list \<Rightarrow> id_sequence \<Rightarrow> id_sequence res" where
  "ids_note_all [] q = Ok q"
| "ids_note_all (i # is) q = res_bind (ids_note i q) (ids_note_all is)"

section \<open>The set of ids a sequence stands for\<close>

definition status_bit :: "u64 list \<Rightarrow> nat \<Rightarrow> bool" where
  "status_bit ss k \<longleftrightarrow> k div 64 < length ss \<and> bit (ss ! (k div 64)) (k mod 64)"

text \<open>The ids accounted for: those below the start, and those whose bit is set.\<close>

definition ids_seen :: "id_sequence \<Rightarrow> nat set" where
  "ids_seen q = {..<unat (ids_start q)} \<union> {unat (ids_start q) + k |k. status_bit (ids_statuses q) k}"

definition ids_inv :: "id_sequence \<Rightarrow> bool" where
  "ids_inv q \<longleftrightarrow>
     unat (ids_start q) + unat (ids_length q) < 2 ^ 64 \<and>
     length (ids_statuses q) = (unat (ids_length q) + 63) div 64 \<and>
     (\<forall>k. status_bit (ids_statuses q) k \<longrightarrow> k < unat (ids_length q)) \<and>
     (ids_length q > 0 \<longrightarrow> status_bit (ids_statuses q) (unat (ids_length q) - 1))"

text \<open>After truncation a sequence with a length has an id missing before its end.\<close>

definition ids_gap :: "id_sequence \<Rightarrow> bool" where
  "ids_gap q \<longleftrightarrow> (ids_length q > 0 \<longrightarrow> (\<exists>k < unat (ids_length q). \<not> status_bit (ids_statuses q) k))"

lemma status_bit_Cons: "status_bit (s # ss) k \<longleftrightarrow> (if k < 64 then bit s k else status_bit ss (k - 64))"
proof (cases "k < 64")
  case False
  then have "k div 64 = Suc ((k - 64) div 64)" "k mod 64 = (k - 64) mod 64"
    by (simp_all add: le_div_geq mod_if [of k])
  with False show ?thesis by (simp add: status_bit_def)
qed (simp add: status_bit_def)

lemma full_mask:
  assumes "n \<le> 64"
  shows "s AND ids_mask n = ids_mask n \<longleftrightarrow> (\<forall>k < n. bit s k)"
proof -
  have "s AND ids_mask n = ids_mask n \<longleftrightarrow> (\<forall>k < 64. k < n \<longrightarrow> bit s k)"
    using assms by (auto simp: ids_mask_def bit_eq_iff bit_and_iff bit_drop_bit_eq bit_minus_1_iff bit_mask_iff)
  with assms show ?thesis by force
qed

lemma ids_inv_new [simp]: "ids_inv (ids_new s)" "ids_gap (ids_new s)" "ids_seen (ids_new s) = {..<unat s}"
  using unsigned_less [of s] by (auto simp: ids_new_def ids_inv_def ids_gap_def ids_seen_def status_bit_def)

lemma front_words:
  fixes L :: nat
  assumes "Suc n = (L + 63) div 64"
  shows "n = (L - min L 64 + 63) div 64"
proof (cases "L \<le> 64")
  case True
  then have "(L + 63) div 64 \<le> 1" by simp
  with assms True show ?thesis by simp
next
  case False
  then obtain d where "L = 64 + d" using less_imp_add_positive by (metis not_le)
  with assms show ?thesis by simp
qed

text \<open>Dropping a full word at the front keeps the set.\<close>

lemma ids_drop_front:
  assumes inv: "ids_inv q" and pos: "0 < ids_length q" and ss: "ids_statuses q = s # rest"
    and full: "\<forall>k < ids_mask_bits q. bit s k"
  defines "q' \<equiv> q\<lparr>ids_start := ids_start q + of_nat (ids_mask_bits q),
      ids_length := ids_length q - of_nat (ids_mask_bits q), ids_statuses := rest\<rparr>"
  shows "ids_inv q'" and "ids_seen q' = ids_seen q" and "ids_start q \<le> ids_start q'"
proof -
  let ?S = "unat (ids_start q)" and ?L = "unat (ids_length q)" and ?m = "ids_mask_bits q"
  have m: "?m \<le> ?L" "?m \<le> 64" by (simp_all add: ids_mask_bits_def)
  from inv have bound: "?S + ?L < 2 ^ 64" and len: "Suc (length rest) = (?L + 63) div 64"
    and upto: "\<And>k. status_bit (s # rest) k \<Longrightarrow> k < ?L" and last: "status_bit (s # rest) (?L - 1)"
    using pos ss by (auto simp: ids_inv_def)
  have S': "unat (ids_start q') = ?S + ?m"
    using bound m by (simp add: q'_def unat_word_ariths)
  have L': "unat (ids_length q') = ?L - ?m"
    using ids_mask_bits_le [of q] by (simp add: q'_def unat_sub)
  have shift: "status_bit rest k = status_bit (s # rest) (?m + k)" for k
  proof (cases "?L < 64")
    case True
    then have "length rest = 0" using len by arith
    then have "rest = []" and "?m = ?L" using True by (auto simp: ids_mask_bits_def)
    then show ?thesis using upto [of "?L + k"] by (auto simp: status_bit_def)
  next
    case False
    then have "?m = 64" by (simp add: ids_mask_bits_def)
    then show ?thesis by (simp add: status_bit_Cons)
  qed
  have low: "status_bit (s # rest) k" if "k < ?m" for k
    using full that m by (simp add: status_bit_Cons)
  have lens: "length rest = (?L - ?m + 63) div 64"
    using front_words [OF len] by (simp add: ids_mask_bits_def)
  have "status_bit rest (?L - ?m - 1)" if "?m < ?L"
    using last that by (simp add: shift)
  moreover have "k < ?L - ?m" if "status_bit rest k" for k
    using upto [of "?m + k"] that by (simp add: shift)
  ultimately show "ids_inv q'"
    using bound m lens S' L' by (auto simp: ids_inv_def q'_def word_less_nat_alt)
  have "{..<?S + ?m} \<union> {?S + ?m + k |k. status_bit (s # rest) (?m + k)} =
      {..<?S} \<union> {?S + k |k. status_bit (s # rest) k}" (is "?A = ?B")
  proof (intro equalityI subsetI)
    fix i assume "i \<in> ?A"
    then show "i \<in> ?B" using low [of "i - ?S"] by (cases "i < ?S") (auto intro: exI [of _ "i - ?S"])
  next
    fix i assume "i \<in> ?B"
    then show "i \<in> ?A" by (cases "i < ?S + ?m") (auto intro!: exI [of _ "i - ?S - ?m"])
  qed
  then show "ids_seen q' = ids_seen q"
    by (simp add: ids_seen_def S') (simp add: q'_def ss shift)
  show "ids_start q \<le> ids_start q'" by (simp add: word_le_nat_alt S')
qed

lemma ids_truncate_ok:
  "ids_inv q \<Longrightarrow> \<exists>q'. ids_truncate q = Ok q' \<and> ids_inv q' \<and> ids_gap q' \<and> ids_seen q' = ids_seen q \<and>
     ids_start q \<le> ids_start q'"
proof (induction q rule: ids_truncate.induct)
  case (1 q)
  show ?case
  proof (cases "ids_length q > 0")
    case True
    then obtain s rest where ss: "ids_statuses q = s # rest"
      using "1.prems" by (cases "ids_statuses q") (auto simp: ids_inv_def status_bit_def)
    show ?thesis
    proof (cases "s AND ids_mask (ids_mask_bits q) = ids_mask (ids_mask_bits q)")
      case full: True
      then have "\<forall>k < ids_mask_bits q. bit s k" by (simp add: full_mask ids_mask_bits_def)
      note front = ids_drop_front [OF "1.prems" True ss this]
      from "1.IH" [OF True ss full front(1)] show ?thesis
        using True ss full front(2,3) order_trans by (subst ids_truncate.simps) (auto simp del: ids_truncate.simps)
    next
      case False
      then obtain k where k: "k < ids_mask_bits q" "\<not> bit s k" by (auto simp: full_mask ids_mask_bits_def)
      then have "k < unat (ids_length q)" "\<not> status_bit (s # rest) k"
        by (auto simp: status_bit_Cons ids_mask_bits_def)
      then have "ids_gap q" using ss by (auto simp: ids_gap_def)
      then show ?thesis using True False ss "1.prems" by (subst ids_truncate.simps) simp
    qed
  next
    case False
    then show ?thesis using "1.prems" by (subst ids_truncate.simps) (simp add: ids_gap_def)
  qed
qed

lemma status_bit_set:
  fixes ss :: "u64 list"
  defines "ext \<equiv> \<lambda>n. ss @ replicate (n div 64 + 1 - length ss) 0"
  shows "status_bit ((ext n)[n div 64 := ext n ! (n div 64) OR push_bit (n mod 64) 1]) k \<longleftrightarrow> status_bit ss k \<or> k = n"
proof -
  have ext: "status_bit (ext n) j = status_bit ss j" for j
    by (auto simp: ext_def status_bit_def nth_append)
  have len: "n div 64 < length (ext n)" by (simp add: ext_def)
  have eq: "k = n \<longleftrightarrow> k div 64 = n div 64 \<and> k mod 64 = n mod 64" by (metis div_mult_mod_eq)
  show ?thesis
  proof (cases "k div 64 = n div 64")
    case True
    then show ?thesis using len ext [of k] eq
      by (auto simp: status_bit_def bit_or_iff bit_exp_iff)
  next
    case False
    then show ?thesis using ext [of k] eq by (auto simp: status_bit_def)
  qed
qed

lemma length_statuses:
  assumes "length ss = (L + 63) div (64 :: nat)"
  shows "length (ss @ replicate (n div 64 + 1 - length ss) 0) = (max (n + 1) L + 63) div 64"
proof (cases "n + 1 \<le> L")
  case True
  then have "n div 64 + 1 \<le> (L + 63) div 64" by arith
  with assms True show ?thesis by (simp add: max_def)
next
  case False
  then have "(L + 63) div 64 \<le> n div 64 + 1" by arith
  moreover from False have "max (n + 1) L = n + 1" by simp
  ultimately show ?thesis using assms by simp
qed

lemma ids_note_ok:
  assumes inv: "ids_inv q" and max: "unat i < 2 ^ 64 - 1" and new: "unat i \<notin> ids_seen q"
  shows "\<exists>q'. ids_note i q = Ok q' \<and> ids_inv q' \<and> ids_gap q' \<and> ids_seen q' = insert (unat i) (ids_seen q) \<and>
    ids_start q \<le> ids_start q'"
proof -
  let ?S = "unat (ids_start q)" and ?L = "unat (ids_length q)" and ?n = "unat (i - ids_start q)"
  from new have ge: "?S \<le> unat i" by (auto simp: ids_seen_def)
  then have le: "ids_start q \<le> i" by (simp add: word_le_nat_alt)
  have n: "?n = unat i - ?S" using le by (simp add: unat_sub)
  have i1: "unat (i + 1) = unat i + 1" using max by (simp add: unat_word_ariths)
  have no_panic: "i \<noteq> - 1" "\<not> i + 1 < ids_start q" "\<not> i < ids_start q"
    using max ge i1 le by (auto simp: word_less_nat_alt)
  have d: "unat (i + 1 - ids_start q) = ?n + 1"
    using ge i1 n by (simp add: unat_sub word_le_nat_alt)
  define ss where "ss = ids_statuses q @ replicate (?n div 64 + 1 - length (ids_statuses q)) 0"
  define q1 where "q1 = \<lparr>ids_start = ids_start q, ids_length = max (i + 1 - ids_start q) (ids_length q),
      ids_statuses = ss[?n div 64 := ss ! (?n div 64) OR push_bit (?n mod 64) 1]\<rparr>"
  have truncated: "ids_note i q = ids_truncate q1"
    using no_panic by (simp add: ids_note_def q1_def ss_def Let_def)
  have bits: "status_bit (ids_statuses q1) k \<longleftrightarrow> status_bit (ids_statuses q) k \<or> k = ?n" for k
    unfolding q1_def ss_def using status_bit_set [of "ids_statuses q" ?n k] by simp
  have L1: "unat (ids_length q1) = max (?n + 1) ?L"
    using d by (auto simp: q1_def max_def word_le_nat_alt)
  have "length (ids_statuses q1) = (max (?n + 1) ?L + 63) div 64"
    using inv length_statuses [of "ids_statuses q" ?L ?n] by (simp add: q1_def ss_def ids_inv_def)
  moreover have "?S + max (?n + 1) ?L < 2 ^ 64"
    using inv n ge max by (auto simp: ids_inv_def)
  moreover have "k < max (?n + 1) ?L" if "status_bit (ids_statuses q1) k" for k
    using inv that unfolding bits by (auto simp: ids_inv_def)
  moreover have "status_bit (ids_statuses q1) (max (?n + 1) ?L - 1)"
    using inv unfolding bits by (auto simp: ids_inv_def max_def word_less_nat_alt)
  ultimately have "ids_inv q1" by (simp add: ids_inv_def L1) (simp add: q1_def)
  moreover have "ids_seen q1 = insert (unat i) (ids_seen q)"
  proof -
    have "{unat (ids_start q) + k |k. status_bit (ids_statuses q) k \<or> k = ?n} =
        insert (unat i) {unat (ids_start q) + k |k. status_bit (ids_statuses q) k}"
      using n ge by auto (metis le_add_diff_inverse)
    then show ?thesis by (simp add: ids_seen_def bits) (simp add: q1_def)
  qed
  moreover have "ids_start q1 = ids_start q" by (simp add: q1_def)
  ultimately show ?thesis using ids_truncate_ok [of q1] by (simp add: truncated)
qed

lemma ids_complete_seen:
  assumes "ids_inv q" and "ids_gap q"
  shows "ids_complete q \<longleftrightarrow> (\<exists>n. ids_seen q = {..<n})"
proof
  assume "ids_complete q"
  with assms show "\<exists>n. ids_seen q = {..<n}"
    by (auto simp: ids_complete_def ids_seen_def ids_inv_def)
next
  assume "\<exists>n. ids_seen q = {..<n}"
  then obtain n where n: "ids_seen q = {..<n}" by blast
  show "ids_complete q"
  proof (rule ccontr)
    assume "\<not> ids_complete q"
    then have pos: "ids_length q > 0" by (simp add: ids_complete_def word_gt_0)
    with assms obtain k where k: "k < unat (ids_length q)" "\<not> status_bit (ids_statuses q) k"
      by (auto simp: ids_gap_def)
    have "unat (ids_start q) + (unat (ids_length q) - 1) \<in> ids_seen q"
      using assms(1) pos by (auto simp: ids_inv_def ids_seen_def)
    with n k(1) have "unat (ids_start q) + k \<in> ids_seen q" by auto
    with k(2) show False by (auto simp: ids_seen_def)
  qed
qed

lemma ids_complete_start: "ids_inv q \<Longrightarrow> ids_complete q \<Longrightarrow> ids_seen q = {..<unat (ids_start q)}"
  by (auto simp: ids_complete_def ids_seen_def ids_inv_def)

lemma ids_note_all_ok:
  "ids_inv q \<Longrightarrow> ids_gap q \<Longrightarrow> distinct is \<Longrightarrow> \<forall>i \<in> set is. unat i < 2 ^ 64 - 1 \<and> unat i \<notin> ids_seen q \<Longrightarrow>
     \<exists>q'. ids_note_all is q = Ok q' \<and> ids_inv q' \<and> ids_gap q' \<and> ids_seen q' = ids_seen q \<union> unat ` set is"
proof (induction "is" arbitrary: q)
  case (Cons i "is")
  then obtain q1 where q1: "ids_note i q = Ok q1" "ids_inv q1" "ids_gap q1"
    "ids_seen q1 = insert (unat i) (ids_seen q)"
    using ids_note_ok [of q i] by auto
  have "\<exists>q'. ids_note_all is q1 = Ok q' \<and> ids_inv q' \<and> ids_gap q' \<and> ids_seen q' = ids_seen q1 \<union> unat ` set is"
    using Cons.prems q1 by (intro Cons.IH) (auto dest: word_unat_eq_iff [THEN iffD2])
  with q1 show ?case by auto
qed simp

end
