(* ===== verification/Transaction_Manager.thy ===== *)
theory Transaction_Manager
  imports Log_Queries Id_Sequence "HOL-Library.Multiset"
begin

text \<open>
  The transaction manager: \<^verbatim>\<open>nebari/src/transaction/manager.rs\<close>. A thread receives commands to commit or to
  drop a transaction, collects the transactions in batches and pushes a batch to the log. A completion
  channel is a number, the locks of a transaction are the names of its trees; what the thread sends on the
  channels is part of its state.
\<close>

section \<open>Commands\<close>

type_synonym tree_locks = "bytes list"

record transaction_handle =
  th_transaction :: log_entry
  th_locked_trees :: tree_locks

datatype thread_command = Commit transaction_handle nat | DropId transaction_id

text \<open>\<^verbatim>\<open>ManagedTransaction\<close>: the handle is taken out by \<^verbatim>\<open>commit\<close>, and dropping the managed transaction drops the id
  if the handle is still there. The value is what is sent to the thread.\<close>

type_synonym managed_transaction = "transaction_handle option"

definition managed_drop :: "managed_transaction \<Rightarrow> thread_command list" where
  "managed_drop t = (case t of Some h \<Rightarrow> [DropId (le_id (th_transaction h))] | None \<Rightarrow> [])"

definition managed_commit :: "nat \<Rightarrow> managed_transaction \<Rightarrow> thread_command list res" where
  "managed_commit completion_sender t =
     (case t of Some h \<Rightarrow> Ok (Commit h completion_sender # managed_drop None) | None \<Rightarrow> Panic)"

definition managed_rollback :: "managed_transaction \<Rightarrow> thread_command list" where
  "managed_rollback t = managed_drop t"

definition new_transaction :: "tree_locks \<Rightarrow> 'c tx_state \<Rightarrow> managed_transaction \<times> 'c tx_state" where
  "new_transaction locked s =
     (case ts_new_transaction s of (e, s') \<Rightarrow> (Some \<lparr>th_transaction = e, th_locked_trees = locked\<rparr>, s'))"

section \<open>Whether a transaction succeeded\<close>

definition transaction_position :: "'c lru_ops \<Rightarrow> vault option \<Rightarrow> transaction_id \<Rightarrow> ('c tx_log, nat option) sres" where
  "transaction_position lru v i l =
     (if \<not> i > 0 then (Ok None, l)
      else case ts_id_position lru i (tl_state l) of
        (Some position, s) \<Rightarrow> (Ok position, l\<lparr>tl_state := s\<rparr>)
      | (None, s) \<Rightarrow>
          bindS (fetch_entry lru v i) (\<lambda>r.
            case r of
              ScanFound entry position payload_length \<Rightarrow>
                bindS (on_state (ts_note_status lru i (Some position))) (\<lambda>_. returnS (Some position))
            | ScanNotFound nearest_position \<Rightarrow>
                bindS (on_state (ts_note_status lru i None)) (\<lambda>_. returnS None)) (l\<lparr>tl_state := s\<rparr>))"

definition transaction_was_successful :: "'c lru_ops \<Rightarrow> vault option \<Rightarrow> transaction_id \<Rightarrow> ('c tx_log, bool) sres" where
  "transaction_was_successful lru v i =
     bindS (transaction_position lru v i) (\<lambda>position. returnS (position \<noteq> None))"

section \<open>The thread\<close>

datatype thread_state = Fresh | Batching | EnsuringSequence

record 'c manager_thread =
  mt_state :: thread_state
  mt_log :: "'c tx_log"
  mt_pending :: id_sequence
  mt_last_processed_id :: transaction_id
  mt_batch :: "log_entry list"
  mt_completion_senders :: "(nat \<times> tree_locks) list"
  mt_sent :: "(nat \<times> tree_locks) list"

text \<open>What a receive returns; a blocking receive that finds no command waits, and the thread is unchanged.\<close>

datatype received = Received thread_command | NothingReady | Disconnected

definition manager_run :: "vault option \<Rightarrow> bytes option \<Rightarrow> 'c \<Rightarrow> 'c manager_thread res" where
  "manager_run v stored cache =
     (case log_initialize_state v stored (ts_from_path cache) of
        (Ok u, l) \<Rightarrow>
          (let transaction_id = ts_next_transaction_id (tl_state l) in
           Ok \<lparr>mt_state = Fresh, mt_log = l, mt_pending = ids_new transaction_id,
               mt_last_processed_id = transaction_id, mt_batch = [], mt_completion_senders = [], mt_sent = []\<rparr>)
      | (bad, l) \<Rightarrow> lift_err bad)"

definition note_id :: "transaction_id \<Rightarrow> ('c manager_thread, unit) sres" where
  "note_id i t = (case ids_note i (mt_pending t) of Ok q \<Rightarrow> (Ok (), t\<lparr>mt_pending := q\<rparr>) | bad \<Rightarrow> (lift_err bad, t))"

definition enqueue :: "transaction_handle \<Rightarrow> nat \<Rightarrow> ('c manager_thread, unit) sres" where
  "enqueue h completion_sender t =
     (Ok (), t\<lparr>mt_batch := mt_batch t @ [th_transaction h],
               mt_completion_senders := mt_completion_senders t @ [(completion_sender, th_locked_trees h)]\<rparr>)"

definition commit_transaction_batch :: "'c lru_ops \<Rightarrow> vault option \<Rightarrow> ('c manager_thread, unit) sres" where
  "commit_transaction_batch lru v t =
     (let transaction_batch = sort_key le_id (mt_batch t);
          t1 = t\<lparr>mt_batch := []\<rparr> in
      if transaction_batch = [] then (Panic, t1)
      else
        let t2 = t1\<lparr>mt_last_processed_id := le_id (last transaction_batch), mt_state := Fresh\<rparr> in
        case log_push lru v transaction_batch (mt_log t2) of
          (Ok u, l) \<Rightarrow>
            (Ok (), t2\<lparr>mt_log := l, mt_sent := mt_sent t2 @ mt_completion_senders t2, mt_completion_senders := []\<rparr>)
        | (bad, l) \<Rightarrow> (Panic, t2\<lparr>mt_log := l\<rparr>))"

definition mark_transaction_handled :: "'c lru_ops \<Rightarrow> vault option \<Rightarrow> transaction_id \<Rightarrow> ('c manager_thread, unit) sres" where
  "mark_transaction_handled lru v i =
     bindS (note_id i) (\<lambda>_ t.
       if ids_complete (mt_pending t) \<and> mt_batch t \<noteq> [] then commit_transaction_batch lru v t else (Ok (), t))"

definition note_potentially_sequential_id ::
    "'c lru_ops \<Rightarrow> vault option \<Rightarrow> transaction_id \<Rightarrow> ('c manager_thread, unit) sres" where
  "note_potentially_sequential_id lru v i =
     bindS (note_id i) (\<lambda>_ t.
       if ids_complete (mt_pending t) then (Ok (), t\<lparr>mt_last_processed_id := i, mt_state := Batching\<rparr>)
       else bindS (\<lambda>t. if mt_batch t \<noteq> [] then commit_transaction_batch lru v t else (Ok (), t)) (\<lambda>_ t.
         (Ok (), t\<lparr>mt_state := EnsuringSequence\<rparr>)) t)"

fun process_next_command_fresh :: "'c lru_ops \<Rightarrow> vault option \<Rightarrow> received \<Rightarrow> ('c manager_thread, bool) sres" where
  "process_next_command_fresh lru v (Received (Commit h sender)) =
     bindS (note_id (le_id (th_transaction h))) (\<lambda>_.
     bindS (\<lambda>t. (Ok (),
       if ids_complete (mt_pending t)
       then t\<lparr>mt_last_processed_id := le_id (th_transaction h), mt_state := Batching\<rparr>
       else t\<lparr>mt_state := EnsuringSequence\<rparr>)) (\<lambda>_.
     bindS (enqueue h sender) (\<lambda>_. returnS True)))"
| "process_next_command_fresh lru v (Received (DropId i)) =
     bindS (mark_transaction_handled lru v i) (\<lambda>_. returnS True)"
| "process_next_command_fresh lru v NothingReady = returnS True"
| "process_next_command_fresh lru v Disconnected = returnS False"

fun process_next_command_batching :: "'c lru_ops \<Rightarrow> vault option \<Rightarrow> received \<Rightarrow> ('c manager_thread, bool) sres" where
  "process_next_command_batching lru v (Received (Commit h sender)) =
     bindS (note_potentially_sequential_id lru v (le_id (th_transaction h))) (\<lambda>_.
     bindS (enqueue h sender) (\<lambda>_. returnS True))"
| "process_next_command_batching lru v (Received (DropId i)) =
     bindS (note_potentially_sequential_id lru v i) (\<lambda>_. returnS True)"
| "process_next_command_batching lru v NothingReady =
     bindS (commit_transaction_batch lru v) (\<lambda>_. returnS True)"
| "process_next_command_batching lru v Disconnected = returnS False"

fun process_next_command_ensuring_sequence ::
    "'c lru_ops \<Rightarrow> vault option \<Rightarrow> received \<Rightarrow> ('c manager_thread, bool) sres" where
  "process_next_command_ensuring_sequence lru v (Received (Commit h sender)) =
     bindS (enqueue h sender) (\<lambda>_.
     bindS (mark_transaction_handled lru v (le_id (th_transaction h))) (\<lambda>_. returnS True))"
| "process_next_command_ensuring_sequence lru v (Received (DropId i)) =
     bindS (mark_transaction_handled lru v i) (\<lambda>_. returnS True)"
| "process_next_command_ensuring_sequence lru v NothingReady = returnS True"
| "process_next_command_ensuring_sequence lru v Disconnected = returnS False"

definition process_next_command :: "'c lru_ops \<Rightarrow> vault option \<Rightarrow> received \<Rightarrow> ('c manager_thread, bool) sres" where
  "process_next_command lru v r t =
     (case mt_state t of
        Fresh \<Rightarrow> process_next_command_fresh lru v r t
      | Batching \<Rightarrow> process_next_command_batching lru v r t
      | EnsuringSequence \<Rightarrow> process_next_command_ensuring_sequence lru v r t)"

text \<open>The thread on the results of its receives, until it stops or waits for more.\<close>

fun save_transactions :: "'c lru_ops \<Rightarrow> vault option \<Rightarrow> received list \<Rightarrow> ('c manager_thread, unit) sres" where
  "save_transactions lru v [] = returnS ()"
| "save_transactions lru v (r # rs) =
     bindS (process_next_command lru v r) (\<lambda>go_on. if go_on then save_transactions lru v rs else returnS ())"

end
