(* ===== verification/Manager_Invariant.thy ===== *)
theory Manager_Invariant
  imports Transaction_Manager
begin

text \<open>
  The manager thread's invariant: whatever order the commands arrive in, as long as no id is handled twice,
  the batches reach the log in ascending order, no transaction is lost and every completion is signalled.
\<close>

section \<open>What a receive brings\<close>

fun r_ids :: "received \<Rightarrow> transaction_id list" where
  "r_ids (Received (Commit h sender)) = [le_id (th_transaction h)]"
| "r_ids (Received (DropId i)) = [i]"
| "r_ids NothingReady = []"
| "r_ids Disconnected = []"

fun r_entries :: "received \<Rightarrow> log_entry list" where
  "r_entries (Received (Commit h sender)) = [th_transaction h]"
| "r_entries r = []"

fun r_senders :: "received \<Rightarrow> (nat \<times> tree_locks) list" where
  "r_senders (Received (Commit h sender)) = [(sender, th_locked_trees h)]"
| "r_senders r = []"

section \<open>The invariant\<close>

definition thread_core :: "vault option \<Rightarrow> log_entry list \<Rightarrow> 'c manager_thread \<Rightarrow> bool" where
  "thread_core v es t \<longleftrightarrow> log_ok v es (mt_log t) \<and> ids_inv (mt_pending t) \<and> ids_gap (mt_pending t) \<and>
     last_id 0 es < ids_start (mt_pending t) \<and> distinct (map le_id (mt_batch t)) \<and>
     length (mt_completion_senders t) = length (mt_batch t) \<and>
     (\<forall>e \<in> set (mt_batch t). last_id 0 es < le_id e \<and> unat (le_id e) \<in> ids_seen (mt_pending t) \<and> pushable v e)"

fun thread_phase :: "thread_state \<Rightarrow> bool \<Rightarrow> bool \<Rightarrow> bool" where
  "thread_phase Fresh batch_empty all_seen = batch_empty"
| "thread_phase Batching batch_empty all_seen = (\<not> batch_empty \<and> all_seen)"
| "thread_phase EnsuringSequence batch_empty all_seen = (all_seen \<longrightarrow> batch_empty)"

definition thread_inv :: "vault option \<Rightarrow> log_entry list \<Rightarrow> 'c manager_thread \<Rightarrow> bool" where
  "thread_inv v es t \<longleftrightarrow> thread_core v es t \<and> thread_phase (mt_state t) (mt_batch t = []) (ids_complete (mt_pending t))"

definition thread_accounts :: "'c manager_thread \<Rightarrow> received \<Rightarrow> log_entry list \<Rightarrow> 'c manager_thread \<Rightarrow> bool" where
  "thread_accounts t r es' t' \<longleftrightarrow>
     mset es' + mset (mt_batch t') = mset (mt_batch t) + mset (r_entries r) \<and>
     ids_seen (mt_pending t') = ids_seen (mt_pending t) \<union> unat ` set (r_ids r) \<and>
     mt_sent t' @ mt_completion_senders t' = mt_sent t @ mt_completion_senders t @ r_senders r"

lemma sorted_batch_ascending:
  assumes "distinct (map le_id es)" and "\<forall>e \<in> set es. i < le_id e"
  shows "ids_ascending i (sort_key le_id es)"
proof -
  have "distinct (map le_id (sort_key le_id es))"
    using assms(1) by (metis mset_map mset_sort mset_eq_imp_distinct_iff)
  then have "sorted_wrt (<) (map le_id (sort_key le_id es))"
    by (simp add: strict_sorted_iff)
  with assms(2) show ?thesis by (simp add: ids_ascending_def)
qed

lemma last_id_sorted:
  assumes "es' \<noteq> []" and "\<forall>e \<in> set es'. le_id e < s"
  shows "last_id i (es @ sort_key le_id es') < s"
proof -
  have "sort_key le_id es' \<noteq> []" using assms(1) by (metis mset_sort mset_zero_iff)
  then have "last (sort_key le_id es') \<in> set es'" by (metis last_in_set set_sort)
  with assms(2) \<open>sort_key le_id es' \<noteq> []\<close> show ?thesis by (simp add: last_id_def)
qed

lemma commit_batch_ok:
  assumes "thread_core v es t" and "mt_batch t \<noteq> []" and "\<forall>e \<in> set (mt_batch t). le_id e < ids_start (mt_pending t)"
  shows "\<exists>t'. commit_transaction_batch lru v t = (Ok (), t') \<and> thread_core v (es @ sort_key le_id (mt_batch t)) t' \<and>
    mt_batch t' = [] \<and> mt_state t' = Fresh \<and> mt_pending t' = mt_pending t \<and>
    mt_sent t' = mt_sent t @ mt_completion_senders t \<and> mt_completion_senders t' = []"
proof -
  let ?b = "sort_key le_id (mt_batch t)"
  have "ids_ascending (last_id 0 es) ?b"
    using assms(1) by (intro sorted_batch_ascending) (auto simp: thread_core_def)
  moreover have "list_all (pushable v) ?b" using assms(1) by (simp add: thread_core_def list_all_iff)
  ultimately obtain l' where l': "log_push lru v ?b (mt_log t) = (Ok (), l')" "log_ok v (es @ ?b) l'"
    using assms(1) log_push_ok [of v es "mt_log t" ?b lru] by (auto simp: thread_core_def)
  have "?b \<noteq> []" using assms(2) by (metis mset_sort mset_zero_iff)
  moreover have "last_id 0 (es @ ?b) < ids_start (mt_pending t)" by (rule last_id_sorted [OF assms(2,3)])
  ultimately show ?thesis using l' assms(1)
    by (simp add: commit_transaction_batch_def Let_def thread_core_def)
qed

lemma note_id_ok:
  assumes "thread_core v es t" and "unat i < 2 ^ 64 - 1" and "unat i \<notin> ids_seen (mt_pending t)"
  shows "\<exists>q. note_id i t = (Ok (), t\<lparr>mt_pending := q\<rparr>) \<and> thread_core v es (t\<lparr>mt_pending := q\<rparr>) \<and>
    ids_seen q = insert (unat i) (ids_seen (mt_pending t)) \<and> ids_start (mt_pending t) \<le> ids_start q"
proof -
  from ids_note_ok [OF _ assms(2,3)] assms(1) obtain q where "ids_note i (mt_pending t) = Ok q" "ids_inv q" "ids_gap q"
    "ids_seen q = insert (unat i) (ids_seen (mt_pending t))" "ids_start (mt_pending t) \<le> ids_start q"
    by (auto simp: thread_core_def)
  with assms(1) show ?thesis by (auto simp: note_id_def thread_core_def)
qed

text \<open>A new id is above everything written, and above the start when it is not seen.\<close>

lemma new_id_above:
  assumes "thread_core v es t" and "unat i \<notin> ids_seen (mt_pending t)"
  shows "last_id 0 es < i" and "i \<notin> le_id ` set (mt_batch t)"
proof -
  have "ids_start (mt_pending t) \<le> i" using assms(2) by (auto simp: ids_seen_def word_le_nat_alt)
  with assms(1) show "last_id 0 es < i" by (auto simp: thread_core_def)
  show "i \<notin> le_id ` set (mt_batch t)" using assms by (auto simp: thread_core_def)
qed

lemma complete_batch_below:
  assumes "thread_core v es t" and "ids_complete (mt_pending t)"
  shows "\<forall>e \<in> set (mt_batch t). le_id e < ids_start (mt_pending t)"
  using assms ids_complete_start [of "mt_pending t"] by (auto simp: thread_core_def word_less_nat_alt)

lemma enqueue_core:
  assumes "thread_core v es t" and "unat (le_id (th_transaction h)) \<in> ids_seen (mt_pending t)"
    and "le_id (th_transaction h) \<notin> le_id ` set (mt_batch t)" and "last_id 0 es < le_id (th_transaction h)"
    and "pushable v (th_transaction h)"
  shows "thread_core v es (t\<lparr>mt_batch := mt_batch t @ [th_transaction h],
      mt_completion_senders := mt_completion_senders t @ [c]\<rparr>)"
  using assms by (auto simp: thread_core_def)

lemma core_state [simp]:
  "thread_core v es (t\<lparr>mt_state := x\<rparr>) = thread_core v es t"
  "thread_core v es (t\<lparr>mt_last_processed_id := i\<rparr>) = thread_core v es t"
  by (simp_all add: thread_core_def)

section \<open>The steps of the thread\<close>

text \<open>What moving entries from the batch to the log keeps.\<close>

definition thread_moves :: "'c manager_thread \<Rightarrow> log_entry list \<Rightarrow> 'c manager_thread \<Rightarrow> bool" where
  "thread_moves t es' t' \<longleftrightarrow> mset es' + mset (mt_batch t') = mset (mt_batch t) \<and> mt_pending t' = mt_pending t \<and>
     mt_sent t' @ mt_completion_senders t' = mt_sent t @ mt_completion_senders t"

lemma thread_moves_refl [simp]: "thread_moves t [] t"
  by (simp add: thread_moves_def)

lemma thread_moves_subset: "thread_moves t es' t' \<Longrightarrow> set es' \<subseteq> set (mt_batch t)"
  by (auto simp: thread_moves_def) (metis set_mset_mset union_iff)

lemma commit_batch_moves:
  assumes "thread_core v es t" and "mt_batch t \<noteq> []" and "\<forall>e \<in> set (mt_batch t). le_id e < ids_start (mt_pending t)"
  obtains t' es' where "commit_transaction_batch lru v t = (Ok (), t')" and "thread_core v (es @ es') t'"
    and "thread_moves t es' t'" and "mt_batch t' = []" and "mt_state t' = Fresh"
  using commit_batch_ok [OF assms, of lru] by (auto simp: thread_moves_def)

lemma mark_handled_ok:
  assumes "note_id i t = (Ok (), t1)" and "thread_core v es t1"
  shows "\<exists>t' es'. mark_transaction_handled lru v i t = (Ok (), t') \<and> thread_core v (es @ es') t' \<and> thread_moves t1 es' t' \<and>
    (ids_complete (mt_pending t') \<longrightarrow> mt_batch t' = []) \<and>
    (mt_state t' = mt_state t1 \<and> mt_batch t' = mt_batch t1 \<or> mt_state t' = Fresh \<and> mt_batch t' = [])"
proof (cases "ids_complete (mt_pending t1) \<and> mt_batch t1 \<noteq> []")
  case True
  obtain t' es' where "commit_transaction_batch lru v t1 = (Ok (), t')" "thread_core v (es @ es') t'"
    "thread_moves t1 es' t'" "mt_batch t' = []" "mt_state t' = Fresh"
    using commit_batch_moves [OF assms(2) _ complete_batch_below [OF assms(2)], of lru] True by blast
  with True assms(1) show ?thesis by (auto simp: mark_transaction_handled_def bindS_def)
next
  case False
  then show ?thesis using assms
    by (intro exI [of _ t1] exI [of _ "[]"]) (auto simp: mark_transaction_handled_def bindS_def)
qed

lemma note_sequential_ok:
  assumes "note_id i t = (Ok (), t1)" and "thread_core v es t1"
    and "\<forall>e \<in> set (mt_batch t1). le_id e < ids_start (mt_pending t1)" and "mt_batch t1 \<noteq> []"
  shows "\<exists>t' es'. note_potentially_sequential_id lru v i t = (Ok (), t') \<and> thread_core v (es @ es') t' \<and>
    thread_moves t1 es' t' \<and>
    (ids_complete (mt_pending t1) \<and> mt_state t' = Batching \<and> mt_batch t' = mt_batch t1 \<and> es' = [] \<or>
     \<not> ids_complete (mt_pending t1) \<and> mt_state t' = EnsuringSequence \<and> mt_batch t' = [])"
proof (cases "ids_complete (mt_pending t1)")
  case True
  then show ?thesis using assms(1,2)
    by (intro exI [of _ "t1\<lparr>mt_last_processed_id := i, mt_state := Batching\<rparr>"] exI [of _ "[]"])
      (simp add: note_potentially_sequential_id_def bindS_def thread_moves_def)
next
  case False
  obtain t' es' where "commit_transaction_batch lru v t1 = (Ok (), t')" "thread_core v (es @ es') t'"
    "thread_moves t1 es' t'" "mt_batch t' = []"
    using commit_batch_moves [OF assms(2,4,3), of lru] by blast
  with False assms(1,4) show ?thesis
    by (intro exI [of _ "t'\<lparr>mt_state := EnsuringSequence\<rparr>"] exI [of _ es'])
      (simp add: note_potentially_sequential_id_def bindS_def thread_moves_def)
qed

lemma step_commit:
  assumes "thread_inv v es t" and "unat (le_id (th_transaction h)) < 2 ^ 64 - 1"
    and "unat (le_id (th_transaction h)) \<notin> ids_seen (mt_pending t)" and "pushable v (th_transaction h)"
  shows "\<exists>t' es'. process_next_command lru v (Received (Commit h sender)) t = (Ok True, t') \<and> thread_inv v (es @ es') t' \<and>
    thread_accounts t (Received (Commit h sender)) es' t'"
proof -
  let ?i = "le_id (th_transaction h)" and ?c = "(sender, th_locked_trees h)"
  let ?enq = "\<lambda>t. t\<lparr>mt_batch := mt_batch t @ [th_transaction h], mt_completion_senders := mt_completion_senders t @ [?c]\<rparr>"
  have core: "thread_core v es t" using assms(1) by (simp add: thread_inv_def)
  from note_id_ok [OF core assms(2,3)] obtain q where q: "note_id ?i t = (Ok (), t\<lparr>mt_pending := q\<rparr>)"
    "thread_core v es (t\<lparr>mt_pending := q\<rparr>)" "ids_seen q = insert (unat ?i) (ids_seen (mt_pending t))"
    "ids_start (mt_pending t) \<le> ids_start q" by blast
  note above = new_id_above [OF core assms(3)]
  show ?thesis
  proof (cases "mt_state t")
    case Fresh
    define t2 where "t2 = (if ids_complete q then t\<lparr>mt_pending := q, mt_last_processed_id := ?i, mt_state := Batching\<rparr>
        else t\<lparr>mt_pending := q, mt_state := EnsuringSequence\<rparr>)"
    have step: "process_next_command lru v (Received (Commit h sender)) t = (Ok True, ?enq t2)"
      using q(1) Fresh by (simp add: process_next_command_def bindS_def t2_def enqueue_def)
    have "thread_core v es t2" using q(2) by (simp add: t2_def)
    then have "thread_core v es (?enq t2)"
      using above assms(4) q(3) by (intro enqueue_core) (auto simp: t2_def)
    then have "thread_inv v (es @ []) (?enq t2)" by (auto simp: thread_inv_def t2_def)
    moreover have "thread_accounts t (Received (Commit h sender)) [] (?enq t2)"
      using q(3) by (auto simp: thread_accounts_def t2_def)
    ultimately show ?thesis using step by blast
  next
    case Batching
    then have full: "mt_batch t \<noteq> []" "ids_complete (mt_pending t)" using assms(1) by (auto simp: thread_inv_def)
    have "\<forall>e \<in> set (mt_batch t). le_id e < ids_start q"
      using complete_batch_below [OF core full(2)] q(4) by auto
    with note_sequential_ok [OF q(1,2), of lru] full obtain t1 es' where t1:
      "note_potentially_sequential_id lru v ?i t = (Ok (), t1)" "thread_core v (es @ es') t1"
      "thread_moves (t\<lparr>mt_pending := q\<rparr>) es' t1"
      "ids_complete q \<and> mt_state t1 = Batching \<and> mt_batch t1 = mt_batch t \<and> es' = [] \<or>
       \<not> ids_complete q \<and> mt_state t1 = EnsuringSequence \<and> mt_batch t1 = []" by auto
    have step: "process_next_command lru v (Received (Commit h sender)) t = (Ok True, ?enq t1)"
      using t1(1) Batching by (simp add: process_next_command_def bindS_def enqueue_def)
    have "\<forall>e \<in> set es'. e \<in> set (mt_batch t)"
      using thread_moves_subset [OF t1(3)] by auto
    then have "\<forall>e \<in> set es'. le_id e < ids_start (mt_pending t)" using complete_batch_below [OF core full(2)] by auto
    moreover have "ids_start (mt_pending t) \<le> ?i" using assms(3) by (auto simp: ids_seen_def word_le_nat_alt)
    ultimately have "last_id 0 (es @ es') < ?i"
      using above(1) by (cases "es' = []") (auto simp: last_id_def intro: less_le_trans)
    then have "thread_core v (es @ es') (?enq t1)"
      using t1 above(2) assms(4) q(3) by (intro enqueue_core) (auto simp: thread_moves_def)
    then have "thread_inv v (es @ es') (?enq t1)" using t1(3,4) by (auto simp: thread_inv_def thread_moves_def)
    moreover have "thread_accounts t (Received (Commit h sender)) es' (?enq t1)"
      using t1(3) q(3) by (auto simp: thread_accounts_def thread_moves_def)
    ultimately show ?thesis using step by blast
  next
    case EnsuringSequence
    have enq: "thread_core v es (?enq (t\<lparr>mt_pending := q\<rparr>))"
      using q(2,3) above assms(4) by (intro enqueue_core) auto
    have "note_id ?i (?enq t) = (Ok (), ?enq (t\<lparr>mt_pending := q\<rparr>))"
      using q(1) by (auto simp: note_id_def split: res.splits dest!: arg_cong [where f = mt_pending])
    from mark_handled_ok [OF this enq, of lru] obtain t1 es' where t1:
      "mark_transaction_handled lru v ?i (?enq t) = (Ok (), t1)" "thread_core v (es @ es') t1"
      "thread_moves (?enq (t\<lparr>mt_pending := q\<rparr>)) es' t1" "ids_complete (mt_pending t1) \<longrightarrow> mt_batch t1 = []"
      "mt_state t1 = EnsuringSequence \<or> mt_state t1 = Fresh \<and> mt_batch t1 = []"
      using EnsuringSequence by auto
    have step: "process_next_command lru v (Received (Commit h sender)) t = (Ok True, t1)"
      using t1(1) EnsuringSequence by (simp add: process_next_command_def bindS_def enqueue_def)
    moreover have "thread_inv v (es @ es') t1" using t1(2,4,5) by (auto simp: thread_inv_def)
    moreover have "thread_accounts t (Received (Commit h sender)) es' t1"
      using t1(3) q(3) by (auto simp: thread_accounts_def thread_moves_def)
    ultimately show ?thesis by blast
  qed
qed

lemma step_drop:
  assumes "thread_inv v es t" and "unat i < 2 ^ 64 - 1" and "unat i \<notin> ids_seen (mt_pending t)"
  shows "\<exists>t' es'. process_next_command lru v (Received (DropId i)) t = (Ok True, t') \<and> thread_inv v (es @ es') t' \<and>
    thread_accounts t (Received (DropId i)) es' t'"
proof -
  have core: "thread_core v es t" using assms(1) by (simp add: thread_inv_def)
  from note_id_ok [OF core assms(2,3)] obtain q where q: "note_id i t = (Ok (), t\<lparr>mt_pending := q\<rparr>)"
    "thread_core v es (t\<lparr>mt_pending := q\<rparr>)" "ids_seen q = insert (unat i) (ids_seen (mt_pending t))"
    "ids_start (mt_pending t) \<le> ids_start q" by blast
  have accounts: "thread_accounts t (Received (DropId i)) es' t1" if "thread_moves (t\<lparr>mt_pending := q\<rparr>) es' t1" for es' t1
    using that q(3) by (auto simp: thread_accounts_def thread_moves_def)
  show ?thesis
  proof (cases "mt_state t = Batching")
    case True
    then have full: "mt_batch t \<noteq> []" "ids_complete (mt_pending t)" using assms(1) by (auto simp: thread_inv_def)
    have "\<forall>e \<in> set (mt_batch t). le_id e < ids_start q"
      using complete_batch_below [OF core full(2)] q(4) by auto
    with note_sequential_ok [OF q(1,2), of lru] full obtain t1 es' where t1:
      "note_potentially_sequential_id lru v i t = (Ok (), t1)" "thread_core v (es @ es') t1"
      "thread_moves (t\<lparr>mt_pending := q\<rparr>) es' t1"
      "ids_complete q \<and> mt_state t1 = Batching \<and> mt_batch t1 = mt_batch t \<and> es' = [] \<or>
       \<not> ids_complete q \<and> mt_state t1 = EnsuringSequence \<and> mt_batch t1 = []" by auto
    then have "thread_inv v (es @ es') t1" using full by (auto simp: thread_inv_def thread_moves_def)
    moreover have "process_next_command lru v (Received (DropId i)) t = (Ok True, t1)"
      using t1(1) True by (simp add: process_next_command_def bindS_def)
    ultimately show ?thesis using accounts t1(3) by blast
  next
    case False
    from mark_handled_ok [OF q(1,2), of lru] obtain t1 es' where t1:
      "mark_transaction_handled lru v i t = (Ok (), t1)" "thread_core v (es @ es') t1"
      "thread_moves (t\<lparr>mt_pending := q\<rparr>) es' t1" "ids_complete (mt_pending t1) \<longrightarrow> mt_batch t1 = []"
      "mt_state t1 = mt_state t \<and> mt_batch t1 = mt_batch t \<or> mt_state t1 = Fresh \<and> mt_batch t1 = []" by auto
    have "process_next_command lru v (Received (DropId i)) t = (Ok True, t1)"
      using t1(1) False by (cases "mt_state t") (simp_all add: process_next_command_def bindS_def)
    moreover have "thread_inv v (es @ es') t1"
      using assms(1) t1(2,4,5) False by (cases "mt_state t") (auto simp: thread_inv_def)
    ultimately show ?thesis using accounts t1(3) by blast
  qed
qed

lemma step_idle:
  assumes "thread_inv v es t"
  shows "\<exists>t' es'. process_next_command lru v NothingReady t = (Ok True, t') \<and> thread_inv v (es @ es') t' \<and>
    thread_accounts t NothingReady es' t' \<and> (ids_complete (mt_pending t') \<longrightarrow> mt_batch t' = [])"
proof (cases "mt_state t = Batching")
  case True
  then have core: "thread_core v es t" and full: "mt_batch t \<noteq> []" "ids_complete (mt_pending t)"
    using assms by (auto simp: thread_inv_def)
  obtain t' es' where t': "commit_transaction_batch lru v t = (Ok (), t')" "thread_core v (es @ es') t'"
    "thread_moves t es' t'" "mt_batch t' = []" "mt_state t' = Fresh"
    using commit_batch_moves [OF core full(1) complete_batch_below [OF core full(2)], of lru] by blast
  then show ?thesis using True
    by (intro exI [of _ t'] exI [of _ es'])
      (auto simp: process_next_command_def bindS_def thread_inv_def thread_accounts_def thread_moves_def)
next
  case False
  then show ?thesis using assms
    by (intro exI [of _ t] exI [of _ "[]"], cases "mt_state t")
      (auto simp: process_next_command_def thread_inv_def thread_accounts_def)
qed

section \<open>Runs\<close>

lemma run_ok:
  "thread_inv v es t \<Longrightarrow> Disconnected \<notin> set rs \<Longrightarrow> distinct (concat (map r_ids rs)) \<Longrightarrow>
     \<forall>i \<in> set (concat (map r_ids rs)). unat i < 2 ^ 64 - 1 \<and> unat i \<notin> ids_seen (mt_pending t) \<Longrightarrow>
     list_all (pushable v) (concat (map r_entries rs)) \<Longrightarrow>
     \<exists>t' es'. save_transactions lru v rs t = (Ok (), t') \<and> thread_inv v (es @ es') t' \<and>
       mset es' + mset (mt_batch t') = mset (mt_batch t) + mset (concat (map r_entries rs)) \<and>
       ids_seen (mt_pending t') = ids_seen (mt_pending t) \<union> unat ` set (concat (map r_ids rs)) \<and>
       mt_sent t' @ mt_completion_senders t' = mt_sent t @ mt_completion_senders t @ concat (map r_senders rs)"
proof (induction rs arbitrary: es t)
  case Nil
  then show ?case by (intro exI [of _ t] exI [of _ "[]"]) simp
next
  case (Cons r rs)
  have "\<exists>t1 es1. process_next_command lru v r t = (Ok True, t1) \<and> thread_inv v (es @ es1) t1 \<and> thread_accounts t r es1 t1"
    using Cons.prems step_commit [OF Cons.prems(1)] step_drop [OF Cons.prems(1)] step_idle [OF Cons.prems(1)]
    by (cases r rule: r_ids.cases) (fastforce simp: list_all_iff)+
  then obtain t1 es1 where t1: "process_next_command lru v r t = (Ok True, t1)" "thread_inv v (es @ es1) t1"
    "thread_accounts t r es1 t1" by blast
  have "\<forall>i \<in> set (concat (map r_ids rs)). unat i < 2 ^ 64 - 1 \<and> unat i \<notin> ids_seen (mt_pending t1)"
    using Cons.prems(3,4) t1(3) by (auto simp: thread_accounts_def dest: word_unat_eq_iff [THEN iffD2])
  moreover have "Disconnected \<notin> set rs" "distinct (concat (map r_ids rs))" "list_all (pushable v) (concat (map r_entries rs))"
    using Cons.prems by auto
  ultimately obtain t' es' where t': "save_transactions lru v rs t1 = (Ok (), t')"
    "thread_inv v ((es @ es1) @ es') t'"
    "mset es' + mset (mt_batch t') = mset (mt_batch t1) + mset (concat (map r_entries rs))"
    "ids_seen (mt_pending t') = ids_seen (mt_pending t1) \<union> unat ` set (concat (map r_ids rs))"
    "mt_sent t' @ mt_completion_senders t' = mt_sent t1 @ mt_completion_senders t1 @ concat (map r_senders rs)"
    using Cons.IH [OF t1(2)] by blast
  have "save_transactions lru v (r # rs) t = (Ok (), t')" using t1(1) t'(1) by (simp add: bindS_def)
  moreover have "thread_inv v (es @ (es1 @ es')) t'" using t'(2) by simp
  moreover have "mset (es1 @ es') + mset (mt_batch t') = mset (mt_batch t) + mset (concat (map r_entries (r # rs)))"
  proof -
    have "mset (es1 @ es') + mset (mt_batch t') = mset es1 + (mset es' + mset (mt_batch t'))" by (simp add: add.assoc)
    also have "\<dots> = (mset es1 + mset (mt_batch t1)) + mset (concat (map r_entries rs))" by (simp add: t'(3) add.assoc)
    finally show ?thesis using t1(3) by (simp add: thread_accounts_def add.assoc)
  qed
  moreover have "ids_seen (mt_pending t') = ids_seen (mt_pending t) \<union> unat ` set (concat (map r_ids (r # rs)))"
    using t'(4) t1(3) by (auto simp: thread_accounts_def)
  moreover have "mt_sent t' @ mt_completion_senders t' =
      mt_sent t @ mt_completion_senders t @ concat (map r_senders (r # rs))"
    using t'(5) t1(3) by (simp add: thread_accounts_def)
  ultimately show ?case by blast
qed

lemma save_transactions_append:
  "save_transactions lru v rs t = (Ok (), t1) \<Longrightarrow> Disconnected \<notin> set rs \<Longrightarrow>
     save_transactions lru v (rs @ rs') t = save_transactions lru v rs' t1"
proof (induction rs arbitrary: t)
  case (Cons r rs)
  have cont: "process_next_command lru v r t = (Ok False, t2) \<Longrightarrow> False" for t2
    using Cons.prems(2)
    by (cases r rule: r_ids.cases; cases "mt_state t") (auto simp: process_next_command_def elim!: bindS_OkE)
  from Cons.prems(1) obtain go t2 where "process_next_command lru v r t = (Ok go, t2)"
    by (auto elim: bindS_OkE)
  with cont Cons show ?case by (cases go) (auto simp: bindS_def)
qed simp

text \<open>Entries in ascending order are the sorted ones.\<close>

lemma only_with_id: "distinct (map le_id xs) \<Longrightarrow> e \<in> set xs \<Longrightarrow> filter (\<lambda>x. le_id e = le_id x) xs = [e]"
proof (induction xs)
  case (Cons x xs)
  show ?case
  proof (cases "x = e")
    case True
    with Cons.prems(1) show ?thesis by (auto simp: filter_empty_conv)
  next
    case False
    then have "e \<in> set xs" using Cons.prems(2) by simp
    moreover from this have "le_id e \<in> le_id ` set xs" by (rule imageI)
    then have "le_id e \<noteq> le_id x" using Cons.prems(1) by auto
    ultimately show ?thesis using Cons by simp
  qed
qed simp

lemma ascending_sorted:
  assumes "ids_ascending i xs" and "mset xs = mset ys"
  shows "xs = sort_key le_id ys"
proof (rule properties_for_sort_key [symmetric])
  show "mset xs = mset ys" by (rule assms(2))
  have sd: "sorted (map le_id xs)" "distinct (map le_id xs)" using assms(1) by (simp_all add: ids_ascending_def strict_sorted_iff)
  then show "sorted (map le_id xs)" by simp
  fix e assume e: "e \<in> set xs"
  have "distinct (map le_id ys)" using sd(2) assms(2) by (metis mset_map mset_eq_imp_distinct_iff)
  moreover have "e \<in> set ys" using e assms(2) by (metis set_mset_mset)
  ultimately show "filter (\<lambda>x. le_id e = le_id x) xs = filter (\<lambda>x. le_id e = le_id x) ys"
    using only_with_id sd(2) e by metis
qed

text \<open>When the ids that have arrived leave no gap and nothing more is ready, the batch has been written.\<close>

lemma run_complete:
  assumes inv: "thread_inv v es t" "mt_batch t = []" and rs: "Disconnected \<notin> set rs" "distinct (concat (map r_ids rs))"
    and small: "\<forall>i \<in> set (concat (map r_ids rs)). unat i < 2 ^ 64 - 1 \<and> unat i \<notin> ids_seen (mt_pending t)"
    and push: "list_all (pushable v) (concat (map r_entries rs))"
    and full: "ids_seen (mt_pending t) \<union> unat ` set (concat (map r_ids rs)) = {..<n}"
  shows "\<exists>t'. save_transactions lru v (rs @ [NothingReady]) t = (Ok (), t') \<and>
    thread_inv v (es @ sort_key le_id (concat (map r_entries rs))) t' \<and> mt_batch t' = [] \<and>
    ids_seen (mt_pending t') = {..<n} \<and> mt_sent t' = mt_sent t @ concat (map r_senders rs) \<and> mt_completion_senders t' = []"
proof -
  let ?new = "concat (map r_entries rs)"
  from run_ok [OF inv(1) rs small push, of lru] obtain t1 es1 where
    r1: "save_transactions lru v rs t = (Ok (), t1)" "thread_inv v (es @ es1) t1"
    "mset es1 + mset (mt_batch t1) = mset (mt_batch t) + mset ?new" "ids_seen (mt_pending t1) = {..<n}"
    "mt_sent t1 @ mt_completion_senders t1 = mt_sent t @ mt_completion_senders t @ concat (map r_senders rs)"
    unfolding full by blast
  from step_idle [OF r1(2), of lru] obtain t2 es2 where r2: "process_next_command lru v NothingReady t1 = (Ok True, t2)"
    "thread_inv v ((es @ es1) @ es2) t2" "thread_accounts t1 NothingReady es2 t2"
    "ids_complete (mt_pending t2) \<longrightarrow> mt_batch t2 = []" by blast
  have run: "save_transactions lru v (rs @ [NothingReady]) t = (Ok (), t2)"
    using save_transactions_append [OF r1(1) rs(1), of "[NothingReady]"] r2(1) by (simp add: bindS_def)
  have seen: "ids_seen (mt_pending t2) = {..<n}" using r2(3) r1(4) by (simp add: thread_accounts_def)
  then have "ids_complete (mt_pending t2)"
    using ids_complete_seen r2(2) by (auto simp: thread_inv_def thread_core_def)
  with r2(4) have empty: "mt_batch t2 = []" by simp
  have "mset (es1 @ es2) = mset es1 + mset (mt_batch t1)" using r2(3) empty by (simp add: thread_accounts_def)
  with r1(3) inv(2) have same: "mset (es1 @ es2) = mset ?new" by simp
  have "log_ok v (es @ (es1 @ es2)) (mt_log t2)" using r2(2) by (simp add: thread_inv_def thread_core_def)
  then have "ids_ascending (last_id 0 es) (es1 @ es2)" by (simp add: log_ok_def ids_ascending_append)
  then have sorted: "es1 @ es2 = sort_key le_id ?new" using same by (rule ascending_sorted)
  have "mt_completion_senders t2 = []" "mt_completion_senders t = []"
    using r2(2) inv empty by (simp_all add: thread_inv_def thread_core_def)
  moreover have "mt_sent t2 @ mt_completion_senders t2 = mt_sent t @ mt_completion_senders t @ concat (map r_senders rs)"
    using r2(3) r1(5) by (simp add: thread_accounts_def)
  ultimately show ?thesis using run empty seen r2(2) sorted by auto
qed

text \<open>The thread that \<^verbatim>\<open>run\<close> starts.\<close>

lemma manager_run_inv:
  assumes "chunk_vault v" and "log_holds v es buf" and "ids_ascending 0 es" and "length buf < 2 ^ 64"
    and "unat (last_id 0 es) < 2 ^ 64 - 1"
  shows "\<exists>t. manager_run v (Some buf) cache = Ok t \<and> thread_inv v es t \<and> mt_state t = Fresh \<and> mt_batch t = [] \<and> mt_sent t = [] \<and>
    mt_completion_senders t = [] \<and> ids_seen (mt_pending t) = {..unat (last_id 0 es)} \<and>
    ts_next_transaction_id (tl_state (mt_log t)) = last_id 0 es + 1"
proof -
  have next_id: "unat (last_id 0 es + 1) = unat (last_id 0 es) + 1" using assms(5) by (simp add: unat_word_ariths)
  have not_max: "last_id 0 es \<noteq> - 1" using next_id by force
  have "\<exists>l. log_initialize_state v (Some buf) (ts_from_path cache) = (Ok (), l) \<and> log_ok v es l \<and>
      ts_next_transaction_id (tl_state l) = last_id 0 es + 1"
  proof (cases "es = []")
    case True
    then have "buf = []" using assms(2) by simp
    with True show ?thesis
      by (simp add: log_initialize_state_def ts_initialize_def ts_from_path_def log_ok_def ids_ascending_def
          ts_next_transaction_id_def)
  next
    case False
    then show ?thesis using log_initialize_ok [OF assms(1,2) False, of "[]" cache] assms(3,4) not_max
      by (auto simp: last_id_def)
  qed
  then obtain l where l: "log_initialize_state v (Some buf) (ts_from_path cache) = (Ok (), l)" "log_ok v es l"
    "ts_next_transaction_id (tl_state l) = last_id 0 es + 1" by blast
  then show ?thesis using next_id
    by (auto simp: manager_run_def Let_def thread_inv_def thread_core_def word_less_nat_alt)
      (simp_all add: ids_new_def next_id)
qed

end
