(* ===== verification/Log_Fetch.thy ===== *)
theory Log_Fetch
  imports Log_Queries
begin

text \<open>
  When the search of the log finds a transaction: in a log whose transactions have consecutive ids and take
  one page each, the second guess is always right. The estimates are computed in double precision, so the
  first section has the facts on rounding this rests on.
\<close>

section \<open>Rounding\<close>

lemma half_even_ge: "\<lfloor>x\<rfloor> \<le> half_even x"
  by (simp add: half_even_def Let_def)

lemma half_even_of_int [simp]: "half_even (of_int n) = n"
  by (simp add: half_even_def)

lemma f64_exponent_le:
  assumes "0 < n" and "n < 2 ^ 53"
  shows "f64_exponent (of_nat n) \<le> 0"
proof -
  let ?y = "int n * 2 ^ 64"
  have "\<lfloor>of_nat n * 2 ^ 64 :: rat\<rfloor> = ?y"
    by (metis floor_of_int of_int_mult of_int_numeral of_int_of_nat_eq of_int_power)
  moreover have "bitlen ?y \<le> 117"
  proof -
    have "?y < 2 ^ 117" using assms by simp
    moreover have "2 ^ nat (bitlen ?y - 1) \<le> ?y" using assms bitlen_bounds [of ?y] by simp
    ultimately have "(2 :: int) ^ nat (bitlen ?y - 1) < 2 ^ 117" by linarith
    then have "nat (bitlen ?y - 1) < 117" by (simp only: power_strict_increasing_iff)
    then show ?thesis by linarith
  qed
  ultimately show ?thesis by (simp add: f64_exponent_def)
qed

lemma f64_round_nat [simp]:
  assumes "n < 2 ^ 53"
  shows "f64_round (of_nat n) = of_nat n"
proof (cases "n = 0")
  case False
  let ?e = "f64_exponent (of_nat n)"
  have e: "?e \<le> 0" using False assms by (intro f64_exponent_le) simp
  have "of_nat n * 2 ^ nat (- ?e) = (of_int (int n * 2 ^ nat (- ?e)) :: rat)" by simp
  then have "half_even (of_nat n * 2 ^ nat (- ?e)) = int n * 2 ^ nat (- ?e)" by (simp only: half_even_of_int)
  moreover have "half_even (of_nat n) = int n" using half_even_of_int [of "int n"] by simp
  ultimately show ?thesis using False e by (cases "?e = 0") (simp_all add: f64_round_def Let_def)
qed (simp add: f64_round_def)

lemma f64_round_ge:
  assumes "of_nat y \<le> x" and "0 < y" and "y < 2 ^ 53"
  shows "of_nat y \<le> f64_round x"
proof -
  let ?e = "f64_exponent x"
  have pos: "0 < x" using assms(1,2) by (meson less_le_trans of_nat_0_less_iff)
  show ?thesis
  proof (cases "?e > 0")
    case False
    let ?k = "nat (- ?e)"
    have "(of_nat y :: rat) * 2 ^ ?k \<le> x * 2 ^ ?k" using assms(1) by simp
    then have "int y * 2 ^ ?k \<le> \<lfloor>x * 2 ^ ?k\<rfloor>" by (simp add: le_floor_iff)
    also have "\<dots> \<le> half_even (x * 2 ^ ?k)" by (rule half_even_ge)
    finally have "(of_int (int y * 2 ^ ?k) :: rat) \<le> of_int (half_even (x * 2 ^ ?k))" by (simp only: of_int_le_iff)
    then have "of_nat y \<le> of_int (half_even (x * 2 ^ ?k)) / (2 ^ ?k :: rat)" by (simp add: pos_le_divide_eq)
    then show ?thesis using pos False by (cases "?e = 0") (simp_all add: f64_round_def Let_def)
  next
    case True
    let ?y = "\<lfloor>x * 2 ^ 64\<rfloor>"
    have len: "bitlen ?y = ?e + 117" by (simp add: f64_exponent_def)
    have "0 < ?y"
    proof (rule ccontr)
      assume "\<not> 0 < ?y"
      then have "bitlen ?y = 0" by (simp add: bitlen_def floorlog_def)
      with len True show False by simp
    qed
    then have "2 ^ nat (?e + 116) \<le> ?y" using bitlen_bounds [of ?y] len by (simp add: add.commute)
    then have "(2 :: rat) ^ nat (?e + 116) \<le> x * 2 ^ 64" by (simp add: le_floor_iff)
    moreover have "nat (?e + 116) = nat ?e + 52 + 64" using True by simp
    ultimately have "(2 :: rat) ^ (nat ?e + 52) * 2 ^ 64 \<le> x * 2 ^ 64" by (simp only: power_add)
    then have "(2 :: rat) ^ nat ?e * 2 ^ 52 \<le> x" by (simp only: mult_le_cancel_right power_add) simp
    then have "(2 :: rat) ^ 52 \<le> x / 2 ^ nat ?e" by (simp add: pos_le_divide_eq mult.commute)
    then have "2 ^ 52 \<le> \<lfloor>x / 2 ^ nat ?e\<rfloor>" by (simp add: le_floor_iff)
    then have "2 ^ 52 \<le> half_even (x / 2 ^ nat ?e)" using half_even_ge order_trans by blast
    then have "(2 ^ 52 :: rat) \<le> of_int (half_even (x / 2 ^ nat ?e))" by simp
    moreover have "(2 :: rat) \<le> 2 ^ nat ?e" using True self_le_power [of "2 :: rat" "nat ?e"] by simp
    ultimately have "2 ^ 52 * (2 :: rat) \<le> of_int (half_even (x / 2 ^ nat ?e)) * 2 ^ nat ?e"
      by (intro mult_mono) auto
    moreover have "(of_nat y :: rat) \<le> 2 ^ 52 * 2" using assms(3) by (simp add: of_nat_le_iff [of y "2 ^ 53", where 'a = rat, simplified])
    ultimately show ?thesis using pos True by (simp add: f64_round_def Let_def)
  qed
qed

lemma estimate_back_ge:
  assumes "0 < delta" and "delta < 2 ^ 53" and "0 < pages" and "pages \<le> upper" and "upper < 2 ^ 53"
  shows "delta \<le> estimate_back delta upper pages"
proof -
  let ?avg = "f64_round (of_nat upper / of_nat pages)"
  let ?prod = "f64_round (of_nat delta * ?avg)"
  have "(of_nat 1 :: rat) \<le> of_nat upper / of_nat pages" using assms(3,4) by (simp add: pos_le_divide_eq)
  then have "1 \<le> ?avg" using f64_round_ge [of 1] by simp
  then have "of_nat delta \<le> of_nat delta * ?avg" by (simp add: mult_le_cancel_left1)
  then have "of_nat delta \<le> ?prod" by (rule f64_round_ge [OF _ assms(1,2)])
  then have "int delta \<le> \<lceil>?prod\<rceil>" by linarith
  then have "delta \<le> nat (min \<lceil>?prod\<rceil> (2 ^ 64 - 1))" using assms(2) by simp
  then show ?thesis using assms by (simp add: estimate_back_def f64_of_def)
qed

lemma estimate_between_unit:
  assumes "delta < 2 ^ 53" and "0 < m" and "m < 2 ^ 53"
  shows "estimate_between delta m m = delta"
proof -
  have "f64_round 1 = 1" using f64_round_nat [of 1] by simp
  moreover have "f64_round (of_nat delta) = of_nat delta" using assms(1) by simp
  moreover have "nat (min (int delta) (2 ^ 64 - 1)) = delta" using assms(1) by simp
  ultimately show ?thesis using assms by (simp add: estimate_between_def f64_of_def)
qed

section \<open>Logs of transactions that take one page each\<close>

definition one_page :: "vault option \<Rightarrow> log_entry \<Rightarrow> bool" where
  "one_page v e \<longleftrightarrow> (case encrypt_with v (le_serialize e) of Ok c \<Rightarrow> length c \<le> 1020 | _ \<Rightarrow> False)"

lemma one_page_length: "entry_stored v e b \<Longrightarrow> one_page v e \<Longrightarrow> length b = 1024"
  by (auto simp: entry_stored_def one_page_def entry_pages_def elim: cont_nilE simp del: be_nat.simps)

lemma one_page_log_length: "log_holds v es buf \<Longrightarrow> list_all (one_page v) es \<Longrightarrow> length buf = 1024 * length es"
  by (induction es arbitrary: buf) (auto simp: log_holds_Cons dest: one_page_length)

lemma scan_page:
  assumes "chunk_vault v" and "log_holds v es buf" and "length buf < 2 ^ 64" and "list_all (one_page v) es" and "k < length es"
  shows "\<exists>n. scan_bytes v False buf (1024 * k) = Ok (ScanFound (le_norm (es ! k)) (1024 * k) n)"
proof -
  have "es = take k es @ es ! k # drop (Suc k) es" using assms(5) by (simp add: id_take_nth_drop)
  then obtain pre b post where b: "buf = pre @ b @ post" "log_holds v (take k es) pre" "entry_stored v (es ! k) b"
    using assms(2) by (metis log_holds_append log_holds_Cons)
  have "length pre = 1024 * k"
    using one_page_log_length [OF b(2)] assms(4,5) by (simp add: list_all_iff) (metis in_set_takeD)
  then show ?thesis using scan_start_of_entry [OF assms(1) b(3), of pre post False] assms(3) b(1) by auto
qed

text \<open>A round that scans an entry at the guessed page.\<close>

lemma fetch_step:
  assumes "guess i ll lid ul uid = Ok (Some g)" and "g < ul" and "scan_bytes v False (mf_buffer (tl_file l)) g = Ok (ScanFound e p n)"
  obtains l1 where "mf_buffer (tl_file l1) = mf_buffer (tl_file l)"
    and "fetch_loop guess lru v i ll lid ul uid l =
      (if le_id e < i then
         (if lid = None \<or> le_id e > the lid then fetch_loop guess lru v i (Some p) (Some (le_id e)) ul uid l1
          else (Ok (ScanNotFound p), l1))
       else if le_id e = i then (Ok (ScanFound e p n), l1)
       else if le_id e < uid then fetch_loop guess lru v i ll lid p (le_id e) l1
       else (Ok (ScanNotFound p), l1))"
proof -
  obtain l0 where l0: "on_file (scan_for_transaction v g False) l = (scan_bytes v False (mf_buffer (tl_file l)) g, l0)"
    "mf_buffer (tl_file l0) = mf_buffer (tl_file l)"
    by (rule on_file_scan [of v g False l])
  have "\<not> ul \<le> g" using assms(2) by simp
  then show ?thesis
    using assms l0 fetch_loop.simps [of guess lru v i ll lid ul uid]
    by (intro that [of "l0\<lparr>tl_state := ts_note_status lru (le_id e) (Some p) (tl_state l0)\<rparr>"])
      (auto simp: bindS_def on_state_def)
qed

lemma fetch_consecutive:
  assumes v: "chunk_vault v" and ok: "log_ok v es l" and pages: "list_all (one_page v) es"
    and bound: "unat s + length es < 2 ^ 53" and s: "0 < s"
    and ids: "\<And>k. k < length es \<Longrightarrow> le_id (es ! k) = s + of_nat k"
    and next_id: "ts_next_transaction_id (tl_state l) = s + of_nat (length es)" and k: "k < length es"
  shows "\<exists>n l'. fetch_entry lru v (s + of_nat k) l = (Ok (ScanFound (le_norm (es ! k)) (1024 * k) n), l')"
proof -
  let ?n = "length es" and ?i = "s + of_nat k" and ?buf = "mf_buffer (tl_file l)"
  let ?uid = "s + of_nat ?n"
  have u: "unat (s + of_nat j) = unat s + j" if "j \<le> ?n" for j
    using that bound by (simp add: unat_word_ariths unat_of_nat)
  have holds: "log_holds v es ?buf" and len: "ts_len (tl_state l) = 1024 * ?n"
    using ok one_page_log_length [OF _ pages] by (auto simp: log_ok_def ts_len_def)
  have buf: "length ?buf = 1024 * ?n" by (rule one_page_log_length [OF holds pages])
  have small: "length ?buf < 2 ^ 64" using buf bound by simp
  note scan = scan_page [OF v holds small pages]
  have less: "s + of_nat j < s + of_nat j' \<longleftrightarrow> j < j'" if "j \<le> ?n" "j' \<le> ?n" for j j'
    using that u by (simp add: word_less_nat_alt)
  have d: "unat (of_nat j' - of_nat j :: u64) = j' - j" if "j \<le> j'" "j' \<le> ?n" for j j'
  proof -
    have eq: "(of_nat j' - of_nat j :: u64) = of_nat (j' - j)" using that by (simp add: of_nat_diff)
    have "j' - j < 2 ^ 64" using that bound by simp
    then show ?thesis unfolding eq unat_of_nat by simp
  qed
  have start: "fetch_entry lru v ?i l = fetch_loop guess_page lru v ?i None None (1024 * ?n) ?uid l"
    using less [of k ?n] k u [of k] s len next_id
    by (auto simp: fetch_entry_def Let_def word_less_nat_alt word_le_nat_alt)
  define est where "est = estimate_back (?n - k) (unat s + ?n) ?n"
  have est: "?n - k \<le> est" unfolding est_def using k bound by (intro estimate_back_ge) auto
  define g where "g = 1024 * ?n - min (est * 1024) (2 ^ 64 - 1)"
  have first: "guess_page ?i None None (1024 * ?n) ?uid = Ok (Some g)"
    using less [of k ?n] k u [of k] u [of ?n] d [of k ?n]
    by (auto simp: guess_page_def log_page_size_def g_def est_def unat_sub word_less_nat_alt word_le_nat_alt Let_def)
  obtain j where j: "g = 1024 * j" "j \<le> k"
  proof (cases "est * 1024 \<le> 2 ^ 64 - 1")
    case True
    then have "g = 1024 * (?n - est)" by (simp add: g_def diff_mult_distrib2 mult.commute)
    then show ?thesis using est k by (intro that [of "?n - est"]) auto
  next
    case False
    then have "g = 0" using small buf by (simp add: g_def min_def)
    then show ?thesis using that [of 0] by simp
  qed
  have jn: "j < ?n" using j(2) k by simp
  obtain m where m: "scan_bytes v False ?buf g = Ok (ScanFound (le_norm (es ! j)) g m)" using scan [OF jn] j by auto
  have "g < 1024 * ?n" using j jn by simp
  have idj: "le_id (le_norm (es ! j)) = s + of_nat j" using ids [OF jn] by simp
  obtain l1 where l1: "mf_buffer (tl_file l1) = ?buf"
    "fetch_loop guess_page lru v ?i None None (1024 * ?n) ?uid l =
       (if s + of_nat j < ?i then
          (if (None :: u64 option) = None \<or> s + of_nat j > the None
           then fetch_loop guess_page lru v ?i (Some g) (Some (s + of_nat j)) (1024 * ?n) ?uid l1
           else (Ok (ScanNotFound g), l1))
        else if s + of_nat j = ?i then (Ok (ScanFound (le_norm (es ! j)) g m), l1)
        else if s + of_nat j < ?uid then fetch_loop guess_page lru v ?i None None g (s + of_nat j) l1
        else (Ok (ScanNotFound g), l1))"
    by (rule fetch_step [where guess = guess_page and lru = lru, OF first \<open>g < 1024 * ?n\<close> m, unfolded idj])
  show ?thesis
  proof (cases "j = k")
    case True
    then show ?thesis using start l1(2) j(1) by auto
  next
    case False
    then have jk: "j < k" using j(2) by simp
    have "estimate_between (k - j) (?n - j) (?n - j) = k - j" using jk k bound by (intro estimate_between_unit) auto
    moreover have "1024 * j + (k - j) * 1024 = 1024 * k" using jk by (simp add: diff_mult_distrib)
    ultimately have second: "guess_page ?i (Some g) (Some (s + of_nat j)) (1024 * ?n) ?uid = Ok (Some (1024 * k))"
      using jk k u [of j] u [of k] u [of ?n] small buf less [of j k] less [of k ?n] less [of j ?n] d [of j k] d [of j ?n]
      by (auto simp: guess_page_def log_page_size_def j(1) unat_sub word_less_nat_alt word_le_nat_alt Let_def)
    obtain m' where m': "scan_bytes v False (mf_buffer (tl_file l1)) (1024 * k) = Ok (ScanFound (le_norm (es ! k)) (1024 * k) m')"
      using scan [OF k] l1(1) by auto
    have "1024 * k < 1024 * ?n" using k by simp
    have idk: "le_id (le_norm (es ! k)) = ?i" using ids [OF k] by simp
    obtain l2 where l2: "fetch_loop guess_page lru v ?i (Some g) (Some (s + of_nat j)) (1024 * ?n) ?uid l1 =
        (Ok (ScanFound (le_norm (es ! k)) (1024 * k) m'), l2)"
      by (rule fetch_step [where guess = guess_page and lru = lru, OF second \<open>1024 * k < 1024 * ?n\<close> m', unfolded idk]) simp
    have "s + of_nat j < ?i" using less [of j k] jk k by simp
    then show ?thesis using start l1(2) l2 by simp
  qed
qed

end
