(* ===== verification/Success_Queries.thy ===== *)
theory Success_Queries
  imports Manager_Invariant Log_Fetch
begin

text \<open>
  \<^verbatim>\<open>transaction_was_successful\<close>: the cache of known transactions and the search of the log behind it.
\<close>

section \<open>The cache\<close>

text \<open>What the code relies on of \<^verbatim>\<open>LruCache\<close>: a key that was just put is found; putting a key changes the answer
  for another one only by evicting it; looking up a key does not change the answers.\<close>

definition lru_laws :: "'c lru_ops \<Rightarrow> bool" where
  "lru_laws lru \<longleftrightarrow>
     (\<forall>i p c. fst (lru_get lru i (lru_put lru i p c)) = Some p) \<and>
     (\<forall>i j p c. i \<noteq> j \<longrightarrow> fst (lru_get lru i (lru_put lru j p c)) \<in> {None, fst (lru_get lru i c)}) \<and>
     (\<forall>i j c. fst (lru_get lru i (snd (lru_get lru j c))) = fst (lru_get lru i c))"

text \<open>The cache knows a position only for a transaction of the log.\<close>

definition cache_sound :: "'c lru_ops \<Rightarrow> log_entry list \<Rightarrow> 'c tx_state \<Rightarrow> bool" where
  "cache_sound lru es s \<longleftrightarrow> (\<forall>i p. fst (lru_get lru i (ts_known s)) = Some (Some p) \<longrightarrow> i \<in> le_id ` set es)"

definition not_cached :: "'c lru_ops \<Rightarrow> transaction_id \<Rightarrow> 'c tx_log \<Rightarrow> bool" where
  "not_cached lru i l \<longleftrightarrow> fst (lru_get lru i (ts_known (tl_state l))) = None"

lemma cache_sound_put:
  assumes "lru_laws lru" and "cache_sound lru es s" and "p = None \<or> i \<in> le_id ` set es"
  shows "cache_sound lru es (ts_note_status lru i p s)"
  unfolding cache_sound_def
proof (intro allI impI)
  fix j q assume get: "fst (lru_get lru j (ts_known (ts_note_status lru i p s))) = Some (Some q)"
  show "j \<in> le_id ` set es"
  proof (cases "j = i")
    case True
    with get assms(1,3) show ?thesis by (auto simp: ts_note_status_def lru_laws_def)
  next
    case False
    with assms(1) have "fst (lru_get lru j (lru_put lru i p (ts_known s))) \<in> {None, fst (lru_get lru j (ts_known s))}"
      by (simp add: lru_laws_def)
    with get have "fst (lru_get lru j (ts_known s)) = Some (Some q)" by (simp add: ts_note_status_def)
    with assms(2) show ?thesis unfolding cache_sound_def by blast
  qed
qed

lemma cache_sound_get:
  assumes "lru_laws lru" and "cache_sound lru es s" and "ts_id_position lru i s = (r, s')"
  shows "cache_sound lru es s'" and "r = Some (Some p) \<Longrightarrow> i \<in> le_id ` set es"
    and "s' = s\<lparr>ts_known := ts_known s'\<rparr>" and "fst (lru_get lru j (ts_known s')) = fst (lru_get lru j (ts_known s))"
  using assms by (auto simp: cache_sound_def ts_id_position_def lru_laws_def split: prod.splits)
    (metis fst_conv snd_conv)+

section \<open>Success\<close>

lemma log_ok_same:
  assumes "log_ok v es l" and "mf_buffer (tl_file l') = mf_buffer (tl_file l)"
    and "ts_file_offset (tl_state l') = ts_file_offset (tl_state l)" and "ts_last_written (tl_state l') = ts_last_written (tl_state l)"
  shows "log_ok v es l'"
  using assms by (simp add: log_ok_def)

text \<open>A transaction that the cache does not know is looked up in the log.\<close>

definition look_up :: "'c lru_ops \<Rightarrow> vault option \<Rightarrow> transaction_id \<Rightarrow> ('c tx_log, nat option) sres" where
  "look_up lru v i = bindS (fetch_entry lru v i) (\<lambda>r.
      case r of
        ScanFound entry position payload_length \<Rightarrow>
          bindS (on_state (ts_note_status lru i (Some position))) (\<lambda>_. returnS (Some position))
      | ScanNotFound nearest_position \<Rightarrow>
          bindS (on_state (ts_note_status lru i None)) (\<lambda>_. returnS None))"

lemma look_up_Ok:
  assumes "look_up lru v i l = (Ok position, l')"
  obtains r l1 where "fetch_entry lru v i l = (Ok r, l1)"
    and "position = (case r of ScanFound e p n \<Rightarrow> Some p | ScanNotFound p \<Rightarrow> None)"
    and "l' = l1\<lparr>tl_state := ts_note_status lru i position (tl_state l1)\<rparr>"
proof -
  from assms obtain r l1 where r: "fetch_entry lru v i l = (Ok r, l1)" unfolding look_up_def by (elim bindS_OkE)
  show ?thesis using assms r that by (cases r) (auto simp: look_up_def bindS_def on_state_def)
qed

lemma position_sound:
  assumes laws: "lru_laws lru" and v: "chunk_vault v" and ok: "log_ok v es l" and small: "length (mf_buffer (tl_file l)) < 2 ^ 64"
    and sound: "cache_sound lru es (tl_state l)" and run: "transaction_position lru v i l = (Ok position, l')"
  shows "(position \<noteq> None \<longrightarrow> i \<in> le_id ` set es) \<and> log_ok v es l' \<and> cache_sound lru es (tl_state l')"
proof (cases "i > 0")
  case False
  then show ?thesis using run ok sound by (auto simp: transaction_position_def)
next
  case True
  obtain r s' where get: "ts_id_position lru i (tl_state l) = (r, s')" by fastforce
  note cache = cache_sound_get [OF laws sound get]
  let ?l = "l\<lparr>tl_state := s'\<rparr>"
  have same: "ts_file_offset s' = ts_file_offset (tl_state l)" "ts_last_written s' = ts_last_written (tl_state l)"
    using cache(3) by (metis tx_state.select_convs tx_state.surjective tx_state.update_convs)+
  have okl: "log_ok v es ?l" using ok same by (simp add: log_ok_def)
  show ?thesis
  proof (cases r)
    case (Some p)
    then show ?thesis using run True get cache(1,2) okl by (cases p) (auto simp: transaction_position_def)
  next
    case None
    let ?I = "\<lambda>s. cache_sound lru es s \<and> ts_file_offset s = ts_file_offset (tl_state l) \<and>
      ts_last_written s = ts_last_written (tl_state l)"
    have noted: "\<forall>e p s. e \<in> le_norm ` set es \<longrightarrow> ?I s \<longrightarrow> ?I (ts_note_status lru (le_id e) (Some p) s)"
      using cache_sound_put [OF laws] by (auto simp: ts_note_status_def [abs_def])
    have start: "?I (tl_state ?l)" using cache(1) same by simp
    have "look_up lru v i ?l = (Ok position, l')"
      using run True get None by (simp add: transaction_position_def look_up_def)
    then obtain r2 l2 where fetch: "fetch_entry lru v i ?l = (Ok r2, l2)"
      and after: "position = (case r2 of ScanFound e p n \<Rightarrow> Some p | ScanNotFound p \<Rightarrow> None)"
        "l' = l2\<lparr>tl_state := ts_note_status lru i position (tl_state l2)\<rparr>"
      by (rule look_up_Ok)
    have small_l: "length (mf_buffer (tl_file ?l)) < 2 ^ 64" using small by simp
    note rule = fetch_entry_rule [where I = ?I, OF v okl small_l noted start fetch]
    have keep: "mf_buffer (tl_file l2) = mf_buffer (tl_file ?l)" by (rule rule(1))
    have keep_I: "?I (tl_state l2)" by (rule rule(2))
    have found: "position \<noteq> None \<longrightarrow> i \<in> le_id ` set es"
    proof (cases r2)
      case (ScanFound e p n)
      from rule(3) [OF this] obtain es1 e' es2 where "es = es1 @ e' # es2" "le_id e' = i" by blast
      then show ?thesis by auto
    qed (simp add: after)
    have sound_l2: "cache_sound lru es (tl_state l2)" using keep_I by simp
    have "cache_sound lru es (ts_note_status lru i position (tl_state l2))"
      by (rule cache_sound_put [OF laws sound_l2]) (use found in blast)
    then have "cache_sound lru es (tl_state l')" by (simp add: after(2))
    moreover have "log_ok v es l'"
      by (rule log_ok_same [OF ok]) (simp_all add: after(2) keep keep_I ts_note_status_def)
    ultimately show ?thesis using found by simp
  qed
qed

lemma position_not_cached:
  assumes "not_cached lru i l" and "0 < i"
  obtains c where "transaction_position lru v i l = look_up lru v i (l\<lparr>tl_state := (tl_state l)\<lparr>ts_known := c\<rparr>\<rparr>)"
proof -
  obtain c where "lru_get lru i (ts_known (tl_state l)) = (None, c)"
    using assms(1) by (cases "lru_get lru i (ts_known (tl_state l))") (simp add: not_cached_def)
  with assms(2) show ?thesis
    by (intro that [of c]) (simp add: transaction_position_def ts_id_position_def look_up_def)
qed

lemma unlogged_unsuccessful:
  assumes "not_cached lru i l" and "ts_next_transaction_id (tl_state l) \<le> i" and "0 < i"
  shows "fst (transaction_was_successful lru v i l) = Ok False"
proof -
  obtain c where "transaction_position lru v i l = look_up lru v i (l\<lparr>tl_state := (tl_state l)\<lparr>ts_known := c\<rparr>\<rparr>)"
    by (rule position_not_cached [OF assms(1,3)])
  with assms(2,3) show ?thesis
    by (simp add: transaction_was_successful_def bindS_def fetch_entry_def Let_def ts_next_transaction_id_def on_state_def look_up_def)
qed

lemma logged_successful:
  assumes "chunk_vault v" and "log_ok v es l" and "list_all (one_page v) es"
    and "unat s + length es < 2 ^ 53" and "0 < s" and "\<And>k. k < length es \<Longrightarrow> le_id (es ! k) = s + of_nat k"
    and "ts_next_transaction_id (tl_state l) = s + of_nat (length es)" and "k < length es"
    and "not_cached lru (s + of_nat k) l"
  shows "fst (transaction_was_successful lru v (s + of_nat k) l) = Ok True"
proof -
  have "unat (s + of_nat k) = unat s + k" using assms(4,8) by (simp add: unat_word_ariths unat_of_nat)
  then have pos: "0 < s + of_nat k" using assms(5) by (simp add: word_less_nat_alt)
  obtain c where p: "transaction_position lru v (s + of_nat k) l =
      look_up lru v (s + of_nat k) (l\<lparr>tl_state := (tl_state l)\<lparr>ts_known := c\<rparr>\<rparr>)"
    by (rule position_not_cached [OF assms(9) pos])
  have "log_ok v es (l\<lparr>tl_state := (tl_state l)\<lparr>ts_known := c\<rparr>\<rparr>)" using assms(2) by (simp add: log_ok_def)
  from fetch_consecutive [OF assms(1) this assms(3-6) _ assms(8), of lru] assms(7) obtain n l' where
    "fetch_entry lru v (s + of_nat k) (l\<lparr>tl_state := (tl_state l)\<lparr>ts_known := c\<rparr>\<rparr>) =
      (Ok (ScanFound (le_norm (es ! k)) (1024 * k) n), l')" by (auto simp: ts_next_transaction_id_def)
  then show ?thesis using p by (simp add: transaction_was_successful_def bindS_def on_state_def look_up_def)
qed

section \<open>A search that misses\<close>

lemma estimates: "estimate_back 1 104 4 = 26" "estimate_between 2 3 4 = 1" "estimate_between 1 2 3 = 0"
  by code_simp+

lemma two_pages_length:
  assumes "entry_stored None e b" and "1020 < length (le_serialize e)" and "length (le_serialize e) \<le> 2043"
  shows "length b = 2048"
proof -
  from assms(1) have "entry_pages (le_serialize e) b" by (simp add: entry_stored_def encrypt_with_def)
  then obtain stale rest where b: "length stale = 1020 - min 1020 (length (le_serialize e))"
    "cont_pages (drop 1020 (le_serialize e)) rest"
    "b = 1 # be_nat 3 (length (le_serialize e)) @ take 1020 (le_serialize e) @ stale @ rest" by (auto simp: entry_pages_def)
  from cont_pages_length [OF b(2)] obtain m where m: "length rest = 1024 * m" "m = (length (le_serialize e) - 1020 + 1022) div 1023"
    by auto
  have "m = 1" unfolding m(2) using assms(2,3) by (intro div_nat_eqI) auto
  then show ?thesis using b m(1) assms(2) by (simp del: be_nat.simps)
qed

lemma plain_vault: "chunk_vault None"
  by unfold_locales (simp add: encrypt_with_def decrypt_with_def)

lemma fetch_misses:
  assumes ok: "log_ok None [e1, e2, e3] l" and ids: "le_id e1 = 101" "le_id e2 = 102" "le_id e3 = 103"
    and pages: "one_page None e1" "one_page None e3" "1020 < length (le_serialize e2)" "length (le_serialize e2) \<le> 2043"
    and next_id: "ts_next_transaction_id (tl_state l) = 104"
  shows "\<exists>l'. fetch_entry lru None 103 l = (Ok (ScanNotFound 1024), l')"
proof -
  let ?buf = "mf_buffer (tl_file l)"
  from ok obtain b1 b2 b3 where b: "?buf = b1 @ b2 @ b3" "entry_stored None e1 b1" "entry_stored None e2 b2" "entry_stored None e3 b3"
    by (auto simp: log_ok_def log_holds_Cons)
  have len: "length b1 = 1024" "length b2 = 2048" "length b3 = 1024"
    using one_page_length pages two_pages_length b by auto
  have offset: "ts_len (tl_state l) = 4096" using ok b(1) len by (simp add: log_ok_def ts_len_def)
  have small: "length ?buf < 2 ^ 64" using b(1) len by simp
  obtain n1 where s1: "scan_bytes None False ?buf 0 = Ok (ScanFound (le_norm e1) 0 n1)"
    using scan_start_of_entry [OF plain_vault b(2), of "[]" "b2 @ b3" False] b(1) small by auto
  obtain n2 where s2: "scan_bytes None False ?buf 1024 = Ok (ScanFound (le_norm e2) 1024 n2)"
    using scan_start_of_entry [OF plain_vault b(3), of b1 b3 False] b(1) small len by auto
  have s3: "scan_bytes None False ?buf 2048 = Ok (ScanFound (le_norm e2) 1024 n2)"
    using scan_back_to_start [OF b(3), of 1 b1 b3] s2 b(1) len by simp
  have g1: "guess_page 103 None None 4096 104 = Ok (Some 0)"
    using estimates by (simp add: guess_page_def log_page_size_def Let_def)
  have g2: "guess_page 103 (Some 0) (Some 101) 4096 104 = Ok (Some 1024)"
    using estimates by (simp add: guess_page_def log_page_size_def Let_def)
  have g3: "guess_page 103 (Some 1024) (Some 102) 4096 104 = Ok (Some 2048)"
    using estimates by (simp add: guess_page_def log_page_size_def Let_def)
  obtain l1 where l1: "mf_buffer (tl_file l1) = ?buf" "fetch_loop guess_page lru None 103 None None 4096 104 l =
      fetch_loop guess_page lru None 103 (Some 0) (Some 101) 4096 104 l1"
    by (rule fetch_step [where guess = guess_page and lru = lru, OF g1 _ s1]) (simp_all add: ids)
  obtain l2 where l2: "mf_buffer (tl_file l2) = ?buf" "fetch_loop guess_page lru None 103 (Some 0) (Some 101) 4096 104 l1 =
      fetch_loop guess_page lru None 103 (Some 1024) (Some 102) 4096 104 l2"
    by (rule fetch_step [where guess = guess_page and lru = lru, OF g2 _ s2 [folded l1(1)]]) (simp_all add: ids l1)
  obtain l3 where "fetch_loop guess_page lru None 103 (Some 1024) (Some 102) 4096 104 l2 = (Ok (ScanNotFound 1024), l3)"
    by (rule fetch_step [where guess = guess_page and lru = lru, OF g3 _ s3 [folded l2(1)]]) (simp_all add: ids)
  then show ?thesis using l1(2) l2(2) offset next_id by (simp add: fetch_entry_def)
qed

end
