(* ===== verification/Transaction_Properties.thy ===== *)
theory Transaction_Properties
  imports Success_Queries
begin

text \<open>
  The properties of the transaction log and of its manager, with their witnesses.
\<close>

section \<open>The sequence of ids\<close>

text \<open>
  C18. \<^verbatim>\<open>IdSequence\<close>: noting distinct ids, in any order, never panics, and the sequence is complete exactly when
  the ids noted are the first ones from the start on, without a gap.
\<close>

theorem noted_ids_complete:
  assumes "distinct is" and "\<forall>i \<in> set is. s \<le> i \<and> unat i < 2 ^ 64 - 1"
  shows "\<exists>q. ids_note_all is (ids_new s) = Ok q \<and>
    (ids_complete q \<longleftrightarrow> unat ` set is = {unat s ..< unat s + length is})"
proof -
  have ge: "\<forall>i \<in> set is. unat s \<le> unat i" using assms(2) by (simp add: word_le_nat_alt)
  with ids_note_all_ok [of "ids_new s" "is"] assms obtain q where q: "ids_note_all is (ids_new s) = Ok q" "ids_inv q" "ids_gap q"
    "ids_seen q = {..<unat s} \<union> unat ` set is" by (auto simp: not_less)
  have card: "card (unat ` set is) = length is"
    using assms(1) by (simp add: card_image inj_on_def word_unat_eq_iff distinct_card)
  have "(\<exists>n. ids_seen q = {..<n}) \<longleftrightarrow> unat ` set is = {unat s ..< unat s + length is}" (is "?l \<longleftrightarrow> ?r")
  proof
    assume ?l
    then obtain n where n: "ids_seen q = {..<n}" by blast
    have "unat ` set is = {unat s ..< n}"
    proof (intro equalityI subsetI)
      fix x assume "x \<in> unat ` set is"
      then show "x \<in> {unat s ..< n}" using ge n q(4) by auto
    next
      fix x assume "x \<in> {unat s ..< n}"
      then have "x \<in> ids_seen q" "\<not> x < unat s" using n by auto
      then show "x \<in> unat ` set is" using q(4) by auto
    qed
    with card show ?r by (cases "n \<le> unat s") auto
  next
    assume ?r
    then have "ids_seen q = {..<unat s + length is}" using q(4) by auto
    then show ?l by blast
  qed
  with q ids_complete_seen show ?thesis by metis
qed

theorem noted_ids_complete_witness:
  "\<exists>q. ids_note_all [3, 1, 2] (ids_new 1) = Ok q \<and>
    (ids_complete q \<longleftrightarrow> unat ` set [3 :: u64, 1, 2] = {unat (1 :: u64) ..< unat (1 :: u64) + length [3 :: u64, 1, 2]})"
  by (rule noted_ids_complete) (simp_all add: word_le_nat_alt)

section \<open>The log\<close>

definition collecting :: "log_entry list log_callback" where
  "collecting e k = (True, k @ [e])"

lemma log_visit_collecting: "log_visit (Unbounded, Unbounded) collecting es k = k @ es"
  by (induction es arbitrary: k) (simp_all add: collecting_def range_contains_def)

text \<open>
  C15. The log returns what was pushed: entries that are pushed in ascending order are appended, and a scan of
  the whole log ends and visits the old and the new entries in order (data of length zero is read as no data).
\<close>

theorem pushed_entries_are_scanned:
  assumes "chunk_vault v" and "log_ok v es l" and "list_all (pushable v) es'" and "ids_ascending (last_id 0 es) es'"
  shows "\<exists>l1. log_push lru v es' l = (Ok (), l1) \<and> log_ok v (es @ es') l1 \<and>
    (length (mf_buffer (tl_file l1)) < 2 ^ 64 \<longrightarrow>
      (\<exists>l2. log_scan (Suc (length (es @ es'))) lru v (Unbounded, Unbounded) collecting [] l1 = (Ok (map le_norm (es @ es')), l2)))"
proof -
  obtain l1 where l1: "log_push lru v es' l = (Ok (), l1)" "log_ok v (es @ es') l1"
    using log_push_ok [OF assms(2-4), of lru] by blast
  have "\<exists>l2. log_scan (Suc (length (es @ es'))) lru v (Unbounded, Unbounded) collecting [] l1 = (Ok (map le_norm (es @ es')), l2)"
    if "length (mf_buffer (tl_file l1)) < 2 ^ 64"
  proof -
    have "next_page_start 0 = 0" by (simp add: next_page_start_def log_page_size_def)
    then show ?thesis
      using log_scan_loop_visits [OF assms(1), of l1 "[]" "mf_buffer (tl_file l1)" "[]" "es @ es'" 0 "Suc (length (es @ es'))"
          "(Unbounded, Unbounded)" collecting "[]"] l1(2) that
      by (auto simp: log_scan_def bindS_def log_ok_def log_visit_collecting simp del: map_append)
  qed
  with l1 show ?thesis by blast
qed

definition sample_entry :: "transaction_id \<Rightarrow> log_entry" where
  "sample_entry i = \<lparr>le_id = i, le_data = Some [7]\<rparr>"

definition empty_log :: "'c \<Rightarrow> 'c tx_log" where
  "empty_log c = \<lparr>tl_state = (ts_from_path c)\<lparr>ts_current_transaction_id := 1\<rparr>, tl_file = \<lparr>mf_buffer = [], mf_position = 0\<rparr>\<rparr>"

definition table_cache :: "(transaction_id \<Rightarrow> nat option option) lru_ops" where
  "table_cache = \<lparr>lru_put = (\<lambda>i p c. c(i := Some p)), lru_get = (\<lambda>i c. (c i, c))\<rparr>"

lemma table_cache_laws: "lru_laws table_cache"
  by (simp add: lru_laws_def table_cache_def)

lemma empty_log_ok: "log_ok v [] (empty_log c)"
  by (simp add: log_ok_def empty_log_def ts_from_path_def ids_ascending_def)

lemma sample_pushable: "list_all (pushable None) [sample_entry 1, sample_entry 2]"
  by (simp add: pushable_plain sample_entry_def)

theorem pushed_entries_are_scanned_witness:
  "\<exists>l1. log_push table_cache None [sample_entry 1, sample_entry 2] (empty_log Map.empty) = (Ok (), l1) \<and>
    log_ok None ([] @ [sample_entry 1, sample_entry 2]) l1"
proof -
  have "ids_ascending (last_id 0 []) [sample_entry 1, sample_entry 2]" by (simp add: ids_ascending_def sample_entry_def)
  from pushed_entries_are_scanned [OF plain_vault empty_log_ok sample_pushable this, of table_cache]
  show ?thesis by blast
qed


lemma pages_exist: "c \<noteq> [] \<Longrightarrow> length c < 2 ^ 24 \<Longrightarrow> \<exists>b. entry_pages c b"
  using write_entry [of c "replicate 1024 0" "empty_log ()"] by auto

definition big_entry :: "transaction_id \<Rightarrow> log_entry" where
  "big_entry i = \<lparr>le_id = i, le_data = Some (replicate 1100 7)\<rparr>"

lemma le_serialize_nonempty: "le_serialize e \<noteq> []"
proof -
  have "u64_be (le_id e) \<noteq> []" using length_u_be(3) [of "le_id e"] by force
  then show ?thesis by (simp add: le_serialize_def)
qed

lemma length_sample_serialize [simp]: "length (le_serialize (sample_entry i)) = 9" "length (le_serialize (big_entry i)) = 1108"
  by (simp_all add: le_serialize_def sample_entry_def big_entry_def)

lemma le_id_sample [simp]: "le_id (sample_entry i) = i" "le_id (big_entry i) = i"
  by (simp_all add: sample_entry_def big_entry_def)

lemma sample_stored: "\<exists>b. entry_stored None (sample_entry i) b" "\<exists>b. entry_stored None (big_entry i) b"
  using pages_exist [OF le_serialize_nonempty] by (auto simp: entry_stored_def encrypt_with_def)

lemma sample_one_page: "one_page None (sample_entry i)"
  by (simp add: one_page_def encrypt_with_def)


section \<open>The manager\<close>

text \<open>
  C14. No commit is lost: when the commands of the next ids, in any order and with any pauses, have all arrived and
  the thread finds nothing more to do, every committed transaction is in the log, in ascending order after the
  transactions that were there before, and every completion has been signalled with its locks, in the order of
  arrival. The thread does not panic.
\<close>

theorem commits_reach_log:
  assumes "chunk_vault v" and "log_holds v es buf" and "ids_ascending 0 es" and "length buf < 2 ^ 64"
    and "Disconnected \<notin> set rs" and "distinct (concat (map r_ids rs))"
    and ids: "unat ` set (concat (map r_ids rs)) =
      {unat (last_id 0 es) + 1 ..< unat (last_id 0 es) + 1 + length (concat (map r_ids rs))}"
    and bound: "unat (last_id 0 es) + 1 + length (concat (map r_ids rs)) < 2 ^ 64"
    and push: "list_all (pushable v) (concat (map r_entries rs))"
  shows "\<exists>t t'. manager_run v (Some buf) cache = Ok t \<and> save_transactions lru v (rs @ [NothingReady]) t = (Ok (), t') \<and>
    log_ok v (es @ sort_key le_id (concat (map r_entries rs))) (mt_log t') \<and>
    mt_sent t' = concat (map r_senders rs) \<and> mt_completion_senders t' = [] \<and> mt_batch t' = []"
proof -
  let ?ids = "concat (map r_ids rs)" and ?new = "concat (map r_entries rs)"
  have max: "unat (last_id 0 es) < 2 ^ 64 - 1" using bound by linarith
  obtain t where t: "manager_run v (Some buf) cache = Ok t" "thread_inv v es t" "mt_batch t = []" "mt_sent t = []"
    "mt_completion_senders t = []" "ids_seen (mt_pending t) = {..unat (last_id 0 es)}"
    using manager_run_inv [OF assms(1-4) max, of cache] by blast
  have small: "\<forall>i \<in> set ?ids. unat i < 2 ^ 64 - 1 \<and> unat i \<notin> ids_seen (mt_pending t)"
  proof
    fix i assume "i \<in> set ?ids"
    then have "unat i \<in> {unat (last_id 0 es) + 1 ..< unat (last_id 0 es) + 1 + length ?ids}" unfolding ids [symmetric] by blast
    then show "unat i < 2 ^ 64 - 1 \<and> unat i \<notin> ids_seen (mt_pending t)" using bound t(6) by auto
  qed
  have "ids_seen (mt_pending t) \<union> unat ` set ?ids = {..<unat (last_id 0 es) + 1 + length ?ids}"
    unfolding t(6) ids by auto
  from run_complete [OF t(2,3) assms(5,6) small push this, of lru] t(1,4) show ?thesis
    by (auto simp: thread_inv_def thread_core_def)
qed

definition sample_handle :: "transaction_id \<Rightarrow> transaction_handle" where
  "sample_handle i = \<lparr>th_transaction = sample_entry i, th_locked_trees = [[1]]\<rparr>"

definition sample_commands :: "received list" where
  "sample_commands = [Received (Commit (sample_handle 2) 20), NothingReady, Received (DropId 3), Received (Commit (sample_handle 1) 10)]"

lemma sample_commands_simps:
  "concat (map r_ids sample_commands) = [2, 3, 1]" "concat (map r_entries sample_commands) = [sample_entry 2, sample_entry 1]"
  "concat (map r_senders sample_commands) = [(20, [[1]]), (10, [[1]])]" "Disconnected \<notin> set sample_commands"
  by (simp_all add: sample_commands_def sample_handle_def sample_entry_def)

theorem commits_reach_log_witness:
  "\<exists>t t'. manager_run None (Some []) (Map.empty :: transaction_id \<Rightarrow> nat option option) = Ok t \<and>
    save_transactions table_cache None (sample_commands @ [NothingReady]) t = (Ok (), t') \<and>
    log_ok None ([] @ sort_key le_id [sample_entry 2, sample_entry 1]) (mt_log t') \<and>
    mt_sent t' = [(20, [[1]]), (10, [[1]])] \<and> mt_completion_senders t' = [] \<and> mt_batch t' = []"
  by (rule commits_reach_log [where rs = sample_commands, OF plain_vault, unfolded sample_commands_simps])
    (use sample_pushable sample_commands_simps in \<open>auto simp: ids_ascending_def\<close>)

text \<open>
  C40. The largest data that \<^verbatim>\<open>set_data\<close> accepts is refused by the log, and the refusal stops the manager thread:
  the thread unwraps the result of the push, so committing the transaction panics it.
\<close>

theorem largest_data_stops_manager:
  assumes "thread_inv None es t" and "mt_state t = Fresh" and "ids_seen (mt_pending t) = {..<unat i}" and "unat i < 2 ^ 64 - 1"
    and "length d = 2 ^ 24 - 8"
  shows "\<exists>e. le_set_data d \<lparr>le_id = i, le_data = None\<rparr> = (Ok (), e) \<and>
    fst (save_transactions lru None
      [Received (Commit \<lparr>th_transaction = e, th_locked_trees = locks\<rparr> sender), NothingReady] t) = Panic"
proof -
  define e where "e = \<lparr>le_id = i, le_data = Some d\<rparr>"
  have core: "thread_core None es t" and batch: "mt_batch t = []" using assms(1,2) by (auto simp: thread_inv_def)
  have new: "unat i \<notin> ids_seen (mt_pending t)" using assms(3) by simp
  from note_id_ok [OF core assms(4) new] obtain q where q: "note_id i t = (Ok (), t\<lparr>mt_pending := q\<rparr>)"
    "thread_core None es (t\<lparr>mt_pending := q\<rparr>)" "ids_seen q = insert (unat i) (ids_seen (mt_pending t))" by blast
  have "ids_seen q = {..<Suc (unat i)}" using q(3) assms(3) by auto
  then have complete: "ids_complete q" using q(2) ids_complete_seen [of q] by (auto simp: thread_core_def)
  define t1 where "t1 = t\<lparr>mt_pending := q, mt_last_processed_id := i, mt_state := Batching, mt_batch := [e],
      mt_completion_senders := mt_completion_senders t @ [(sender, locks)]\<rparr>"
  have first: "process_next_command lru None (Received (Commit \<lparr>th_transaction = e, th_locked_trees = locks\<rparr> sender)) t = (Ok True, t1)"
    using q(1) complete assms(2) batch
    by (simp add: process_next_command_def bindS_def enqueue_def t1_def e_def)
  have "last_id 0 es < i" by (rule new_id_above(1) [OF core new])
  then have last: "ts_last_written (tl_state (mt_log t)) < i" using core by (simp add: thread_core_def log_ok_def)
  have len: "2 ^ 24 \<le> length (le_serialize e)" using assms(5) by (simp add: le_serialize_def e_def)
  have "\<exists>l'. log_push lru None [e] (mt_log t) = (Err (Message ''transaction too large''), l')"
    using last by (simp add: log_push_def bindS_def encrypt_with_def write_too_large [OF len] Let_def) (simp add: e_def)
  then have "fst (process_next_command lru None NothingReady t1) = Panic"
    by (auto simp: process_next_command_def bindS_def commit_transaction_batch_def Let_def t1_def)
  then have "fst (save_transactions lru None
      [Received (Commit \<lparr>th_transaction = e, th_locked_trees = locks\<rparr> sender), NothingReady] t) = Panic"
    using first by (auto simp: bindS_def split: prod.splits res.splits)
  moreover have "le_set_data d \<lparr>le_id = i, le_data = None\<rparr> = (Ok (), e)" using assms(5) by (simp add: le_set_data_def e_def)
  ultimately show ?thesis by blast
qed

lemma unat_1_less: "unat (1 :: transaction_id) < 2 ^ 64 - 1"
  by simp

theorem largest_data_stops_manager_witness:
  "\<exists>t e. manager_run None (Some []) (Map.empty :: transaction_id \<Rightarrow> nat option option) = Ok t \<and>
    le_set_data (replicate (2 ^ 24 - 8) 0) \<lparr>le_id = 1, le_data = None\<rparr> = (Ok (), e) \<and>
    fst (save_transactions table_cache None
      [Received (Commit \<lparr>th_transaction = e, th_locked_trees = []\<rparr> 5), NothingReady] t) = Panic"
proof -
  obtain t where t: "manager_run None (Some []) (Map.empty :: transaction_id \<Rightarrow> nat option option) = Ok t"
    "thread_inv None [] t" "mt_state t = Fresh" "ids_seen (mt_pending t) = {..unat (last_id 0 [])}"
    using manager_run_inv [OF plain_vault, of "[]" "[]" Map.empty] by (auto simp: ids_ascending_def)
  have "ids_seen (mt_pending t) = {..<unat (1 :: transaction_id)}" using t(4) by auto
  then obtain e where "le_set_data (replicate (2 ^ 24 - 8) 0) \<lparr>le_id = 1, le_data = None\<rparr> = (Ok (), e)"
    "fst (save_transactions table_cache None
      [Received (Commit \<lparr>th_transaction = e, th_locked_trees = []\<rparr> 5), NothingReady] t) = Panic"
    using largest_data_stops_manager [OF t(2,3), of 1 "replicate (2 ^ 24 - 8) 0" table_cache "[]" 5]
    by (metis length_replicate unat_1_less)
  with t(1) show ?thesis by blast
qed

section \<open>Whether a transaction succeeded\<close>

text \<open>
  C16. \<^verbatim>\<open>transaction_was_successful\<close> says yes only for a transaction that is in the log, and it leaves the log and
  the soundness of the cache as they were.
\<close>

theorem reported_success_is_logged:
  assumes "lru_laws lru" and "chunk_vault v" and "log_ok v es l" and "length (mf_buffer (tl_file l)) < 2 ^ 64"
    and "cache_sound lru es (tl_state l)" and "transaction_was_successful lru v i l = (Ok success, l')"
  shows "(success \<longrightarrow> i \<in> le_id ` set es) \<and> log_ok v es l' \<and> cache_sound lru es (tl_state l')"
proof -
  from assms(6) obtain p where "transaction_position lru v i l = (Ok p, l')" "success = (p \<noteq> None)"
    unfolding transaction_was_successful_def by (elim bindS_OkE) auto
  with position_sound [OF assms(1-5)] show ?thesis by blast
qed

text \<open>A log with the given file, as it is after opening: nothing is cached.\<close>

definition opened_log :: "bytes \<Rightarrow> transaction_id \<Rightarrow> (transaction_id \<Rightarrow> nat option option) tx_log" where
  "opened_log buf i = \<lparr>tl_state = \<lparr>ts_current_transaction_id = i + 1, ts_file_offset = length buf, ts_last_written = i,
     ts_known = Map.empty\<rparr>, tl_file = \<lparr>mf_buffer = buf, mf_position = 0\<rparr>\<rparr>"

lemma opened_log_ok:
  assumes "log_holds None es buf" and "ids_ascending 0 es"
  shows "log_ok None es (opened_log buf (last_id 0 es))" and "not_cached table_cache i (opened_log buf j)"
    and "cache_sound table_cache es (tl_state (opened_log buf j))" and "ts_next_transaction_id (tl_state (opened_log buf j)) = j + 1"
  using assms by (simp_all add: log_ok_def opened_log_def not_cached_def cache_sound_def table_cache_def ts_next_transaction_id_def)

lemma sample_log:
  obtains buf where "log_holds None [sample_entry 1, sample_entry 2] buf" and "length buf = 2048"
    and "ids_ascending 0 [sample_entry 1, sample_entry 2]"
proof -
  obtain b1 b2 where b: "entry_stored None (sample_entry 1) b1" "entry_stored None (sample_entry 2) b2" using sample_stored by blast
  have "log_holds None [sample_entry 1, sample_entry 2] (b1 @ b2)" using b by (auto simp: log_holds_Cons)
  moreover have "length (b1 @ b2) = 2048"
    using one_page_length [OF b(1) sample_one_page] one_page_length [OF b(2) sample_one_page] by simp
  ultimately show ?thesis by (rule that) (simp add: ids_ascending_def sample_entry_def)
qed

theorem reported_success_is_logged_witness:
  "\<exists>buf success l'. transaction_was_successful table_cache None 2 (opened_log buf 2) = (Ok success, l') \<and>
    (success \<longrightarrow> 2 \<in> le_id ` set [sample_entry 1, sample_entry 2]) \<and> log_ok None [sample_entry 1, sample_entry 2] l' \<and>
    cache_sound table_cache [sample_entry 1, sample_entry 2] (tl_state l')"
proof -
  let ?es = "[sample_entry 1, sample_entry 2]"
  obtain buf where buf: "log_holds None ?es buf" "length buf = 2048" "ids_ascending 0 ?es" by (rule sample_log)
  have last: "last_id 0 ?es = 2" by (simp add: sample_entry_def)
  have ok: "log_ok None ?es (opened_log buf 2)" using opened_log_ok(1) [OF buf(1,3)] last by simp
  have "fst (transaction_was_successful table_cache None (1 + of_nat 1) (opened_log buf 2)) = Ok True"
    by (rule logged_successful [OF plain_vault ok _ _ _ _ _ _ opened_log_ok(2) [OF buf(1,3)]])
      (auto simp: sample_one_page nth_Cons opened_log_ok(4) [OF buf(1,3)] less_Suc_eq split: nat.splits)
  then obtain l' where run: "transaction_was_successful table_cache None 2 (opened_log buf 2) = (Ok True, l')"
    by (metis eq_fst_iff of_nat_1 one_add_one)
  have small: "length (mf_buffer (tl_file (opened_log buf 2))) < 2 ^ 64" using buf(2) by (simp add: opened_log_def)
  from reported_success_is_logged [OF table_cache_laws plain_vault ok small opened_log_ok(3) [OF buf(1,3)] run] run
  show ?thesis by blast
qed

text \<open>
  C17. In a log whose transactions have consecutive ids and take one page each, \<^verbatim>\<open>transaction_was_successful\<close>
  finds every transaction of the log, whatever the rounding of the estimates.
\<close>

theorem consecutive_transactions_found:
  assumes "chunk_vault v" and "log_ok v es l" and "list_all (one_page v) es" and "unat s + length es < 2 ^ 53" and "0 < s"
    and "\<forall>k < length es. le_id (es ! k) = s + of_nat k" and "ts_next_transaction_id (tl_state l) = s + of_nat (length es)"
    and "k < length es" and "not_cached lru (s + of_nat k) l"
  shows "fst (transaction_was_successful lru v (s + of_nat k) l) = Ok True"
  using logged_successful [OF assms(1-5) _ assms(7-9)] assms(6) by blast

theorem consecutive_transactions_found_witness:
  "\<exists>buf. log_ok None [sample_entry 1, sample_entry 2] (opened_log buf 2) \<and>
    fst (transaction_was_successful table_cache None (1 + of_nat 0) (opened_log buf 2)) = Ok True"
proof -
  let ?es = "[sample_entry 1, sample_entry 2]"
  obtain buf where buf: "log_holds None ?es buf" "length buf = 2048" "ids_ascending 0 ?es" by (rule sample_log)
  have last: "last_id 0 ?es = 2" by (simp add: sample_entry_def)
  have ok: "log_ok None ?es (opened_log buf 2)" using opened_log_ok(1) [OF buf(1,3)] last by simp
  have "fst (transaction_was_successful table_cache None (1 + of_nat 0) (opened_log buf 2)) = Ok True"
    by (rule consecutive_transactions_found [OF plain_vault ok _ _ _ _ _ _ opened_log_ok(2) [OF buf(1,3)]])
      (auto simp: sample_one_page nth_Cons opened_log_ok(4) [OF buf(1,3)] less_Suc_eq split: nat.splits)
  with ok show ?thesis by blast
qed

text \<open>
  C39. In general the search can miss a transaction that is in the log. With the transactions 101, 102 and 103, of
  which 102 takes two pages, \<^verbatim>\<open>transaction_was_successful\<close> says that 103 was not successful.
\<close>

theorem recorded_transaction_missed:
  assumes "log_ok None [e1, e2, e3] l" and "le_id e1 = 101" and "le_id e2 = 102" and "le_id e3 = 103"
    and "one_page None e1" and "one_page None e3" and "1020 < length (le_serialize e2)" and "length (le_serialize e2) \<le> 2043"
    and "ts_next_transaction_id (tl_state l) = 104" and "not_cached lru 103 l"
  shows "fst (transaction_was_successful lru None 103 l) = Ok False"
proof -
  have pos: "(0 :: transaction_id) < 103" by simp
  obtain c where p: "transaction_position lru None 103 l = look_up lru None 103 (l\<lparr>tl_state := (tl_state l)\<lparr>ts_known := c\<rparr>\<rparr>)"
    by (rule position_not_cached [OF assms(10) pos])
  have "log_ok None [e1, e2, e3] (l\<lparr>tl_state := (tl_state l)\<lparr>ts_known := c\<rparr>\<rparr>)" using assms(1) by (simp add: log_ok_def)
  from fetch_misses [OF this assms(2-8), of lru] assms(9) obtain l' where
    "fetch_entry lru None 103 (l\<lparr>tl_state := (tl_state l)\<lparr>ts_known := c\<rparr>\<rparr>) = (Ok (ScanNotFound 1024), l')"
    by (auto simp: ts_next_transaction_id_def)
  then show ?thesis using p by (simp add: transaction_was_successful_def bindS_def on_state_def look_up_def)
qed

theorem recorded_transaction_missed_witness:
  "\<exists>buf. log_ok None [sample_entry 101, big_entry 102, sample_entry 103] (opened_log buf 103) \<and>
    fst (transaction_was_successful table_cache None 103 (opened_log buf 103)) = Ok False"
proof -
  let ?es = "[sample_entry 101, big_entry 102, sample_entry 103]"
  obtain b1 b2 b3 where b: "entry_stored None (sample_entry 101) b1" "entry_stored None (big_entry 102) b2"
    "entry_stored None (sample_entry 103) b3" using sample_stored by blast
  have holds: "log_holds None ?es (b1 @ b2 @ b3)" using b by (auto simp: log_holds_Cons)
  have asc: "ids_ascending 0 ?es" and last: "last_id 0 ?es = 103"
    by (simp_all add: ids_ascending_def sample_entry_def big_entry_def)
  have ok: "log_ok None ?es (opened_log (b1 @ b2 @ b3) 103)" using opened_log_ok(1) [OF holds asc] last by simp
  have "fst (transaction_was_successful table_cache None 103 (opened_log (b1 @ b2 @ b3) 103)) = Ok False"
    by (rule recorded_transaction_missed [OF ok _ _ _ sample_one_page sample_one_page _ _ _ opened_log_ok(2) [OF holds asc]])
      (simp_all add: opened_log_ok(4) [OF holds asc])
  with ok show ?thesis by blast
qed

end
