(* ===== verification/File_Manager.thy ===== *)
theory File_Manager
  imports Chunk_IO "HOL-Library.AList"
begin

text \<open>
  The file manager: \<^verbatim>\<open>PathIds\<close> of \<^verbatim>\<open>nebari/src/io/mod.rs\<close> and \<^verbatim>\<open>MemoryFileManager\<close> of
  \<^verbatim>\<open>nebari/src/io/memory.rs\<close>. A path is the list of its components. A buffer is shared between its
  handles, so buffers live in a store and are known by their address; a hash map is an association list.
  The table of all buffers keeps weak references: one can be followed while a handle or the table of
  open files holds the buffer.
\<close>

section \<open>Ids of paths\<close>

type_synonym path = "string list"

record path_ids =
  pi_counter :: u64
  pi_ids :: "(path \<times> u64) list"

definition file_id_for_path :: "path \<Rightarrow> bool \<Rightarrow> path_ids \<Rightarrow> u64 option \<times> path_ids" where
  "file_id_for_path path insert_if_not_found q =
     (case map_of (pi_ids q) path of
        Some i \<Rightarrow> (Some i, q)
      | None \<Rightarrow>
          if insert_if_not_found
          then (Some (pi_counter q),
            q\<lparr>pi_counter := pi_counter q + 1, pi_ids := AList.update path (pi_counter q) (pi_ids q)\<rparr>)
          else (None, q))"

definition remove_file_id_for_path :: "path \<Rightarrow> path_ids \<Rightarrow> u64 option \<times> path_ids" where
  "remove_file_id_for_path path q = (map_of (pi_ids q) path, q\<lparr>pi_ids := AList.delete path (pi_ids q)\<rparr>)"

text \<open>The previous and the new id, if the path had one; the new id is entered in any case.\<close>

definition recreate_file_id_for_path :: "path \<Rightarrow> path_ids \<Rightarrow> (u64 \<times> u64) option \<times> path_ids" where
  "recreate_file_id_for_path path q =
     (let new_id = pi_counter q in
      (map_option (\<lambda>old_id. (old_id, new_id)) (map_of (pi_ids q) path),
       q\<lparr>pi_counter := pi_counter q + 1, pi_ids := AList.update path new_id (pi_ids q)\<rparr>))"

definition starts_with :: "path \<Rightarrow> path \<Rightarrow> bool" where
  "starts_with path p \<longleftrightarrow> take (length path) p = path"

definition remove_file_ids_for_path_prefix :: "path \<Rightarrow> path_ids \<Rightarrow> u64 list \<times> path_ids" where
  "remove_file_ids_for_path_prefix path q =
     (map snd (filter (\<lambda>(p, i). starts_with path p) (pi_ids q)),
      q\<lparr>pi_ids := filter (\<lambda>(p, i). \<not> starts_with path p) (pi_ids q)\<rparr>)"

section \<open>Memory files and their manager\<close>

record memory_manager =
  mm_file_ids :: path_ids
  mm_open_files :: "(u64 \<times> nat) list"
  mm_open_buffers :: "(path \<times> nat) list"
  mm_buffers :: "nat \<Rightarrow> bytes"
  mm_next :: nat
  mm_held :: "nat list"

record memory_handle =
  mh_id :: "u64 option"
  mh_path :: path
  mh_buffer :: nat
  mh_position :: nat

text \<open>\<^verbatim>\<open>Weak::upgrade\<close> succeeds while the buffer is held.\<close>

definition upgrade :: "memory_manager \<Rightarrow> nat \<Rightarrow> bool" where
  "upgrade m a \<longleftrightarrow> a \<in> set (mm_held m) \<or> a \<in> snd ` set (mm_open_files m)"

definition lookup_buffer :: "path \<Rightarrow> bool \<Rightarrow> memory_manager \<Rightarrow> nat option \<times> memory_manager" where
  "lookup_buffer path create_if_not_found m =
     (case map_of (mm_open_buffers m) path of
        Some a \<Rightarrow>
          if upgrade m a then (Some a, m)
          else if create_if_not_found
          then (Some (mm_next m), m\<lparr>mm_open_buffers := AList.update path (mm_next m) (mm_open_buffers m),
            mm_buffers := (mm_buffers m)(mm_next m := []), mm_next := mm_next m + 1\<rparr>)
          else (None, m)
      | None \<Rightarrow>
          if create_if_not_found
          then (Some (mm_next m), m\<lparr>mm_open_buffers := AList.update path (mm_next m) (mm_open_buffers m),
            mm_buffers := (mm_buffers m)(mm_next m := []), mm_next := mm_next m + 1\<rparr>)
          else (None, m))"

text \<open>A handle holds its buffer until it is dropped.\<close>

definition hold :: "memory_handle \<Rightarrow> memory_manager \<Rightarrow> memory_handle \<times> memory_manager" where
  "hold h m = (h, m\<lparr>mm_held := mh_buffer h # mm_held m\<rparr>)"

definition drop_handle :: "memory_handle \<Rightarrow> memory_manager \<Rightarrow> memory_manager" where
  "drop_handle h m = m\<lparr>mm_held := remove1 (mh_buffer h) (mm_held m)\<rparr>"

definition open_for_read :: "path \<Rightarrow> u64 option \<Rightarrow> memory_manager \<Rightarrow> memory_handle \<times> memory_manager" where
  "open_for_read path i m =
     (case lookup_buffer path True m of
        (b, m1) \<Rightarrow> hold \<lparr>mh_id = i, mh_path = path, mh_buffer = the b, mh_position = 0\<rparr> m1)"

definition open_for_append :: "path \<Rightarrow> u64 option \<Rightarrow> memory_manager \<Rightarrow> memory_handle \<times> memory_manager" where
  "open_for_append path i m =
     (case lookup_buffer path True m of
        (b, m1) \<Rightarrow>
          hold \<lparr>mh_id = i, mh_path = path, mh_buffer = the b, mh_position = length (mm_buffers m1 (the b))\<rparr> m1)"

definition lookup_file :: "path \<Rightarrow> bool \<Rightarrow> u64 option \<Rightarrow> memory_manager \<Rightarrow> memory_handle option \<times> memory_manager" where
  "lookup_file path create_if_needed i m =
     (case (case i of
          Some j \<Rightarrow> (Some j, m)
        | None \<Rightarrow>
            (case file_id_for_path path create_if_needed (mm_file_ids m) of
               (j, q) \<Rightarrow> (j, m\<lparr>mm_file_ids := q\<rparr>))) of
        (None, m1) \<Rightarrow> (None, m1)
      | (Some j, m1) \<Rightarrow>
          (case map_of (mm_open_files m1) j of
             Some a \<Rightarrow>
               (case hold \<lparr>mh_id = Some j, mh_path = path, mh_buffer = a, mh_position = 0\<rparr> m1 of
                  (h, m2) \<Rightarrow> (Some h, m2))
           | None \<Rightarrow>
               if create_if_needed then
                 (case open_for_append path (Some j) m1 of
                    (h, m2) \<Rightarrow> (Some h, m2\<lparr>mm_open_files := AList.update j (mh_buffer h) (mm_open_files m2)\<rparr>))
               else (None, m1)))"

definition forget_file :: "path \<Rightarrow> memory_manager \<Rightarrow> bool \<times> memory_manager" where
  "forget_file path m =
     (case remove_file_id_for_path path (mm_file_ids m) of
        (Some i, q) \<Rightarrow>
          (map_of (mm_open_files m) i \<noteq> None,
           m\<lparr>mm_file_ids := q, mm_open_files := AList.delete i (mm_open_files m)\<rparr>)
      | (None, q) \<Rightarrow> (False, m\<lparr>mm_file_ids := q\<rparr>))"

definition fm_append :: "path \<Rightarrow> (memory_manager, memory_handle) sres" where
  "fm_append path m =
     (case file_id_for_path path True (mm_file_ids m) of
        (i, q) \<Rightarrow>
          (case lookup_file path True i (m\<lparr>mm_file_ids := q\<rparr>) of
             (file, m1) \<Rightarrow> (unwrap file, m1)))"

definition fm_read :: "path \<Rightarrow> (memory_manager, memory_handle) sres" where
  "fm_read path = fm_append path"

definition fm_file_length :: "path \<Rightarrow> (memory_manager, nat) sres" where
  "fm_file_length path m =
     (case lookup_file path False None m of
        (Some file, m1) \<Rightarrow> (Ok (length (mm_buffers m1 (mh_buffer file))), drop_handle file m1)
      | (None, m1) \<Rightarrow> (Err (Io NotFoundIo), m1))"

definition fm_exists :: "path \<Rightarrow> (memory_manager, bool) sres" where
  "fm_exists path m =
     (case lookup_file path False None m of
        (Some file, m1) \<Rightarrow> (Ok True, drop_handle file m1)
      | (None, m1) \<Rightarrow> (Ok False, m1))"

definition fm_delete :: "path \<Rightarrow> (memory_manager, bool) sres" where
  "fm_delete path m =
     (case forget_file path (m\<lparr>mm_open_buffers := AList.delete path (mm_open_buffers m)\<rparr>) of
        (forgotten, m1) \<Rightarrow> (Ok forgotten, m1))"

definition fm_delete_directory :: "path \<Rightarrow> (memory_manager, unit) sres" where
  "fm_delete_directory path m =
     (case remove_file_ids_for_path_prefix path (mm_file_ids m) of
        (removed_ids, q) \<Rightarrow>
          (Ok (), m\<lparr>mm_file_ids := q, mm_open_files := fold AList.delete removed_ids (mm_open_files m)\<rparr>))"

text \<open>The result is the id that the publish callback is given.\<close>

definition fm_close_handles :: "path \<Rightarrow> memory_manager \<Rightarrow> u64 \<times> memory_manager" where
  "fm_close_handles path m =
     (case forget_file path m of
        (forgotten, m1) \<Rightarrow>
          (case file_id_for_path path True (mm_file_ids m1) of (i, q) \<Rightarrow> (the i, m1\<lparr>mm_file_ids := q\<rparr>)))"

text \<open>\<^verbatim>\<open>replace_with\<close>: the new handle and the id that was published. The handle and the replacement are
  dropped at the end.\<close>

definition replace_with :: "memory_handle \<Rightarrow> memory_handle \<Rightarrow> (memory_manager, memory_handle \<times> u64) sres" where
  "replace_with h replacement m =
     (case fm_delete (mh_path replacement) m of
        (deleted, m1) \<Rightarrow>
          (case fm_close_handles (mh_path h)
              (m1\<lparr>mm_open_buffers := AList.update (mh_path h) (mh_buffer replacement) (mm_open_buffers m1)\<rparr>) of
             (published, m2) \<Rightarrow>
               bindS (fm_append (mh_path h)) (\<lambda>new_file m3.
                 if mh_buffer new_file = mh_buffer replacement
                 then (Ok (new_file, published), drop_handle replacement (drop_handle h m3))
                 else (Panic, m3)) m2))"

section \<open>Opening files\<close>

text \<open>Every id belongs to one path and was given out by the counter; what is open under the id of a path is the
  buffer known for the path.\<close>

definition mm_inv :: "memory_manager \<Rightarrow> bool" where
  "mm_inv m \<longleftrightarrow>
     (\<forall>p i. map_of (pi_ids (mm_file_ids m)) p = Some i \<longrightarrow> i < pi_counter (mm_file_ids m)) \<and>
     (\<forall>p q i. map_of (pi_ids (mm_file_ids m)) p = Some i \<longrightarrow> map_of (pi_ids (mm_file_ids m)) q = Some i \<longrightarrow> p = q) \<and>
     (\<forall>i a. map_of (mm_open_files m) i = Some a \<longrightarrow> i < pi_counter (mm_file_ids m) \<and> a < mm_next m) \<and>
     (\<forall>p i a. map_of (pi_ids (mm_file_ids m)) p = Some i \<longrightarrow> map_of (mm_open_files m) i = Some a \<longrightarrow>
        map_of (mm_open_buffers m) p = Some a) \<and>
     (\<forall>p a. map_of (mm_open_buffers m) p = Some a \<longrightarrow> a < mm_next m) \<and>
     (\<forall>a \<in> set (mm_held m). a < mm_next m) \<and> distinct (map fst (mm_open_files m))"

text \<open>What the manager knows of a path: its id and, when it is open, its buffer.\<close>

definition known_file :: "memory_manager \<Rightarrow> path \<Rightarrow> u64 option \<times> nat option" where
  "known_file m p =
     (let i = map_of (pi_ids (mm_file_ids m)) p in (i, Option.bind i (map_of (mm_open_files m))))"

lemmas alist_simps = update_conv' delete_conv' distinct_update distinct_delete

lemma in_delete: "(i, a) \<in> set (AList.delete k xs) \<longleftrightarrow> (i, a) \<in> set xs \<and> i \<noteq> k"
  by (auto simp: AList.delete_eq)

lemma fresh_id:
  assumes "mm_inv m" and "map_of (pi_ids (mm_file_ids m)) p = Some (pi_counter (mm_file_ids m))"
  shows False
  using assms unfolding mm_inv_def by (metis less_irrefl)

lemma next_id: "(i :: u64) < c \<Longrightarrow> c + 1 \<noteq> 0 \<Longrightarrow> i < c + 1" and next_id_self: "c + 1 \<noteq> 0 \<Longrightarrow> (c :: u64) < c + 1"
  by (unat_arith, unat_arith)

lemma register_inv:
  assumes inv: "mm_inv m" and more: "pi_counter (mm_file_ids m) + 1 \<noteq> 0"
    and reg: "file_id_for_path p True (mm_file_ids m) = (i, q)"
  shows "\<exists>j. i = Some j" and "mm_inv (m\<lparr>mm_file_ids := q\<rparr>)" and "map_of (pi_ids q) p = i"
    and "known_file (m\<lparr>mm_file_ids := q\<rparr>) p = (i, snd (known_file m p))"
    and "p' \<noteq> p \<Longrightarrow> known_file (m\<lparr>mm_file_ids := q\<rparr>) p' = known_file m p'"
    and "\<And>j. map_of (pi_ids (mm_file_ids m)) p = Some j \<Longrightarrow> i = Some j"
    and "map_of (pi_ids (mm_file_ids m)) p = None \<Longrightarrow> i = Some (pi_counter (mm_file_ids m))"
proof -
  show "\<exists>j. i = Some j" "map_of (pi_ids q) p = i" "\<And>j. map_of (pi_ids (mm_file_ids m)) p = Some j \<Longrightarrow> i = Some j"
    "map_of (pi_ids (mm_file_ids m)) p = None \<Longrightarrow> i = Some (pi_counter (mm_file_ids m))"
    using reg by (cases "map_of (pi_ids (mm_file_ids m)) p"; auto simp: file_id_for_path_def alist_simps)+
  show "mm_inv (m\<lparr>mm_file_ids := q\<rparr>)"
  proof (cases "map_of (pi_ids (mm_file_ids m)) p")
    case None
    then have q: "pi_counter q = pi_counter (mm_file_ids m) + 1"
      "map_of (pi_ids q) = (map_of (pi_ids (mm_file_ids m)))(p \<mapsto> pi_counter (mm_file_ids m))"
      using reg by (auto simp: file_id_for_path_def alist_simps)
    have old: "map_of (mm_open_files m) (pi_counter (mm_file_ids m)) = None"
      using inv unfolding mm_inv_def by (metis less_irrefl option.exhaust)
    show ?thesis
      using inv fresh_id [OF inv] old next_id_self [OF more]
      by (auto simp: mm_inv_def q intro: next_id [OF _ more])
  qed (use inv reg in \<open>auto simp: file_id_for_path_def\<close>)
  show "known_file (m\<lparr>mm_file_ids := q\<rparr>) p = (i, snd (known_file m p))"
  proof (cases "map_of (pi_ids (mm_file_ids m)) p")
    case None
    moreover have "map_of (mm_open_files m) (pi_counter (mm_file_ids m)) = None"
      using inv unfolding mm_inv_def by (metis less_irrefl option.exhaust)
    ultimately show ?thesis using reg by (auto simp: known_file_def file_id_for_path_def alist_simps)
  qed (use reg in \<open>auto simp: known_file_def file_id_for_path_def\<close>)
  show "p' \<noteq> p \<Longrightarrow> known_file (m\<lparr>mm_file_ids := q\<rparr>) p' = known_file m p'"
    using reg by (auto simp: known_file_def file_id_for_path_def alist_simps split: option.splits)
qed

text \<open>Opening a registered path: the handle is on the open buffer of the path, on the buffer a live reference leads
  to, or on a new one.\<close>

lemma lookup_file_ok:
  assumes inv: "mm_inv m" and i: "map_of (pi_ids (mm_file_ids m)) p = Some i"
  obtains h m' where "lookup_file p True (Some i) m = (Some h, m')" and "mm_inv m'" and "mh_id h = Some i"
    and "mh_path h = p" and "known_file m' p = (Some i, Some (mh_buffer h))"
    and "\<And>p'. p' \<noteq> p \<Longrightarrow> known_file m' p' = known_file m p'"
    and "\<And>a. a < mm_next m \<Longrightarrow> mm_buffers m' a = mm_buffers m a"
    and "\<And>a. snd (known_file m p) = Some a \<Longrightarrow> mh_buffer h = a"
    and "\<And>a. snd (known_file m p) = None \<Longrightarrow> map_of (mm_open_buffers m) p = Some a \<Longrightarrow> upgrade m a \<Longrightarrow> mh_buffer h = a"
    and "set (mm_held m') = insert (mh_buffer h) (set (mm_held m))" and "mm_file_ids m' = mm_file_ids m"
proof (cases "map_of (mm_open_files m) i")
  case (Some a)
  show thesis
    by (rule that [of "\<lparr>mh_id = Some i, mh_path = p, mh_buffer = a, mh_position = 0\<rparr>" "m\<lparr>mm_held := a # mm_held m\<rparr>"])
      (use inv i Some in \<open>auto simp: lookup_file_def hold_def mm_inv_def known_file_def\<close>)
next
  case None
  obtain b m1 where b: "lookup_buffer p True m = (b, m1)" by fastforce
  define h where "h = \<lparr>mh_id = Some i, mh_path = p, mh_buffer = the b, mh_position = length (mm_buffers m1 (the b))\<rparr>"
  define m2 where "m2 = m1\<lparr>mm_held := the b # mm_held m1, mm_open_files := AList.update i (the b) (mm_open_files m1)\<rparr>"
  have run: "lookup_file p True (Some i) m = (Some h, m2)"
    using None b by (simp add: lookup_file_def open_for_append_def hold_def h_def m2_def)
  have other: "map_of (pi_ids (mm_file_ids m)) p' \<noteq> Some i" if "p' \<noteq> p" for p'
    using inv i that unfolding mm_inv_def by metis
  have live: "a < mm_next m" if "upgrade m a" for a
    using that inv by (auto simp: upgrade_def mm_inv_def dest!: map_of_is_SomeI [rotated])
  consider (alive) a where "map_of (mm_open_buffers m) p = Some a" "upgrade m a" "b = Some a" "m1 = m"
    | (new) "\<And>a. map_of (mm_open_buffers m) p = Some a \<Longrightarrow> \<not> upgrade m a" "b = Some (mm_next m)"
      "m1 = m\<lparr>mm_open_buffers := AList.update p (mm_next m) (mm_open_buffers m),
        mm_buffers := (mm_buffers m)(mm_next m := []), mm_next := mm_next m + 1\<rparr>"
    using b by (auto simp: lookup_buffer_def split: option.splits if_splits)
  then show thesis
  proof cases
    case alive
    have "mm_inv m2"
      using inv i other alive live unfolding m2_def mm_inv_def by (auto simp: alist_simps) (metis option.inject)
    moreover have "known_file m2 p' = known_file m p'" if "p' \<noteq> p" for p'
      using other [OF that] alive by (cases "map_of (pi_ids (mm_file_ids m)) p'") (auto simp: known_file_def m2_def alist_simps)
    ultimately show thesis
      by (intro that [OF run]) (use alive i None in \<open>auto simp: h_def m2_def known_file_def alist_simps\<close>)
  next
    case new
    have "mm_inv m2"
      using inv i other None new unfolding m2_def mm_inv_def by (auto simp: alist_simps less_Suc_eq)
    moreover have "known_file m2 p' = known_file m p'" if "p' \<noteq> p" for p'
      using other [OF that] new by (cases "map_of (pi_ids (mm_file_ids m)) p'") (auto simp: known_file_def m2_def alist_simps)
    ultimately show thesis
      by (intro that [OF run]) (use new i None in \<open>auto simp: h_def m2_def known_file_def alist_simps\<close>)
  qed
qed

lemma append_known:
  assumes "known_file m p = (Some i, Some a)"
  shows "fm_append p m = (Ok \<lparr>mh_id = Some i, mh_path = p, mh_buffer = a, mh_position = 0\<rparr>, m\<lparr>mm_held := a # mm_held m\<rparr>)"
  using assms by (auto simp: known_file_def Let_def fm_append_def file_id_for_path_def lookup_file_def hold_def)

lemma append_ok:
  assumes inv: "mm_inv m" and more: "pi_counter (mm_file_ids m) + 1 \<noteq> 0"
  obtains h m' where "fm_append p m = (Ok h, m')" and "mm_inv m'" and "mh_path h = p"
    and "known_file m' p = (mh_id h, Some (mh_buffer h))" and "\<exists>i. mh_id h = Some i"
    and "\<And>p'. p' \<noteq> p \<Longrightarrow> known_file m' p' = known_file m p'"
    and "\<And>a. a < mm_next m \<Longrightarrow> mm_buffers m' a = mm_buffers m a"
    and "\<And>i. fst (known_file m p) = Some i \<Longrightarrow> mh_id h = Some i"
    and "\<And>a. snd (known_file m p) = Some a \<Longrightarrow> mh_buffer h = a"
    and "\<And>a. snd (known_file m p) = None \<Longrightarrow> map_of (mm_open_buffers m) p = Some a \<Longrightarrow> upgrade m a \<Longrightarrow> mh_buffer h = a"
    and "set (mm_held m') = insert (mh_buffer h) (set (mm_held m))"
    and "fst (known_file m p) = None \<Longrightarrow> mh_id h = Some (pi_counter (mm_file_ids m))"
proof -
  obtain i q where reg: "file_id_for_path p True (mm_file_ids m) = (i, q)" by fastforce
  note r = register_inv [OF inv more reg]
  from r(1) obtain j where j: "i = Some j" by blast
  from r(2,3) j have "mm_inv (m\<lparr>mm_file_ids := q\<rparr>)" "map_of (pi_ids (mm_file_ids (m\<lparr>mm_file_ids := q\<rparr>))) p = Some j"
    by simp_all
  then show thesis
  proof (rule lookup_file_ok, goal_cases)
    case (1 h m')
    note h = this
    show thesis
    proof (rule that [of h m'])
      show "fm_append p m = (Ok h, m')" using reg h(1) j by (simp add: fm_append_def)
      show "fst (known_file m p) = Some i \<Longrightarrow> mh_id h = Some i" for i using r(6) h(3) j by (simp add: known_file_def Let_def)
      show "snd (known_file m p) = None \<Longrightarrow> map_of (mm_open_buffers m) p = Some a \<Longrightarrow> upgrade m a \<Longrightarrow> mh_buffer h = a" for a
        using h(9) [of a] r(4) by (simp add: upgrade_def)
      show "fst (known_file m p) = None \<Longrightarrow> mh_id h = Some (pi_counter (mm_file_ids m))"
        using r(7) h(3) j by (simp add: known_file_def Let_def)
      show "known_file m' p' = known_file m p'" if "p' \<noteq> p" for p' using h(6) r(5) that by metis
      show "mm_buffers m' a = mm_buffers m a" if "a < mm_next m" for a using h(7) [of a] that by simp
      show "mh_buffer h = a" if "snd (known_file m p) = Some a" for a using h(8) [of a] that r(4) by simp
    qed (use h in simp_all)
  qed
qed

section \<open>Deleting and replacing files\<close>

lemma forget_file_inv:
  assumes inv: "mm_inv m" and run: "forget_file p m = (b, m')"
  shows "mm_inv m'" and "known_file m' p = (None, None)" and "p' \<noteq> p \<Longrightarrow> known_file m' p' = known_file m p'"
    and "pi_counter (mm_file_ids m') = pi_counter (mm_file_ids m)" and "mm_held m' = mm_held m" and "mm_next m' = mm_next m"
    and "mm_buffers m' = mm_buffers m" and "mm_open_buffers m' = mm_open_buffers m"
proof -
  have other: "map_of (pi_ids (mm_file_ids m)) p' \<noteq> map_of (pi_ids (mm_file_ids m)) p"
    if "p' \<noteq> p" "map_of (pi_ids (mm_file_ids m)) p' \<noteq> None" for p'
    using inv that unfolding mm_inv_def by (metis option.exhaust)
  have m': "m' = (case map_of (pi_ids (mm_file_ids m)) p of
        Some i \<Rightarrow> m\<lparr>mm_file_ids := (mm_file_ids m)\<lparr>pi_ids := AList.delete p (pi_ids (mm_file_ids m))\<rparr>,
          mm_open_files := AList.delete i (mm_open_files m)\<rparr>
      | None \<Rightarrow> m\<lparr>mm_file_ids := (mm_file_ids m)\<lparr>pi_ids := AList.delete p (pi_ids (mm_file_ids m))\<rparr>\<rparr>)"
    using run by (auto simp: forget_file_def remove_file_id_for_path_def split: option.splits)
  show "mm_inv m'"
    using inv unfolding m' mm_inv_def by (auto simp: alist_simps in_delete split: option.splits if_splits)
  show "known_file m' p = (None, None)" by (simp add: m' known_file_def alist_simps split: option.split)
  show "p' \<noteq> p \<Longrightarrow> known_file m' p' = known_file m p'"
    using other [of p'] by (cases "map_of (pi_ids (mm_file_ids m)) p'")
      (auto simp: m' known_file_def alist_simps split: option.split)
qed (use run in \<open>auto simp: forget_file_def remove_file_id_for_path_def split: option.splits\<close>)

lemma set_buffer_inv:
  assumes inv: "mm_inv m" and "known_file m p = (None, None)"
    and bs: "\<forall>p'. p' \<noteq> p \<longrightarrow> map_of bs p' = map_of (mm_open_buffers m) p'" "\<forall>a. map_of bs p = Some a \<longrightarrow> a < mm_next m"
  shows "mm_inv (m\<lparr>mm_open_buffers := bs\<rparr>)"
proof -
  have p: "map_of (pi_ids (mm_file_ids m)) p = None" using assms(2) by (simp add: known_file_def Let_def)
  have "map_of bs p' = Some a" if "map_of (pi_ids (mm_file_ids m)) p' = Some i" "map_of (mm_open_files m) i = Some a" for p' i a
  proof -
    have "p' \<noteq> p" using that p by auto
    then show ?thesis using inv that bs(1) by (simp add: mm_inv_def)
  qed
  moreover have "a < mm_next m" if "map_of bs p' = Some a" for p' a
    using inv bs that by (cases "p' = p") (auto simp: mm_inv_def)
  ultimately show ?thesis using inv by (simp add: mm_inv_def)
qed

lemma forget_set_buffer: "forget_file p (m\<lparr>mm_open_buffers := bs\<rparr>) =
    (fst (forget_file p m), (snd (forget_file p m))\<lparr>mm_open_buffers := bs\<rparr>)"
  by (auto simp: forget_file_def remove_file_id_for_path_def split: option.splits)

lemma known_file_buffers [simp]: "known_file (m\<lparr>mm_open_buffers := bs\<rparr>) p = known_file m p"
  by (simp add: known_file_def)

lemma delete_ok:
  assumes inv: "mm_inv m"
  obtains b m' where "fm_delete p m = (Ok b, m')" and "mm_inv m'" and "known_file m' p = (None, None)"
    and "\<And>p'. p' \<noteq> p \<Longrightarrow> known_file m' p' = known_file m p'"
    and "pi_counter (mm_file_ids m') = pi_counter (mm_file_ids m)" and "mm_held m' = mm_held m" and "mm_next m' = mm_next m"
    and "mm_buffers m' = mm_buffers m"
proof -
  obtain b m0 where m0: "forget_file p m = (b, m0)" by fastforce
  note f = forget_file_inv [OF inv m0]
  show thesis
    by (rule that [of b "m0\<lparr>mm_open_buffers := AList.delete p (mm_open_buffers m)\<rparr>"])
      (use f in \<open>auto simp: fm_delete_def forget_set_buffer m0 alist_simps intro: set_buffer_inv [where p = p]\<close>)
qed

lemma drop_handle_inv: "mm_inv m \<Longrightarrow> mm_inv (drop_handle h m)"
  using set_remove1_subset [of "mh_buffer h" "mm_held m"] by (auto simp: mm_inv_def drop_handle_def)

lemma replace_with_ok:
  assumes inv: "mm_inv m" and more: "pi_counter (mm_file_ids m) + 1 \<noteq> 0" "pi_counter (mm_file_ids m) + 2 \<noteq> 0"
    and held: "mh_buffer r \<in> set (mm_held m)"
  obtains h' m' where "replace_with h r m = (Ok (h', pi_counter (mm_file_ids m)), m')" and "mm_inv m'"
    and "mh_id h' = Some (pi_counter (mm_file_ids m))" and "mh_buffer h' = mh_buffer r" and "mh_path h' = mh_path h"
    and "known_file m' (mh_path h) = (Some (pi_counter (mm_file_ids m)), Some (mh_buffer r))"
    and "\<And>p'. p' \<noteq> mh_path h \<Longrightarrow> p' \<noteq> mh_path r \<Longrightarrow> known_file m' p' = known_file m p'"
    and "\<And>a. a < mm_next m \<Longrightarrow> mm_buffers m' a = mm_buffers m a"
proof -
  show thesis
  proof (rule delete_ok [OF inv, of "mh_path r"], goal_cases)
    case (1 b m1)
    note d = this
    let ?p = "mh_path h" and ?c = "pi_counter (mm_file_ids m)"
    obtain b1 m2 where m2: "forget_file ?p m1 = (b1, m2)" by fastforce
    note f = forget_file_inv [OF d(2) m2]
    define m3 where "m3 = m2\<lparr>mm_open_buffers := AList.update ?p (mh_buffer r) (mm_open_buffers m1)\<rparr>"
    have buf: "mh_buffer r < mm_next m2" using inv held d(7) f(6) by (simp add: mm_inv_def)
    have m3: "mm_inv m3" unfolding m3_def by (rule set_buffer_inv [OF f(1,2)]) (use buf f(8) in \<open>simp_all add: alist_simps\<close>)
    obtain i q where reg: "file_id_for_path ?p True (mm_file_ids m3) = (i, q)" by fastforce
    have counter: "pi_counter (mm_file_ids m3) = ?c" using d(5) f(4) by (simp add: m3_def)
    have none: "map_of (pi_ids (mm_file_ids m3)) ?p = None" using f(2) by (simp add: m3_def known_file_def Let_def)
    from reg none counter have i: "i = Some ?c" and q: "pi_counter q = ?c + 1" by (auto simp: file_id_for_path_def)
    define m4 where "m4 = m3\<lparr>mm_file_ids := q\<rparr>"
    have more3: "pi_counter (mm_file_ids m3) + 1 \<noteq> 0" using more(1) counter by simp
    note g = register_inv [OF m3 more3 reg, folded m4_def]
    have close: "fm_close_handles ?p (m1\<lparr>mm_open_buffers := AList.update ?p (mh_buffer r) (mm_open_buffers m1)\<rparr>) = (?c, m4)"
      using m2 reg i by (simp add: fm_close_handles_def forget_set_buffer m3_def m4_def)
    have known4: "known_file m4 ?p = (Some ?c, None)" using g(4) i f(2) by (simp add: m3_def)
    have more4: "pi_counter (mm_file_ids m4) + 1 \<noteq> 0" using q more(2) by (simp add: m4_def add.assoc)
    have up: "upgrade m4 (mh_buffer r)" using held d(6) f(5) by (simp add: upgrade_def m4_def m3_def)
    show thesis
    proof (rule append_ok [OF g(2) more4, of ?p], goal_cases)
      case (1 h' m5)
      note ap = this
      have buffer: "mh_buffer h' = mh_buffer r"
        by (rule ap(10)) (use known4 up in \<open>simp_all add: m4_def m3_def alist_simps\<close>)
      let ?m = "drop_handle r (drop_handle h m5)"
      have "mm_inv ?m" using ap(2) by (simp add: drop_handle_inv)
      moreover have "known_file ?m = known_file m5" by (simp add: drop_handle_def known_file_def fun_eq_iff)
      moreover have "replace_with h r m = (Ok (h', ?c), ?m)"
        using d(1) close ap(1) buffer by (simp add: replace_with_def bindS_def)
      moreover have "mm_buffers ?m a = mm_buffers m a" if "a < mm_next m" for a
        using ap(7) [of a] that d(7,8) f(6,7) by (simp add: drop_handle_def m4_def m3_def)
      moreover have "known_file m5 p' = known_file m p'" if "p' \<noteq> ?p" "p' \<noteq> mh_path r" for p'
        using ap(6) [OF that(1)] g(5) [OF that(1)] f(3) [OF that(1)] d(4) [OF that(2)] by (simp add: m3_def)
      moreover have "mh_id h' = Some ?c" by (rule ap(8)) (simp add: known4)
      ultimately show thesis using that [of h' ?m] ap(3,4) buffer by simp
    qed
  qed
qed

end
