(* ===== verification/Roots.thy ===== *)
theory Roots
  imports File_Manager Tree_Sequences Transaction_Manager
begin

text \<open>
  A database: \<^verbatim>\<open>nebari/src/roots.rs\<close> with the tree locks of \<^verbatim>\<open>nebari/src/transaction/state.rs\<close>. The database
  keeps the file manager, the states of its trees, the transaction manager with its thread, and the names of
  the locked trees. States are shared between the map of the database and the trees and transactions
  that use them, so they live in cells. The roots are of one kind \<open>'t\<close>: \<^verbatim>\<open>downcast_ref\<close> always succeeds.

  Every call is a function of the database. A call that waits for something that does not come (a lock
  that is held, a completion that is not sent) does not return: \<open>OutOfFuel\<close>. While a call runs, the manager
  thread handles what has been sent to it. The cursor of a handle has no effect, because writes append
  and reads seek first, so it is not kept. What queries on the log put in the cache while a file is
  opened is not kept either.
\<close>

section \<open>The database\<close>

record ('t, 'c) roots =
  rt_path :: path
  rt_vault :: "vault option"
  rt_files :: memory_manager
  rt_cells :: "nat \<Rightarrow> 't state"
  rt_next_cell :: nat
  rt_tree_states :: "(string \<times> nat) list"
  rt_thread :: "'c manager_thread"
  rt_stopped :: bool
  rt_commands :: "thread_command list"
  rt_channels :: nat
  rt_locked :: "bytes list"

text \<open>\<^verbatim>\<open>TreeRoot\<close>: a named tree; the root it starts with comes from its reducer.\<close>

record 't tree_root =
  tr_name :: string
  tr_vault :: "vault option"
  tr_default :: 't

text \<open>\<^verbatim>\<open>TreeFile\<close>: a handle, a state and the vault.\<close>

record open_tree =
  ot_handle :: memory_handle
  ot_cell :: nat
  ot_vault :: "vault option"

record transaction_tree =
  tt_transaction_id :: transaction_id
  tt_tree :: open_tree

record executing_transaction =
  et_trees :: "transaction_tree list"
  et_transaction :: managed_transaction

record 't tree =
  te_root :: "'t tree_root"
  te_cell :: nat

definition as_bytes :: "string \<Rightarrow> bytes" where
  "as_bytes s = map of_char s"

definition valid_char :: "char \<Rightarrow> bool" where
  "valid_char c \<longleftrightarrow> (let n = (of_char c :: nat) in
     97 \<le> n \<and> n \<le> 122 \<or> 65 \<le> n \<and> n \<le> 90 \<or> 48 \<le> n \<and> n \<le> 57 \<or> n = 45 \<or> n = 46 \<or> n = 95)"

definition check_name :: "string \<Rightarrow> unit res" where
  "check_name name =
     (if name \<noteq> ''_transactions'' \<and> list_all valid_char name then Ok () else Err InvalidTreeName)"

definition tree_path :: "string \<Rightarrow> ('t, 'c) roots \<Rightarrow> path" where
  "tree_path name db = rt_path db @ [name @ ''.nebari'']"

text \<open>What is at the path of the database in the file system.\<close>

datatype path_kind = Absent | Directory | NoDirectory

definition roots_open ::
    "path \<Rightarrow> path_kind \<Rightarrow> vault option \<Rightarrow> memory_manager \<Rightarrow> bytes option \<Rightarrow> 'c \<Rightarrow> 't state \<Rightarrow> ('t, 'c) roots res" where
  "roots_open path kind v files stored_log cache unused =
     (if kind = NoDirectory then Err (Message ''already exists, but is not a directory'')
      else
        res_bind (manager_run v stored_log cache) (\<lambda>thread.
          Ok \<lparr>rt_path = path, rt_vault = v, rt_files = files, rt_cells = (\<lambda>_. unused), rt_next_cell = 0,
              rt_tree_states = [], rt_thread = thread, rt_stopped = False, rt_commands = [], rt_channels = 0,
              rt_locked = []\<rparr>))"

section \<open>States of trees\<close>

definition tree_state :: "'t tree_root \<Rightarrow> ('t, 'c) roots \<Rightarrow> nat \<times> ('t, 'c) roots" where
  "tree_state r db =
     (case map_of (rt_tree_states db) (tr_name r) of
        Some c \<Rightarrow> (c, db)
      | None \<Rightarrow>
          (rt_next_cell db,
           db\<lparr>rt_cells := (rt_cells db)(rt_next_cell db := state_new None None (tr_default r)),
              rt_next_cell := rt_next_cell db + 1,
              rt_tree_states := AList.update (tr_name r) (rt_next_cell db) (rt_tree_states db)\<rparr>))"

fun tree_states :: "'t tree_root list \<Rightarrow> ('t, 'c) roots \<Rightarrow> nat list \<times> ('t, 'c) roots" where
  "tree_states [] db = ([], db)"
| "tree_states (r # rs) db =
     (case tree_state r db of (c, db1) \<Rightarrow> case tree_states rs db1 of (cs, db2) \<Rightarrow> (c # cs, db2))"

text \<open>\<open>exists_on_disk\<close>: whether the operating system has a file at the path.\<close>

definition roots_tree :: "bool \<Rightarrow> 't tree_root \<Rightarrow> (('t, 'c) roots, 't tree) sres" where
  "roots_tree exists_on_disk r db =
     (case check_name (tr_name r) of
        Ok u \<Rightarrow>
          bindS (\<lambda>db. if exists_on_disk then (Ok (), db)
             else case fm_append (tree_path (tr_name r) db) (rt_files db) of
               (Ok h, files) \<Rightarrow> (Ok (), db\<lparr>rt_files := drop_handle h files\<rparr>)
             | (bad, files) \<Rightarrow> (lift_err bad, db\<lparr>rt_files := files\<rparr>)) (\<lambda>_ db.
            case tree_state r db of (c, db1) \<Rightarrow> (Ok \<lparr>te_root = r, te_cell = c\<rparr>, db1)) db
      | bad \<Rightarrow> (lift_err bad, db))"

definition delete_tree :: "string \<Rightarrow> (('t, 'c) roots, bool) sres" where
  "delete_tree name db =
     (case fm_delete (tree_path name db) (rt_files db) of
        (Ok deleted, files) \<Rightarrow>
          (Ok (map_of (rt_tree_states db) name \<noteq> None),
           db\<lparr>rt_files := files, rt_tree_states := AList.delete name (rt_tree_states db)\<rparr>)
      | (bad, files) \<Rightarrow> (lift_err bad, db\<lparr>rt_files := files\<rparr>))"

text \<open>The names in the directory that end in the extension of a tree.\<close>

definition strip_suffix :: "string \<Rightarrow> string \<Rightarrow> string option" where
  "strip_suffix suffix name =
     (let n = length name - length suffix in
      if length suffix \<le> length name \<and> drop n name = suffix then Some (take n name) else None)"

definition tree_names :: "string list \<Rightarrow> string list" where
  "tree_names entries = List.map_filter (strip_suffix ''.nebari'') entries"

section \<open>Files of trees\<close>

text \<open>The answer of the transaction manager when a file is opened.\<close>

definition was_successful :: "'c lru_ops \<Rightarrow> ('t, 'c) roots \<Rightarrow> transaction_id \<Rightarrow> bool res" where
  "was_successful lru db i = fst (transaction_was_successful lru (rt_vault db) i (mt_log (rt_thread db)))"

definition handle_file :: "memory_handle \<Rightarrow> memory_manager \<Rightarrow> memory_file" where
  "handle_file h files = \<lparr>mf_buffer = mm_buffers files (mh_buffer h), mf_position = 0\<rparr>"

definition tree_file_of :: "open_tree \<Rightarrow> ('t, 'c) roots \<Rightarrow> 't tree_file" where
  "tree_file_of t db =
     \<lparr>tf_file = handle_file (ot_handle t) (rt_files db), tf_id = mh_id (ot_handle t), tf_state = rt_cells db (ot_cell t)\<rparr>"

text \<open>\<^verbatim>\<open>TreeFile::write\<close> and \<^verbatim>\<open>TreeFile::read\<close>, with the vault of the context they are given.\<close>

definition open_tree_file ::
    "(vault option \<Rightarrow> ('t, 'i, 'r, 's) root_ops) \<Rightarrow> 'c lru_ops \<Rightarrow> vault option \<Rightarrow> path \<Rightarrow> nat \<Rightarrow>
     (('t, 'c) roots, open_tree) sres" where
  "open_tree_file ops lru v path c db =
     (case fm_append path (rt_files db) of
        (Ok h, files) \<Rightarrow>
          (case tree_open (ops v) (Some (was_successful lru db)) (handle_file h files) (mh_id h) (rt_cells db c) of
             (Ok tf, st) \<Rightarrow>
               (Ok \<lparr>ot_handle = h, ot_cell = c, ot_vault = v\<rparr>, db\<lparr>rt_files := files, rt_cells := (rt_cells db)(c := st)\<rparr>)
           | (bad, st) \<Rightarrow>
               (lift_err bad, db\<lparr>rt_files := drop_handle h files, rt_cells := (rt_cells db)(c := st)\<rparr>))
      | (bad, files) \<Rightarrow> (lift_err bad, db\<lparr>rt_files := files\<rparr>))"

definition close_tree :: "open_tree \<Rightarrow> ('t, 'c) roots \<Rightarrow> ('t, 'c) roots" where
  "close_tree t db = db\<lparr>rt_files := drop_handle (ot_handle t) (rt_files db)\<rparr>"

text \<open>An operation of the tree file on the shared buffer and the shared state.\<close>

definition store_tree :: "open_tree \<Rightarrow> 't tree_file \<Rightarrow> ('t, 'c) roots \<Rightarrow> ('t, 'c) roots" where
  "store_tree t tf db =
     db\<lparr>rt_files := (rt_files db)\<lparr>mm_buffers := (mm_buffers (rt_files db))(mh_buffer (ot_handle t) := mf_buffer (tf_file tf))\<rparr>,
        rt_cells := (rt_cells db)(ot_cell t := tf_state tf)\<rparr>"

definition on_tree :: "open_tree \<Rightarrow> ('t tree_file \<Rightarrow> 'a \<times> 't tree_file) \<Rightarrow> ('t, 'c) roots \<Rightarrow> 'a \<times> ('t, 'c) roots" where
  "on_tree t f db = (case f (tree_file_of t db) of (r, tf) \<Rightarrow> (r, store_tree t tf db))"

section \<open>Locks and the transaction manager\<close>

text \<open>\<^verbatim>\<open>fetch_tree_locks\<close>: the names in order; a lock that is held is waited for.\<close>

fun lock_trees :: "bytes list \<Rightarrow> bytes list \<Rightarrow> bytes list res" where
  "lock_trees [] locked = Ok locked"
| "lock_trees (t # ts) locked = (if t \<in> set locked then OutOfFuel else lock_trees ts (t # locked))"

definition unlock_trees :: "tree_locks \<Rightarrow> ('t, 'c) roots \<Rightarrow> ('t, 'c) roots" where
  "unlock_trees locks db = db\<lparr>rt_locked := fold remove1 locks (rt_locked db)\<rparr>"

definition manager_new_transaction :: "string list \<Rightarrow> (('t, 'c) roots, managed_transaction) sres" where
  "manager_new_transaction names db =
     (let ts = sort (map as_bytes names) in
      case lock_trees ts (rt_locked db) of
        Ok locked \<Rightarrow>
          (case new_transaction ts (tl_state (mt_log (rt_thread db))) of
             (t, s) \<Rightarrow>
               (Ok t, db\<lparr>rt_locked := locked,
                  rt_thread := (rt_thread db)\<lparr>mt_log := (mt_log (rt_thread db))\<lparr>tl_state := s\<rparr>\<rparr>\<rparr>))
      | bad \<Rightarrow> (lift_err bad, db))"

text \<open>Dropping a managed transaction sends its id to the thread and frees the locks.\<close>

definition managed_locks :: "managed_transaction \<Rightarrow> tree_locks" where
  "managed_locks t = (case t of Some h \<Rightarrow> th_locked_trees h | None \<Rightarrow> [])"

definition drop_managed :: "managed_transaction \<Rightarrow> ('t, 'c) roots \<Rightarrow> ('t, 'c) roots" where
  "drop_managed t db =
     unlock_trees (managed_locks t)
       (if rt_stopped db then db else db\<lparr>rt_commands := rt_commands db @ managed_drop t\<rparr>)"

text \<open>\<^verbatim>\<open>push\<close>: the thread handles what was sent before and this command, and finds nothing more; then the
  caller has its answer, or waits for other transactions, or the thread has stopped.\<close>

definition manager_push :: "'c lru_ops \<Rightarrow> managed_transaction \<Rightarrow> (('t, 'c) roots, tree_locks) sres" where
  "manager_push lru t db =
     (let sender = rt_channels db; db1 = db\<lparr>rt_channels := sender + 1\<rparr> in
      case managed_commit sender t of
        Ok commands \<Rightarrow>
          (if rt_stopped db then (Err (Internal TransactionManagerStopped), unlock_trees (managed_locks t) db1)
           else
             case save_transactions lru (rt_vault db) (map Received (rt_commands db @ commands) @ [NothingReady]) (rt_thread db) of
               (Ok u, thread) \<Rightarrow>
                 (let db2 = db1\<lparr>rt_thread := thread, rt_commands := []\<rparr> in
                  case map_of (mt_sent thread) sender of
                    Some locks \<Rightarrow> (Ok locks, db2)
                  | None \<Rightarrow> (OutOfFuel, db2))
             | (bad, thread) \<Rightarrow>
                 (Err (Internal TransactionManagerStopped),
                  unlock_trees (managed_locks t) (db1\<lparr>rt_thread := thread, rt_commands := [], rt_stopped := True\<rparr>)))
      | bad \<Rightarrow> (lift_err bad, db1))"

section \<open>Transactions\<close>

definition tree_vault :: "'t tree_root \<Rightarrow> ('t, 'c) roots \<Rightarrow> vault option" where
  "tree_vault r db = (case tr_vault r of Some v \<Rightarrow> Some v | None \<Rightarrow> rt_vault db)"

definition begin_tree ::
    "(vault option \<Rightarrow> ('t, 'i, 'r, 's) root_ops) \<Rightarrow> 'c lru_ops \<Rightarrow> transaction_id \<Rightarrow> 't tree_root \<Rightarrow> nat \<Rightarrow>
     (('t, 'c) roots, transaction_tree) sres" where
  "begin_tree ops lru i r c db =
     bindS (open_tree_file ops lru (tree_vault r db) (tree_path (tr_name r) db) c)
       (\<lambda>t. returnS \<lparr>tt_transaction_id = i, tt_tree = t\<rparr>) db"

text \<open>The first error ends the opening; the trees opened before are closed.\<close>

fun begin_trees ::
    "(vault option \<Rightarrow> ('t, 'i, 'r, 's) root_ops) \<Rightarrow> 'c lru_ops \<Rightarrow> transaction_id \<Rightarrow> ('t tree_root \<times> nat) list \<Rightarrow>
     (('t, 'c) roots, transaction_tree list) sres" where
  "begin_trees ops lru i [] db = (Ok [], db)"
| "begin_trees ops lru i ((r, c) # rcs) db =
     (case begin_tree ops lru i r c db of
        (Ok t, db1) \<Rightarrow>
          (case begin_trees ops lru i rcs db1 of
             (Ok ts, db2) \<Rightarrow> (Ok (t # ts), db2)
           | (bad, db2) \<Rightarrow> (bad, close_tree (tt_tree t) db2))
      | (bad, db1) \<Rightarrow> (lift_err bad, db1))"

definition roots_transaction ::
    "(vault option \<Rightarrow> ('t, 'i, 'r, 's) root_ops) \<Rightarrow> 'c lru_ops \<Rightarrow> 't tree_root list \<Rightarrow>
     (('t, 'c) roots, executing_transaction) sres" where
  "roots_transaction ops lru rs db =
     (if \<exists>r \<in> set rs. check_name (tr_name r) \<noteq> Ok () then (Err InvalidTreeName, db)
      else
        bindS (manager_new_transaction (map tr_name rs)) (\<lambda>transaction db1.
          case tree_states rs db1 of
            (cs, db2) \<Rightarrow>
              (case transaction of
                 Some h \<Rightarrow>
                   (case begin_trees ops lru (le_id (th_transaction h)) (zip rs cs) db2 of
                      (Ok ts, db3) \<Rightarrow> (Ok \<lparr>et_trees = ts, et_transaction = transaction\<rparr>, db3)
                    | (bad, db3) \<Rightarrow> (lift_err bad, drop_managed transaction db3))
               | None \<Rightarrow> (Panic, db2))) db)"

text \<open>\<^verbatim>\<open>commit_trees\<close>: one tree is committed by the caller. Several go to the pool, which commits each; the
  result is the first error in the order of the list, that of a pool with one thread.\<close>

definition commit_tree :: "(vault option \<Rightarrow> ('t, 'i, 'r, 's) root_ops) \<Rightarrow> transaction_tree \<Rightarrow> (('t, 'c) roots, unit) sres" where
  "commit_tree ops t = on_tree (tt_tree t) (tf_commit (ops (ot_vault (tt_tree t))))"

fun commit_pool :: "(vault option \<Rightarrow> ('t, 'i, 'r, 's) root_ops) \<Rightarrow> transaction_tree list \<Rightarrow> (('t, 'c) roots, unit) sres" where
  "commit_pool ops [] db = (Ok (), db)"
| "commit_pool ops (t # ts) db =
     (case commit_tree ops t db of
        (r, db1) \<Rightarrow>
          (case commit_pool ops ts db1 of
             (r2, db2) \<Rightarrow> (res_bind r (\<lambda>_. r2), db2)))"

definition commit_trees ::
    "(vault option \<Rightarrow> ('t, 'i, 'r, 's) root_ops) \<Rightarrow> transaction_tree list \<Rightarrow> (('t, 'c) roots, unit) sres" where
  "commit_trees ops ts = (case ts of [t] \<Rightarrow> commit_tree ops t | _ \<Rightarrow> commit_pool ops ts)"

definition publish_tree :: "transaction_tree \<Rightarrow> ('t, 'c) roots \<Rightarrow> ('t, 'c) roots" where
  "publish_tree t db =
     db\<lparr>rt_cells := (rt_cells db)(ot_cell (tt_tree t) := publish (rt_cells db (ot_cell (tt_tree t))))\<rparr>"

definition rollback_tree :: "transaction_tree \<Rightarrow> ('t, 'c) roots \<Rightarrow> ('t, 'c) roots" where
  "rollback_tree t db =
     db\<lparr>rt_cells := (rt_cells db)(ot_cell (tt_tree t) := rollback (rt_cells db (ot_cell (tt_tree t))))\<rparr>"

definition close_trees :: "transaction_tree list \<Rightarrow> ('t, 'c) roots \<Rightarrow> ('t, 'c) roots" where
  "close_trees ts db = fold (\<lambda>t. close_tree (tt_tree t)) ts db"

text \<open>\<^verbatim>\<open>Drop for ExecutingTransaction\<close>\<close>

definition et_drop :: "executing_transaction \<Rightarrow> ('t, 'c) roots \<Rightarrow> ('t, 'c) roots" where
  "et_drop et db =
     (case et_transaction et of
        Some h \<Rightarrow> drop_managed (Some h) (close_trees (et_trees et) (fold rollback_tree (et_trees et) db))
      | None \<Rightarrow> close_trees (et_trees et) db)"

definition et_rollback :: "executing_transaction \<Rightarrow> ('t, 'c) roots \<Rightarrow> ('t, 'c) roots" where
  "et_rollback et db = et_drop et db"

text \<open>The trees are taken out of the transaction before they are committed: what is dropped when \<^verbatim>\<open>commit_trees\<close>
  fails is a transaction without trees.\<close>

definition et_commit ::
    "(vault option \<Rightarrow> ('t, 'i, 'r, 's) root_ops) \<Rightarrow> 'c lru_ops \<Rightarrow> executing_transaction \<Rightarrow> (('t, 'c) roots, unit) sres" where
  "et_commit ops lru et db =
     (case commit_trees ops (et_trees et) db of
        (Ok u, db1) \<Rightarrow>
          (case manager_push lru (et_transaction et) db1 of
             (Ok locks, db2) \<Rightarrow>
               (Ok (), unlock_trees locks (close_trees (et_trees et) (fold publish_tree (et_trees et) db2)))
           | (bad, db2) \<Rightarrow> (lift_err bad, close_trees (et_trees et) db2))
      | (bad, db1) \<Rightarrow> (bad, et_drop (et\<lparr>et_trees := []\<rparr>) (close_trees (et_trees et) db1)))"

end
