(* ===== verification/Roots_Trees.thy ===== *)
theory Roots_Trees
  imports Roots
begin

text \<open>
  The operations on a tree in a transaction (\<^verbatim>\<open>TransactionTree\<close>) and on a tree of a database (\<^verbatim>\<open>Tree\<close>) of
  \<^verbatim>\<open>nebari/src/roots.rs\<close>. A write of a \<^verbatim>\<open>Tree\<close> is a transaction of its own. A read opens the file and reads it; when
  the file was compacted in between it is tried again. \<open>others n\<close> is what other threads do to the database between
  the opening and the reading of attempt \<open>n\<close>; the fuel is the number of attempts.
\<close>

section \<open>A tree in a transaction\<close>

abbreviation tt_mode :: "transaction_tree \<Rightarrow> persistence_mode" where
  "tt_mode t \<equiv> Transactional (tt_transaction_id t)"

abbreviation tt_ops :: "(vault option \<Rightarrow> ('t, 'i, 'r, 's) root_ops) \<Rightarrow> transaction_tree \<Rightarrow> ('t, 'i, 'r, 's) root_ops" where
  "tt_ops ops t \<equiv> ops (ot_vault (tt_tree t))"

abbreviation tt_file :: "transaction_tree \<Rightarrow> ('t, 'c) roots \<Rightarrow> 't tree_file" where
  "tt_file t \<equiv> tree_file_of (tt_tree t)"

definition tt_set ::
    "(vault option \<Rightarrow> ('t, 'i, 'r, 's) root_ops) \<Rightarrow> transaction_tree \<Rightarrow> bytes \<Rightarrow> bytes \<Rightarrow> (('t, 'c) roots, 'i) sres" where
  "tt_set ops t key b = on_tree (tt_tree t) (tf_set (tt_ops ops t) (tt_mode t) key b)"

definition tt_modify ::
    "(vault option \<Rightarrow> ('t, 'i, 'r, 's) root_ops) \<Rightarrow> transaction_tree \<Rightarrow> bytes list \<Rightarrow> (bytes, 'i, 's) operation \<Rightarrow>
     (('t, 'c) roots, 'i modification_result list) sres" where
  "tt_modify ops t ks op =
     on_tree (tt_tree t) (\<lambda>tf.
       case tf_modify (tt_ops ops t) \<lparr>persistence_mode = tt_mode t, keys = ks, operation = op\<rparr> tf of
         (r, op', tf') \<Rightarrow> (r, tf'))"

definition tt_replace ::
    "(vault option \<Rightarrow> ('t, 'i, 'r, bytes option) root_ops) \<Rightarrow> transaction_tree \<Rightarrow> bytes \<Rightarrow> bytes \<Rightarrow>
     (('t, 'c) roots, bytes option \<times> 'i) sres" where
  "tt_replace ops t key b = on_tree (tt_tree t) (tf_replace (tt_ops ops t) key b (tt_mode t))"

definition tt_remove ::
    "(vault option \<Rightarrow> ('t, 'i, 'r, (bytes \<times> 'i) option) root_ops) \<Rightarrow> transaction_tree \<Rightarrow> bytes \<Rightarrow>
     (('t, 'c) roots, (bytes \<times> 'i) option) sres" where
  "tt_remove ops t key = on_tree (tt_tree t) (tf_remove (tt_ops ops t) key (tt_mode t))"

definition tt_compare_and_swap ::
    "(vault option \<Rightarrow> ('t, 'i, 'r, bytes option \<times> bytes option option) root_ops) \<Rightarrow> transaction_tree \<Rightarrow> bytes \<Rightarrow>
     bytes option \<Rightarrow> bytes option \<Rightarrow> (('t, 'c) roots, compare_and_swap_error + unit) sres" where
  "tt_compare_and_swap ops t key old new = on_tree (tt_tree t) (tf_compare_and_swap (tt_ops ops t) key old new (tt_mode t))"

definition tt_get ::
    "(vault option \<Rightarrow> ('t, 'i, 'r, 's) root_ops) \<Rightarrow> transaction_tree \<Rightarrow> bytes \<Rightarrow> ('t, 'c) roots \<Rightarrow> bytes option res" where
  "tt_get ops t key db = tf_get (tt_ops ops t) key True (tt_file t db)"

definition tt_get_index ::
    "(vault option \<Rightarrow> ('t, 'i, 'r, 's) root_ops) \<Rightarrow> transaction_tree \<Rightarrow> bytes \<Rightarrow> ('t, 'c) roots \<Rightarrow> 'i option res" where
  "tt_get_index ops t key db = tf_get_index (tt_ops ops t) key True (tt_file t db)"

definition tt_get_with_index ::
    "(vault option \<Rightarrow> ('t, 'i, 'r, 's) root_ops) \<Rightarrow> transaction_tree \<Rightarrow> bytes \<Rightarrow> ('t, 'c) roots \<Rightarrow> (bytes \<times> 'i) option res" where
  "tt_get_with_index ops t key db = tf_get_with_index (tt_ops ops t) key True (tt_file t db)"

definition tt_get_multiple ::
    "(vault option \<Rightarrow> ('t, 'i, 'r, 's) root_ops) \<Rightarrow> transaction_tree \<Rightarrow> bytes list \<Rightarrow> ('t, 'c) roots \<Rightarrow> (bytes \<times> bytes) list res" where
  "tt_get_multiple ops t ks db = tf_get_multiple (tt_ops ops t) ks True (tt_file t db)"

definition tt_get_multiple_indexes ::
    "(vault option \<Rightarrow> ('t, 'i, 'r, 's) root_ops) \<Rightarrow> transaction_tree \<Rightarrow> bytes list \<Rightarrow> ('t, 'c) roots \<Rightarrow> (bytes \<times> 'i) list res" where
  "tt_get_multiple_indexes ops t ks db = tf_get_multiple_indexes (tt_ops ops t) ks True (tt_file t db)"

definition tt_get_multiple_with_indexes ::
    "(vault option \<Rightarrow> ('t, 'i, 'r, 's) root_ops) \<Rightarrow> transaction_tree \<Rightarrow> bytes list \<Rightarrow> ('t, 'c) roots \<Rightarrow> (bytes \<times> bytes \<times> 'i) list res" where
  "tt_get_multiple_with_indexes ops t ks db = tf_get_multiple_with_indexes (tt_ops ops t) ks True (tt_file t db)"

definition tt_get_range ::
    "(vault option \<Rightarrow> ('t, 'i, 'r, 's) root_ops) \<Rightarrow> transaction_tree \<Rightarrow> range \<Rightarrow> ('t, 'c) roots \<Rightarrow> (bytes \<times> bytes) list res" where
  "tt_get_range ops t r db = tf_get_range (tt_ops ops t) r True (tt_file t db)"

definition tt_get_range_indexes ::
    "(vault option \<Rightarrow> ('t, 'i, 'r, 's) root_ops) \<Rightarrow> transaction_tree \<Rightarrow> range \<Rightarrow> ('t, 'c) roots \<Rightarrow> (bytes \<times> 'i) list res" where
  "tt_get_range_indexes ops t r db = tf_get_range_indexes (tt_ops ops t) r True (tt_file t db)"

definition tt_get_range_with_indexes ::
    "(vault option \<Rightarrow> ('t, 'i, 'r, 's) root_ops) \<Rightarrow> transaction_tree \<Rightarrow> range \<Rightarrow> ('t, 'c) roots \<Rightarrow> (bytes \<times> bytes \<times> 'i) list res" where
  "tt_get_range_with_indexes ops t r db = tf_get_range_with_indexes (tt_ops ops t) r True (tt_file t db)"

definition tt_scan ::
    "(vault option \<Rightarrow> ('t, 'i, 'r, 's) root_ops) \<Rightarrow> transaction_tree \<Rightarrow> range \<Rightarrow> ('i, 'r, 'k) scan_args \<Rightarrow> ('t, 'c) roots \<Rightarrow> 'k \<Rightarrow> unit res \<times> 'k" where
  "tt_scan ops t r args db c = tf_scan (tt_ops ops t) r True args (tt_file t db) c"

definition tt_reduce ::
    "(vault option \<Rightarrow> ('t, 'i, 'r, 's) root_ops) \<Rightarrow> transaction_tree \<Rightarrow> range \<Rightarrow> ('t, 'c) roots \<Rightarrow> 'r option res" where
  "tt_reduce ops t r db = tf_reduce (tt_ops ops t) r True (tt_file t db)"

definition tt_first_key ::
    "(vault option \<Rightarrow> ('t, 'i, 'r, 's) root_ops) \<Rightarrow> transaction_tree \<Rightarrow> ('t, 'c) roots \<Rightarrow> bytes option res" where
  "tt_first_key ops t db = tf_first_key (tt_ops ops t) True (tt_file t db)"

definition tt_first ::
    "(vault option \<Rightarrow> ('t, 'i, 'r, 's) root_ops) \<Rightarrow> transaction_tree \<Rightarrow> ('t, 'c) roots \<Rightarrow> (bytes \<times> bytes) option res" where
  "tt_first ops t db = tf_first (tt_ops ops t) True (tt_file t db)"

definition tt_last_key ::
    "(vault option \<Rightarrow> ('t, 'i, 'r, 's) root_ops) \<Rightarrow> transaction_tree \<Rightarrow> ('t, 'c) roots \<Rightarrow> bytes option res" where
  "tt_last_key ops t db = tf_last_key (tt_ops ops t) True (tt_file t db)"

definition tt_last ::
    "(vault option \<Rightarrow> ('t, 'i, 'r, 's) root_ops) \<Rightarrow> transaction_tree \<Rightarrow> ('t, 'c) roots \<Rightarrow> (bytes \<times> bytes) option res" where
  "tt_last ops t db = tf_last (tt_ops ops t) True (tt_file t db)"

text \<open>Of a versioned tree.\<close>

definition tt_current_sequence_id :: "transaction_tree \<Rightarrow> (('e, 'es) versioned_root, 'c) roots \<Rightarrow> u64" where
  "tt_current_sequence_id t db = ve_sequence (as_root (st_writer (rt_cells db (ot_cell (tt_tree t)))))"

definition tt_scan_sequences ::
    "(vault option \<Rightarrow> (('e, 'es) versioned_root, 'i, 'r, 's) root_ops) \<Rightarrow> (bytes \<Rightarrow> ('e \<times> bytes) res) \<Rightarrow> transaction_tree \<Rightarrow>
     u64 bound \<times> u64 bound \<Rightarrow> bool \<Rightarrow> ('k \<Rightarrow> 'e key_sequence \<Rightarrow> scan_evaluation \<times> 'k) \<Rightarrow>
     ('k \<Rightarrow> 'e key_sequence \<Rightarrow> bytes \<Rightarrow> unit res \<times> 'k) \<Rightarrow> (('e, 'es) versioned_root, 'c) roots \<Rightarrow> 'k \<Rightarrow> unit res \<times> 'k option" where
  "tt_scan_sequences ops edes t r fwd evaluate callback db c =
     tf_scan_sequences (tt_ops ops t) edes r fwd True evaluate callback (tt_file t db) c"

definition tt_get_multiple_by_sequence ::
    "(vault option \<Rightarrow> (('e, 'es) versioned_root, 'i, 'r, 's) root_ops) \<Rightarrow> (bytes \<Rightarrow> ('e \<times> bytes) res) \<Rightarrow> transaction_tree \<Rightarrow> u64 list \<Rightarrow>
     (('e, 'es) versioned_root, 'c) roots \<Rightarrow> (u64 \<rightharpoonup> bytes \<times> bytes option) res" where
  "tt_get_multiple_by_sequence ops edes t sequences db =
     tf_get_multiple_by_sequence (tt_ops ops t) edes sequences True (tt_file t db)"

definition tt_get_multiple_indexes_by_sequence ::
    "(vault option \<Rightarrow> (('e, 'es) versioned_root, 'i, 'r, 's) root_ops) \<Rightarrow> (bytes \<Rightarrow> ('e \<times> bytes) res) \<Rightarrow> transaction_tree \<Rightarrow> u64 list \<Rightarrow>
     (('e, 'es) versioned_root, 'c) roots \<Rightarrow> 'e sequence_index list res" where
  "tt_get_multiple_indexes_by_sequence ops edes t sequences db =
     tf_get_multiple_indexes_by_sequence (tt_ops ops t) edes sequences True (tt_file t db)"

definition tt_get_multiple_with_indexes_by_sequence ::
    "(vault option \<Rightarrow> (('e, 'es) versioned_root, 'i, 'r, 's) root_ops) \<Rightarrow> (bytes \<Rightarrow> ('e \<times> bytes) res) \<Rightarrow> transaction_tree \<Rightarrow> u64 list \<Rightarrow>
     (('e, 'es) versioned_root, 'c) roots \<Rightarrow> (u64 \<rightharpoonup> 'e sequence_entry) res" where
  "tt_get_multiple_with_indexes_by_sequence ops edes t sequences db =
     tf_get_multiple_with_indexes_by_sequence (tt_ops ops t) edes sequences True (tt_file t db)"

section \<open>Writing to a tree\<close>

definition tree_begin_transaction ::
    "(vault option \<Rightarrow> ('t, 'i, 'r, 's) root_ops) \<Rightarrow> 'c lru_ops \<Rightarrow> 't tree \<Rightarrow> (('t, 'c) roots, executing_transaction) sres" where
  "tree_begin_transaction ops lru t = roots_transaction ops lru [te_root t]"

text \<open>The transaction around one operation: when the operation fails (or panics) the transaction is dropped.\<close>

definition in_transaction ::
    "(vault option \<Rightarrow> ('t, 'i, 'r, 's) root_ops) \<Rightarrow> 'c lru_ops \<Rightarrow> 't tree \<Rightarrow>
     (transaction_tree \<Rightarrow> (('t, 'c) roots, 'a) sres) \<Rightarrow> (('t, 'c) roots, 'a) sres" where
  "in_transaction ops lru t f =
     bindS (tree_begin_transaction ops lru t) (\<lambda>et db.
       case et_trees et of
         [] \<Rightarrow> (Panic, et_drop et db)
       | tt # tts \<Rightarrow>
           (case f tt db of
              (Ok x, db1) \<Rightarrow> bindS (et_commit ops lru et) (\<lambda>_. returnS x) db1
            | (bad, db1) \<Rightarrow> (bad, et_drop et db1)))"

definition tree_set ::
    "(vault option \<Rightarrow> ('t, 'i, 'r, 's) root_ops) \<Rightarrow> 'c lru_ops \<Rightarrow> 't tree \<Rightarrow> bytes \<Rightarrow> bytes \<Rightarrow> (('t, 'c) roots, unit) sres" where
  "tree_set ops lru t key b =
     bindS (in_transaction ops lru t (\<lambda>tt. tt_set ops tt key b)) (\<lambda>_. returnS ())"

definition tree_modify ::
    "(vault option \<Rightarrow> ('t, 'i, 'r, 's) root_ops) \<Rightarrow> 'c lru_ops \<Rightarrow> 't tree \<Rightarrow> bytes list \<Rightarrow> (bytes, 'i, 's) operation \<Rightarrow>
     (('t, 'c) roots, 'i modification_result list) sres" where
  "tree_modify ops lru t ks op = in_transaction ops lru t (\<lambda>tt. tt_modify ops tt ks op)"

definition tree_replace ::
    "(vault option \<Rightarrow> ('t, 'i, 'r, bytes option) root_ops) \<Rightarrow> 'c lru_ops \<Rightarrow> 't tree \<Rightarrow> bytes \<Rightarrow> bytes \<Rightarrow>
     (('t, 'c) roots, bytes option \<times> 'i) sres" where
  "tree_replace ops lru t key b = in_transaction ops lru t (\<lambda>tt. tt_replace ops tt key b)"

definition tree_remove ::
    "(vault option \<Rightarrow> ('t, 'i, 'r, (bytes \<times> 'i) option) root_ops) \<Rightarrow> 'c lru_ops \<Rightarrow> 't tree \<Rightarrow> bytes \<Rightarrow>
     (('t, 'c) roots, (bytes \<times> 'i) option) sres" where
  "tree_remove ops lru t key = in_transaction ops lru t (\<lambda>tt. tt_remove ops tt key)"

text \<open>A conflict is an error: it drops the transaction too. Other errors become \<^verbatim>\<open>CompareAndSwapError::Error\<close>.\<close>

definition cas_result :: "('a, unit) sres \<Rightarrow> ('a, compare_and_swap_error + unit) sres" where
  "cas_result m s = (case m s of (Ok u, s') \<Rightarrow> (Ok (Inr u), s') | (Err e, s') \<Rightarrow> (Ok (Inl (CasError e)), s') | (bad, s') \<Rightarrow> (lift_err bad, s'))"

definition tree_compare_and_swap ::
    "(vault option \<Rightarrow> ('t, 'i, 'r, bytes option \<times> bytes option option) root_ops) \<Rightarrow> 'c lru_ops \<Rightarrow> 't tree \<Rightarrow> bytes \<Rightarrow>
     bytes option \<Rightarrow> bytes option \<Rightarrow> (('t, 'c) roots, compare_and_swap_error + unit) sres" where
  "tree_compare_and_swap ops lru t key old new db =
     (case tree_begin_transaction ops lru t db of
        (Ok et, db1) \<Rightarrow>
          (case et_trees et of
             [] \<Rightarrow> (Panic, et_drop et db1)
           | tt # tts \<Rightarrow>
               (case tt_compare_and_swap ops tt key old new db1 of
                  (Ok (Inr u), db2) \<Rightarrow> cas_result (et_commit ops lru et) db2
                | (r, db2) \<Rightarrow> (r, et_drop et db2)))
      | (Err e, db1) \<Rightarrow> (Ok (Inl (CasError e)), db1)
      | (bad, db1) \<Rightarrow> (lift_err bad, db1))"

section \<open>Reading a tree\<close>

definition is_file_not_found :: "error_kind \<Rightarrow> bool" where
  "is_file_not_found e \<longleftrightarrow> e = Io NotFoundIo"

fun catch_compaction_and_retry :: "nat \<Rightarrow> nat \<Rightarrow> (nat \<Rightarrow> ('s, 'a) sres) \<Rightarrow> ('s, 'a) sres" where
  "catch_compaction_and_retry 0 n func db = (OutOfFuel, db)"
| "catch_compaction_and_retry (Suc fuel) n func db =
     (case func n db of
        (Err TreeCompacted, db1) \<Rightarrow> catch_compaction_and_retry fuel (n + 1) func db1
      | r \<Rightarrow> r)"

text \<open>The same for a closure with a state \<open>k\<close> of the caller.\<close>

fun catch_compaction_and_retry_abortable ::
    "nat \<Rightarrow> nat \<Rightarrow> (nat \<Rightarrow> 'k \<Rightarrow> 's \<Rightarrow> ('a res \<times> 'k) \<times> 's) \<Rightarrow> 'k \<Rightarrow> 's \<Rightarrow> ('a res \<times> 'k) \<times> 's" where
  "catch_compaction_and_retry_abortable 0 n func k db = ((OutOfFuel, k), db)"
| "catch_compaction_and_retry_abortable (Suc fuel) n func k db =
     (case func n k db of
        ((Err TreeCompacted, k1), db1) \<Rightarrow> catch_compaction_and_retry_abortable fuel (n + 1) func k1 db1
      | r \<Rightarrow> r)"

text \<open>\<^verbatim>\<open>open_for_read\<close>: the vault of the tree, or that of the database.\<close>

definition tree_open_for_read ::
    "(vault option \<Rightarrow> ('t, 'i, 'r, 's) root_ops) \<Rightarrow> 'c lru_ops \<Rightarrow> 't tree \<Rightarrow> (('t, 'c) roots, open_tree) sres" where
  "tree_open_for_read ops lru t db =
     open_tree_file ops lru (tree_vault (te_root t) db) (tree_path (tr_name (te_root t)) db) (te_cell t) db"

text \<open>One attempt to read. A file that is not there reads as \<open>absent\<close>.\<close>

definition read_attempt ::
    "(nat \<Rightarrow> ('t, 'c) roots \<Rightarrow> ('t, 'c) roots) \<Rightarrow> (('t, 'c) roots, open_tree) sres \<Rightarrow> 'a \<Rightarrow>
     (vault option \<Rightarrow> 't tree_file \<Rightarrow> 'a res) \<Rightarrow> nat \<Rightarrow> (('t, 'c) roots, 'a) sres" where
  "read_attempt others opening absent f n db =
     (case opening db of
        (Ok t, db1) \<Rightarrow> (let db2 = others n db1 in (f (ot_vault t) (tree_file_of t db2), close_tree t db2))
      | (Err e, db1) \<Rightarrow> (if is_file_not_found e then Ok absent else Err e, db1)
      | (bad, db1) \<Rightarrow> (lift_err bad, db1))"

definition read_tree ::
    "(vault option \<Rightarrow> ('t, 'i, 'r, 's) root_ops) \<Rightarrow> 'c lru_ops \<Rightarrow> (nat \<Rightarrow> ('t, 'c) roots \<Rightarrow> ('t, 'c) roots) \<Rightarrow> nat \<Rightarrow>
     't tree \<Rightarrow> 'a \<Rightarrow> (('t, 'i, 'r, 's) root_ops \<Rightarrow> 't tree_file \<Rightarrow> 'a res) \<Rightarrow> (('t, 'c) roots, 'a) sres" where
  "read_tree ops lru others fuel t absent f =
     catch_compaction_and_retry fuel 0
       (read_attempt others (tree_open_for_read ops lru t) absent (\<lambda>v. f (ops v)))"

definition tree_get ::
    "(vault option \<Rightarrow> ('t, 'i, 'r, 's) root_ops) \<Rightarrow> 'c lru_ops \<Rightarrow> (nat \<Rightarrow> ('t, 'c) roots \<Rightarrow> ('t, 'c) roots) \<Rightarrow> nat \<Rightarrow>
     't tree \<Rightarrow> bytes \<Rightarrow> (('t, 'c) roots, bytes option) sres" where
  "tree_get ops lru others fuel t key = read_tree ops lru others fuel t None (\<lambda>o'. tf_get o' key False)"

definition tree_get_index ::
    "(vault option \<Rightarrow> ('t, 'i, 'r, 's) root_ops) \<Rightarrow> 'c lru_ops \<Rightarrow> (nat \<Rightarrow> ('t, 'c) roots \<Rightarrow> ('t, 'c) roots) \<Rightarrow> nat \<Rightarrow>
     't tree \<Rightarrow> bytes \<Rightarrow> (('t, 'c) roots, 'i option) sres" where
  "tree_get_index ops lru others fuel t key = read_tree ops lru others fuel t None (\<lambda>o'. tf_get_index o' key False)"

definition tree_get_with_index ::
    "(vault option \<Rightarrow> ('t, 'i, 'r, 's) root_ops) \<Rightarrow> 'c lru_ops \<Rightarrow> (nat \<Rightarrow> ('t, 'c) roots \<Rightarrow> ('t, 'c) roots) \<Rightarrow> nat \<Rightarrow>
     't tree \<Rightarrow> bytes \<Rightarrow> (('t, 'c) roots, (bytes \<times> 'i) option) sres" where
  "tree_get_with_index ops lru others fuel t key = read_tree ops lru others fuel t None (\<lambda>o'. tf_get_with_index o' key False)"

definition tree_get_multiple ::
    "(vault option \<Rightarrow> ('t, 'i, 'r, 's) root_ops) \<Rightarrow> 'c lru_ops \<Rightarrow> (nat \<Rightarrow> ('t, 'c) roots \<Rightarrow> ('t, 'c) roots) \<Rightarrow> nat \<Rightarrow>
     't tree \<Rightarrow> bytes list \<Rightarrow> (('t, 'c) roots, (bytes \<times> bytes) list) sres" where
  "tree_get_multiple ops lru others fuel t ks = read_tree ops lru others fuel t [] (\<lambda>o'. tf_get_multiple o' ks False)"

definition tree_get_multiple_indexes ::
    "(vault option \<Rightarrow> ('t, 'i, 'r, 's) root_ops) \<Rightarrow> 'c lru_ops \<Rightarrow> (nat \<Rightarrow> ('t, 'c) roots \<Rightarrow> ('t, 'c) roots) \<Rightarrow> nat \<Rightarrow>
     't tree \<Rightarrow> bytes list \<Rightarrow> (('t, 'c) roots, (bytes \<times> 'i) list) sres" where
  "tree_get_multiple_indexes ops lru others fuel t ks = read_tree ops lru others fuel t [] (\<lambda>o'. tf_get_multiple_indexes o' ks False)"

definition tree_get_multiple_with_indexes ::
    "(vault option \<Rightarrow> ('t, 'i, 'r, 's) root_ops) \<Rightarrow> 'c lru_ops \<Rightarrow> (nat \<Rightarrow> ('t, 'c) roots \<Rightarrow> ('t, 'c) roots) \<Rightarrow> nat \<Rightarrow>
     't tree \<Rightarrow> bytes list \<Rightarrow> (('t, 'c) roots, (bytes \<times> bytes \<times> 'i) list) sres" where
  "tree_get_multiple_with_indexes ops lru others fuel t ks = read_tree ops lru others fuel t [] (\<lambda>o'. tf_get_multiple_with_indexes o' ks False)"

definition tree_get_range ::
    "(vault option \<Rightarrow> ('t, 'i, 'r, 's) root_ops) \<Rightarrow> 'c lru_ops \<Rightarrow> (nat \<Rightarrow> ('t, 'c) roots \<Rightarrow> ('t, 'c) roots) \<Rightarrow> nat \<Rightarrow>
     't tree \<Rightarrow> range \<Rightarrow> (('t, 'c) roots, (bytes \<times> bytes) list) sres" where
  "tree_get_range ops lru others fuel t r = read_tree ops lru others fuel t [] (\<lambda>o'. tf_get_range o' r False)"

definition tree_get_range_indexes ::
    "(vault option \<Rightarrow> ('t, 'i, 'r, 's) root_ops) \<Rightarrow> 'c lru_ops \<Rightarrow> (nat \<Rightarrow> ('t, 'c) roots \<Rightarrow> ('t, 'c) roots) \<Rightarrow> nat \<Rightarrow>
     't tree \<Rightarrow> range \<Rightarrow> (('t, 'c) roots, (bytes \<times> 'i) list) sres" where
  "tree_get_range_indexes ops lru others fuel t r = read_tree ops lru others fuel t [] (\<lambda>o'. tf_get_range_indexes o' r False)"

definition tree_get_range_with_indexes ::
    "(vault option \<Rightarrow> ('t, 'i, 'r, 's) root_ops) \<Rightarrow> 'c lru_ops \<Rightarrow> (nat \<Rightarrow> ('t, 'c) roots \<Rightarrow> ('t, 'c) roots) \<Rightarrow> nat \<Rightarrow>
     't tree \<Rightarrow> range \<Rightarrow> (('t, 'c) roots, (bytes \<times> bytes \<times> 'i) list) sres" where
  "tree_get_range_with_indexes ops lru others fuel t r = read_tree ops lru others fuel t [] (\<lambda>o'. tf_get_range_with_indexes o' r False)"

definition tree_reduce ::
    "(vault option \<Rightarrow> ('t, 'i, 'r, 's) root_ops) \<Rightarrow> 'c lru_ops \<Rightarrow> (nat \<Rightarrow> ('t, 'c) roots \<Rightarrow> ('t, 'c) roots) \<Rightarrow> nat \<Rightarrow>
     't tree \<Rightarrow> range \<Rightarrow> (('t, 'c) roots, 'r option) sres" where
  "tree_reduce ops lru others fuel t r = read_tree ops lru others fuel t None (\<lambda>o'. tf_reduce o' r False)"

definition tree_first_key ::
    "(vault option \<Rightarrow> ('t, 'i, 'r, 's) root_ops) \<Rightarrow> 'c lru_ops \<Rightarrow> (nat \<Rightarrow> ('t, 'c) roots \<Rightarrow> ('t, 'c) roots) \<Rightarrow> nat \<Rightarrow>
     't tree \<Rightarrow> (('t, 'c) roots, bytes option) sres" where
  "tree_first_key ops lru others fuel t = read_tree ops lru others fuel t None (\<lambda>o'. tf_first_key o' False)"

definition tree_first ::
    "(vault option \<Rightarrow> ('t, 'i, 'r, 's) root_ops) \<Rightarrow> 'c lru_ops \<Rightarrow> (nat \<Rightarrow> ('t, 'c) roots \<Rightarrow> ('t, 'c) roots) \<Rightarrow> nat \<Rightarrow>
     't tree \<Rightarrow> (('t, 'c) roots, (bytes \<times> bytes) option) sres" where
  "tree_first ops lru others fuel t = read_tree ops lru others fuel t None (\<lambda>o'. tf_first o' False)"

definition tree_last_key ::
    "(vault option \<Rightarrow> ('t, 'i, 'r, 's) root_ops) \<Rightarrow> 'c lru_ops \<Rightarrow> (nat \<Rightarrow> ('t, 'c) roots \<Rightarrow> ('t, 'c) roots) \<Rightarrow> nat \<Rightarrow>
     't tree \<Rightarrow> (('t, 'c) roots, bytes option) sres" where
  "tree_last_key ops lru others fuel t = read_tree ops lru others fuel t None (\<lambda>o'. tf_last_key o' False)"

definition tree_last ::
    "(vault option \<Rightarrow> ('t, 'i, 'r, 's) root_ops) \<Rightarrow> 'c lru_ops \<Rightarrow> (nat \<Rightarrow> ('t, 'c) roots \<Rightarrow> ('t, 'c) roots) \<Rightarrow> nat \<Rightarrow>
     't tree \<Rightarrow> (('t, 'c) roots, (bytes \<times> bytes) option) sres" where
  "tree_last ops lru others fuel t = read_tree ops lru others fuel t None (\<lambda>o'. tf_last o' False)"

text \<open>\<^verbatim>\<open>scan\<close>, whose closures share the state \<open>k\<close>; it is kept from one attempt to the next.\<close>

definition scan_attempt ::
    "(nat \<Rightarrow> ('t, 'c) roots \<Rightarrow> ('t, 'c) roots) \<Rightarrow> (('t, 'c) roots, open_tree) sres \<Rightarrow> bool \<Rightarrow>
     (vault option \<Rightarrow> 't tree_file \<Rightarrow> 'k \<Rightarrow> unit res \<times> 'k) \<Rightarrow> nat \<Rightarrow> 'k \<Rightarrow> ('t, 'c) roots \<Rightarrow> (unit res \<times> 'k) \<times> ('t, 'c) roots" where
  "scan_attempt others opening absent_ok f n k db =
     (case opening db of
        (Ok t, db1) \<Rightarrow> (let db2 = others n db1 in (f (ot_vault t) (tree_file_of t db2) k, close_tree t db2))
      | (Err e, db1) \<Rightarrow> ((if absent_ok \<and> is_file_not_found e then Ok () else Err e, k), db1)
      | (bad, db1) \<Rightarrow> ((lift_err bad, k), db1))"

definition tree_scan ::
    "(vault option \<Rightarrow> ('t, 'i, 'r, 's) root_ops) \<Rightarrow> 'c lru_ops \<Rightarrow> (nat \<Rightarrow> ('t, 'c) roots \<Rightarrow> ('t, 'c) roots) \<Rightarrow> nat \<Rightarrow>
     't tree \<Rightarrow> range \<Rightarrow> ('i, 'r, 'k) scan_args \<Rightarrow> 'k \<Rightarrow> ('t, 'c) roots \<Rightarrow> (unit res \<times> 'k) \<times> ('t, 'c) roots" where
  "tree_scan ops lru others fuel t r args =
     catch_compaction_and_retry_abortable fuel 0
       (scan_attempt others (tree_open_for_read ops lru t) True (\<lambda>v. tf_scan (ops v) r False args))"

text \<open>\<^verbatim>\<open>count\<close> and \<^verbatim>\<open>current_sequence_id\<close> look at the state in memory; \<open>root_count\<close> is \<^verbatim>\<open>Root::count\<close>.\<close>

definition tree_count :: "('t \<Rightarrow> u64 res) \<Rightarrow> 't tree \<Rightarrow> ('t, 'c) roots \<Rightarrow> u64 res" where
  "tree_count root_count t db = root_count (as_root (st_writer (rt_cells db (te_cell t))))"

definition tree_current_sequence_id :: "('e, 'es) versioned_root tree \<Rightarrow> (('e, 'es) versioned_root, 'c) roots \<Rightarrow> u64" where
  "tree_current_sequence_id t db = ve_sequence (as_root (st_writer (rt_cells db (te_cell t))))"

text \<open>The queries by sequence open the file with the vault of the database.\<close>

definition sequence_open_for_read ::
    "(vault option \<Rightarrow> ('t, 'i, 'r, 's) root_ops) \<Rightarrow> 'c lru_ops \<Rightarrow> 't tree \<Rightarrow> (('t, 'c) roots, open_tree) sres" where
  "sequence_open_for_read ops lru t db =
     open_tree_file ops lru (rt_vault db) (tree_path (tr_name (te_root t)) db) (te_cell t) db"

text \<open>Here an error of the opening is returned as it is.\<close>

definition sequence_attempt ::
    "(nat \<Rightarrow> ('t, 'c) roots \<Rightarrow> ('t, 'c) roots) \<Rightarrow> (('t, 'c) roots, open_tree) sres \<Rightarrow>
     (vault option \<Rightarrow> 't tree_file \<Rightarrow> 'a res) \<Rightarrow> nat \<Rightarrow> (('t, 'c) roots, 'a) sres" where
  "sequence_attempt others opening f n =
     bindS opening (\<lambda>t db1. let db2 = others n db1 in (f (ot_vault t) (tree_file_of t db2), close_tree t db2))"

definition tree_get_multiple_by_sequence ::
    "(vault option \<Rightarrow> (('e, 'es) versioned_root, 'i, 'r, 's) root_ops) \<Rightarrow> 'c lru_ops \<Rightarrow>
     (nat \<Rightarrow> (('e, 'es) versioned_root, 'c) roots \<Rightarrow> (('e, 'es) versioned_root, 'c) roots) \<Rightarrow> nat \<Rightarrow>
     (bytes \<Rightarrow> ('e \<times> bytes) res) \<Rightarrow> ('e, 'es) versioned_root tree \<Rightarrow> u64 list \<Rightarrow>
     ((('e, 'es) versioned_root, 'c) roots, u64 \<rightharpoonup> bytes \<times> bytes option) sres" where
  "tree_get_multiple_by_sequence ops lru others fuel edes t sequences =
     catch_compaction_and_retry fuel 0
       (sequence_attempt others (sequence_open_for_read ops lru t)
         (\<lambda>v. tf_get_multiple_by_sequence (ops v) edes sequences False))"

definition tree_get_multiple_indexes_by_sequence ::
    "(vault option \<Rightarrow> (('e, 'es) versioned_root, 'i, 'r, 's) root_ops) \<Rightarrow> 'c lru_ops \<Rightarrow>
     (nat \<Rightarrow> (('e, 'es) versioned_root, 'c) roots \<Rightarrow> (('e, 'es) versioned_root, 'c) roots) \<Rightarrow> nat \<Rightarrow>
     (bytes \<Rightarrow> ('e \<times> bytes) res) \<Rightarrow> ('e, 'es) versioned_root tree \<Rightarrow> u64 list \<Rightarrow>
     ((('e, 'es) versioned_root, 'c) roots, 'e sequence_index list) sres" where
  "tree_get_multiple_indexes_by_sequence ops lru others fuel edes t sequences =
     catch_compaction_and_retry fuel 0
       (sequence_attempt others (sequence_open_for_read ops lru t)
         (\<lambda>v. tf_get_multiple_indexes_by_sequence (ops v) edes sequences False))"

definition tree_get_multiple_with_indexes_by_sequence ::
    "(vault option \<Rightarrow> (('e, 'es) versioned_root, 'i, 'r, 's) root_ops) \<Rightarrow> 'c lru_ops \<Rightarrow>
     (nat \<Rightarrow> (('e, 'es) versioned_root, 'c) roots \<Rightarrow> (('e, 'es) versioned_root, 'c) roots) \<Rightarrow> nat \<Rightarrow>
     (bytes \<Rightarrow> ('e \<times> bytes) res) \<Rightarrow> ('e, 'es) versioned_root tree \<Rightarrow> u64 list \<Rightarrow>
     ((('e, 'es) versioned_root, 'c) roots, u64 \<rightharpoonup> 'e sequence_entry) sres" where
  "tree_get_multiple_with_indexes_by_sequence ops lru others fuel edes t sequences =
     catch_compaction_and_retry fuel 0
       (sequence_attempt others (sequence_open_for_read ops lru t)
         (\<lambda>v. tf_get_multiple_with_indexes_by_sequence (ops v) edes sequences False))"

definition tree_scan_sequences ::
    "(vault option \<Rightarrow> (('e, 'es) versioned_root, 'i, 'r, 's) root_ops) \<Rightarrow> 'c lru_ops \<Rightarrow>
     (nat \<Rightarrow> (('e, 'es) versioned_root, 'c) roots \<Rightarrow> (('e, 'es) versioned_root, 'c) roots) \<Rightarrow> nat \<Rightarrow>
     (bytes \<Rightarrow> ('e \<times> bytes) res) \<Rightarrow> ('e, 'es) versioned_root tree \<Rightarrow> u64 bound \<times> u64 bound \<Rightarrow> bool \<Rightarrow>
     ('k \<Rightarrow> 'e key_sequence \<Rightarrow> scan_evaluation \<times> 'k) \<Rightarrow> ('k \<Rightarrow> 'e key_sequence \<Rightarrow> bytes \<Rightarrow> unit res \<times> 'k) \<Rightarrow>
     'k option \<Rightarrow> (('e, 'es) versioned_root, 'c) roots \<Rightarrow> (unit res \<times> 'k option) \<times> (('e, 'es) versioned_root, 'c) roots" where
  "tree_scan_sequences ops lru others fuel edes t r fwd evaluate callback =
     catch_compaction_and_retry_abortable fuel 0
       (scan_attempt others (sequence_open_for_read ops lru t) False (\<lambda>v tf k.
          case k of
            Some c \<Rightarrow> tf_scan_sequences (ops v) edes r fwd False evaluate callback tf c
          | None \<Rightarrow> (Panic, None)))"

section \<open>Compacting a tree\<close>

definition compacting_path :: "path \<Rightarrow> path" where
  "compacting_path p = butlast p @ [last p @ ''.compacting'']"

text \<open>The compaction runs in a transaction that locks the tree; the transaction is dropped when it ends.\<close>

definition compact_open ::
    "(vault option \<Rightarrow> ('t, 'i, 'r, 's) root_ops) \<Rightarrow> string \<Rightarrow> open_tree \<Rightarrow> (('t, 'c) roots, unit) sres" where
  "compact_open ops name t =
     bindS (manager_new_transaction [name]) (\<lambda>transaction db.
       case open_for_append (compacting_path (mh_path (ot_handle t))) None (rt_files db) of
         (replacement, files) \<Rightarrow>
           (let db1 = db\<lparr>rt_files := files\<rparr> in
            case tree_compactor (ops (ot_vault t)) (tree_file_of t db1) of
              (Ok file, tf) \<Rightarrow>
                (let db2 = store_tree t tf db1;
                     files2 = (rt_files db2)\<lparr>mm_buffers := (mm_buffers (rt_files db2))(mh_buffer replacement := mf_buffer file)\<rparr> in
                 case replace_with (ot_handle t) replacement files2 of
                   (Ok (h, new_file_id), files3) \<Rightarrow>
                     (Ok (), drop_managed transaction
                       (db2\<lparr>rt_files := drop_handle h files3,
                           rt_cells := (rt_cells db2)(ot_cell t :=
                             tf_state (compaction_finish new_file_id (tree_file_of t db2)))\<rparr>))
                 | (bad, files3) \<Rightarrow> (lift_err bad, drop_managed transaction (db2\<lparr>rt_files := files3\<rparr>)))
            | (bad, tf) \<Rightarrow>
                (lift_err bad, drop_managed transaction (close_tree t
                  (let db2 = store_tree t tf db1 in db2\<lparr>rt_files := drop_handle replacement (rt_files db2)\<rparr>)))))"

definition tree_compact ::
    "(vault option \<Rightarrow> ('t, 'i, 'r, 's) root_ops) \<Rightarrow> 'c lru_ops \<Rightarrow> 't tree \<Rightarrow> (('t, 'c) roots, unit) sres" where
  "tree_compact ops lru t db =
     (case tree_open_for_read ops lru t db of
        (Ok ot, db1) \<Rightarrow> compact_open ops (tr_name (te_root t)) ot db1
      | (Err e, db1) \<Rightarrow> (if is_file_not_found e then Ok () else Err e, db1)
      | (bad, db1) \<Rightarrow> (lift_err bad, db1))"

end
