(* ===== verification/Roots_Inv.thy ===== *)
theory Roots_Inv
  imports Roots_Trees Manager_Invariant Un_Durable
begin

text \<open>
  A database between its calls: the manager thread has handled every transaction that has ended, the file
  manager knows the file of a tree, and the file holds the contents of the tree. What beginning, committing
  and dropping a transaction do to this.
\<close>

section \<open>The next id\<close>

text \<open>Only \<^verbatim>\<open>new_transaction\<close> changes the id that is handed out next.\<close>

abbreviation next_id_of :: "'c tx_log \<Rightarrow> u64" where
  "next_id_of l \<equiv> ts_current_transaction_id (tl_state l)"

lemma log_write_pages_next: "log_write_pages payload offset scratch l = (r, l') \<Longrightarrow> next_id_of l' = next_id_of l"
proof (induction payload offset scratch arbitrary: l rule: log_write_pages.induct)
  case (1 payload offset scratch)
  show ?case
  proof (cases "offset < length payload \<and> \<not> (offset = 0 \<and> length payload \<ge> 2 ^ 24)")
    case True
    with 1(2) [unfolded log_write_pages.simps [of payload offset scratch]] 1(1)
    show ?thesis by (auto simp: bindS_def Let_def)
  next
    case False
    with 1(2) [unfolded log_write_pages.simps [of payload offset scratch]] show ?thesis by (auto split: if_splits)
  qed
qed

lemma log_write_all_next: "log_write_all v es scratch completed l = (r, l') \<Longrightarrow> next_id_of l' = next_id_of l"
proof (induction es arbitrary: scratch completed l)
  case (Cons e es)
  then show ?case
    by (auto simp: bindS_def Let_def split: if_splits prod.splits res.splits dest!: log_write_pages_next)
qed simp

lemma log_push_next: "log_push lru v es l = (r, l') \<Longrightarrow> next_id_of l' = next_id_of l"
  by (auto simp: log_push_def bindS_def on_state_def ts_note_completed_def split: prod.splits res.splits
      dest!: log_write_all_next)

lemma commit_batch_next: "commit_transaction_batch lru v t = (r, t') \<Longrightarrow> next_id_of (mt_log t') = next_id_of (mt_log t)"
  by (auto simp: commit_transaction_batch_def Let_def split: if_splits prod.splits res.splits dest!: log_push_next)

lemma note_id_next: "note_id i t = (r, t') \<Longrightarrow> mt_log t' = mt_log t"
  by (auto simp: note_id_def split: res.splits)

lemma process_next_command_next: "process_next_command lru v r t = (b, t') \<Longrightarrow> next_id_of (mt_log t') = next_id_of (mt_log t)"
  by (cases r rule: r_ids.cases; cases "mt_state t")
    (auto simp: process_next_command_def bindS_def mark_transaction_handled_def note_potentially_sequential_id_def enqueue_def
      split: prod.splits res.splits if_splits dest!: note_id_next commit_batch_next)

lemma save_transactions_next: "save_transactions lru v rs t = (r, t') \<Longrightarrow> next_id_of (mt_log t') = next_id_of (mt_log t)"
proof (induction rs arbitrary: t)
  case (Cons x rs)
  obtain b t1 where "process_next_command lru v x t = (b, t1)" by fastforce
  with Cons process_next_command_next [OF this] show ?case by (cases b) (auto simp: bindS_def split: if_splits)
qed simp

section \<open>Open transactions\<close>

abbreviation sent_ids :: "('t, 'c) roots \<Rightarrow> transaction_id list" where
  "sent_ids db \<equiv> concat (map r_ids (map Received (rt_commands db)))"

definition id_split :: "nat set \<Rightarrow> nat set \<Rightarrow> nat set \<Rightarrow> nat \<Rightarrow> bool" where
  "id_split A B js n \<longleftrightarrow> A \<inter> B = {} \<and> js \<inter> (A \<union> B) = {} \<and> A \<union> B \<union> js = {..<n}"

lemma id_split_new: "id_split A B js n \<Longrightarrow> id_split A B (insert n js) (n + 1)"
  unfolding id_split_def by (metis (no_types, lifting) Int_insert_left Un_insert_right lessThan_Suc lessThan_iff
      less_irrefl Suc_eq_plus1 UnI1 UnCI)

lemma id_split_sent: "id_split A B js n \<Longrightarrow> j \<in> js \<Longrightarrow> id_split A (insert j B) (js - {j}) n"
  unfolding id_split_def by auto

text \<open>Every id handed out has been handled by the thread, has been sent to it, or belongs to one of the open
  transactions \<open>js\<close>. Only drops are waiting to be handled.\<close>

definition transactions_open :: "vault option \<Rightarrow> log_entry list \<Rightarrow> nat set \<Rightarrow> ('t, 'c) roots \<Rightarrow> bool" where
  "transactions_open v es js db \<longleftrightarrow>
     rt_vault db = v \<and> \<not> rt_stopped db \<and> thread_inv v es (rt_thread db) \<and> mt_batch (rt_thread db) = [] \<and>
     (\<forall>c \<in> set (rt_commands db). \<exists>i. c = DropId i) \<and> distinct (sent_ids db) \<and>
     id_split (ids_seen (mt_pending (rt_thread db))) (unat ` set (sent_ids db)) js (unat (next_id_of (mt_log (rt_thread db)))) \<and>
     (\<forall>p \<in> set (mt_sent (rt_thread db)). fst p < rt_channels db)"

lemma transactions_open_cong:
  assumes "rt_vault db' = rt_vault db" "rt_stopped db' = rt_stopped db" "rt_thread db' = rt_thread db"
    "rt_commands db' = rt_commands db" "rt_channels db' = rt_channels db"
  shows "transactions_open v es js db' \<longleftrightarrow> transactions_open v es js db"
  by (simp add: transactions_open_def assms)

lemma thread_inv_next [simp]:
  "thread_inv v es (t\<lparr>mt_log := (mt_log t)\<lparr>tl_state := (tl_state (mt_log t))\<lparr>ts_current_transaction_id := n\<rparr>\<rparr>\<rparr>) \<longleftrightarrow> thread_inv v es t"
  by (simp add: thread_inv_def thread_core_def log_ok_def)

lemma drop_entries: "\<forall>c \<in> set cs. \<exists>i. c = DropId i \<Longrightarrow> concat (map (r_entries \<circ> Received) cs) = [] \<and> concat (map (r_senders \<circ> Received) cs) = []"
  by (induction cs) auto

lemma new_transaction_open:
  assumes inv: "transactions_open v es js db" and lock: "lock_trees (sort (map as_bytes names)) (rt_locked db) = Ok locked"
    and bound: "unat (next_id_of (mt_log (rt_thread db))) + 1 < 2 ^ 64"
  obtains h t where "manager_new_transaction names db = (Ok (Some h), db\<lparr>rt_locked := locked, rt_thread := t\<rparr>)"
    and "th_transaction h = \<lparr>le_id = next_id_of (mt_log (rt_thread db)), le_data = None\<rparr>"
    and "th_locked_trees h = sort (map as_bytes names)"
    and "transactions_open v es (insert (unat (next_id_of (mt_log (rt_thread db)))) js) (db\<lparr>rt_locked := locked, rt_thread := t\<rparr>)"
    and "unat (next_id_of (mt_log t)) = unat (next_id_of (mt_log (rt_thread db))) + 1"
proof -
  let ?n = "next_id_of (mt_log (rt_thread db))"
  let ?t = "(rt_thread db)\<lparr>mt_log := (mt_log (rt_thread db))\<lparr>tl_state := (tl_state (mt_log (rt_thread db)))
    \<lparr>ts_current_transaction_id := ?n + 1\<rparr>\<rparr>\<rparr>"
  let ?db = "db\<lparr>rt_locked := locked, rt_thread := ?t\<rparr>"
  have run: "manager_new_transaction names db =
      (Ok (Some \<lparr>th_transaction = \<lparr>le_id = ?n, le_data = None\<rparr>, th_locked_trees = sort (map as_bytes names)\<rparr>), ?db)"
    using lock by (simp add: manager_new_transaction_def new_transaction_def ts_new_transaction_def Let_def)
  have n: "unat (?n + 1) = unat ?n + 1" using bound by (simp add: unat_word_ariths)
  have "transactions_open v es (insert (unat ?n) js) ?db"
    using inv id_split_new unfolding transactions_open_def by (simp add: n)
  then show thesis by (intro that [OF run]) (simp_all add: n)
qed

lemma drop_managed_open:
  assumes "transactions_open v es js db" and "unat (le_id (th_transaction h)) \<in> js"
  shows "transactions_open v es (js - {unat (le_id (th_transaction h))}) (drop_managed (Some h) db)"
proof -
  let ?i = "le_id (th_transaction h)"
  note inv = assms(1) [unfolded transactions_open_def]
  have split: "id_split (ids_seen (mt_pending (rt_thread db))) (unat ` set (sent_ids db)) js (unat (next_id_of (mt_log (rt_thread db))))"
    using inv by simp
  then have "?i \<notin> set (sent_ids db)" using assms(2) unfolding id_split_def by blast
  moreover have db: "drop_managed (Some h) db = unlock_trees (th_locked_trees h) (db\<lparr>rt_commands := rt_commands db @ [DropId ?i]\<rparr>)"
    using inv by (simp add: drop_managed_def managed_drop_def managed_locks_def)
  ultimately show ?thesis using inv id_split_sent [OF split assms(2)] by (simp add: transactions_open_def unlock_trees_def)
qed

lemma push_open:
  assumes inv: "transactions_open v es {unat (le_id (th_transaction h))} db" and push: "pushable v (th_transaction h)"
  obtains t' where "manager_push lru (Some h) db =
      (Ok (th_locked_trees h), db\<lparr>rt_channels := rt_channels db + 1, rt_thread := t', rt_commands := []\<rparr>)"
    and "transactions_open v (es @ [th_transaction h]) {} (db\<lparr>rt_channels := rt_channels db + 1, rt_thread := t', rt_commands := []\<rparr>)"
    and "next_id_of (mt_log t') = next_id_of (mt_log (rt_thread db))"
proof -
  let ?c = "rt_channels db" and ?t = "rt_thread db" and ?n = "unat (next_id_of (mt_log (rt_thread db)))"
  let ?rs = "map Received (rt_commands db @ [Commit h ?c])"
  note inv = inv [unfolded transactions_open_def]
  have drops: "concat (map (r_entries \<circ> Received) (rt_commands db)) = []" "concat (map (r_senders \<circ> Received) (rt_commands db)) = []"
    using drop_entries [of "rt_commands db"] inv by simp_all
  have ids: "concat (map r_ids ?rs) = sent_ids db @ [le_id (th_transaction h)]" by simp
  have full: "ids_seen (mt_pending ?t) \<union> unat ` set (concat (map r_ids ?rs)) = {..<?n}" using inv unfolding ids id_split_def by simp
  have "?n < 2 ^ 64" using unsigned_less [of "next_id_of (mt_log ?t)"] by simp
  have small: "\<forall>i \<in> set (concat (map r_ids ?rs)). unat i < 2 ^ 64 - 1 \<and> unat i \<notin> ids_seen (mt_pending ?t)"
  proof
    fix i assume i: "i \<in> set (concat (map r_ids ?rs))"
    then have "unat i < ?n" using full by blast
    then show "unat i < 2 ^ 64 - 1 \<and> unat i \<notin> ids_seen (mt_pending ?t)"
      using \<open>?n < 2 ^ 64\<close> i inv unfolding ids id_split_def by auto
  qed
  have "le_id (th_transaction h) \<notin> set (sent_ids db)" using inv unfolding id_split_def by blast
  then have "distinct (concat (map r_ids ?rs))" using inv unfolding ids by simp
  from run_complete [OF _ _ _ this small _ full, of v es lru] inv push drops obtain t' where
    t': "save_transactions lru v (?rs @ [NothingReady]) ?t = (Ok (), t')" "thread_inv v (es @ [th_transaction h]) t'"
      "mt_batch t' = []" "ids_seen (mt_pending t') = {..<?n}" "mt_sent t' = mt_sent ?t @ [(?c, th_locked_trees h)]"
    by (auto simp: sort_key_simps)
  have new: "next_id_of (mt_log t') = next_id_of (mt_log ?t)" by (rule save_transactions_next [OF t'(1)])
  have "map_of (mt_sent ?t) ?c = None" using inv by (fastforce simp: map_of_eq_None_iff)
  then have "manager_push lru (Some h) db =
      (Ok (th_locked_trees h), db\<lparr>rt_channels := ?c + 1, rt_thread := t', rt_commands := []\<rparr>)"
    using inv t'(1,5) by (simp add: manager_push_def managed_commit_def managed_drop_def Let_def map_add_def)
  moreover have "transactions_open v (es @ [th_transaction h]) {} (db\<lparr>rt_channels := ?c + 1, rt_thread := t', rt_commands := []\<rparr>)"
    using inv t'(2-5) new by (auto simp: transactions_open_def id_split_def less_Suc_eq)
  ultimately show thesis using new by (rule that)
qed

section \<open>The file of a tree\<close>

text \<open>The tree \<open>t\<close> is known to the database: its file has the id \<open>i\<close> and the buffer \<open>a\<close>, and its state has been read
  from the file.\<close>

definition tree_at :: "('t \<Rightarrow> bool) \<Rightarrow> 't tree \<Rightarrow> u64 \<Rightarrow> nat \<Rightarrow> ('t, 'c) roots \<Rightarrow> bool" where
  "tree_at initialized t i a db \<longleftrightarrow>
     known_file (rt_files db) (tree_path (tr_name (te_root t)) db) = (Some i, Some a) \<and>
     map_of (rt_tree_states db) (tr_name (te_root t)) = Some (te_cell t) \<and> check_name (tr_name (te_root t)) = Ok () \<and>
     initialized (as_root (st_reader (rt_cells db (te_cell t))))"

abbreviation file_at :: "'t tree \<Rightarrow> u64 \<Rightarrow> nat \<Rightarrow> ('t, 'c) roots \<Rightarrow> 't tree_file" where
  "file_at t i a db \<equiv>
     \<lparr>tf_file = \<lparr>mf_buffer = mm_buffers (rt_files db) a, mf_position = 0\<rparr>, tf_id = Some i, tf_state = rt_cells db (te_cell t)\<rparr>"

abbreviation opened_at :: "vault option \<Rightarrow> 't tree \<Rightarrow> u64 \<Rightarrow> nat \<Rightarrow> ('t, 'c) roots \<Rightarrow> open_tree" where
  "opened_at v t i a db \<equiv>
     \<lparr>ot_handle = \<lparr>mh_id = Some i, mh_path = tree_path (tr_name (te_root t)) db, mh_buffer = a, mh_position = 0\<rparr>,
      ot_cell = te_cell t, ot_vault = v\<rparr>"

abbreviation holding :: "nat \<Rightarrow> ('t, 'c) roots \<Rightarrow> ('t, 'c) roots" where
  "holding a db \<equiv> db\<lparr>rt_files := (rt_files db)\<lparr>mm_held := a # mm_held (rt_files db)\<rparr>\<rparr>"

lemma open_known:
  assumes "tree_at (ro_initialized (ops v)) t i a db"
  shows "open_tree_file ops lru v (tree_path (tr_name (te_root t)) db) (te_cell t) db = (Ok (opened_at v t i a db), holding a db)"
proof -
  have "initialize_state (ops v) m j buf (rt_cells db (te_cell t)) = (Ok (), rt_cells db (te_cell t))" for m j buf
    using assms by (simp add: tree_at_def initialize_state_def)
  then show ?thesis
    using append_known assms by (simp add: open_tree_file_def tree_at_def tree_open_def handle_file_def)
qed

lemma opened_file [simp]: "tree_file_of (opened_at v t i a db') (holding b db) = file_at t i a db"
  by (simp add: tree_file_of_def handle_file_def)

lemma close_opened [simp]: "close_tree (opened_at v t i a db') (holding a db) = db"
  by (simp add: close_tree_def drop_handle_def)

text \<open>A read of a known tree, when no other thread intervenes, returns what the file operation returns.\<close>

lemma read_known:
  assumes "tree_at (ro_initialized (ops (tree_vault (te_root t) db))) t i a db" and "0 < attempts"
    and "f (ops (tree_vault (te_root t) db)) (file_at t i a db) = Ok x"
  shows "read_tree ops lru (\<lambda>n db. db) attempts t absent f db = (Ok x, db)"
proof -
  obtain n where "attempts = Suc n" using assms(2) by (cases attempts) auto
  then show ?thesis
    using open_known [of ops "tree_vault (te_root t) db", OF assms(1), of lru] assms(3)
    by (simp add: read_tree_def read_attempt_def tree_open_for_read_def)
qed

section \<open>Committing an unversioned tree\<close>

context un_tree
begin

text \<open>\<^verbatim>\<open>commit\<close> saves what the writer has; it leaves the contents of both states as they are.\<close>

lemma un_writer:
  fixes tf :: "('e, 'es) unversioned_root tree_file"
  assumes ok: "un_file_ok v crc32 edes esdes nr kr nw kw tf" and len: "length (mf_buffer (tf_file tf)) < 2 ^ 64"
    and run: "tf_commit (un_ops fuel cbrt v crc32 eser esser edes esdes :: (_, _, _, 'cs) root_ops) tf = (Ok (), tf')"
    and fits: "length (mf_buffer (tf_file tf')) + 260 < 2 ^ 64"
  shows "un_file_ok v crc32 edes esdes nr kr nw kw tf'"
proof (cases "un_dirty (as_root (st_writer (tf_state tf)))")
  case True
  let ?ops = "un_ops fuel cbrt v crc32 eser esser edes esdes :: (_, _, _, 'cs) root_ops" and ?a = "st_writer (tf_state tf)"
  note ok' = ok [unfolded un_file_ok_def]
  obtain w where w: "pw_new None (tf_file tf) (as_position ?a) = (Ok (), w)" "pw_started w"
    and image: "pw_image w = mf_buffer (tf_file tf) @ (if mf_buffer (tf_file tf) = [] then nbr @ [0x69] else [])"
    by (rule pw_new_plain [OF len]) (use ok' in simp)
  obtain r2 a' file' where save: "save_tree ?ops ?a w = (r2, a', file')" by (metis prod_cases3)
  from run True ok' w save have r2: "r2 = Ok ()"
    and tf': "tf' = tf\<lparr>tf_file := file', tf_state := (tf_state tf)\<lparr>st_writer := a'\<rparr>\<rparr>"
    by (auto simp: tf_commit_def tree_writer_def Let_def)
  have inv: "pw_inv w" using w(2) by (simp add: pw_started_def)
  have keeps: "keeps_chunks v crc32 (mf_buffer (tf_file tf)) (pw_image w)" unfolding image by (rule keeps_chunks_append)
  have fits': "length (mf_buffer file') + 260 < 2 ^ 64" using fits by (simp add: tf')
  have view: "un_holds v crc32 edes esdes nw (pw_image w) (as_root ?a) kw" using un_holds_keeps [OF keeps] ok' by blast
  note sv = un_file.save_view [OF inv save [unfolded r2] fits', of nw kw, simplified]
  from sv(1) view have nw: "un_holds v crc32 edes esdes nw (mf_buffer file') (as_root a') kw" by simp
  from sv(3) view obtain root2 where a': "a' = ?a\<lparr>as_root := root2, as_position := of_nat (length (mf_buffer file'))\<rparr>"
    "un_reducer (as_root ?a) = un_reducer root2" by auto
  have "keeps_chunks v crc32 (mf_buffer (tf_file tf)) (mf_buffer file')"
    using sv(2) view keeps by (auto intro: keeps_chunks_trans)
  then have "un_holds v crc32 edes esdes nr (mf_buffer file') (as_root (st_reader (tf_state tf))) kr"
    using un_holds_keeps ok' by blast
  with ok' nw a' show ?thesis by (simp add: un_file_ok_def tf')
next
  case False
  with run ok show ?thesis by (auto simp: tf_commit_def tree_writer_def un_file_ok_def Let_def)
qed

end

section \<open>A transaction around one operation\<close>

definition rewound :: "'t tree_file \<Rightarrow> 't tree_file" where
  "rewound tf = tf\<lparr>tf_file := (tf_file tf)\<lparr>mf_position := 0\<rparr>\<rparr>"

lemma rewound_simps [simp]: "mf_buffer (tf_file (rewound tf)) = mf_buffer (tf_file tf)" "tf_id (rewound tf) = tf_id tf"
  "tf_state (rewound tf) = tf_state tf"
  by (simp_all add: rewound_def)

lemma file_after_store: "tf_id tf = Some i \<Longrightarrow> tree_file_of (opened_at v t i a db') (store_tree (opened_at v t i a db'') tf db) = rewound tf"
  by (cases tf; cases "tf_file tf") (simp add: tree_file_of_def store_tree_def handle_file_def rewound_def)

lemma path_simps [simp]: "tree_path name (db\<lparr>rt_locked := l, rt_thread := thr\<rparr>) = tree_path name db"
  "tree_vault r (db\<lparr>rt_locked := l, rt_thread := thr\<rparr>) = tree_vault r db"
  by (simp_all add: tree_path_def tree_vault_def split: option.split)

text \<open>What a transaction on \<open>t\<close> needs: no other transaction is open, the tree is known and not locked, an id is left,
  and the log accepts the entry.\<close>

definition can_begin :: "('t \<Rightarrow> bool) \<Rightarrow> log_entry list \<Rightarrow> 't tree \<Rightarrow> u64 \<Rightarrow> nat \<Rightarrow> ('t, 'c) roots \<Rightarrow> bool" where
  "can_begin initialized es t i a db \<longleftrightarrow>
     tree_at initialized t i a db \<and> transactions_open (rt_vault db) es {} db \<and>
     as_bytes (tr_name (te_root t)) \<notin> set (rt_locked db) \<and> unat (next_id_of (mt_log (rt_thread db))) + 1 < 2 ^ 64 \<and>
     pushable (rt_vault db) \<lparr>le_id = next_id_of (mt_log (rt_thread db)), le_data = None\<rparr>"

abbreviation begun :: "vault option \<Rightarrow> 't tree \<Rightarrow> u64 \<Rightarrow> nat \<Rightarrow> ('t, 'c) roots \<Rightarrow> transaction_tree" where
  "begun v t i a db \<equiv> \<lparr>tt_transaction_id = next_id_of (mt_log (rt_thread db)), tt_tree = opened_at v t i a db\<rparr>"

lemma begin_known:
  assumes can: "can_begin (ro_initialized (ops (tree_vault (te_root t) db))) es t i a db"
  obtains h thr where
    "tree_begin_transaction ops lru t db =
      (Ok \<lparr>et_trees = [begun (tree_vault (te_root t) db) t i a db], et_transaction = Some h\<rparr>,
       holding a (db\<lparr>rt_locked := as_bytes (tr_name (te_root t)) # rt_locked db, rt_thread := thr\<rparr>))"
    and "th_transaction h = \<lparr>le_id = next_id_of (mt_log (rt_thread db)), le_data = None\<rparr>"
    and "th_locked_trees h = [as_bytes (tr_name (te_root t))]"
    and "transactions_open (rt_vault db) es {unat (next_id_of (mt_log (rt_thread db)))}
      (db\<lparr>rt_locked := as_bytes (tr_name (te_root t)) # rt_locked db, rt_thread := thr\<rparr>)"
    and "unat (next_id_of (mt_log thr)) = unat (next_id_of (mt_log (rt_thread db))) + 1"
proof -
  let ?name = "tr_name (te_root t)" and ?v = "tree_vault (te_root t) db"
  note can = can [unfolded can_begin_def]
  have "lock_trees (sort (map as_bytes [?name])) (rt_locked db) = Ok (as_bytes ?name # rt_locked db)" using can by simp
  from new_transaction_open [OF _ this, of "rt_vault db" es "{}"] can obtain h thr where
    new: "manager_new_transaction [?name] db = (Ok (Some h), db\<lparr>rt_locked := as_bytes ?name # rt_locked db, rt_thread := thr\<rparr>)"
      "th_transaction h = \<lparr>le_id = next_id_of (mt_log (rt_thread db)), le_data = None\<rparr>"
      "th_locked_trees h = [as_bytes ?name]"
      "transactions_open (rt_vault db) es {unat (next_id_of (mt_log (rt_thread db)))} (db\<lparr>rt_locked := as_bytes ?name # rt_locked db, rt_thread := thr\<rparr>)"
      "unat (next_id_of (mt_log thr)) = unat (next_id_of (mt_log (rt_thread db))) + 1" by auto
  let ?db = "db\<lparr>rt_locked := as_bytes ?name # rt_locked db, rt_thread := thr\<rparr>"
  have at: "tree_at (ro_initialized (ops ?v)) t i a ?db" using can by (simp add: tree_at_def tree_path_def)
  have "tree_states [te_root t] ?db = ([te_cell t], ?db)" using can by (simp add: tree_at_def tree_state_def)
  moreover have "begin_trees ops lru (le_id (th_transaction h)) [(te_root t, te_cell t)] ?db = (Ok [begun ?v t i a db], holding a ?db)"
    using open_known [of ops ?v, OF at, of lru] new(2) by (simp add: begin_tree_def bindS_def)
  moreover have "check_name ?name = Ok ()" using can by (simp add: tree_at_def)
  ultimately have "tree_begin_transaction ops lru t db = (Ok \<lparr>et_trees = [begun ?v t i a db], et_transaction = Some h\<rparr>, holding a ?db)"
    using new(1) by (simp add: tree_begin_transaction_def roots_transaction_def bindS_def)
  then show thesis using new(2-5) by (rule that)
qed

lemma in_transaction_runs:
  fixes db :: "('t, 'c) roots"
  assumes can: "can_begin (ro_initialized (ops (tree_vault (te_root t) db))) es t i a db"
    and f: "f (begun (tree_vault (te_root t) db) t i a db) = on_tree (opened_at (tree_vault (te_root t) db) t i a db) g"
      "g (file_at t i a db) = (Ok x, tf1)" "tf_id tf1 = Some i"
    and commit: "tf_commit (ops (tree_vault (te_root t) db)) (rewound tf1) = (Ok (), tf2)"
  obtains thr where
    "in_transaction ops lru t f db =
      (Ok x, store_tree (opened_at (tree_vault (te_root t) db) t i a db) (tf2\<lparr>tf_state := publish (tf_state tf2)\<rparr>)
        (db\<lparr>rt_channels := rt_channels db + 1, rt_thread := thr, rt_commands := []\<rparr>))"
    and "transactions_open (rt_vault db) (es @ [\<lparr>le_id = next_id_of (mt_log (rt_thread db)), le_data = None\<rparr>]) {}
      (db\<lparr>rt_channels := rt_channels db + 1, rt_thread := thr, rt_commands := []\<rparr>)"
    and "unat (next_id_of (mt_log thr)) = unat (next_id_of (mt_log (rt_thread db))) + 1"
proof -
  let ?name = "as_bytes (tr_name (te_root t))" and ?v = "tree_vault (te_root t) db"
  let ?ot = "opened_at ?v t i a db"
  from begin_known [where ops = ops, OF can, of lru] obtain h thr1 where h:
    "tree_begin_transaction ops lru t db = (Ok \<lparr>et_trees = [begun ?v t i a db], et_transaction = Some h\<rparr>,
       holding a (db\<lparr>rt_locked := ?name # rt_locked db, rt_thread := thr1\<rparr>))"
    "th_transaction h = \<lparr>le_id = next_id_of (mt_log (rt_thread db)), le_data = None\<rparr>" "th_locked_trees h = [?name]"
    "transactions_open (rt_vault db) es {unat (next_id_of (mt_log (rt_thread db)))} (db\<lparr>rt_locked := ?name # rt_locked db, rt_thread := thr1\<rparr>)"
    "unat (next_id_of (mt_log thr1)) = unat (next_id_of (mt_log (rt_thread db))) + 1" .
  let ?db1 = "holding a (db\<lparr>rt_locked := ?name # rt_locked db, rt_thread := thr1\<rparr>)"
  let ?db3 = "store_tree ?ot tf2 ?db1"
  have run: "f (begun ?v t i a db) ?db1 = (Ok x, store_tree ?ot tf1 ?db1)"
    using f(2) unfolding f(1) by (simp add: on_tree_def tree_file_of_def handle_file_def)
  have com: "commit_trees ops [begun ?v t i a db] (store_tree ?ot tf1 ?db1) = (Ok (), ?db3)"
    using commit by (simp add: commit_trees_def commit_tree_def on_tree_def file_after_store f(3)) (simp add: store_tree_def)
  have "transactions_open (rt_vault db) es {unat (le_id (th_transaction h))} ?db3"
    using h(2,4) by (simp add: store_tree_def transactions_open_def)
  moreover have "pushable (rt_vault db) (th_transaction h)" using can h(2) by (simp add: can_begin_def)
  ultimately obtain thr where push: "manager_push lru (Some h) ?db3 =
      (Ok [?name], ?db3\<lparr>rt_channels := rt_channels ?db3 + 1, rt_thread := thr, rt_commands := []\<rparr>)"
    "transactions_open (rt_vault db) (es @ [th_transaction h]) {} (?db3\<lparr>rt_channels := rt_channels ?db3 + 1, rt_thread := thr, rt_commands := []\<rparr>)"
    "next_id_of (mt_log thr) = next_id_of (mt_log (rt_thread ?db3))"
    using push_open [of "rt_vault db" es h ?db3 lru] h(3) by auto
  have "in_transaction ops lru t f db = (Ok x, store_tree ?ot (tf2\<lparr>tf_state := publish (tf_state tf2)\<rparr>)
      (db\<lparr>rt_channels := rt_channels db + 1, rt_thread := thr, rt_commands := []\<rparr>))"
    using h(1) run com push(1)
    by (simp add: in_transaction_def bindS_def et_commit_def publish_tree_def close_trees_def close_tree_def drop_handle_def
        unlock_trees_def store_tree_def)
  moreover have "transactions_open (rt_vault db) (es @ [th_transaction h]) {}
      (db\<lparr>rt_channels := rt_channels db + 1, rt_thread := thr, rt_commands := []\<rparr>)"
    using push(2) by (simp add: store_tree_def transactions_open_def)
  ultimately show thesis using that [of thr] push(3) h(2,5) by (simp add: store_tree_def)
qed

text \<open>When the tree cannot be saved the transaction ends, but what it did to the state of the tree stays.\<close>

lemma in_transaction_not_saved:
  fixes db :: "('t, 'c) roots"
  assumes can: "can_begin (ro_initialized (ops (tree_vault (te_root t) db))) es t i a db"
    and f: "f (begun (tree_vault (te_root t) db) t i a db) = on_tree (opened_at (tree_vault (te_root t) db) t i a db) g"
      "g (file_at t i a db) = (Ok x, tf1)" "tf_id tf1 = Some i"
    and commit: "tf_commit (ops (tree_vault (te_root t) db)) (rewound tf1) = (bad, tf2)" "bad \<noteq> Ok ()"
  obtains thr cs where
    "in_transaction ops lru t f db =
      (lift_err bad, store_tree (opened_at (tree_vault (te_root t) db) t i a db) tf2 (db\<lparr>rt_thread := thr, rt_commands := cs\<rparr>))"
    and "transactions_open (rt_vault db) es {} (db\<lparr>rt_thread := thr, rt_commands := cs\<rparr>)"
    and "unat (next_id_of (mt_log thr)) = unat (next_id_of (mt_log (rt_thread db))) + 1"
proof -
  let ?name = "as_bytes (tr_name (te_root t))" and ?v = "tree_vault (te_root t) db"
  let ?ot = "opened_at ?v t i a db"
  from begin_known [where ops = ops, OF can, of lru] obtain h thr where h:
    "tree_begin_transaction ops lru t db = (Ok \<lparr>et_trees = [begun ?v t i a db], et_transaction = Some h\<rparr>,
       holding a (db\<lparr>rt_locked := ?name # rt_locked db, rt_thread := thr\<rparr>))"
    "th_transaction h = \<lparr>le_id = next_id_of (mt_log (rt_thread db)), le_data = None\<rparr>" "th_locked_trees h = [?name]"
    "transactions_open (rt_vault db) es {unat (next_id_of (mt_log (rt_thread db)))} (db\<lparr>rt_locked := ?name # rt_locked db, rt_thread := thr\<rparr>)"
    "unat (next_id_of (mt_log thr)) = unat (next_id_of (mt_log (rt_thread db))) + 1" .
  let ?db1 = "holding a (db\<lparr>rt_locked := ?name # rt_locked db, rt_thread := thr\<rparr>)"
  let ?db3 = "store_tree ?ot tf2 ?db1" and ?cs = "rt_commands db @ [DropId (le_id (th_transaction h))]"
  have run: "f (begun ?v t i a db) ?db1 = (Ok x, store_tree ?ot tf1 ?db1)"
    using f(2) unfolding f(1) by (simp add: on_tree_def tree_file_of_def handle_file_def)
  have com: "commit_trees ops [begun ?v t i a db] (store_tree ?ot tf1 ?db1) = (bad, ?db3)"
    using commit by (simp add: commit_trees_def commit_tree_def on_tree_def file_after_store f(3)) (simp add: store_tree_def)
  have stopped: "\<not> rt_stopped db" using can by (simp add: can_begin_def transactions_open_def)
  have "et_drop \<lparr>et_trees = [], et_transaction = Some h\<rparr> (close_trees [begun ?v t i a db] ?db3) =
      store_tree ?ot tf2 (db\<lparr>rt_thread := thr, rt_commands := ?cs\<rparr>)"
    using h(3) stopped
    by (simp add: et_drop_def close_trees_def close_tree_def drop_handle_def drop_managed_def managed_drop_def managed_locks_def
        unlock_trees_def store_tree_def)
  then have "in_transaction ops lru t f db = (lift_err bad, store_tree ?ot tf2 (db\<lparr>rt_thread := thr, rt_commands := ?cs\<rparr>))"
    using h(1) run com commit(2) by (cases bad) (simp_all add: in_transaction_def bindS_def et_commit_def)
  moreover have "transactions_open (rt_vault db) es {} (drop_managed (Some h) (db\<lparr>rt_locked := ?name # rt_locked db, rt_thread := thr\<rparr>))"
    using drop_managed_open [OF h(4), of h] h(2) by simp
  then have "transactions_open (rt_vault db) es {} (db\<lparr>rt_thread := thr, rt_commands := ?cs\<rparr>)"
    using stopped by (simp add: drop_managed_def managed_drop_def unlock_trees_def transactions_open_def)
  ultimately show thesis using h(5) by (rule that)
qed

section \<open>Setting a key of an unversioned tree\<close>

definition un_database ::
    "(bytes \<Rightarrow> u32) \<Rightarrow> (bytes \<Rightarrow> ('e \<times> bytes) res) \<Rightarrow> (bytes \<Rightarrow> ('es \<times> bytes) res) \<Rightarrow> nat \<Rightarrow>
     nat \<Rightarrow> (bytes \<times> bytes) list \<Rightarrow> nat \<Rightarrow> (bytes \<times> bytes) list \<Rightarrow> log_entry list \<Rightarrow> ('e, 'es) unversioned_root tree \<Rightarrow> u64 \<Rightarrow> nat \<Rightarrow> (('e, 'es) unversioned_root, 'c) roots \<Rightarrow> bool" where
  "un_database crc32 edes esdes fuel nr kr nw kw es t i a db \<longleftrightarrow>
     can_begin un_initialized es t i a db \<and> un_initialized (as_root (st_writer (rt_cells db (te_cell t)))) \<and>
     un_ready (tree_vault (te_root t) db) crc32 edes esdes fuel nr kr nw kw (file_at t i a db)"

lemma un_file_ok_rewound [simp]: "un_file_ok v crc32 edes esdes nr kr nw kw (rewound tf) \<longleftrightarrow> un_file_ok v crc32 edes esdes nr kr nw kw tf"
  by (simp add: un_file_ok_def)

lemma un_file_ok_published:
  assumes "un_file_ok v crc32 edes esdes nr kr nw kw tf"
  shows "un_file_ok v crc32 edes esdes nw kw nw kw (tf\<lparr>tf_state := publish (tf_state tf)\<rparr>)"
  using assms by (simp add: un_file_ok_def publish_def)

lemma un_modify_initialized:
  "un_modify fuel cbrt v crc32 edes esdes mo m t w = (r, op', t', w') \<Longrightarrow> un_initialized t \<Longrightarrow> un_initialized t'"
  by (auto simp: un_modify_def un_modify_id_root_def un_initialized_def Let_def split: prod.splits res.splits option.splits)

lemma un_save_initialized:
  "save_tree (un_ops fuel cbrt v crc32 eser esser edes esdes :: (_, _, _, 'cs) root_ops) a w = (r, a', f) \<Longrightarrow>
     un_initialized (as_root a) \<Longrightarrow> un_initialized (as_root a')"
  by (auto simp: save_tree_def un_serialize_def un_initialized_def Let_def split: prod.splits res.splits option.splits)

lemma un_modifier_initialized:
  "tree_modifier (un_ops fuel cbrt v crc32 eser esser edes esdes :: (_, _, _, 'cs) root_ops) m tf = (r, op', tf') \<Longrightarrow>
     un_initialized (as_root (st_writer (tf_state tf))) \<Longrightarrow> un_initialized (as_root (st_writer (tf_state tf')))"
  by (auto simp: tree_modifier_def publish_def Let_def split: prod.splits res.splits if_splits
      dest!: un_modify_initialized un_save_initialized)

lemma un_commit_initialized:
  "tf_commit (un_ops fuel cbrt v crc32 eser esser edes esdes :: (_, _, _, 'cs) root_ops) tf = (r, tf') \<Longrightarrow>
     un_initialized (as_root (st_writer (tf_state tf))) \<Longrightarrow> un_initialized (as_root (st_writer (tf_state tf')))"
  by (auto simp: tf_commit_def tree_writer_def Let_def split: prod.splits res.splits if_splits dest!: un_save_initialized)

abbreviation un_family ::
    "nat \<Rightarrow> (nat \<Rightarrow> nat) \<Rightarrow> (bytes \<Rightarrow> u32) \<Rightarrow> ('e \<Rightarrow> bytes res) \<Rightarrow> ('es \<Rightarrow> bytes res) \<Rightarrow> (bytes \<Rightarrow> ('e \<times> bytes) res) \<Rightarrow>
     (bytes \<Rightarrow> ('es \<times> bytes) res) \<Rightarrow> vault option \<Rightarrow>
     (('e, 'es) unversioned_root, 'e unversioned_by_id, 'es by_id_stats, unit) root_ops" where
  "un_family fuel cbrt crc32 eser esser edes esdes \<equiv> \<lambda>v. un_ops fuel cbrt v crc32 eser esser edes esdes"

lemma store_known:
  "tree_at p t i a db \<Longrightarrow> p (as_root (st_reader (tf_state tf))) \<Longrightarrow>
     tree_at p t i a (store_tree (opened_at v t i a db) tf (db\<lparr>rt_channels := c, rt_thread := thr, rt_commands := cs\<rparr>))"
  by (simp add: tree_at_def store_tree_def tree_path_def known_file_def)

lemma store_file: "tf_id tf = Some i \<Longrightarrow> file_at t i a (store_tree (opened_at v t i a db') tf db) = rewound tf"
  by (cases tf; cases "tf_file tf") (simp add: store_tree_def rewound_def)

text \<open>The steps of a transaction that sets one key: the key is set, the tree is saved, and the new state is published
  when it could be saved.\<close>

lemma tree_set_steps:
  fixes db :: "(('e, 'es) unversioned_root, 'c) roots"
  assumes un: "un_tree v eser edes esser esdes" and v: "v = tree_vault (te_root t) db"
    and db: "un_database crc32 edes esdes fuel nr kr nw kw es t i a db" and st: "storable v b"
  obtains j n tf1 r tf2 where
    "tree_modifier (un_ops fuel cbrt v crc32 eser esser edes esdes :: (_, _, _, unit) root_ops)
       (single (Transactional (next_id_of (mt_log (rt_thread db)))) k (OpSet b)) (file_at t i a db) =
     (Ok [\<lparr>mr_key = k, mr_index = Some j\<rparr>], OpSet b, tf1)"
    and "n \<le> nw + 1" and "un_file_ok v crc32 edes esdes nr kr n (upd_sorted k b kw) tf1"
    and "length (mf_buffer (tf_file tf1)) \<le> length (mm_buffers (rt_files db) a) + 4 + chunk_limit"
    and "un_initialized (as_root (st_writer (tf_state tf1)))"
    and "tf_commit (un_ops fuel cbrt v crc32 eser esser edes esdes :: (_, _, _, unit) root_ops) (rewound tf1) = (r, tf2)"
    and "tf_id tf2 = Some i" and "un_initialized (as_root (st_writer (tf_state tf2)))"
    and "st_reader (tf_state tf2) = st_reader (rt_cells db (te_cell t))"
    and "\<exists>rest. mf_buffer (tf_file tf2) = mm_buffers (rt_files db) a @ rest"
    and "r = Ok () \<Longrightarrow> \<exists>thr. tree_set (un_family fuel cbrt crc32 eser esser edes esdes) lru t k b db =
        (Ok (), store_tree (opened_at v t i a db) (tf2\<lparr>tf_state := publish (tf_state tf2)\<rparr>)
          (db\<lparr>rt_channels := rt_channels db + 1, rt_thread := thr, rt_commands := []\<rparr>)) \<and>
      transactions_open (rt_vault db) (es @ [\<lparr>le_id = next_id_of (mt_log (rt_thread db)), le_data = None\<rparr>]) {}
        (db\<lparr>rt_channels := rt_channels db + 1, rt_thread := thr, rt_commands := []\<rparr>)"
    and "r \<noteq> Ok () \<Longrightarrow> \<exists>thr cs. tree_set (un_family fuel cbrt crc32 eser esser edes esdes) lru t k b db =
        (lift_err r, store_tree (opened_at v t i a db) tf2 (db\<lparr>rt_channels := rt_channels db, rt_thread := thr, rt_commands := cs\<rparr>)) \<and>
      transactions_open (rt_vault db) es {} (db\<lparr>rt_channels := rt_channels db, rt_thread := thr, rt_commands := cs\<rparr>) \<and>
      unat (next_id_of (mt_log thr)) = unat (next_id_of (mt_log (rt_thread db))) + 1"
proof -
  let ?ops = "un_ops fuel cbrt v crc32 eser esser edes esdes :: (_, _, _, unit) root_ops"
  let ?fam = "un_family fuel cbrt crc32 eser esser edes esdes" and ?tf = "file_at t i a db"
  let ?tx = "next_id_of (mt_log (rt_thread db))"
  note db' = db [unfolded un_database_def, folded v]
  have can: "can_begin (ro_initialized (?fam (tree_vault (te_root t) db))) es t i a db" using db' by simp
  obtain results n tf1 j where mod: "tree_modifier ?ops (single (Transactional ?tx) k (OpSet b)) ?tf =
      (Ok [\<lparr>mr_key = k, mr_index = Some j\<rparr>], OpSet b, tf1)"
    and ok1: "n \<le> nw + 1" "un_file_ok v crc32 edes esdes nr kr n (upd_sorted k b kw) tf1"
      "length (mf_buffer (tf_file tf1)) \<le> length (mf_buffer (tf_file ?tf)) + 4 + chunk_limit"
      "st_reader (tf_state tf1) = st_reader (tf_state ?tf)"
    by (rule un_tree.un_transaction_one [OF un, where tf = ?tf and op = "OpSet b" and d = "KeySet b" and k = k and
        op_after = "\<lambda>i. OpSet b" and cbrt = cbrt and tx = ?tx])
      (use db' st in \<open>auto simp: reverse_operation_def\<close>)
  note grown = un_appending_root.modifier_appends [OF mod]
  have id1: "tf_id tf1 = Some i" using grown(2) by simp
  have init1: "un_initialized (as_root (st_writer (tf_state tf1)))" using un_modifier_initialized [OF mod] db' by simp
  define f where "f = (\<lambda>tt. tt_set ?fam tt k b :: ((('e, 'es) unversioned_root, 'c) roots, 'e unversioned_by_id) sres)"
  define g where "g = tf_set ?ops (Transactional ?tx) k b"
  have f: "f (begun (tree_vault (te_root t) db) t i a db) = on_tree (opened_at (tree_vault (te_root t) db) t i a db) g"
    "g ?tf = (Ok j, tf1)"
    by (simp_all add: f_def g_def tt_set_def v tf_set_def mod [unfolded v] first_index_def)
  obtain r tf2 where com: "tf_commit ?ops (rewound tf1) = (r, tf2)" by fastforce
  have com': "tf_commit (?fam (tree_vault (te_root t) db)) (rewound tf1) = (r, tf2)" using com v by simp
  note app = un_appending_root.writer_appends [OF com [unfolded tf_commit_def]]
  have ts: "tree_set ?fam lru t k b db = (case in_transaction ?fam lru t f db of (r, d) \<Rightarrow> (res_map (\<lambda>_. ()) r, d))"
    by (simp add: tree_set_def f_def bindS_def res_map_def split: prod.splits res.splits)
  show thesis
  proof (rule that [OF mod ok1(1,2) _ init1 com], goal_cases)
    case 1
    then show ?case using ok1(3) by simp
  next
    case 2
    then show ?case using app(3) id1 by simp
  next
    case 3
    then show ?case using un_commit_initialized [OF com] init1 by simp
  next
    case 4
    then show ?case using app(2) ok1(4) by simp
  next
    case 5
    then show ?case using app(1) grown(1) by auto
  next
    case 6
    show ?case
      by (rule in_transaction_runs [where ops = ?fam and f = f and g = g and t = t and db = db, OF can f id1 com' [unfolded 6], of lru])
        (auto simp: ts v res_map_def)
  next
    case 7
    show ?case
      by (rule in_transaction_not_saved [where ops = ?fam and f = f and g = g and t = t and db = db, OF can f id1 com' 7, of lru])
        (use 7 in \<open>cases r; auto simp: ts v res_map_def\<close>)
  qed
qed

text \<open>One transaction that sets one key: it is committed and logged, or it ends without a trace for the readers.\<close>

lemma tree_set_runs:
  fixes db :: "(('e, 'es) unversioned_root, 'c) roots"
  assumes un: "un_tree v eser edes esser esdes" and v: "v = tree_vault (te_root t) db"
    and db: "un_database crc32 edes esdes fuel nr kr nw kw es t i a db" and st: "storable v b"
    and run: "tree_set (un_family fuel cbrt crc32 eser esser edes esdes) lru t k b db = (r, db')"
  shows "tree_at un_initialized t i a db' \<and> rt_locked db' = rt_locked db \<and> rt_vault db' = rt_vault db \<and>
    (if r = Ok ()
     then transactions_open (rt_vault db) (es @ [\<lparr>le_id = next_id_of (mt_log (rt_thread db)), le_data = None\<rparr>]) {} db' \<and>
       (length (mm_buffers (rt_files db') a) + 260 < 2 ^ 64 \<longrightarrow>
         (\<exists>n' \<le> nw + 1. un_file_ok v crc32 edes esdes n' (upd_sorted k b kw) n' (upd_sorted k b kw) (file_at t i a db')))
     else transactions_open (rt_vault db) es {} db' \<and> st_reader (rt_cells db' (te_cell t)) = st_reader (rt_cells db (te_cell t)) \<and>
       (\<exists>rest. mm_buffers (rt_files db') a = mm_buffers (rt_files db) a @ rest))"
proof -
  have at: "tree_at un_initialized t i a db" using db by (simp add: un_database_def can_begin_def)
  show ?thesis
  proof (rule tree_set_steps [OF un v db st, of cbrt k lru], goal_cases)
    case (1 j n tf1 r2 tf2)
    note st = this
    show ?thesis
    proof (cases "r2 = Ok ()")
      case True
      from st(11) [OF this] run obtain thr where r: "r = Ok ()" and d: "db' = store_tree (opened_at v t i a db) (tf2\<lparr>tf_state := publish (tf_state tf2)\<rparr>)
          (db\<lparr>rt_channels := rt_channels db + 1, rt_thread := thr, rt_commands := []\<rparr>)"
        and log: "transactions_open (rt_vault db) (es @ [\<lparr>le_id = next_id_of (mt_log (rt_thread db)), le_data = None\<rparr>]) {}
          (db\<lparr>rt_channels := rt_channels db + 1, rt_thread := thr, rt_commands := []\<rparr>)" by auto
      have "tree_at un_initialized t i a db'" unfolding d by (rule store_known [OF at]) (simp add: publish_def st(8))
      moreover have "transactions_open (rt_vault db) (es @ [\<lparr>le_id = next_id_of (mt_log (rt_thread db)), le_data = None\<rparr>]) {} db'"
        using log by (simp add: d store_tree_def transactions_open_def)
      moreover have "un_file_ok v crc32 edes esdes n (upd_sorted k b kw) n (upd_sorted k b kw) (file_at t i a db')"
        if fits: "length (mm_buffers (rt_files db') a) + 260 < 2 ^ 64"
      proof -
        have "length (mf_buffer (tf_file tf2)) + 260 < 2 ^ 64" using fits by (simp add: d store_tree_def)
        moreover have "length (mf_buffer (tf_file (rewound tf1))) < 2 ^ 64"
          using st(4) db by (simp add: un_database_def un_ready_def has_room_def)
        ultimately have "un_file_ok v crc32 edes esdes nr kr n (upd_sorted k b kw) tf2"
          using un_tree.un_writer [OF un _ _ st(6) [unfolded True]] st(3) by simp
        moreover have "file_at t i a db' = rewound (tf2\<lparr>tf_state := publish (tf_state tf2)\<rparr>)"
          unfolding d by (rule store_file) (simp add: st(7))
        ultimately show ?thesis using un_file_ok_published by simp
      qed
      ultimately show ?thesis using r st(2) by (auto simp: d store_tree_def)
    next
      case False
      from st(12) [OF this] run obtain thr cs where r: "r = lift_err r2"
        and d: "db' = store_tree (opened_at v t i a db) tf2 (db\<lparr>rt_channels := rt_channels db, rt_thread := thr, rt_commands := cs\<rparr>)"
        and log: "transactions_open (rt_vault db) es {} (db\<lparr>rt_channels := rt_channels db, rt_thread := thr, rt_commands := cs\<rparr>)" by auto
      have "tree_at un_initialized t i a db'"
        unfolding d by (rule store_known [OF at]) (use at st(9) in \<open>simp add: tree_at_def\<close>)
      moreover have "transactions_open (rt_vault db) es {} db'" using log by (simp add: d store_tree_def transactions_open_def)
      moreover have "r \<noteq> Ok ()" using r False by (cases r2) simp_all
      ultimately show ?thesis using st(9,10) by (auto simp: d store_tree_def)
    qed
  qed
qed

end
