(* ===== verification/Un_Leaf.thy ===== *)
theory Un_Leaf
  imports Roots_Inv
begin

text \<open>
  An unversioned tree with one key: setting a key in an empty tree makes the root a leaf, and whether
  this leaf can be saved depends on the length of its key.
\<close>

section \<open>The first key\<close>

lemma set_in_empty_leaf:
  fixes w :: paged_writer and t :: "('e, 'es) unversioned_root"
  assumes w: "write_chunk v crc32 b w = (Ok p, w')" and root: "un_by_id_root t = BTreeEntry d (Leaf [])"
    and fuel: "0 < fuel" and mo: "\<forall>o'. max_order = Some o' \<longrightarrow> 4 \<le> o'"
  shows "\<exists>i. un_modify fuel cbrt v crc32 edes esdes max_order (single (Transactional tx) k (OpSet b :: (_, _, 'cs) operation)) t w =
    (Ok [\<lparr>mr_key = k, mr_index = Some i\<rparr>], OpSet b,
     t\<lparr>un_by_id_root := BTreeEntry True (Leaf [KeyEntry k i]), un_transaction_id := Some tx\<rparr>, w')"
proof -
  let ?i = "\<lparr>u_value_length = of_nat (length b), u_position = p, u_embedded = index (un_reducer t) k (Some b)\<rparr>"
  define m :: "(bytes, 'e unversioned_by_id, 'cs) modification" where
    "m = \<lparr>persistence_mode = Transactional tx, keys = [k], operation = OpSet b\<rparr>"
  define records where "records = unat (total_keys (reduce (un_id_reducer t) []) + 1)"
  define order where "order = dynamic_order cbrt records max_order"
  define ctx where "ctx = un_context v crc32 (un_reducer t) order (minimum_children_for order records)"
  have "case max_order of None \<Rightarrow> True | Some n \<Rightarrow> 4 \<le> n" using mo by (simp split: option.split)
  then have order: "4 \<le> order" using dynamic_order_bounds(1) by (simp add: order_def)
  have ctx: "current_order ctx = order" "minimum_children ctx = minimum_children_for order records"
    by (simp_all add: ctx_def un_context_def)
  have op: "unmatched_operation ctx k (OpSet b :: (_, _, 'cs) operation) [] w =
      (Ok (KeySet ?i), OpSet b, [\<lparr>mr_key = k, mr_index = Some ?i\<rparr>], w')"
    using w by (simp add: ctx_def un_context_def un_indexer_def Let_def)
  have "modify_leaf_loop ctx order None 0 False [] m [] w =
      (Ok True, [KeyEntry k ?i], m\<lparr>keys := []\<rparr>, [\<lparr>mr_key = k, mr_index = Some ?i\<rparr>], w')"
    using op by (simp add: m_def modify_leaf_loop.simps [of ctx] Let_def exceeds_def binary_search_def
        binary_search_loop.simps insert_nth_def del: unmatched_operation.simps)
  then have leaf: "modify fuel ctx rd None (un_by_id_root t) m [] w =
      (Ok (clean_up_leaf [KeyEntry k ?i] order (minimum_children_for order records)),
       BTreeEntry True (Leaf [KeyEntry k ?i]), m\<lparr>keys := []\<rparr>, [\<lparr>mr_key = k, mr_index = Some ?i\<rparr>], w')" for rd
    using fuel root order by (cases fuel) (simp_all add: modify_leaf_def ctx max_def)
  have "clean_up_leaf [KeyEntry k ?i] order (minimum_children_for order records) \<in> {Absorb, Changed}"
    using order by (auto simp: clean_up_leaf_def)
  then have "modify_root 1 fuel True ctx rd (un_by_id_root t) m [] w =
      (Ok (), BTreeEntry True (Leaf [KeyEntry k ?i]), m\<lparr>keys := []\<rparr>, [\<lparr>mr_key = k, mr_index = Some ?i\<rparr>], w')" for rd
    using leaf [of rd] by (auto simp: m_def)
  then have "un_modify fuel cbrt v crc32 edes esdes max_order (single (Transactional tx) k (OpSet b :: (_, _, 'cs) operation)) t w =
      (Ok [\<lparr>mr_key = k, mr_index = Some ?i\<rparr>], OpSet b,
       t\<lparr>un_by_id_root := BTreeEntry True (Leaf [KeyEntry k ?i]), un_transaction_id := Some tx\<rparr>, w')"
    by (simp add: un_modify_def un_modify_id_root_def single_def reverse_def reverse_operation_def root m_def
        records_def order_def ctx_def Let_def res_map_def)
  then show ?thesis by blast
qed

lemma first_key_root:
  fixes tf :: "('e, 'es) unversioned_root tree_file"
  assumes ready: "un_ready v crc32 edes esdes fuel nr kr 0 [] tf" and st: "storable v b"
    and run: "tree_modifier (un_ops fuel cbrt v crc32 eser esser edes esdes :: (_, _, _, 'cs) root_ops)
      (single (Transactional tx) k (OpSet b)) tf = (r, op', tf1)"
  shows "\<exists>i. un_by_id_root (as_root (st_writer (tf_state tf1))) = BTreeEntry True (Leaf [KeyEntry k i])"
proof -
  let ?a = "st_writer (tf_state tf)" and ?ops = "un_ops fuel cbrt v crc32 eser esser edes esdes :: (_, _, _, 'cs) root_ops"
  let ?m = "single (Transactional tx) k (OpSet b) :: (bytes, 'e unversioned_by_id, 'cs) modification"
  note ok = ready [unfolded un_ready_def un_file_ok_def]
  define P :: "paged_writer \<Rightarrow> 'e unversioned_by_id modification_result list \<Rightarrow> (bytes, 'e unversioned_by_id, 'cs) operation \<Rightarrow>
      ('e, 'es) unversioned_root \<Rightarrow> paged_writer \<Rightarrow> bool"
    where "P = (\<lambda>w results op' root w'. \<exists>i. un_by_id_root root = BTreeEntry True (Leaf [KeyEntry k i]))"
  have holds: "un_holds v crc32 edes esdes 0 (mf_buffer (tf_file tf)) (as_root ?a) []" using ok by simp
  then obtain d where root: "un_by_id_root (as_root ?a) = BTreeEntry d (Leaf [])"
    by (cases "un_by_id_root (as_root ?a)"; cases "node (un_by_id_root (as_root ?a))")
      (auto simp: un_holds_def root_ok_def contents_def un_stores_def nwf.simps nflat.simps)
  have modify: "\<exists>results op' root w'. ro_modify ?ops (as_max_order ?a) ?m (as_root ?a) w = (Ok results, op', root, w') \<and> P w results op' root w'"
    if w: "fresh_writer (mf_buffer (tf_file tf)) w" for w
  proof -
    have "pw_inv w" using w by (simp add: fresh_writer_def pw_started_def)
    then obtain w' where "write_chunk v crc32 b w = (Ok (of_nat (length (pw_image w))), w')"
      using st write_chunk_ok unfolding storable_def by metis
    from set_in_empty_leaf [OF this root, of fuel "as_max_order ?a" cbrt edes esdes tx k, where 'cs = 'cs] ok
    show ?thesis by (auto simp: P_def)
  qed
  obtain w results op1 root w' where "P w results op1 root w'" and tm: "tree_modifier ?ops ?m tf =
      (let a = st_writer (tf_state tf);
           stored = (\<lambda>a' file. tf\<lparr>tf_file := file, tf_state := (tf_state tf)\<lparr>st_writer := a'\<rparr>\<rparr>) in
       if persistence_transaction_id (persistence_mode ?m) \<noteq> None
       then (Ok results, op1, stored (a\<lparr>as_root := root, as_position := snd (pw_finish w')\<rparr>) (fst (pw_finish w')))
       else (case save_tree ?ops (a\<lparr>as_root := root\<rparr>) w' of
          (Ok u, a', file) \<Rightarrow>
            (let tf' = stored a' file in (Ok results, op1, tf'\<lparr>tf_state := publish (tf_state tf')\<rparr>))
        | (bad, a', file) \<Rightarrow> (lift_err bad, op1, stored a' file)))"
    by (rule tree_modifier_run [of tf ?ops ?m P]) (use ok modify in \<open>simp_all add: has_room_def\<close>)
  with run show ?thesis by (auto simp: P_def single_def Let_def)
qed

section \<open>Saving a leaf\<close>

lemma serialize_long_key:
  assumes "un_by_id_root t = BTreeEntry d (Leaf [KeyEntry k i])" and "2 ^ 16 \<le> length k" and "un_initialized t"
  shows "un_serialize v crc32 eser esser t w = (Err KeyTooLarge, t\<lparr>un_by_id_root := BTreeEntry False (Leaf [KeyEntry k i])\<rparr>, w)"
  using assms by (auto simp: un_serialize_def un_initialized_def ser_key_entry_def put_key_def res_map_def)

text \<open>The save fails and the file stays as it is, but the root is marked as saved.\<close>

lemma commit_long_key:
  fixes tf :: "('e, 'es) unversioned_root tree_file"
  assumes root: "un_by_id_root (as_root (st_writer (tf_state tf))) = BTreeEntry True (Leaf [KeyEntry k i])" "2 ^ 16 \<le> length k"
    "un_initialized (as_root (st_writer (tf_state tf)))"
    and ok: "un_file_ok v crc32 edes esdes nr kr nw kw tf" and len: "length (mf_buffer (tf_file tf)) < 2 ^ 64"
  shows "\<exists>tf'. tf_commit (un_ops fuel cbrt v crc32 eser esser edes esdes :: (_, _, _, 'cs) root_ops) tf = (Err KeyTooLarge, tf') \<and>
    un_file_ok v crc32 edes esdes nr kr nw kw tf' \<and> \<not> un_dirty (as_root (st_writer (tf_state tf')))"
proof -
  let ?a = "st_writer (tf_state tf)" and ?ops = "un_ops fuel cbrt v crc32 eser esser edes esdes :: (_, _, _, 'cs) root_ops"
  let ?root = "(as_root ?a)\<lparr>un_by_id_root := BTreeEntry False (Leaf [KeyEntry k i])\<rparr>"
  note ok' = ok [unfolded un_file_ok_def]
  obtain w where w: "pw_new None (tf_file tf) (as_position ?a) = (Ok (), w)" "mf_buffer (pw_file w) = mf_buffer (tf_file tf)"
    by (rule pw_new_plain [OF len]) (use ok' in simp)
  have "save_tree ?ops ?a w = (Err KeyTooLarge, ?a\<lparr>as_root := ?root\<rparr>, pw_file w)"
    using serialize_long_key [OF root] by (simp add: save_tree_def)
  then have "tf_commit ?ops tf = (Err KeyTooLarge, tf\<lparr>tf_file := pw_file w, tf_state := (tf_state tf)\<lparr>st_writer := ?a\<lparr>as_root := ?root\<rparr>\<rparr>\<rparr>)"
    using w(1) ok' root(1) by (simp add: tf_commit_def tree_writer_def Let_def un_dirty_def)
  moreover have "un_holds v crc32 edes esdes nw (mf_buffer (tf_file tf)) ?root kw"
    using ok' root(1) by (simp add: un_holds_def root_ok_def contents_def un_id_reducer_def)
  then have "un_file_ok v crc32 edes esdes nr kr nw kw
      (tf\<lparr>tf_file := pw_file w, tf_state := (tf_state tf)\<lparr>st_writer := ?a\<lparr>as_root := ?root\<rparr>\<rparr>\<rparr>)"
    using ok' w(2) by (simp add: un_file_ok_def)
  ultimately show ?thesis by (simp add: un_dirty_def)
qed

lemma commit_short_key:
  fixes tf :: "(unit, unit) unversioned_root tree_file"
  assumes root: "un_by_id_root (as_root (st_writer (tf_state tf))) = BTreeEntry True (Leaf [KeyEntry k i])" "length k < 2 ^ 16"
    "un_initialized (as_root (st_writer (tf_state tf)))"
    and ok: "un_file_ok None crc32 unit_des unit_des nr kr nw kw tf" and len: "length (mf_buffer (tf_file tf)) + 264 < 2 ^ 64"
  shows "\<exists>tf'. tf_commit (un_ops fuel cbrt None crc32 unit_ser unit_ser unit_des unit_des :: (_, _, _, 'cs) root_ops) tf = (Ok (), tf') \<and>
    length (mf_buffer (tf_file tf')) \<le> length (mf_buffer (tf_file tf)) + 66000"
proof -
  let ?a = "st_writer (tf_state tf)" and ?ops = "un_ops fuel cbrt None crc32 unit_ser unit_ser unit_des unit_des :: (_, _, _, 'cs) root_ops"
  note ok' = ok [unfolded un_file_ok_def]
  have len64: "length (mf_buffer (tf_file tf)) < 2 ^ 64" using len by simp
  obtain w where w: "pw_new None (tf_file tf) (as_position ?a) = (Ok (), w)" "pw_started w"
    and image: "pw_image w = mf_buffer (tf_file tf) @ (if mf_buffer (tf_file tf) = [] then nbr @ [0x69] else [])"
    by (rule pw_new_plain [OF len64]) (use ok' in simp)
  obtain b t' where b: "un_serialize None crc32 unit_ser unit_ser (as_root ?a) w = (Ok b, t', w)" "length b \<le> 27 + length k"
    using root by (auto simp: un_serialize_def un_initialized_def ser_key_entry_def put_key_def ser_unversioned_def unit_ser_def res_map_def)
  have inv: "pw_inv w" using w(2) by (simp add: pw_started_def)
  have image_len: "length (pw_image w) \<le> length (mf_buffer (tf_file tf)) + 4" by (simp add: image nbr_def)
  obtain a' f where save: "save_tree ?ops ?a w = (Ok (), a', f)"
    and f: "mf_buffer f = pw_image w @ replicate (page_padding (length (pw_image w))) (ro_header ?ops) @ nbr @ [ro_header ?ops] @
      chunk_bytes crc32 b"
    by (rule un_plain.un_file.save_succeeds [OF inv, of fuel cbrt crc32 ?a b t' w b, where 'cs = 'cs, unfolded un_ops_simps])
      (use b root(2) image_len len in \<open>simp_all add: encrypt_with_def\<close>)
  have "tf_commit ?ops tf = (Ok (), tf\<lparr>tf_file := f, tf_state := (tf_state tf)\<lparr>st_writer := a'\<rparr>\<rparr>)"
    using w(1) ok' root(1) save by (simp add: tf_commit_def tree_writer_def Let_def un_dirty_def)
  moreover have "length (mf_buffer f) \<le> length (mf_buffer (tf_file tf)) + 66000"
    using f image_len b(2) root(2) by (simp add: page_padding_def page_size_def nbr_def)
  ultimately show ?thesis by simp
qed

end
