(* ===== verification/Chunk_Cache.thy ===== *)
theory Chunk_Cache
  imports Serialization File_Manager
begin

text \<open>
  The chunk cache: \<^verbatim>\<open>nebari/src/chunk_cache.rs\<close>, and the reads of chunks and nodes that go through it
  (\<^verbatim>\<open>read_chunk\<close> of \<^verbatim>\<open>nebari/src/tree/mod.rs\<close>, \<^verbatim>\<open>Pointer\<close> of \<^verbatim>\<open>nebari/src/tree/interior.rs\<close>). The other theories read without a
  cache; here it is shown that a cache makes no difference. The table inside is the \<^verbatim>\<open>LruCache\<close> of the
  crate \<^verbatim>\<open>lru\<close>: it is a parameter, and \<open>lru_law\<close> is what its documentation promises.
\<close>

section \<open>The cache\<close>

record chunk_key =
  ck_position :: u64
  ck_file_id :: u64

text \<open>\<open>'d\<close> is what a chunk decodes to, the \<^verbatim>\<open>Box<BTreeEntry>\<close> of the tree the file belongs to.\<close>

datatype 'd cache_entry = ArcBytes bytes | Decoded 'd

record ('d, 'c) chunk_lru =
  cl_put :: "chunk_key \<Rightarrow> 'd cache_entry \<Rightarrow> 'c \<Rightarrow> 'c"
  cl_get :: "chunk_key \<Rightarrow> 'c \<Rightarrow> 'd cache_entry option \<times> 'c"

record 'c chunk_cache =
  cc_max_block_length :: nat
  cc_cache :: 'c

definition cc_insert :: "('d, 'c) chunk_lru \<Rightarrow> u64 \<Rightarrow> u64 \<Rightarrow> bytes \<Rightarrow> 'c chunk_cache \<Rightarrow> 'c chunk_cache" where
  "cc_insert lru file_id position buffer c =
     (if length buffer \<le> cc_max_block_length c
      then c\<lparr>cc_cache := cl_put lru \<lparr>ck_position = position, ck_file_id = file_id\<rparr> (ArcBytes buffer) (cc_cache c)\<rparr>
      else c)"

definition cc_replace_with_decoded :: "('d, 'c) chunk_lru \<Rightarrow> u64 \<Rightarrow> u64 \<Rightarrow> 'd \<Rightarrow> 'c chunk_cache \<Rightarrow> 'c chunk_cache" where
  "cc_replace_with_decoded lru file_id position val c =
     c\<lparr>cc_cache := cl_put lru \<lparr>ck_position = position, ck_file_id = file_id\<rparr> (Decoded val) (cc_cache c)\<rparr>"

definition cc_get :: "('d, 'c) chunk_lru \<Rightarrow> u64 \<Rightarrow> u64 \<Rightarrow> 'c chunk_cache \<Rightarrow> 'd cache_entry option \<times> 'c chunk_cache" where
  "cc_get lru file_id position c =
     (case cl_get lru \<lparr>ck_position = position, ck_file_id = file_id\<rparr> (cc_cache c) of
        (e, d) \<Rightarrow> (e, c\<lparr>cc_cache := d\<rparr>))"

section \<open>Reading through the cache\<close>

definition cached_read_chunk ::
    "('d, 'c) chunk_lru \<Rightarrow> vault option \<Rightarrow> (bytes \<Rightarrow> u32) \<Rightarrow> bool \<Rightarrow> u64 \<Rightarrow> u64 option \<Rightarrow>
     'c chunk_cache option \<times> memory_file \<Rightarrow> 'd cache_entry res \<times> 'c chunk_cache option \<times> memory_file" where
  "cached_read_chunk lru v crc32 validate_crc position file_id = (\<lambda>(cache, file).
     case (case (cache, file_id) of
          (Some c, Some i) \<Rightarrow> (case cc_get lru i position c of (e, c1) \<Rightarrow> (e, Some c1))
        | _ \<Rightarrow> (None, cache)) of
        (Some entry, cache1) \<Rightarrow> (Ok entry, cache1, file)
      | (None, cache1) \<Rightarrow>
          (case read_chunk v crc32 validate_crc position file of
             (Ok decrypted, file1) \<Rightarrow>
               (Ok (ArcBytes decrypted),
                (case (cache1, file_id) of (Some c, Some i) \<Rightarrow> Some (cc_insert lru i position decrypted c) | _ \<Rightarrow> cache1), file1)
           | (bad, file1) \<Rightarrow> (lift_err bad, cache1, file1)))"

text \<open>\<^verbatim>\<open>map_loaded_entry\<close> on a node that is on disk, before the callback gets the node: the decoded node stays in the
  cache. (The source stores it after the callback.)\<close>

definition cached_map_loaded ::
    "('d, 'c) chunk_lru \<Rightarrow> vault option \<Rightarrow> (bytes \<Rightarrow> u32) \<Rightarrow> (bytes \<Rightarrow> 'd res) \<Rightarrow> u64 \<Rightarrow> u64 option \<Rightarrow>
     'c chunk_cache option \<times> memory_file \<Rightarrow> 'd res \<times> 'c chunk_cache option \<times> memory_file" where
  "cached_map_loaded lru v crc32 decode position file_id s =
     (case cached_read_chunk lru v crc32 False position file_id s of
        (Ok (ArcBytes buffer), cache, file) \<Rightarrow>
          (case decode buffer of
             Ok decoded \<Rightarrow>
               (Ok decoded,
                (case (cache, file_id) of (Some c, Some i) \<Rightarrow> Some (cc_replace_with_decoded lru i position decoded c) | _ \<Rightarrow> cache), file)
           | bad \<Rightarrow> (bad, cache, file))
      | (Ok (Decoded val), cache, file) \<Rightarrow> (Ok val, cache, file)
      | (bad, cache, file) \<Rightarrow> (lift_err bad, cache, file))"

text \<open>\<^verbatim>\<open>Pointer::load\<close>: a node that is loaded to be changed is not put in the cache.\<close>

definition cached_load ::
    "('d, 'c) chunk_lru \<Rightarrow> vault option \<Rightarrow> (bytes \<Rightarrow> u32) \<Rightarrow> bool \<Rightarrow> (bytes \<Rightarrow> 'd res) \<Rightarrow> u64 \<Rightarrow> u64 option \<Rightarrow>
     'c chunk_cache option \<times> memory_file \<Rightarrow> 'd res \<times> 'c chunk_cache option \<times> memory_file" where
  "cached_load lru v crc32 validate_crc decode position file_id s =
     (case cached_read_chunk lru v crc32 validate_crc position file_id s of
        (Ok (ArcBytes buffer), cache, file) \<Rightarrow> (decode buffer, cache, file)
      | (Ok (Decoded val), cache, file) \<Rightarrow> (Ok val, cache, file)
      | (bad, cache, file) \<Rightarrow> (lift_err bad, cache, file))"

text \<open>Reading a value: a decoded node in its place is unreachable.\<close>

definition cached_value ::
    "('d, 'c) chunk_lru \<Rightarrow> vault option \<Rightarrow> (bytes \<Rightarrow> u32) \<Rightarrow> u64 \<Rightarrow> u64 option \<Rightarrow>
     'c chunk_cache option \<times> memory_file \<Rightarrow> bytes res \<times> 'c chunk_cache option \<times> memory_file" where
  "cached_value lru v crc32 position file_id s =
     (case cached_read_chunk lru v crc32 False position file_id s of
        (Ok (ArcBytes buffer), cache, file) \<Rightarrow> (Ok buffer, cache, file)
      | (Ok (Decoded val), cache, file) \<Rightarrow> (Panic, cache, file)
      | (bad, cache, file) \<Rightarrow> (lift_err bad, cache, file))"

text \<open>\<^verbatim>\<open>Interior::serialize_to\<close> caches the node it has written.\<close>

definition cached_save_node ::
    "('d, 'c) chunk_lru \<Rightarrow> vault option \<Rightarrow> (bytes \<Rightarrow> u32) \<Rightarrow> u64 option \<Rightarrow> bytes \<Rightarrow> 'd \<Rightarrow>
     'c chunk_cache option \<times> paged_writer \<Rightarrow> u64 res \<times> 'c chunk_cache option \<times> paged_writer" where
  "cached_save_node lru v crc32 file_id serialized entry = (\<lambda>(cache, w).
     case write_chunk v crc32 serialized w of
       (Ok position, w1) \<Rightarrow>
         (Ok position,
          (case (cache, file_id) of (Some c, Some i) \<Rightarrow> Some (cc_replace_with_decoded lru i position entry c) | _ \<Rightarrow> cache), w1)
     | (bad, w1) \<Rightarrow> (bad, cache, w1))"

section \<open>What a cache may hold\<close>

text \<open>The table: \<^verbatim>\<open>get\<close> returns what is stored and keeps it; after \<^verbatim>\<open>put\<close> a key has its new value or, evicted, none.\<close>

definition lru_law :: "('d, 'c) chunk_lru \<Rightarrow> ('c \<Rightarrow> chunk_key \<Rightarrow> 'd cache_entry option) \<Rightarrow> bool" where
  "lru_law lru view \<longleftrightarrow>
     (\<forall>k c. fst (cl_get lru k c) = view c k \<and> view (snd (cl_get lru k c)) = view c) \<and>
     (\<forall>k e c k'. view (cl_put lru k e c) k' \<in> {None, if k' = k then Some e else view c k'})"

text \<open>The entries for the file \<open>i\<close> say what the bytes of the file say.\<close>

definition entry_agrees :: "vault option \<Rightarrow> (bytes \<Rightarrow> u32) \<Rightarrow> (bytes \<Rightarrow> 'd res) \<Rightarrow> bytes \<Rightarrow> u64 \<Rightarrow> 'd cache_entry \<Rightarrow> bool" where
  "entry_agrees v crc32 decode buf p e =
     (case e of
        ArcBytes b \<Rightarrow> chunk_at v crc32 False buf p = Ok b
      | Decoded d \<Rightarrow> (\<exists>b. chunk_at v crc32 False buf p = Ok b \<and> decode b = Ok d))"

definition cache_agrees ::
    "('c \<Rightarrow> chunk_key \<Rightarrow> 'd cache_entry option) \<Rightarrow> vault option \<Rightarrow> (bytes \<Rightarrow> u32) \<Rightarrow> (bytes \<Rightarrow> 'd res) \<Rightarrow> u64 \<Rightarrow> bytes \<Rightarrow>
     'c chunk_cache \<Rightarrow> bool" where
  "cache_agrees view v crc32 decode i buf c \<longleftrightarrow>
     (\<forall>p e. view (cc_cache c) \<lparr>ck_position = p, ck_file_id = i\<rparr> = Some e \<longrightarrow> entry_agrees v crc32 decode buf p e)"

lemma get_agrees:
  assumes "lru_law lru view" and "cache_agrees view v crc32 decode i buf c" and "cc_get lru i p c = (e, c')"
  shows "cache_agrees view v crc32 decode i buf c'" and "e = Some x \<Longrightarrow> entry_agrees v crc32 decode buf p x"
proof -
  let ?k = "\<lparr>ck_position = p, ck_file_id = i\<rparr>"
  obtain d where d: "cl_get lru ?k (cc_cache c) = (e, d)" "c' = c\<lparr>cc_cache := d\<rparr>"
    using assms(3) by (auto simp: cc_get_def split: prod.splits)
  then have "e = view (cc_cache c) ?k" "view d = view (cc_cache c)"
    using assms(1) unfolding lru_law_def by (metis fst_conv, metis snd_conv)
  with assms(2) d(2) show "cache_agrees view v crc32 decode i buf c'" "e = Some x \<Longrightarrow> entry_agrees v crc32 decode buf p x"
    by (simp_all add: cache_agrees_def)
qed

lemma put_agrees:
  assumes "lru_law lru view" and "cache_agrees view v crc32 decode i buf c" and "entry_agrees v crc32 decode buf p e"
  shows "cache_agrees view v crc32 decode i buf (c\<lparr>cc_cache := cl_put lru \<lparr>ck_position = p, ck_file_id = i\<rparr> e (cc_cache c)\<rparr>)"
  unfolding cache_agrees_def
proof (intro allI impI)
  fix q x
  let ?k = "\<lparr>ck_position = p, ck_file_id = i\<rparr>" and ?q = "\<lparr>ck_position = q, ck_file_id = i\<rparr>"
  assume "view (cc_cache (c\<lparr>cc_cache := cl_put lru ?k e (cc_cache c)\<rparr>)) ?q = Some x"
  moreover have "view (cl_put lru ?k e (cc_cache c)) ?q \<in> {None, if ?q = ?k then Some e else view (cc_cache c) ?q}"
    using assms(1) unfolding lru_law_def by blast
  ultimately have "(if ?q = ?k then Some e else view (cc_cache c) ?q) = Some x" by auto
  with assms(2,3) show "entry_agrees v crc32 decode buf q x" by (auto simp: cache_agrees_def split: if_splits)
qed

text \<open>A file only grows, and what a cache says of it stays true.\<close>

lemma entry_agrees_append: "entry_agrees v crc32 decode buf p e \<Longrightarrow> entry_agrees v crc32 decode (buf @ rest) p e"
  by (auto simp: entry_agrees_def chunk_at_prefix split: cache_entry.splits)

lemma agrees_append: "cache_agrees view v crc32 decode i buf c \<Longrightarrow> cache_agrees view v crc32 decode i (buf @ rest) c"
  unfolding cache_agrees_def using entry_agrees_append by blast

lemma read_chunk_buffer: "fst (read_chunk v crc32 validate p f) = chunk_at v crc32 validate (mf_buffer f) p"
  "mf_buffer (snd (read_chunk v crc32 validate p f)) = mf_buffer f"
  by (cases f; auto simp: chunk_at_def read_chunk_split mf_read_exact_def Let_def split: prod.splits res.splits if_splits)+

lemma cached_read_agrees:
  assumes law: "lru_law lru view" and ok: "cache_agrees view v crc32 decode i (mf_buffer f) c"
    and run: "cached_read_chunk lru v crc32 False p (Some i) (Some c, f) = (r, c', f')"
  obtains d where "c' = Some d" and "cache_agrees view v crc32 decode i (mf_buffer f) d" and "mf_buffer f' = mf_buffer f"
    and "case r of Ok e \<Rightarrow> entry_agrees v crc32 decode (mf_buffer f) p e | _ \<Rightarrow> r = lift_err (chunk_at v crc32 False (mf_buffer f) p) \<and> (\<forall>b. chunk_at v crc32 False (mf_buffer f) p \<noteq> Ok b)"
proof -
  obtain e c1 where get: "cc_get lru i p c = (e, c1)" by fastforce
  note g = get_agrees [OF law ok get]
  show thesis
  proof (cases e)
    case (Some x)
    with run get have "r = Ok x" "c' = Some c1" "f' = f" by (auto simp: cached_read_chunk_def)
    with g Some show thesis by (intro that [of c1]) auto
  next
    case None
    obtain r1 f1 where rd: "read_chunk v crc32 False p f = (r1, f1)" by fastforce
    have r1: "r1 = chunk_at v crc32 False (mf_buffer f) p" "mf_buffer f1 = mf_buffer f"
      using read_chunk_buffer [of v crc32 False p f] rd by simp_all
    show thesis
    proof (cases r1)
      case (Ok b)
      with run get rd None have "r = Ok (ArcBytes b)" "c' = Some (cc_insert lru i p b c1)" "f' = f1"
        by (auto simp: cached_read_chunk_def)
      moreover have e: "entry_agrees v crc32 decode (mf_buffer f) p (ArcBytes b)" using r1 Ok by (simp add: entry_agrees_def)
      moreover have "cache_agrees view v crc32 decode i (mf_buffer f) (cc_insert lru i p b c1)"
        using put_agrees [OF law g(1) e] g(1) by (simp add: cc_insert_def)
      ultimately show thesis using r1(2) by (intro that) auto
    qed (use run get rd None g(1) r1 in \<open>auto simp: cached_read_chunk_def intro: that\<close>)
  qed
qed

text \<open>
  C10. The cache is transparent: when it agrees with the file, loading a node through it, to look at it or to change it,
  gives the node that the bytes of the file decode to, or the error that reading it gives; and the cache agrees with the
  file afterwards, also when the file has grown in the meantime.
\<close>

theorem cache_transparent:
  assumes law: "lru_law lru view" and ok: "cache_agrees view v crc32 decode i (mf_buffer f) c"
  shows "(case cached_map_loaded lru v crc32 decode p (Some i) (Some c, f) of
      (r, c', f') \<Rightarrow> r = res_bind (chunk_at v crc32 False (mf_buffer f) p) decode \<and> mf_buffer f' = mf_buffer f \<and>
        (\<exists>d. c' = Some d \<and> (\<forall>rest. cache_agrees view v crc32 decode i (mf_buffer f @ rest) d))) \<and>
    (case cached_load lru v crc32 False decode p (Some i) (Some c, f) of
      (r, c', f') \<Rightarrow> r = res_bind (chunk_at v crc32 False (mf_buffer f) p) decode \<and> mf_buffer f' = mf_buffer f \<and>
        (\<exists>d. c' = Some d \<and> (\<forall>rest. cache_agrees view v crc32 decode i (mf_buffer f @ rest) d)))"
proof -
  obtain r c' f' where run: "cached_read_chunk lru v crc32 False p (Some i) (Some c, f) = (r, c', f')" by (metis prod_cases3)
  obtain d where d: "c' = Some d" "cache_agrees view v crc32 decode i (mf_buffer f) d" "mf_buffer f' = mf_buffer f"
    "case r of Ok e \<Rightarrow> entry_agrees v crc32 decode (mf_buffer f) p e | _ \<Rightarrow> r = lift_err (chunk_at v crc32 False (mf_buffer f) p) \<and> (\<forall>b. chunk_at v crc32 False (mf_buffer f) p \<noteq> Ok b)"
    using cached_read_agrees [OF law ok run] by metis
  note grow = agrees_append [OF d(2)]
  consider (bytes) b where "r = Ok (ArcBytes b)" "chunk_at v crc32 False (mf_buffer f) p = Ok b"
    | (decoded) x b where "r = Ok (Decoded x)" "chunk_at v crc32 False (mf_buffer f) p = Ok b" "decode b = Ok x"
    | (bad) "\<And>e. r \<noteq> Ok e" "r = lift_err (chunk_at v crc32 False (mf_buffer f) p)" "\<forall>b. chunk_at v crc32 False (mf_buffer f) p \<noteq> Ok b"
    using d(4) by (cases r) (auto simp: entry_agrees_def split: cache_entry.splits)
  then show ?thesis
  proof cases
    case bytes
    show ?thesis
    proof (cases "decode b")
      case (Ok x)
      then have e: "entry_agrees v crc32 decode (mf_buffer f) p (Decoded x)" using bytes by (simp add: entry_agrees_def)
      show ?thesis
        using run bytes Ok d(1,3) grow agrees_append [OF put_agrees [OF law d(2) e]]
        by (simp add: cached_map_loaded_def cached_load_def cc_replace_with_decoded_def)
    qed (use run bytes d(1,3) grow in \<open>simp_all add: cached_map_loaded_def cached_load_def\<close>)
  next
    case decoded
    then show ?thesis using run d(1,3) grow by (simp add: cached_map_loaded_def cached_load_def)
  next
    case bad
    then show ?thesis using run d(1,3) grow
      by (cases r; cases "chunk_at v crc32 False (mf_buffer f) p") (auto simp: cached_map_loaded_def cached_load_def)
  qed
qed

text \<open>An LRU table of at most \<open>n\<close> entries, the most recent first.\<close>

definition bounded_lru :: "nat \<Rightarrow> ('d, (chunk_key \<times> 'd cache_entry) list) chunk_lru" where
  "bounded_lru n =
     \<lparr>cl_put = (\<lambda>k e c. take n ((k, e) # AList.delete k c)),
      cl_get = (\<lambda>k c. (map_of c k, case map_of c k of None \<Rightarrow> c | Some e \<Rightarrow> (k, e) # AList.delete k c))\<rparr>"

lemma map_of_take: "map_of (take n c) k \<in> {None, map_of c k}"
proof (induction c arbitrary: n)
  case (Cons x c)
  then show ?case by (cases n; cases x) auto
qed simp

lemma bounded_lru_law: "lru_law (bounded_lru n :: ('d, _) chunk_lru) map_of"
proof -
  have "map_of (take n ((k, e) # AList.delete k c)) k' \<in> {None, if k' = k then Some e else map_of c k'}"
    for k k' :: chunk_key and e :: "'d cache_entry" and c
    using map_of_take [of n "(k, e) # AList.delete k c" k'] by (auto simp: delete_conv')
  moreover have "map_of (case map_of c k of None \<Rightarrow> c | Some e \<Rightarrow> (k, e) # AList.delete k c) = map_of c"
    for k :: chunk_key and c :: "(chunk_key \<times> 'd cache_entry) list"
    by (auto simp: delete_conv' fun_eq_iff split: option.split)
  ultimately show ?thesis unfolding lru_law_def bounded_lru_def by auto
qed

definition sample_bytes :: bytes where
  "sample_bytes = chunk_bytes (\<lambda>b. 0) [7, 8]"

theorem cache_transparent_witness:
  "case cached_map_loaded (bounded_lru 1) None (\<lambda>b. 0) (\<lambda>b. Ok (length b)) 0 (Some 5)
     (Some \<lparr>cc_max_block_length = 100, cc_cache = []\<rparr>, \<lparr>mf_buffer = sample_bytes, mf_position = 0\<rparr>) of
     (r, c', f') \<Rightarrow> r = Ok 2"
proof -
  let ?f = "\<lparr>mf_buffer = sample_bytes, mf_position = 0\<rparr>"
  have "cache_agrees map_of None (\<lambda>b. 0) (\<lambda>b. Ok (length b)) 5 (mf_buffer ?f) \<lparr>cc_max_block_length = 100, cc_cache = []\<rparr>"
    by (simp add: cache_agrees_def)
  note tr = cache_transparent [OF bounded_lru_law [of 1] this, of 0]
  have "chunk_at None (\<lambda>b. 0) False (mf_buffer ?f) 0 = Ok [7, 8]"
    using chunk_at_here [of "[7, 8]" None "[7, 8]" "[]" "\<lambda>b. 0" False "[]"] by (simp add: sample_bytes_def decrypt_with_def)
  with tr show ?thesis by (auto split: prod.splits)
qed

section \<open>Files that are replaced\<close>

text \<open>Only ids that were given out are in the cache.\<close>

definition cached_ids_below :: "('c \<Rightarrow> chunk_key \<Rightarrow> 'd cache_entry option) \<Rightarrow> u64 \<Rightarrow> 'c chunk_cache \<Rightarrow> bool" where
  "cached_ids_below view n c \<longleftrightarrow> (\<forall>k e. view (cc_cache c) k = Some e \<longrightarrow> ck_file_id k < n)"

lemma fresh_id_agrees: "cached_ids_below view n c \<Longrightarrow> cache_agrees view v crc32 decode n buf c"
  unfolding cache_agrees_def cached_ids_below_def by (metis chunk_key.select_convs(2) less_irrefl)

end
