(* ===== verification/Tree_Lock.thy ===== *)
theory Tree_Lock
  imports Prelude
begin

text \<open>
  The lock of a tree: \<^verbatim>\<open>TreeLock\<close> and \<^verbatim>\<open>TreeLockHandle\<close> of \<^verbatim>\<open>nebari/src/transaction/manager.rs\<close>, as a state machine in
  which any number of threads take their steps in any order. A step is one access to the flag \<^verbatim>\<open>locked\<close> or one
  section under the mutex of \<^verbatim>\<open>blocked\<close>; such a section makes at most one access to the flag. A thread
  waits on one channel at a time, so a channel is known by the thread that waits on it.
\<close>

section \<open>Threads at a lock\<close>

text \<open>Where a thread is: not at the lock, before the first \<^verbatim>\<open>compare_exchange\<close>, before the section under the mutex, waiting
  for a signal, holding the handle, or dropping it with the flag already cleared.\<close>

datatype lock_pc = Outside | Trying | Checking | Waiting | Holding | Releasing

record tree_lock_data =
  lk_locked :: bool
  lk_blocked :: "nat list"
  lk_signals :: "nat set"
  lk_pc :: "nat \<Rightarrow> lock_pc"

definition lock_new :: tree_lock_data where
  "lock_new = \<lparr>lk_locked = False, lk_blocked = [], lk_signals = {}, lk_pc = (\<lambda>t. Outside)\<rparr>"

abbreviation moved :: "nat \<Rightarrow> lock_pc \<Rightarrow> tree_lock_data \<Rightarrow> tree_lock_data" where
  "moved t p s \<equiv> s\<lparr>lk_pc := (lk_pc s)(t := p)\<rparr>"

definition lock_call :: "nat \<Rightarrow> tree_lock_data \<Rightarrow> tree_lock_data" where
  "lock_call t s = moved t Trying s"

text \<open>\<^verbatim>\<open>compare_exchange(false, true)\<close>\<close>

definition lock_try :: "nat \<Rightarrow> tree_lock_data \<Rightarrow> tree_lock_data" where
  "lock_try t s = (if lk_locked s then moved t Checking s else moved t Holding (s\<lparr>lk_locked := True\<rparr>))"

definition lock_check :: "nat \<Rightarrow> tree_lock_data \<Rightarrow> tree_lock_data" where
  "lock_check t s =
     (if lk_blocked s = [] \<and> \<not> lk_locked s then moved t Holding (s\<lparr>lk_locked := True\<rparr>)
      else moved t Waiting (s\<lparr>lk_blocked := lk_blocked s @ [t]\<rparr>))"

definition lock_wake :: "nat \<Rightarrow> tree_lock_data \<Rightarrow> tree_lock_data" where
  "lock_wake t s = moved t Trying (s\<lparr>lk_signals := lk_signals s - {t}\<rparr>)"

definition handle_clear :: "nat \<Rightarrow> tree_lock_data \<Rightarrow> tree_lock_data" where
  "handle_clear t s = moved t Releasing (s\<lparr>lk_locked := False\<rparr>)"

definition handle_signal :: "nat \<Rightarrow> tree_lock_data \<Rightarrow> tree_lock_data" where
  "handle_signal t s = moved t Outside (s\<lparr>lk_signals := lk_signals s \<union> set (lk_blocked s), lk_blocked := []\<rparr>)"

inductive lock_step :: "nat \<Rightarrow> tree_lock_data \<Rightarrow> tree_lock_data \<Rightarrow> bool" where
  step_call: "lk_pc s t = Outside \<Longrightarrow> lock_step t s (lock_call t s)"
| step_try: "lk_pc s t = Trying \<Longrightarrow> lock_step t s (lock_try t s)"
| step_check: "lk_pc s t = Checking \<Longrightarrow> lock_step t s (lock_check t s)"
| step_wake: "lk_pc s t = Waiting \<Longrightarrow> t \<in> lk_signals s \<Longrightarrow> lock_step t s (lock_wake t s)"
| step_clear: "lk_pc s t = Holding \<Longrightarrow> lock_step t s (handle_clear t s)"
| step_signal: "lk_pc s t = Releasing \<Longrightarrow> lock_step t s (handle_signal t s)"

inductive lock_steps :: "tree_lock_data \<Rightarrow> tree_lock_data \<Rightarrow> bool" where
  steps_none: "lock_steps s s"
| steps_more: "lock_step t s s1 \<Longrightarrow> lock_steps s1 s2 \<Longrightarrow> lock_steps s s2"

abbreviation lock_reachable :: "tree_lock_data \<Rightarrow> bool" where
  "lock_reachable s \<equiv> lock_steps lock_new s"

section \<open>The invariant\<close>

text \<open>The flag is set while a thread holds the handle. A thread that waits has its sender among the blocked ones or
  has been signalled. Senders are blocked only while somebody will signal them.\<close>

definition threads :: "lock_pc \<Rightarrow> tree_lock_data \<Rightarrow> nat set" where
  "threads p s = {t. lk_pc s t = p}"

definition lock_inv :: "tree_lock_data \<Rightarrow> bool" where
  "lock_inv s \<longleftrightarrow>
     (if lk_locked s then \<exists>h. threads Holding s = {h} else threads Holding s = {}) \<and>
     (lk_blocked s \<noteq> [] \<longrightarrow> lk_locked s \<or> threads Releasing s \<noteq> {}) \<and>
     threads Waiting s = set (lk_blocked s) \<union> lk_signals s \<and> set (lk_blocked s) \<inter> lk_signals s = {}"

lemma in_threads [simp]: "t \<in> threads p s \<longleftrightarrow> lk_pc s t = p"
  by (simp add: threads_def)

lemma threads_at [simp]: "threads q (r\<lparr>lk_pc := (lk_pc s)(t := p)\<rparr>) = (if q = p then insert t (threads q s) else threads q s - {t})"
  by (auto simp: threads_def)

lemma threads_cong [simp]: "threads p (s\<lparr>lk_locked := l\<rparr>) = threads p s" "threads p (s\<lparr>lk_blocked := b\<rparr>) = threads p s"
  "threads p (s\<lparr>lk_signals := g\<rparr>) = threads p s"
  by (simp_all add: threads_def)

lemma lock_new_inv: "lock_inv lock_new"
  by (simp add: lock_inv_def lock_new_def threads_def)

lemma other_threads: "lk_pc s t \<noteq> p \<Longrightarrow> threads p s - {t} = threads p s"
  by auto

lemma holding_only:
  assumes "lock_inv s" and "lk_pc s t = Holding"
  shows "lk_locked s" and "threads Holding s = {t}"
proof -
  have "t \<in> threads Holding s" using assms(2) by simp
  then show "lk_locked s" "threads Holding s = {t}" using assms(1) unfolding lock_inv_def by (metis empty_iff singletonD)+
qed

lemma not_waiting:
  assumes "lock_inv s" and "lk_pc s t \<noteq> Waiting"
  shows "t \<notin> set (lk_blocked s) \<union> lk_signals s"
  using assms in_threads [of t Waiting s] unfolding lock_inv_def by simp

lemma lock_step_inv: "lock_step t s s' \<Longrightarrow> lock_inv s \<Longrightarrow> lock_inv s'"
proof (induction rule: lock_step.induct)
  case (step_wake s t)
  then have "t \<notin> set (lk_blocked s)" by (auto simp: lock_inv_def)
  with step_wake show ?case by (auto simp: lock_inv_def lock_wake_def other_threads)
next
  case (step_clear s t)
  note only = holding_only [OF step_clear(2,1)]
  moreover have "t \<notin> set (lk_blocked s) \<union> lk_signals s" using not_waiting step_clear by simp
  ultimately show ?case using step_clear by (auto simp: lock_inv_def handle_clear_def)
next
  case (step_signal s t)
  then have "t \<notin> set (lk_blocked s) \<union> lk_signals s" using not_waiting by simp
  with step_signal show ?case by (auto simp: lock_inv_def handle_signal_def other_threads)
next
  case (step_check s t)
  then have "t \<notin> set (lk_blocked s) \<union> lk_signals s" using not_waiting by simp
  with step_check show ?case by (auto simp: lock_inv_def lock_check_def other_threads)
next
  case (step_call s t)
  then have "t \<notin> set (lk_blocked s) \<union> lk_signals s" using not_waiting by simp
  with step_call show ?case by (auto simp: lock_inv_def lock_call_def other_threads)
next
  case (step_try s t)
  then have "t \<notin> set (lk_blocked s) \<union> lk_signals s" using not_waiting by simp
  with step_try show ?case by (auto simp: lock_inv_def lock_try_def other_threads)
qed

lemma lock_inv_facts:
  assumes "lock_inv s"
  shows "lk_locked s \<longleftrightarrow> (\<exists>t. lk_pc s t = Holding)" and "lk_pc s t = Holding \<Longrightarrow> lk_pc s t' = Holding \<Longrightarrow> t = t'"
    and "lk_pc s t = Waiting \<longleftrightarrow> t \<in> set (lk_blocked s) \<or> t \<in> lk_signals s"
    and "lk_blocked s \<noteq> [] \<Longrightarrow> (\<exists>t. lk_pc s t = Holding) \<or> (\<exists>t. lk_pc s t = Releasing)"
proof -
  note inv = assms [unfolded lock_inv_def]
  show "lk_locked s \<longleftrightarrow> (\<exists>t. lk_pc s t = Holding)"
    using inv holding_only(1) [OF assms] unfolding threads_def by (metis mem_Collect_eq singletonI)
  show "lk_pc s t = Holding \<Longrightarrow> lk_pc s t' = Holding \<Longrightarrow> t = t'" using holding_only(2) [OF assms] by blast
  show "lk_pc s t = Waiting \<longleftrightarrow> t \<in> set (lk_blocked s) \<or> t \<in> lk_signals s" using inv in_threads [of t Waiting s] by blast
  show "lk_blocked s \<noteq> [] \<Longrightarrow> (\<exists>t. lk_pc s t = Holding) \<or> (\<exists>t. lk_pc s t = Releasing)"
    using inv \<open>lk_locked s \<longleftrightarrow> _\<close> unfolding threads_def by blast
qed

lemma lock_steps_inv: "lock_steps s s' \<Longrightarrow> lock_inv s \<Longrightarrow> lock_inv s'"
  by (induction rule: lock_steps.induct) (auto dest: lock_step_inv)

lemma reachable_inv: "lock_reachable s \<Longrightarrow> lock_inv s"
  using lock_steps_inv lock_new_inv by blast

lemma lock_steps_trans: "lock_steps s s1 \<Longrightarrow> lock_steps s1 s2 \<Longrightarrow> lock_steps s s2"
  by (induction rule: lock_steps.induct) (auto intro: lock_steps.steps_more)

lemma lock_steps_one: "lock_step t s s' \<Longrightarrow> lock_steps s s'"
  by (blast intro: lock_steps.intros)

section \<open>Getting the lock\<close>

lemma trying_gets_lock:
  assumes inv: "lock_inv s" and "lk_pc s t = Trying"
  shows "\<exists>s'. lock_steps s s' \<and> lk_pc s' t = Holding"
proof (cases "lk_locked s")
  case True
  then obtain h where h: "lk_pc s h = Holding" using lock_inv_facts(1) [OF inv] by blast
  let ?s = "handle_clear h s"
  have "lk_pc ?s t = Trying" using assms(2) h by (auto simp: handle_clear_def)
  then have "lock_step t ?s (lock_try t ?s)" by (rule lock_step.step_try)
  moreover have "lk_pc (lock_try t ?s) t = Holding" by (simp add: lock_try_def handle_clear_def)
  ultimately show ?thesis using h by (blast intro: lock_steps.intros lock_step.step_clear)
next
  case False
  then have "lk_pc (lock_try t s) t = Holding" by (simp add: lock_try_def)
  with assms(2) show ?thesis by (blast intro: lock_steps_one lock_step.step_try)
qed

lemma signalled_gets_lock:
  assumes "lock_inv s" and "lk_pc s t = Waiting" and "t \<in> lk_signals s"
  shows "\<exists>s'. lock_steps s s' \<and> lk_pc s' t = Holding"
proof -
  have step: "lock_step t s (lock_wake t s)" using assms(2,3) by (rule lock_step.step_wake)
  then have "lock_inv (lock_wake t s)" using assms(1) by (rule lock_step_inv)
  moreover have "lk_pc (lock_wake t s) t = Trying" by (simp add: lock_wake_def)
  ultimately show ?thesis using trying_gets_lock step by (blast intro: lock_steps.steps_more)
qed

lemma releasing_signals:
  assumes inv: "lock_inv s" and "lk_pc s r = Releasing" and t: "lk_pc s t = Waiting"
  shows "\<exists>s'. lock_steps s s' \<and> lk_pc s' t = Holding"
proof -
  have step: "lock_step r s (handle_signal r s)" using assms(2) by (rule lock_step.step_signal)
  have "t \<in> lk_signals (handle_signal r s)" using lock_inv_facts(3) [OF inv, of t] t by (auto simp: handle_signal_def)
  moreover have "lk_pc (handle_signal r s) t = Waiting" using assms(2) t by (auto simp: handle_signal_def)
  ultimately show ?thesis using signalled_gets_lock lock_step_inv [OF step inv] step by (blast intro: lock_steps.steps_more)
qed

lemma waiting_gets_lock:
  assumes inv: "lock_inv s" and t: "lk_pc s t = Waiting"
  shows "\<exists>s'. lock_steps s s' \<and> lk_pc s' t = Holding"
proof -
  consider (signalled) "t \<in> lk_signals s" | (held) h where "lk_pc s h = Holding" | (releasing) r where "lk_pc s r = Releasing"
    using lock_inv_facts(3,4) [OF inv] t by (metis empty_iff list.set(1))
  then show ?thesis
  proof cases
    case held
    have step: "lock_step h s (handle_clear h s)" using held by (rule lock_step.step_clear)
    have "lk_pc (handle_clear h s) h = Releasing" "lk_pc (handle_clear h s) t = Waiting"
      using held t by (auto simp: handle_clear_def)
    then show ?thesis using releasing_signals lock_step_inv [OF step inv] step by (blast intro: lock_steps.steps_more)
  qed (use signalled_gets_lock releasing_signals inv t in blast)+
qed

lemma checking_gets_lock:
  assumes inv: "lock_inv s" and t: "lk_pc s t = Checking"
  shows "\<exists>s'. lock_steps s s' \<and> lk_pc s' t = Holding"
proof -
  have step: "lock_step t s (lock_check t s)" using t by (rule lock_step.step_check)
  have "lk_pc (lock_check t s) t = Holding \<or> lk_pc (lock_check t s) t = Waiting" by (simp add: lock_check_def)
  then show ?thesis using waiting_gets_lock lock_step_inv [OF step inv] step by (blast intro: lock_steps.steps_more lock_steps_one)
qed

text \<open>
  C8. A tree is locked by one thread at a time: in every reachable state at most one thread holds the handle, and the flag
  tells whether there is one.
\<close>

theorem tree_lock_exclusive:
  assumes "lock_reachable s"
  shows "(lk_locked s \<longleftrightarrow> (\<exists>t. lk_pc s t = Holding)) \<and> (lk_pc s t = Holding \<longrightarrow> lk_pc s t' = Holding \<longrightarrow> t = t')"
  using lock_inv_facts(1,2) [OF reachable_inv [OF assms]] by blast

text \<open>Thread 1 has the lock, thread 2 waits for it.\<close>

definition contended :: tree_lock_data where
  "contended = lock_check 2 (lock_try 2 (lock_call 2 (lock_try 1 (lock_call 1 lock_new))))"

lemma contended_reachable: "lock_reachable contended" "lk_pc contended 1 = Holding" "lk_pc contended 2 = Waiting"
proof -
  show "lk_pc contended 1 = Holding" "lk_pc contended 2 = Waiting"
    by (simp_all add: contended_def lock_check_def lock_try_def lock_call_def lock_new_def)
  have "lock_step 1 lock_new (lock_call 1 lock_new)" by (rule lock_step.step_call) (simp add: lock_new_def)
  moreover have "lock_step 1 (lock_call 1 lock_new) (lock_try 1 (lock_call 1 lock_new))"
    by (rule lock_step.step_try) (simp add: lock_call_def)
  moreover let ?s = "lock_try 1 (lock_call 1 lock_new)"
  have "lock_step 2 ?s (lock_call 2 ?s)"
    by (rule lock_step.step_call) (simp add: lock_try_def lock_call_def lock_new_def)
  moreover have "lock_step 2 (lock_call 2 ?s) (lock_try 2 (lock_call 2 ?s))" by (rule lock_step.step_try) (simp add: lock_call_def)
  moreover have "lock_step 2 (lock_try 2 (lock_call 2 ?s)) contended"
    unfolding contended_def by (rule lock_step.step_check) (simp add: lock_try_def lock_call_def lock_new_def)
  ultimately show "lock_reachable contended" by (blast intro: lock_steps.intros)
qed

theorem tree_lock_exclusive_witness: "lk_locked contended \<and> lk_pc contended 3 \<noteq> Holding"
  using tree_lock_exclusive [OF contended_reachable(1), of 1 3] contended_reachable(2) by auto

text \<open>
  C7. No wakeup is lost: whatever the threads have done, a thread that has called \<^verbatim>\<open>lock\<close> can still get the lock. In particular a
  thread that waits has been signalled, or there is a thread that will signal it.
\<close>

theorem tree_lock_attainable:
  assumes "lock_reachable s" and "lk_pc s t \<in> {Trying, Checking, Waiting}"
  shows "(\<exists>s'. lock_steps s s' \<and> lk_pc s' t = Holding) \<and>
    (lk_pc s t = Waiting \<longrightarrow> t \<in> lk_signals s \<or> (\<exists>t'. lk_pc s t' \<in> {Holding, Releasing}))"
proof -
  note inv = reachable_inv [OF assms(1)]
  have "\<exists>s'. lock_steps s s' \<and> lk_pc s' t = Holding"
    using assms(2) trying_gets_lock [OF inv] checking_gets_lock [OF inv] waiting_gets_lock [OF inv] by blast
  moreover have "t \<in> lk_signals s \<or> (\<exists>t'. lk_pc s t' \<in> {Holding, Releasing})" if "lk_pc s t = Waiting"
    using lock_inv_facts(3,4) [OF inv] that by (metis empty_iff insert_iff list.set(1))
  ultimately show ?thesis by blast
qed

theorem tree_lock_attainable_witness:
  "\<exists>s'. lock_steps contended s' \<and> lk_pc s' 2 = Holding"
  using tree_lock_attainable [OF contended_reachable(1), of 2] contended_reachable(3) by simp

end
