(* ===== verification/Roots_Properties.thy ===== *)
theory Roots_Properties
  imports Un_Leaf Sample_File Success_Queries Chunk_Cache Tree_Lock
begin

text \<open>
  The properties of a database: writing to its trees and reading them, locks, deleted trees, and replaced files.
\<close>

section \<open>A sample database\<close>

text \<open>One unversioned tree, opened on an empty file; the log is empty.\<close>

definition sample_root :: "(unit, unit) unversioned_root tree_root" where
  "sample_root = \<lparr>tr_name = ''a'', tr_vault = None, tr_default = un_default_with no_index\<rparr>"

definition sample_tree :: "(unit, unit) unversioned_root tree" where
  "sample_tree = \<lparr>te_root = sample_root, te_cell = 0\<rparr>"

definition list_cache :: "((transaction_id \<times> nat option) list) lru_ops" where
  "list_cache = \<lparr>lru_put = (\<lambda>i p c. (i, p) # c), lru_get = (\<lambda>i c. (map_of c i, c))\<rparr>"

definition no_files :: memory_manager where
  "no_files = \<lparr>mm_file_ids = \<lparr>pi_counter = 0, pi_ids = []\<rparr>, mm_open_files = [], mm_open_buffers = [],
     mm_buffers = (\<lambda>_. []), mm_next = 0, mm_held = []\<rparr>"

abbreviation sample_family :: "vault option \<Rightarrow> ((unit, unit) unversioned_root, unit unversioned_by_id, unit by_id_stats, unit) root_ops" where
  "sample_family \<equiv> un_family 100 no_root no_crc unit_ser unit_ser unit_des unit_des"

definition sample_files :: memory_manager where
  "sample_files = snd (fm_append [''db'', ''a.nebari''] no_files)\<lparr>mm_held := []\<rparr>"

definition sample_database :: "((unit, unit) unversioned_root, (transaction_id \<times> nat option) list) roots" where
  "sample_database =
     \<lparr>rt_path = [''db''], rt_vault = None, rt_files = sample_files,
      rt_cells = (\<lambda>_. state_new (Some 0) None (un_initialize_default (un_default_with no_index))), rt_next_cell = 1,
      rt_tree_states = [(''a'', 0)], rt_thread = (case manager_run None (Some []) [] of Ok thread \<Rightarrow> thread),
      rt_stopped = False, rt_commands = [], rt_channels = 0, rt_locked = []\<rparr>"

lemma sample_files_known: "known_file sample_files [''db'', ''a.nebari''] = (Some 0, Some 0)" "mm_buffers sample_files 0 = []"
  by code_simp+

lemma sample_thread:
  "thread_inv None [] (rt_thread sample_database)" "mt_batch (rt_thread sample_database) = []" "mt_sent (rt_thread sample_database) = []"
  "ids_seen (mt_pending (rt_thread sample_database)) = {..<1}" "next_id_of (mt_log (rt_thread sample_database)) = 1"
proof -
  obtain thr where thr: "manager_run None (Some []) ([] :: (transaction_id \<times> nat option) list) = Ok thr" "thread_inv None [] thr"
    "mt_batch thr = []" "mt_sent thr = []" "ids_seen (mt_pending thr) = {..unat (last_id 0 [])}"
    "ts_next_transaction_id (tl_state (mt_log thr)) = last_id 0 [] + 1"
    using manager_run_inv [OF plain_vault, of "[]" "[]" "[] :: (transaction_id \<times> nat option) list"] by (auto simp: ids_ascending_def)
  have "rt_thread sample_database = thr" using thr(1) by (simp add: sample_database_def)
  with thr show "thread_inv None [] (rt_thread sample_database)" "mt_batch (rt_thread sample_database) = []"
    "mt_sent (rt_thread sample_database) = []" "ids_seen (mt_pending (rt_thread sample_database)) = {..<1}"
    "next_id_of (mt_log (rt_thread sample_database)) = 1"
    by (auto simp: ts_next_transaction_id_def last_id_def)
qed

lemma sample_opened: "un_database no_crc unit_des unit_des 100 0 [] 0 [] [] sample_tree 0 0 sample_database"
proof -
  have "tree_at un_initialized sample_tree 0 0 sample_database"
    by (simp add: tree_at_def sample_database_def sample_tree_def sample_root_def tree_path_def sample_files_known check_name_def
        valid_char_def state_new_def un_initialize_default_def un_initialized_def Let_def)
  moreover have "transactions_open None [] {} sample_database"
    using sample_thread by (simp add: transactions_open_def id_split_def sample_database_def)
  moreover have "un_ready None no_crc unit_des unit_des 100 0 [] 0 [] (file_at sample_tree 0 0 sample_database)"
    using sample_ready
    by (simp add: un_ready_def un_file_ok_def sample_file_def tree_file_new_def sample_database_def sample_files_known state_new_def has_room_def Let_def)
  moreover have "un_initialized (as_root (st_writer (rt_cells sample_database (te_cell sample_tree))))" "rt_locked sample_database = []"
    "rt_vault sample_database = None" "tree_vault (te_root sample_tree) sample_database = None"
    by (simp_all add: sample_database_def tree_vault_def sample_tree_def sample_root_def state_new_def un_initialize_default_def
        un_initialized_def Let_def)
  ultimately show ?thesis using sample_thread(5) by (simp add: un_database_def can_begin_def pushable_plain)
qed

lemma same_vault: "rt_vault db' = rt_vault db \<Longrightarrow> tree_vault r db' = tree_vault r db"
  by (simp add: tree_vault_def split: option.split)

section \<open>Writing and reading\<close>

text \<open>
  C1. A key set through the database is there: \<^verbatim>\<open>Tree::set\<close> runs a transaction of its own. When it returns
  successfully the transaction is in the log, the lock is free again, and every \<^verbatim>\<open>Tree::get\<close> returns the new value
  for the key and the old one for every other key. When it fails, readers see what they saw before.
\<close>

theorem database_set_get:
  fixes db :: "(('e, 'es) unversioned_root, 'c) roots"
  assumes un: "un_tree (tree_vault (te_root t) db) eser edes esser esdes"
    and db: "un_database crc32 edes esdes fuel nr kr nw kw es t i a db" and st: "storable (tree_vault (te_root t) db) b"
    and attempts: "0 < attempts"
    and run: "tree_set (un_family fuel cbrt crc32 eser esser edes esdes) lru t k b db = (r, db')"
  shows "rt_locked db' = rt_locked db \<and>
    (r = Ok () \<longrightarrow>
       log_ok (rt_vault db) (es @ [\<lparr>le_id = next_id_of (mt_log (rt_thread db)), le_data = None\<rparr>]) (mt_log (rt_thread db')) \<and>
       (length (mm_buffers (rt_files db') a) + 260 < 2 ^ 64 \<longrightarrow>
         (\<forall>k'. tree_get (un_family fuel cbrt crc32 eser esser edes esdes) lru (\<lambda>n db. db) attempts t k' db' =
           (Ok (if k' = k then Some b else map_of kw k'), db')))) \<and>
    (r \<noteq> Ok () \<longrightarrow>
       log_ok (rt_vault db) es (mt_log (rt_thread db')) \<and>
       (\<forall>k'. tree_get (un_family fuel cbrt crc32 eser esser edes esdes) lru (\<lambda>n db. db) attempts t k' db' = (Ok (map_of kr k'), db')))"
proof -
  let ?v = "tree_vault (te_root t) db" and ?fam = "un_family fuel cbrt crc32 eser esser edes esdes"
  note res = tree_set_runs [OF un refl db st run]
  have v: "tree_vault (te_root t) db' = ?v" using res by (intro same_vault) simp
  have at: "tree_at (ro_initialized (?fam (tree_vault (te_root t) db'))) t i a db'" using res by simp
  have ready: "un_ready ?v crc32 edes esdes fuel nr kr nw kw (file_at t i a db)" using db by (simp add: un_database_def)
  then have fuel: "nr < fuel" "(nw + 1) * 3 + 1 \<le> fuel" "ksorted kw"
    using un_holds_sorted by (auto simp: un_ready_def un_file_ok_def)
  have get: "tree_get ?fam lru (\<lambda>n db. db) attempts t k' db' = (Ok x, db')"
    if "tf_get (un_ops fuel cbrt ?v crc32 eser esser edes esdes :: (_, _, _, unit) root_ops) k' False (file_at t i a db') = Ok x" for k' x
    unfolding tree_get_def by (rule read_known [where ops = ?fam, OF at attempts]) (use that v in simp)
  show ?thesis
  proof (cases "r = Ok ()")
    case True
    have "tree_get ?fam lru (\<lambda>n db. db) attempts t k' db' = (Ok (if k' = k then Some b else map_of kw k'), db')"
      if fits: "length (mm_buffers (rt_files db') a) + 260 < 2 ^ 64" for k'
    proof -
      obtain n' where n': "n' \<le> nw + 1" "un_file_ok ?v crc32 edes esdes n' (upd_sorted k b kw) n' (upd_sorted k b kw) (file_at t i a db')"
        using res True fits by auto
      have "seen False n' n' < fuel" using n'(1) fuel(2) by (simp add: seen_def)
      from get [OF un_get [OF n'(2) this]] show ?thesis using fuel(3) by (simp add: seen_def map_of_upd_sorted)
    qed
    with True res show ?thesis by (auto simp: transactions_open_def thread_inv_def thread_core_def)
  next
    case False
    have "tree_get ?fam lru (\<lambda>n db. db) attempts t k' db' = (Ok (map_of kr k'), db')" for k'
      by (rule get, rule un_readers_keep(1) [OF _ fuel(1)])
        (use ready res False in \<open>auto simp: un_ready_def\<close>)
    with False res show ?thesis by (auto simp: transactions_open_def thread_inv_def thread_core_def)
  qed
qed

text \<open>A short first key of a tree without a vault can be saved.\<close>

lemma first_set_succeeds:
  fixes db :: "((unit, unit) unversioned_root, 'c) roots"
  assumes v: "tree_vault (te_root t) db = None"
    and db: "un_database crc32 unit_des unit_des fuel nr kr 0 [] es t i a db" and k: "length k < 2 ^ 16" and b: "length b < 2 ^ 32"
    and room: "length (mm_buffers (rt_files db) a) + 10 * 2 ^ 32 < 2 ^ 64"
  obtains db' where "tree_set (un_family fuel cbrt crc32 unit_ser unit_ser unit_des unit_des) lru t k b db = (Ok (), db')"
    and "length (mm_buffers (rt_files db') a) + 260 < 2 ^ 64"
proof -
  have v': "None = tree_vault (te_root t) db" using v by simp
  have ready: "un_ready None crc32 unit_des unit_des fuel nr kr 0 [] (file_at t i a db)" using db v by (simp add: un_database_def)
  show thesis
  proof (rule tree_set_steps [OF un_plain.un_tree_axioms v' db, of b cbrt k lru], goal_cases)
    case 1
    then show ?case using b by (rule short_storable)
  next
    case (2 j n tf1 r tf2)
    note st = this
    obtain x where root: "un_by_id_root (as_root (st_writer (tf_state tf1))) = BTreeEntry True (Leaf [KeyEntry k x])"
      using first_key_root [OF ready short_storable [OF b] st(1)] by blast
    have "length (mf_buffer (tf_file (rewound tf1))) + 264 < 2 ^ 64" using st(4) room by (simp add: chunk_limit_def)
    from commit_short_key [OF _ k _ _ this, of x crc32 nr kr n "upd_sorted k b []" fuel cbrt, where 'cs = unit] root st(3,5,6)
    have r: "r = Ok ()" and len: "length (mf_buffer (tf_file tf2)) \<le> length (mf_buffer (tf_file tf1)) + 66000" by auto
    show thesis using st(11) [OF r] len st(4) room by (auto simp: store_tree_def chunk_limit_def intro: that)
  qed
qed

theorem database_set_get_witness:
  "\<exists>db'. tree_set sample_family list_cache sample_tree [1] [2] sample_database = (Ok (), db') \<and>
    tree_get sample_family list_cache (\<lambda>n db. db) 1 sample_tree [1] db' = (Ok (Some [2]), db') \<and>
    tree_get sample_family list_cache (\<lambda>n db. db) 1 sample_tree [3] db' = (Ok None, db')"
proof -
  have v: "tree_vault (te_root sample_tree) sample_database = None"
    by (simp add: tree_vault_def sample_tree_def sample_root_def sample_database_def)
  have room: "length (mm_buffers (rt_files sample_database) 0) + 10 * 2 ^ 32 < 2 ^ 64"
    by (simp add: sample_database_def sample_files_known)
  obtain db' where set: "tree_set sample_family list_cache sample_tree [1] [2] sample_database = (Ok (), db')"
    and len: "length (mm_buffers (rt_files db') 0) + 260 < 2 ^ 64"
    by (rule first_set_succeeds [OF v sample_opened _ _ room, of "[1]" "[2]" no_root list_cache]) simp_all
  note get = database_set_get [OF _ sample_opened _ _ set, unfolded v, OF un_plain.un_tree_axioms, of 1]
  from get len set show ?thesis by (auto simp: short_storable)
qed

section \<open>A set that failed\<close>

lemma store_same [simp]: "store_tree ot (tree_file_of ot db) db = db"
  by (simp add: store_tree_def tree_file_of_def handle_file_def)

lemma file_at_rewound [simp]: "rewound (file_at t i a db) = file_at t i a db"
  by (simp add: rewound_def)




section \<open>Reading while trees are compacted and deleted\<close>

lemma stale_get: "as_file_id (st_reader (tf_state tf)) \<noteq> tf_id tf \<Longrightarrow> tf_get ops k False tf = Err TreeCompacted"
  by (simp add: tf_get_def tree_getter_def read_state_def res_map_def Let_def)

lemma get_checks_id: "tf_get ops k False tf = Ok x \<Longrightarrow> as_file_id (st_reader (tf_state tf)) = tf_id tf"
  using stale_get [of tf ops k] by (cases "as_file_id (st_reader (tf_state tf)) = tf_id tf") simp_all

text \<open>A tree whose file is known and whose key can be read.\<close>

definition readable :: "(vault option \<Rightarrow> ('t, 'i, 'r, 's) root_ops) \<Rightarrow> 't tree \<Rightarrow> bytes \<Rightarrow> ('t, 'c) roots \<Rightarrow> bool" where
  "readable ops t k db \<longleftrightarrow>
     (\<exists>i a x. tree_at (ro_initialized (ops (tree_vault (te_root t) db))) t i a db \<and>
        tf_get (ops (tree_vault (te_root t) db)) k False (file_at t i a db) = Ok x)"

text \<open>What another thread may do: the tree stays readable, and a file that got other contents got another id.\<close>

definition interferes :: "(vault option \<Rightarrow> ('t, 'i, 'r, 's) root_ops) \<Rightarrow> 't tree \<Rightarrow> bytes \<Rightarrow> (('t, 'c) roots \<Rightarrow> ('t, 'c) roots) \<Rightarrow> bool" where
  "interferes ops t k f \<longleftrightarrow>
     (\<forall>db. readable ops t k db \<longrightarrow> readable ops t k (f db) \<and> rt_vault (f db) = rt_vault db \<and>
        (\<forall>i a a'. known_file (rt_files db) (tree_path (tr_name (te_root t)) db) = (Some i, Some a) \<longrightarrow>
           known_file (rt_files (f db)) (tree_path (tr_name (te_root t)) (f db)) = (Some i, Some a') \<longrightarrow> a' = a))"

lemma tree_at_held [simp]: "tree_at p t i a (db\<lparr>rt_files := (rt_files db)\<lparr>mm_held := x\<rparr>\<rparr>) \<longleftrightarrow> tree_at p t i a db"
  "tree_vault r (db\<lparr>rt_files := (rt_files db)\<lparr>mm_held := x\<rparr>\<rparr>) = tree_vault r db"
  "tree_path name (db\<lparr>rt_files := (rt_files db)\<lparr>mm_held := x\<rparr>\<rparr>) = tree_path name db"
  by (simp_all add: tree_at_def tree_path_def known_file_def tree_vault_def split: option.split)

lemma readable_held [simp]: "readable ops t k (db\<lparr>rt_files := (rt_files db)\<lparr>mm_held := x\<rparr>\<rparr>) \<longleftrightarrow> readable ops t k db"
  by (simp add: readable_def)

text \<open>An attempt returns, or the file was compacted while it ran.\<close>

lemma attempt_reads:
  assumes ok: "readable ops t k db" and int: "interferes ops t k (others n)"
    and run: "read_attempt others (tree_open_for_read ops lru t) None (\<lambda>v. tf_get (ops v) k False) n db = (r, db')"
  shows "readable ops t k db'" and "(\<exists>x. r = Ok x) \<or> r = Err TreeCompacted" and "(\<And>d. others n d = d) \<Longrightarrow> \<exists>x. r = Ok x"
proof -
  let ?v = "tree_vault (te_root t) db" and ?path = "\<lambda>d. tree_path (tr_name (te_root t)) d"
  obtain i a x where at: "tree_at (ro_initialized (ops ?v)) t i a db" and x: "tf_get (ops ?v) k False (file_at t i a db) = Ok x"
    using ok unfolding readable_def by blast
  define d where "d = others n (holding a db)"
  have known: "known_file (rt_files (holding a db)) (?path (holding a db)) = (Some i, Some a)"
    using at by (simp add: tree_at_def known_file_def)
  have "readable ops t k (holding a db)" using ok by simp
  note d_all = int [unfolded interferes_def, rule_format, OF this, folded d_def]
  then have d: "readable ops t k d" "rt_vault d = rt_vault db" by simp_all
  have same: "a' = a" if "known_file (rt_files d) (?path d) = (Some i, Some a')" for a'
    using d_all known that by blast
  have r: "r = tf_get (ops ?v) k False (file_at t i a d)" and db': "db' = close_tree (opened_at ?v t i a db) d"
    using run open_known [of ops ?v, OF at, of lru]
    by (simp_all add: read_attempt_def tree_open_for_read_def d_def tree_file_of_def handle_file_def Let_def)
  show "readable ops t k db'" using d(1) by (simp add: db' close_tree_def drop_handle_def)
  obtain i' a' x' where at': "tree_at (ro_initialized (ops ?v)) t i' a' d" and x': "tf_get (ops ?v) k False (file_at t i' a' d) = Ok x'"
    using d(1) unfolding readable_def same_vault [OF d(2)] by blast
  show "(\<exists>x. r = Ok x) \<or> r = Err TreeCompacted"
  proof (cases "i' = i")
    case True
    then have "a' = a" using at' same by (simp add: tree_at_def)
    with True x' r show ?thesis by blast
  next
    case False
    then show ?thesis using get_checks_id [OF x'] stale_get [of "file_at t i a d" "ops ?v" k] r by simp
  qed
  show "\<exists>x. r = Ok x" if "\<And>d. others n d = d" using x that by (simp add: r d_def)
qed

text \<open>
  C6. A read returns: other threads may compact the tree between its attempts, but as soon as one attempt is left
  alone the read has its result. It takes no more attempts than there were compactions, and one.
\<close>

theorem read_returns:
  assumes "readable ops t k db" and "\<And>n. interferes ops t k (others n)" and "\<And>d. others quiet d = d" and "quiet < attempts"
  shows "\<exists>x db'. tree_get ops lru others attempts t k db = (Ok x, db')"
proof -
  have "\<exists>x db'. catch_compaction_and_retry (Suc m) n
      (read_attempt others (tree_open_for_read ops lru t) None (\<lambda>v. tf_get (ops v) k False)) d = (Ok x, db')"
    if "readable ops t k d" "n \<le> quiet" "quiet \<le> n + m" for m n d
    using that
  proof (induction m arbitrary: n d)
    case 0
    obtain r d' where run: "read_attempt others (tree_open_for_read ops lru t) None (\<lambda>v. tf_get (ops v) k False) n d = (r, d')" by fastforce
    have "n = quiet" using 0 by simp
    then obtain x where "r = Ok x" using attempt_reads(3) [OF 0(1) assms(2) run] assms(3) by blast
    with run show ?case by simp
  next
    case (Suc m)
    obtain r d' where run: "read_attempt others (tree_open_for_read ops lru t) None (\<lambda>v. tf_get (ops v) k False) n d = (r, d')" by fastforce
    note att = attempt_reads [OF Suc.prems(1) assms(2) run]
    from att(2) show ?case
    proof
      assume r: "r = Err TreeCompacted"
      then have "n \<noteq> quiet" using att(3) assms(3) by force
      then have "\<exists>x db'. catch_compaction_and_retry (Suc m) (n + 1)
          (read_attempt others (tree_open_for_read ops lru t) None (\<lambda>v. tf_get (ops v) k False)) d' = (Ok x, db')"
        using Suc.prems by (intro Suc.IH [OF att(1)]) simp_all
      then show ?thesis using run r by simp
    qed (use run in auto)
  qed
  from this [OF assms(1), of 0 "attempts - 1"] assms(4) show ?thesis by (simp add: tree_get_def read_tree_def)
qed

text \<open>The sample database after another thread has compacted the tree: its file has another id.\<close>

definition compacted_database :: "((unit, unit) unversioned_root, (transaction_id \<times> nat option) list) roots" where
  "compacted_database = sample_database
     \<lparr>rt_files := sample_files\<lparr>mm_file_ids := \<lparr>pi_counter = 2, pi_ids = [([''db'', ''a.nebari''], 1)]\<rparr>, mm_open_files := [(1, 0)],
        mm_held := [0]\<rparr>,
      rt_cells := (\<lambda>_. state_new (Some 1) None (un_initialize_default (un_default_with no_index)))\<rparr>"

lemma un_readable:
  assumes "tree_at un_initialized t i a db" "nr < fuel"
    and "un_file_ok (tree_vault (te_root t) db) crc32 edes esdes nr kr nw kw (file_at t i a db)"
  shows "readable (un_family fuel cbrt crc32 eser esser edes esdes) t k db"
proof -
  have "tf_get (un_ops fuel cbrt (tree_vault (te_root t) db) crc32 eser esser edes esdes :: (_, _, _, unit) root_ops) k False
      (file_at t i a db) = Ok (map_of kr k)"
    using un_get [OF assms(3), of False fuel, where 'cs = unit] assms(2) by (simp add: seen_def)
  with assms(1) show ?thesis unfolding readable_def by (intro exI [of _ i] exI [of _ a]) auto
qed

lemma sample_readable: "readable sample_family sample_tree [1] sample_database"
proof -
  have v: "tree_vault (te_root sample_tree) sample_database = None"
    by (simp add: tree_vault_def sample_tree_def sample_root_def sample_database_def)
  then have "un_file_ok None no_crc unit_des unit_des 0 [] 0 [] (file_at sample_tree 0 0 sample_database)"
    using sample_opened by (simp add: un_database_def un_ready_def)
  with v sample_opened show ?thesis
    by (intro un_readable [where i = 0 and a = 0]) (simp_all add: un_database_def can_begin_def)
qed

lemma compacted_readable: "readable sample_family sample_tree [1] compacted_database"
proof -
  have v: "tree_vault (te_root sample_tree) compacted_database = None"
    by (simp add: tree_vault_def sample_tree_def sample_root_def sample_database_def compacted_database_def)
  have "un_file_ok None no_crc unit_des unit_des 0 [] 0 [] (file_at sample_tree 1 0 compacted_database)"
    using sample_ready by (simp add: un_ready_def un_file_ok_def sample_file_def tree_file_new_def compacted_database_def
        sample_files_known state_new_def Let_def)
  moreover have "tree_at un_initialized sample_tree 1 0 compacted_database"
    by (simp add: tree_at_def compacted_database_def sample_database_def sample_tree_def sample_root_def tree_path_def known_file_def
        check_name_def valid_char_def state_new_def un_initialize_default_def un_initialized_def Let_def)
  ultimately show ?thesis using v by (intro un_readable [where i = 1 and a = 0]) simp_all
qed

lemma interferes_once:
  assumes "readable ops t k d'" and "rt_vault d' = rt_vault d"
    and "known_file (rt_files d) (tree_path (tr_name (te_root t)) d) = (Some i, a)"
    and "known_file (rt_files d') (tree_path (tr_name (te_root t)) d') = (Some i', a')" and "i' \<noteq> i"
  shows "interferes ops t k (\<lambda>db. if c \<and> db = d then d' else db)"
  using assms by (auto simp: interferes_def split: if_splits)

theorem read_returns_witness:
  "\<exists>x db'. tree_get sample_family list_cache
    (\<lambda>n d. if n = 0 \<and> d = holding 0 sample_database then compacted_database else d) 2 sample_tree [1] sample_database = (Ok x, db')"
proof (rule read_returns [where quiet = 1, OF sample_readable])
  fix n
  let ?p = "\<lambda>d. tree_path (tr_name (te_root sample_tree)) d"
  have "known_file (rt_files compacted_database) (?p compacted_database) = (Some 1, Some 0)"
    by (simp add: compacted_database_def sample_database_def known_file_def sample_tree_def sample_root_def tree_path_def)
  moreover have "known_file (rt_files (holding 0 sample_database)) (?p (holding 0 sample_database)) = (Some 0, Some 0)"
    using sample_files_known(1) by (simp add: sample_database_def sample_tree_def sample_root_def tree_path_def known_file_def)
  moreover have "rt_vault compacted_database = rt_vault (holding 0 sample_database)" by (simp add: compacted_database_def)
  ultimately show "interferes sample_family sample_tree [1] (\<lambda>d. if n = 0 \<and> d = holding 0 sample_database then compacted_database else d)"
    by (intro interferes_once [OF compacted_readable, where i = 0 and i' = 1]) simp_all
qed simp_all




lemma sample_files_eq:
  "sample_files = \<lparr>mm_file_ids = \<lparr>pi_counter = 1, pi_ids = [([''db'', ''a.nebari''], 0)]\<rparr>, mm_open_files = [(0, 0)],
     mm_open_buffers = [([''db'', ''a.nebari''], 0)], mm_buffers = (\<lambda>_. []), mm_next = 1, mm_held = []\<rparr>"
  by (simp add: sample_files_def no_files_def fm_append_def file_id_for_path_def lookup_file_def open_for_append_def
      lookup_buffer_def hold_def fun_eq_iff)

lemma sample_files_inv: "mm_inv sample_files"
  by (auto simp: mm_inv_def sample_files_eq split: if_splits)


section \<open>Locks\<close>




section \<open>Commits of several trees\<close>






lemma close_trees_cells [simp]: "rt_cells (close_trees ts db) = rt_cells db" "rt_thread (close_trees ts db) = rt_thread db"
  unfolding close_trees_def by (induction ts arbitrary: db) (simp_all add: close_tree_def)




section \<open>The tables of the file manager\<close>

lemma hold_inv: "hold h m = (h', m') \<Longrightarrow> mm_inv m \<Longrightarrow> mh_buffer h < mm_next m \<Longrightarrow> mm_inv m'"
  by (auto simp: hold_def mm_inv_def)

lemma lookup_only_inv:
  assumes inv: "mm_inv m" and run: "lookup_file p False None m = (r, m')"
  shows "mm_inv m'"
proof (cases "map_of (pi_ids (mm_file_ids m)) p")
  case (Some i)
  show ?thesis
  proof (cases "map_of (mm_open_files m) i")
    case (Some a)
    then have "a < mm_next m" using inv unfolding mm_inv_def by blast
    with run \<open>map_of (pi_ids _) p = _\<close> Some inv show ?thesis
      by (auto simp: lookup_file_def file_id_for_path_def split: prod.splits dest!: hold_inv)
  qed (use run Some inv in \<open>auto simp: lookup_file_def file_id_for_path_def\<close>)
qed (use run inv in \<open>auto simp: lookup_file_def file_id_for_path_def\<close>)

lemma delete_all: "map_of (fold AList.delete ids xs) j = (if j \<in> set ids then None else map_of xs j)"
  "distinct (map fst xs) \<Longrightarrow> distinct (map fst (fold AList.delete ids xs))"
  by (induction ids arbitrary: xs) (auto simp: alist_simps)

lemma map_of_filter_keys: "map_of (filter (\<lambda>(k, x). P k) xs) k = (if P k then map_of xs k else None)"
  by (induction xs) auto

lemma delete_directory_inv:
  assumes "mm_inv m"
  shows "mm_inv (snd (fm_delete_directory p m))"
  using assms unfolding mm_inv_def
  by (auto simp: fm_delete_directory_def remove_file_ids_for_path_prefix_def delete_all map_of_filter_keys split: if_splits)

text \<open>
  C12. The tables of the file manager stay well-formed: every operation keeps the invariant that every id belongs to
  one path, was given out by the counter, and leads to the buffer known for its path.
\<close>

theorem file_manager_keeps_inv:
  assumes inv: "mm_inv m" and more: "pi_counter (mm_file_ids m) + 1 \<noteq> 0"
  shows "mm_inv (snd (fm_append p m)) \<and> mm_inv (snd (fm_read p m)) \<and> mm_inv (snd (fm_file_length p m)) \<and>
    mm_inv (snd (fm_exists p m)) \<and> mm_inv (snd (fm_delete p m)) \<and> mm_inv (snd (fm_delete_directory p m)) \<and>
    mm_inv (snd (fm_close_handles p m)) \<and> mm_inv (drop_handle h m)"
proof -
  have "mm_inv (snd (fm_append p m))" by (rule append_ok [OF assms, of p]) simp
  moreover have "mm_inv (snd (fm_file_length p m))" "mm_inv (snd (fm_exists p m))"
    using lookup_only_inv [OF inv] by (auto simp: fm_file_length_def fm_exists_def drop_handle_inv split: prod.split option.split)
  moreover have "mm_inv (snd (fm_delete p m))" by (rule delete_ok [OF inv, of p]) simp
  moreover have "mm_inv (snd (fm_close_handles p m))"
  proof -
    obtain b m1 where m1: "forget_file p m = (b, m1)" by fastforce
    obtain i q where q: "file_id_for_path p True (mm_file_ids m1) = (i, q)" by fastforce
    note f = forget_file_inv [OF inv m1]
    have "mm_inv (m1\<lparr>mm_file_ids := q\<rparr>)" by (rule register_inv(2) [OF f(1) _ q]) (simp add: f(4) more)
    then show ?thesis by (simp add: fm_close_handles_def m1 q)
  qed
  ultimately show ?thesis using delete_directory_inv [OF inv] drop_handle_inv [OF inv] by (simp add: fm_read_def)
qed

theorem file_manager_keeps_inv_witness:
  "mm_inv (snd (fm_append [''db'', ''b.nebari''] sample_files)) \<and> mm_inv (snd (fm_delete_directory [''db''] sample_files))"
proof -
  have "pi_counter (mm_file_ids sample_files) + 1 \<noteq> 0" by (simp add: sample_files_eq)
  from file_manager_keeps_inv [OF sample_files_inv this] show ?thesis by blast
qed

section \<open>Replaced files\<close>

text \<open>
  C11. \<^verbatim>\<open>replace_with\<close> puts the contents of another file in the place of a file under an id that no file had before;
  this is the id that is published with the new state, so a handle opened before can be told from one opened after. The
  chunk cache has no entry for this id, so it agrees with the new contents, whatever it knows of the old file.
\<close>

theorem replaced_file_gets_fresh_id:
  assumes "mm_inv m" and "pi_counter (mm_file_ids m) + 1 \<noteq> 0" "pi_counter (mm_file_ids m) + 2 \<noteq> 0"
    and "mh_buffer r \<in> set (mm_held m)" and cached: "cached_ids_below view (pi_counter (mm_file_ids m)) c"
  shows "\<exists>h' m' i. replace_with h r m = (Ok (h', i), m') \<and> mm_inv m' \<and> mh_id h' = Some i \<and> mh_path h' = mh_path h \<and>
    known_file m' (mh_path h) = (Some i, Some (mh_buffer r)) \<and> mm_buffers m' (mh_buffer r) = mm_buffers m (mh_buffer r) \<and>
    cache_agrees view v crc32 decode i (mm_buffers m (mh_buffer r)) c \<and> (\<forall>p. fst (known_file m p) \<noteq> Some i) \<and>
    (\<forall>p. p \<noteq> mh_path h \<longrightarrow> p \<noteq> mh_path r \<longrightarrow> known_file m' p = known_file m p)"
proof -
  have "fst (known_file m p) \<noteq> Some (pi_counter (mm_file_ids m))" for p
    using fresh_id [OF assms(1)] by (auto simp: known_file_def Let_def)
  moreover have "mh_buffer r < mm_next m" using assms(1,4) by (simp add: mm_inv_def)
  ultimately show ?thesis using fresh_id_agrees [OF cached] by (auto intro: replace_with_ok [OF assms(1-4), of h])
qed

definition compacted_files :: "memory_handle \<times> memory_handle \<times> memory_manager" where
  "compacted_files =
     (case fm_append [''db'', ''a.nebari''] sample_files of
        (Ok h, m) \<Rightarrow> (case fm_append [''db'', ''b.nebari''] m of (Ok r, m1) \<Rightarrow> (h, r, m1)))"

theorem replaced_file_gets_fresh_id_witness:
  "case compacted_files of (h, r, m) \<Rightarrow>
     \<exists>h' m' i. replace_with h r m = (Ok (h', i), m') \<and> i \<noteq> 0 \<and> known_file m' [''db'', ''a.nebari''] = (Some i, Some (mh_buffer r))"
proof -
  obtain h r m where c: "compacted_files = (h, r, m)" by (metis prod_cases3)
  have facts: "fst compacted_files = \<lparr>mh_id = Some 0, mh_path = [''db'', ''a.nebari''], mh_buffer = 0, mh_position = 0\<rparr>"
    "pi_counter (mm_file_ids (snd (snd compacted_files))) = 2" "mh_buffer (fst (snd compacted_files)) = 1"
    "mm_held (snd (snd compacted_files)) = [1, 0]" "known_file (snd (snd compacted_files)) [''db'', ''a.nebari''] = (Some 0, Some 0)"
    by code_simp+
  define m0 where "m0 = sample_files\<lparr>mm_held := 0 # mm_held sample_files\<rparr>"
  have m0: "mm_inv m0" "pi_counter (mm_file_ids m0) + 1 \<noteq> 0"
    by (auto simp: mm_inv_def m0_def sample_files_eq split: if_splits)
  note first = append_known [OF sample_files_known(1), folded m0_def]
  have "mm_inv m"
  proof (rule append_ok [OF m0, of "[''db'', ''b.nebari'']"], goal_cases)
    case (1 h' m')
    then show ?case using c first by (simp add: compacted_files_def)
  qed
  moreover have "cached_ids_below map_of (pi_counter (mm_file_ids m)) \<lparr>cc_max_block_length = 9, cc_cache = [] :: (chunk_key \<times> unit cache_entry) list\<rparr>"
    by (simp add: cached_ids_below_def)
  ultimately obtain h' m' i where "replace_with h r m = (Ok (h', i), m')" "known_file m' (mh_path h) = (Some i, Some (mh_buffer r))"
    "fst (known_file m [''db'', ''a.nebari'']) \<noteq> Some i"
    using replaced_file_gets_fresh_id [of m r map_of "\<lparr>cc_max_block_length = 9, cc_cache = []\<rparr>" h None no_crc "\<lambda>b. Ok ()"] facts(2-4)
    by (auto simp: c)
  then show ?thesis using facts(1,5) by (auto simp: c)
qed

end
