(* ===== verification/Database_Config.thy ===== *)
theory Database_Config
  imports Roots Chunk_Cache
begin

text \<open>
  The configuration a database is opened with: \<^verbatim>\<open>Config\<close>, \<^verbatim>\<open>Context\<close> and \<^verbatim>\<open>ThreadPool\<close> of \<^verbatim>\<open>nebari/src/roots.rs\<close> and
  \<^verbatim>\<open>nebari/src/context.rs\<close>, and the accessors of an executing transaction. The number of processors and the
  empty LRU table of a given capacity are parameters.
\<close>

record thread_pool =
  tp_thread_count :: "16 word"
  tp_maximum_threads :: nat

definition thread_pool_new :: "nat \<Rightarrow> thread_pool" where
  "thread_pool_new maximum_threads = \<lparr>tp_thread_count = 0, tp_maximum_threads = maximum_threads\<rparr>"

definition thread_pool_default :: "nat \<Rightarrow> thread_pool" where
  "thread_pool_default cpus = thread_pool_new cpus"

text \<open>The loop of \<^verbatim>\<open>commit_trees\<close> that starts threads, when no other thread starts some. The counter has 16 bits.\<close>

function scale_pool :: "nat \<Rightarrow> thread_pool \<Rightarrow> thread_pool res" where
  "scale_pool desired_threads pool =
     (if desired_threads \<le> unat (tp_thread_count pool) then Ok pool
      else if unat (tp_thread_count pool) = 2 ^ 16 - 1 then Panic
      else scale_pool desired_threads (pool\<lparr>tp_thread_count := tp_thread_count pool + 1\<rparr>))"
  by auto
termination
proof (relation "measure (\<lambda>(n, pool). n - unat (tp_thread_count pool))", goal_cases)
  case (2 n pool)
  have "unat (tp_thread_count pool) < 2 ^ 16" using unsigned_less [of "tp_thread_count pool"] by simp
  then have "unat (tp_thread_count pool + 1) = unat (tp_thread_count pool) + 1" using 2 by (simp add: unat_word_ariths)
  then show ?case using 2 by simp
qed simp

declare scale_pool.simps [simp del]

definition pool_for_commit :: "nat \<Rightarrow> thread_pool \<Rightarrow> thread_pool res" where
  "pool_for_commit tree_count pool =
     (if tree_count = 1 then Ok pool else scale_pool (min tree_count (tp_maximum_threads pool)) pool)"

definition cc_new :: "(nat \<Rightarrow> 'c) \<Rightarrow> nat \<Rightarrow> nat \<Rightarrow> 'c chunk_cache" where
  "cc_new lru_new capacity max_chunk_length = \<lparr>cc_max_block_length = max_chunk_length, cc_cache = lru_new capacity\<rparr>"

record ('m, 'c) db_context =
  cx_file_manager :: 'm
  cx_vault :: "vault option"
  cx_cache :: "'c chunk_cache option"

definition with_cache :: "'c chunk_cache \<Rightarrow> ('m, 'c) db_context \<Rightarrow> ('m, 'c) db_context" where
  "with_cache cache cx = cx\<lparr>cx_cache := Some cache\<rparr>"

definition with_any_vault :: "vault \<Rightarrow> ('m, 'c) db_context \<Rightarrow> ('m, 'c) db_context" where
  "with_any_vault v cx = cx\<lparr>cx_vault := Some v\<rparr>"

record ('m, 'c) config =
  cf_path :: path
  cf_vault :: "vault option"
  cf_cache :: "'c chunk_cache option"
  cf_file_manager :: "'m option"
  cf_thread_pool :: "thread_pool option"

definition config_new :: "path \<Rightarrow> ('m, 'c) config" where
  "config_new path = \<lparr>cf_path = path, cf_vault = None, cf_cache = None, cf_file_manager = None, cf_thread_pool = None\<rparr>"

definition config_default_for :: "nat \<Rightarrow> (nat \<Rightarrow> 'c) \<Rightarrow> path \<Rightarrow> ('m, 'c) config" where
  "config_default_for cpus lru_new path =
     \<lparr>cf_path = path, cf_vault = None, cf_cache = Some (cc_new lru_new 2000 65536), cf_file_manager = None,
      cf_thread_pool = Some (thread_pool_default cpus)\<rparr>"

definition config_file_manager :: "'n \<Rightarrow> ('m, 'c) config \<Rightarrow> ('n, 'c) config res" where
  "config_file_manager file_manager cf =
     (if cf_thread_pool cf \<noteq> None then Panic
      else Ok \<lparr>cf_path = cf_path cf, cf_vault = cf_vault cf, cf_cache = cf_cache cf, cf_file_manager = Some file_manager,
               cf_thread_pool = None\<rparr>)"

definition config_vault :: "vault \<Rightarrow> ('m, 'c) config \<Rightarrow> ('m, 'c) config" where
  "config_vault v cf = cf\<lparr>cf_vault := Some v\<rparr>"

definition config_cache :: "'c chunk_cache \<Rightarrow> ('m, 'c) config \<Rightarrow> ('m, 'c) config" where
  "config_cache cache cf = cf\<lparr>cf_cache := Some cache\<rparr>"

definition config_shared_thread_pool :: "thread_pool \<Rightarrow> ('m, 'c) config \<Rightarrow> ('m, 'c) config" where
  "config_shared_thread_pool pool cf = cf\<lparr>cf_thread_pool := Some pool\<rparr>"

text \<open>\<open>kind\<close>, \<open>stored_log\<close>, \<open>cache\<close> and \<open>unused\<close> are those of \<open>roots_open\<close>.\<close>

definition config_open ::
    "nat \<Rightarrow> memory_manager \<Rightarrow> path_kind \<Rightarrow> bytes option \<Rightarrow> 'k \<Rightarrow> 't state \<Rightarrow> (memory_manager, 'c) config \<Rightarrow>
     (('t, 'k) roots \<times> (memory_manager, 'c) db_context \<times> thread_pool) res" where
  "config_open cpus default_manager kind stored_log cache unused cf =
     (let cx = \<lparr>cx_file_manager = (case cf_file_manager cf of Some m \<Rightarrow> m | None \<Rightarrow> default_manager),
                cx_vault = cf_vault cf, cx_cache = cf_cache cf\<rparr>;
          pool = (case cf_thread_pool cf of Some p \<Rightarrow> p | None \<Rightarrow> thread_pool_default cpus) in
      res_map (\<lambda>db. (db, cx, pool)) (roots_open (cf_path cf) kind (cx_vault cx) (cx_file_manager cx) stored_log cache unused))"

section \<open>Accessors of a transaction\<close>

definition et_entry :: "executing_transaction \<Rightarrow> log_entry res" where
  "et_entry et = (case et_transaction et of Some h \<Rightarrow> Ok (th_transaction h) | None \<Rightarrow> Panic)"

definition et_entry_mut :: "(log_entry \<Rightarrow> log_entry) \<Rightarrow> executing_transaction \<Rightarrow> executing_transaction res" where
  "et_entry_mut f et =
     (case et_transaction et of
        Some h \<Rightarrow> Ok (et\<lparr>et_transaction := Some (h\<lparr>th_transaction := f (th_transaction h)\<rparr>)\<rparr>)
      | None \<Rightarrow> Panic)"

definition et_unlocked_tree :: "nat \<Rightarrow> executing_transaction \<Rightarrow> transaction_tree option" where
  "et_unlocked_tree i et = (if i < length (et_trees et) then Some (et_trees et ! i) else None)"

definition et_tree :: "nat \<Rightarrow> executing_transaction \<Rightarrow> transaction_tree option" where
  "et_tree i et = et_unlocked_tree i et"

section \<open>Properties\<close>

lemma scale_pool_count:
  "n < 2 ^ 16 \<Longrightarrow> \<exists>pool'. scale_pool n pool = Ok pool' \<and> unat (tp_thread_count pool') = max n (unat (tp_thread_count pool)) \<and>
     tp_maximum_threads pool' = tp_maximum_threads pool"
proof (induction n pool rule: scale_pool.induct)
  case (1 n pool)
  let ?c = "tp_thread_count pool"
  show ?case
  proof (cases "n \<le> unat ?c")
    case False
    then have "unat (?c + 1) = unat ?c + 1" "unat ?c \<noteq> 2 ^ 16 - 1" using 1(2) by (simp_all add: unat_word_ariths)
    with 1 False show ?thesis by (auto simp: scale_pool.simps [of n pool])
  qed (simp add: scale_pool.simps [of n pool])
qed

text \<open>The pool never has more threads than its maximum, and a commit of several trees finds a thread unless the maximum is 0:
  then nobody handles what was sent to the pool.\<close>

lemma pool_bounds:
  assumes "unat (tp_thread_count pool) \<le> tp_maximum_threads pool" and "2 \<le> trees" "trees < 2 ^ 16"
  obtains pool' where "pool_for_commit trees pool = Ok pool'" and "unat (tp_thread_count pool') \<le> tp_maximum_threads pool"
    and "0 < unat (tp_thread_count pool') \<longleftrightarrow> 0 < tp_maximum_threads pool"
proof -
  have "min trees (tp_maximum_threads pool) < 2 ^ 16" using assms(3) by simp
  then obtain pool' where "scale_pool (min trees (tp_maximum_threads pool)) pool = Ok pool'"
    "unat (tp_thread_count pool') = max (min trees (tp_maximum_threads pool)) (unat (tp_thread_count pool))"
    using scale_pool_count by blast
  with assms show thesis by (intro that [of pool']) (auto simp: pool_for_commit_def min_def max_def)
qed

text \<open>A configuration from \<^verbatim>\<open>default_for\<close> has a thread pool, so it cannot be given a file manager.\<close>

lemma default_for_has_pool: "config_file_manager m (config_default_for cpus lru_new path) = Panic"
  by (simp add: config_file_manager_def config_default_for_def)

end
