(* ===== verification/Spec2Isabelle.thy ===== *)
theory Spec2Isabelle
  imports Node_Properties Transaction_Properties Roots_Properties Database_Config
begin

text \<open>
  A verification of nebari, an append-only transactional key-value store written in Rust
  (\<^verbatim>\<open>nebari/src\<close>).

  \<^bold>\<open>The program.\<close> A database is a set of tree files and one transaction log. A tree file is a B-Tree that
  is never changed in place: a modification appends the new value chunks and the nodes on the path to the
  root, then a page-aligned header that points at the new root. The last good header of the file is the
  tree. Readers work on the published root while a writer prepares the next one. A transaction locks its
  trees, writes them without publishing, appends an entry with its id to the log, and only then are the
  new roots published; a header whose transaction is not in the log is passed over when the file is opened
  again. A manager thread collects finished transactions in batches so that the log stays in the
  order of the ids.

  \<^bold>\<open>Theories, bottom up.\<close>

  \<^descr> \<open>Prelude\<close>, \<open>Search\<close>, \<open>Bytes\<close>: the error values of \<^verbatim>\<open>error.rs\<close>, the result type, \<^verbatim>\<open>binary_search_by\<close>,
    sorted association lists, big-endian encodings. A result is \<open>Ok\<close>, \<open>Err e\<close> (an error the code returns),
    \<open>Panic\<close> (\<^verbatim>\<open>unwrap\<close>, \<^verbatim>\<open>assert!\<close>, an index out of bounds, and the overflows that are modelled as
    such) or \<open>OutOfFuel\<close> (the call has not returned); states are passed explicitly and are returned also when the result is an error.

  \<^descr> \<open>Modification\<close>, \<open>BTree\<close>: \<^verbatim>\<open>tree/modify.rs\<close> and the node operations of \<^verbatim>\<open>tree/btree_entry.rs\<close> with
    the pointers of \<^verbatim>\<open>interior.rs\<close> and \<^verbatim>\<open>key_entry.rs\<close>: the batch loop over leaves and interior nodes,
    splitting, absorbing and stealing children. A closure is a function with the state it captured.

  \<^descr> \<open>BTree_Inv\<close>, \<open>BTree_Spec\<close>, \<open>BTree_Balance\<close>, \<open>BTree_Modify\<close>, \<open>BTree_Refine\<close>, \<open>BTree_Root\<close>: the invariant of
    a tree and its contents as a sorted list; the specification of a modification on that list; the
    refinement of the one by the other, node by node and for a batch at the root. The locales
    \<open>writer_relation\<close> and \<open>node_store\<close> are what a tree asks of its file: writing a value never changes
    what is stored already. They are interpreted for both kinds of root.

  \<^descr> \<open>BTree_Query\<close>: \<^verbatim>\<open>scan\<close>, \<^verbatim>\<open>get\<close>, \<^verbatim>\<open>get_multiple\<close>, each equal to a traversal of the sorted contents.

  \<^descr> \<open>Indexes\<close>, \<open>Serialization\<close>: the encodings of \<^verbatim>\<open>by_id.rs\<close>, \<^verbatim>\<open>by_sequence.rs\<close>, of nodes and of the
    reducers' statistics. \<open>codec\<close> is the round-trip contract, \<open>chunk_store\<close> that of a chunk writer,
    \<open>tree_store\<close> puts them together: a serialized tree reads back with the same contents.

  \<^descr> \<open>Chunk_IO\<close>: the memory file of \<^verbatim>\<open>io/memory.rs\<close>, \<^verbatim>\<open>PagedWriter\<close>, \<^verbatim>\<open>read_chunk\<close> and the vault; an
    instance of \<open>chunk_store\<close>.

  \<^descr> \<open>Unversioned\<close>, \<open>Versioned\<close>, \<open>Compaction\<close>: the two roots (\<^verbatim>\<open>unversioned.rs\<close>, \<^verbatim>\<open>versioned.rs\<close>) with their
    headers and modifications, and \<^verbatim>\<open>copy_data_to\<close>.

  \<^descr> \<open>Tree_State\<close>, \<open>Tree_File\<close>, \<open>Tree_Sequences\<close>: \<^verbatim>\<open>state.rs\<close> and the \<^verbatim>\<open>TreeFile\<close> of \<^verbatim>\<open>tree/mod.rs\<close>:
    opening, saving, modifying, reading, compacting, the operations of its interface and the queries by
    sequence. The operations of a root are a record (\<open>root_ops\<close>), as the trait \<^verbatim>\<open>Root\<close> has them.

  \<^descr> \<open>Tree_Save\<close>, \<open>Append_Only\<close>, \<open>Un_File\<close>, \<open>Un_Queries\<close>, \<open>Un_Durable\<close>: a saved tree is found again when the
    file is opened (\<open>root_contract\<close>, \<open>root_reopens\<close>, \<open>durable_root\<close>); every operation only appends
    (\<open>appending_root\<close>); the tree file of an unversioned root as a pair of maps, the readers' and the
    writer's, and what every operation does to them (\<open>un_file_ok\<close>, \<open>un_ready\<close>).

  \<^descr> \<open>Id_Sequence\<close>, \<open>Log_Guess\<close>, \<open>Transaction_Log\<close>, \<open>Transaction_Manager\<close>: \<^verbatim>\<open>transaction/manager.rs\<close>, \<^verbatim>\<open>log.rs\<close>
    and \<^verbatim>\<open>state.rs\<close>: the bit set of handled ids, the paged log, the interpolating search with its
    arithmetic in double precision, the cache of known transactions, the manager thread as a state
    machine over the results of its receives.

  \<^descr> \<open>Log_Layout\<close>, \<open>Log_Contents\<close>, \<open>Log_Queries\<close>, \<open>Log_Fetch\<close>, \<open>Manager_Invariant\<close>, \<open>Success_Queries\<close>: the log
    as a list of entries, that pushing appends to it and opening finds its last entry, what scans and
    searches return, the invariant of the thread over every order of the commands, and when
    \<^verbatim>\<open>transaction_was_successful\<close> is right.

  \<^descr> \<open>File_Manager\<close>: \<^verbatim>\<open>PathIds\<close> of \<^verbatim>\<open>io/mod.rs\<close> and the manager of \<^verbatim>\<open>io/memory.rs\<close>: ids of paths, the tables of open
    files and of buffers with their weak references, opening, deleting and replacing files, and the
    invariant \<open>mm_inv\<close> of these tables.

  \<^descr> \<open>Chunk_Cache\<close>: \<^verbatim>\<open>chunk_cache.rs\<close> and the reads that go through it; a cache that agrees with the file makes no
    difference, so the other theories read without one.

  \<^descr> \<open>Tree_Lock\<close>: the lock of a tree as a state machine over any number of threads.

  \<^descr> \<open>Roots\<close>, \<open>Roots_Trees\<close>, \<open>Database_Config\<close>: \<^verbatim>\<open>roots.rs\<close> with \<^verbatim>\<open>tree/root.rs\<close> and \<^verbatim>\<open>context.rs\<close>: the database as a record of the
    file manager, the states of its trees, the manager thread and the locks; transactions over several
    trees, their commit and rollback, every operation of \<^verbatim>\<open>TransactionTree\<close> and \<^verbatim>\<open>Tree\<close>, compaction, deletion,
    the configuration and the thread pool.

  \<^descr> \<open>Roots_Inv\<close>, \<open>Un_Leaf\<close>: a database between its calls (\<open>transactions_open\<close>: every id handed out is handled, sent or
    open; \<open>tree_at\<close>: the file manager and the states know the tree; \<open>un_database\<close>: its file holds its contents), and
    how a transaction around one operation changes it, whether its trees can be saved or not.

  \<^descr> \<open>Sample_File\<close>, \<open>Node_Properties\<close>, \<open>Transaction_Properties\<close>, \<open>Roots_Properties\<close> and this theory: concrete files on
    which hypotheses are shown to hold, and the properties.

  \<^bold>\<open>Parameters.\<close> The checksum (crate \<^verbatim>\<open>crc\<close>), the vault (the caller's encryption trait), the cube root of
  the order computation, the embedded index and its reducer (the caller's traits) and the caches of the
  crate \<^verbatim>\<open>lru\<close> are arguments of the definitions. Of a vault it is assumed that what it encrypts it
  decrypts again, of a cache that a lookup returns at most what was put under that key, of the embedded
  index that its encoding round-trips and that its reducer does not depend on how entries are grouped.

  \<^bold>\<open>Bounds and fuel.\<close> Keys have less than \<open>2 ^ 16\<close> bytes and chunks less than \<open>2 ^ 32\<close> in the code's own checks.
  Positions are 64-bit words in the nodes; a file stays below \<open>2 ^ 64\<close> bytes (\<open>pw_fits\<close>, \<open>has_room\<close>). The
  recursion over nodes is bounded by \<open>fuel\<close>, which stands for the depth of the call stack: a tree of
  height \<open>n\<close> is read with any fuel above \<open>n\<close> and modified with \<open>(n + 1) * 3 + 1\<close>, and the properties prove that
  the operations return a result with that fuel. The loop over a batch at the root takes the number of
  keys as its bound, because every round consumes at least one. The loops of the log and the leaf loops
  are functions with a measure; the scan of the log takes the number of entries it may read, and any number
  above the length of the log gives the same result. The order of a tree is between 4 and 1000
  (\<open>order_bounds\<close>); a batch of several keys is proved correct for orders up to 9, and
  \<open>batch_misroutes_key\<close> shows that it is not beyond.

  \<^bold>\<open>Arithmetic.\<close> In the trees a machine integer is a word and wraps as in a release build; in the log
  positions are naturals and an overflow of \<^verbatim>\<open>u64\<close> is a \<open>Panic\<close>. The estimates of \<^verbatim>\<open>guess_page\<close> are rationals
  rounded to 53 bits after every operation.

  \<^bold>\<open>Concurrency.\<close> A file operation runs under the lock of the state it uses and is one step. The manager
  thread is a function of the sequence of receive results (a command, empty, disconnected); the properties
  hold for every sequence in which no id is handled twice, hence for every interleaving of the
  committing threads.

  A call of the database is one step, except for reads. A read opens the file and then looks at the state: between the two, and
  so in each of its attempts, the other threads change the database by a function \<open>others n\<close> that is an argument of the
  reads (\<open>read_returns\<close> is about every such function, the other properties about none). A call that would wait, for
  a lock or for a completion, has the result \<open>OutOfFuel\<close>; that a wait for a lock can end is shown in \<open>Tree_Lock\<close>,
  for all interleavings. The trees of a commit go to the pool in the order of the list.

  \<^bold>\<open>Not modelled.\<close> Files of the operating system (\<^verbatim>\<open>io/fs.rs\<close>, \<^verbatim>\<open>io/any.rs\<close>): system calls.
  The dispatch of \<^verbatim>\<open>downcast_ref\<close> (a database here has roots of one kind), the interleaving of the threads of the pool.
  Backtraces, formatting of errors, \<^verbatim>\<open>Debug\<close>. \<^verbatim>\<open>synchronize\<close> has no effect on a memory
  file. Benchmarks, fuzzing and examples use the library and are no part of it.
\<close>

section \<open>A tree file: reads and writes\<close>

text \<open>
  C2. Read your writes, and isolation: \<^verbatim>\<open>set\<close> in a transaction succeeds; afterwards \<^verbatim>\<open>get\<close> inside the
  transaction returns the new value for the key and the old one for every other key, while \<^verbatim>\<open>get\<close>
  outside still returns what was there before. The file invariant is kept.
\<close>

theorem set_read_your_writes:
  assumes "un_tree v eser edes esser esdes" and ready: "un_ready v crc32 edes esdes fuel nr kr nw kw tf"
    and "storable v b"
  shows "\<exists>i tf' nw'. tf_set (un_ops fuel cbrt v crc32 eser esser edes esdes :: (_, _, _, unit) root_ops)
      (Transactional tx) k b tf = (Ok i, tf') \<and>
    un_file_ok v crc32 edes esdes nr kr nw' (upd_sorted k b kw) tf' \<and>
    (\<forall>k'. tf_get (un_ops fuel cbrt v crc32 eser esser edes esdes :: (_, _, _, unit) root_ops) k' True tf' =
       Ok (if k' = k then Some b else map_of kw k') \<and>
     tf_get (un_ops fuel cbrt v crc32 eser esser edes esdes :: (_, _, _, unit) root_ops) k' False tf' = Ok (map_of kr k'))"
proof -
  let ?ops = "un_ops fuel cbrt v crc32 eser esser edes esdes :: (_, _, _, unit) root_ops"
  obtain results nw' tf' j where run: "tree_modifier ?ops (single (Transactional tx) k (OpSet b)) tf =
      (Ok [\<lparr>mr_key = k, mr_index = Some j\<rparr>], OpSet b, tf')"
    and ok: "nw' \<le> nw + 1" "un_file_ok v crc32 edes esdes nr kr nw' (upd_sorted k b kw) tf'"
    by (rule un_tree.un_transaction_one [OF assms(1) ready, where op = "OpSet b" and d = "KeySet b" and k = k and
        op_after = "\<lambda>i. OpSet b" and cbrt = cbrt and tx = tx])
      (use assms(3) in \<open>auto simp: reverse_operation_def\<close>)
  have fuel: "nr < fuel" "nw' < fuel" "ksorted kw"
    using ready ok(1) un_holds_sorted by (auto simp: un_ready_def un_file_ok_def)
  have "tf_set ?ops (Transactional tx) k b tf = (Ok j, tf')" by (simp add: tf_set_def run first_index_def)
  moreover have "tf_get ?ops k' tx' tf' = Ok (map_of (seen tx' kr (upd_sorted k b kw)) k')" for k' tx'
    by (rule un_get [OF ok(2)]) (use fuel in \<open>simp add: seen_def\<close>)
  ultimately show ?thesis using ok(2) fuel(3) by (auto simp: seen_def map_of_upd_sorted)
qed

theorem set_read_your_writes_witness:
  "\<exists>i tf'. tf_set (sample_ops :: (_, _, _, unit) root_ops) (Transactional 1) [1] [2] sample_file = (Ok i, tf') \<and>
     tf_get (sample_ops :: (_, _, _, unit) root_ops) [1] True tf' = Ok (Some [2]) \<and>
     tf_get (sample_ops :: (_, _, _, unit) root_ops) [1] False tf' = Ok None"
  using set_read_your_writes [OF un_plain.un_tree_axioms sample_ready short_storable, of "[2]" no_root 1 "[1]"]
  by fastforce

text \<open>
  C20. \<^verbatim>\<open>remove\<close> in a transaction returns the value that was stored, if any, and removes the key from
  what the transaction sees; readers still see what they saw.
\<close>

theorem remove_returns_old_value:
  fixes tf :: "('e, 'es) unversioned_root tree_file"
  assumes "un_tree v eser edes esser esdes" and ready: "un_ready v crc32 edes esdes fuel nr kr nw kw tf"
  shows "\<exists>old tf' nw'. tf_remove (un_ops fuel cbrt v crc32 eser esser edes esdes) k (Transactional tx) tf = (Ok old, tf') \<and>
    map_option fst old = map_of kw k \<and> un_file_ok v crc32 edes esdes nr kr nw' (del_sorted k kw) tf'"
proof -
  let ?f = "remove_callback :: (bytes, 'e unversioned_by_id, _) compare_swap_fn"
  define after where "after = (\<lambda>i :: 'e unversioned_by_id option. OpCompareSwap ?f
    (case (i, map_of kw k) of (Some i, Some b) \<Rightarrow> Some (b, i) | _ \<Rightarrow> None))"
  obtain i results nw' tf' where run: "tree_modifier (un_ops fuel cbrt v crc32 eser esser edes esdes)
      (single (Transactional tx) k (OpCompareSwap ?f None)) tf = (Ok results, after i, tf')"
    and i: "map_of kw k = None \<longleftrightarrow> i = None"
    and ok: "un_file_ok v crc32 edes esdes nr kr nw' (update_contents k KeyRemove kw) tf'"
    by (rule un_tree.un_transaction_one [OF assms(1) ready, where op = "OpCompareSwap ?f None" and d = KeyRemove and
        k = k and op_after = after and cbrt = cbrt and tx = tx])
      (auto simp: reverse_operation_def remove_callback_def after_def split: option.splits)
  then show ?thesis
    by (intro exI [of _ "case (i, map_of kw k) of (Some i, Some b) \<Rightarrow> Some (b, i) | _ \<Rightarrow> None"] exI [of _ tf'] exI [of _ nw'])
      (use run ok i in \<open>cases i; cases "map_of kw k";
        auto simp: tf_remove_def tf_modify_def after_def res_map_def\<close>)
qed

theorem remove_returns_old_value_witness:
  "\<exists>old tf'. tf_remove sample_ops [1] (Transactional 1) sample_one = (Ok old, tf') \<and> map_option fst old = Some [2]"
proof -
  obtain n where n: "un_ready None no_crc unit_des unit_des 100 0 [] n [([1], [2])] sample_one" by (rule sample_one_ready)
  from remove_returns_old_value [OF un_plain.un_tree_axioms n, of no_root "[1]" 1] show ?thesis by force
qed

text \<open>
  C13. \<^verbatim>\<open>compare_and_swap\<close> in a transaction: if the stored value is the expected one, the key gets the new
  value (or is removed, when there is none); otherwise the caller gets a conflict with the stored
  value, and nothing that is stored changes.
\<close>

theorem compare_and_swap_decides:
  fixes tf :: "('e, 'es) unversioned_root tree_file"
  assumes "un_tree v eser edes esser esdes" and ready: "un_ready v crc32 edes esdes fuel nr kr nw kw tf"
    and st: "\<forall>b. new = Some b \<longrightarrow> storable v b"
  shows "\<exists>tf' nw'. tf_compare_and_swap (un_ops fuel cbrt v crc32 eser esser edes esdes) k old new (Transactional tx) tf =
      (Ok (if map_of kw k = old then Inr () else Inl (Conflict (map_of kw k))), tf') \<and>
    un_file_ok v crc32 edes esdes nr kr nw'
      (if map_of kw k = old then (case new of Some b \<Rightarrow> upd_sorted k b kw | None \<Rightarrow> del_sorted k kw) else kw) tf'"
proof -
  let ?f = "cas_callback old :: (bytes, 'e unversioned_by_id, _) compare_swap_fn"
  define d where "d = (if map_of kw k = old then (case new of Some b \<Rightarrow> KeySet b | None \<Rightarrow> KeyRemove) else KeySkip)"
  define s where "s = (if map_of kw k = old then (None, None) else (new, Some (map_of kw k)))"
  obtain i results nw' tf' where run: "tree_modifier (un_ops fuel cbrt v crc32 eser esser edes esdes)
      (single (Transactional tx) k (OpCompareSwap ?f (new, None))) tf = (Ok results, OpCompareSwap ?f s, tf')"
    and ok: "un_file_ok v crc32 edes esdes nr kr nw' (update_contents k d kw) tf'"
    by (rule un_tree.un_transaction_one [OF assms(1) ready, where op = "OpCompareSwap ?f (new, None)" and d = d and
        k = k and op_after = "\<lambda>i. OpCompareSwap ?f s" and cbrt = cbrt and tx = tx])
      (use st in \<open>auto simp: reverse_operation_def cas_callback_def d_def s_def split: option.splits if_splits\<close>)
  have "tf_compare_and_swap (un_ops fuel cbrt v crc32 eser esser edes esdes) k old new (Transactional tx) tf =
      (Ok (if map_of kw k = old then Inr () else Inl (Conflict (map_of kw k))), tf')"
    by (simp add: tf_compare_and_swap_def tf_modify_def run s_def)
  with ok show ?thesis by (cases new) (auto simp: d_def)
qed

theorem compare_and_swap_decides_witness:
  "\<exists>tf'. tf_compare_and_swap sample_ops [1] (Some [3]) (Some [4]) (Transactional 1) sample_one =
     (Ok (Inl (Conflict (Some [2]))), tf')"
proof -
  obtain n where n: "un_ready None no_crc unit_des unit_des 100 0 [] n [([1], [2])] sample_one" by (rule sample_one_ready)
  have "\<forall>b. Some [4 :: u8] = Some b \<longrightarrow> storable None b" by (simp add: short_storable)
  from compare_and_swap_decides [OF un_plain.un_tree_axioms n this, of no_root "[1]" "Some [3]" 1] show ?thesis by auto
qed

text \<open>\<^verbatim>\<open>replace\<close> in a transaction returns the value that was stored, if any, and stores the new one.\<close>

theorem replace_returns_old_value:
  fixes tf :: "('e, 'es) unversioned_root tree_file"
  assumes "un_tree v eser edes esser esdes" and ready: "un_ready v crc32 edes esdes fuel nr kr nw kw tf"
    and "storable v b"
  shows "\<exists>i tf' nw'. tf_replace (un_ops fuel cbrt v crc32 eser esser edes esdes) k b (Transactional tx) tf =
      (Ok (map_of kw k, i), tf') \<and> un_file_ok v crc32 edes esdes nr kr nw' (upd_sorted k b kw) tf'"
proof -
  let ?f = "replace_callback b :: (bytes, 'e unversioned_by_id, _) compare_swap_fn"
  obtain results nw' tf' j where run: "tree_modifier (un_ops fuel cbrt v crc32 eser esser edes esdes)
      (single (Transactional tx) k (OpCompareSwap ?f None)) tf =
      (Ok [\<lparr>mr_key = k, mr_index = Some j\<rparr>], OpCompareSwap ?f (map_of kw k), tf')"
    and ok: "un_file_ok v crc32 edes esdes nr kr nw' (update_contents k (KeySet b) kw) tf'"
    by (rule un_tree.un_transaction_one [OF assms(1) ready, where op = "OpCompareSwap ?f None" and d = "KeySet b" and
        k = k and op_after = "\<lambda>i. OpCompareSwap ?f (map_of kw k)" and cbrt = cbrt and tx = tx])
      (use assms(3) in \<open>auto simp: reverse_operation_def replace_callback_def\<close>)
  then show ?thesis by (auto simp: tf_replace_def tf_modify_def first_index_def res_map_def)
qed

theorem replace_returns_old_value_witness:
  "\<exists>i tf'. tf_replace sample_ops [1] [5] (Transactional 1) sample_one = (Ok (Some [2], i), tf')"
proof -
  obtain n where n: "un_ready None no_crc unit_des unit_des 100 0 [] n [([1], [2])] sample_one" by (rule sample_one_ready)
  have "storable None [5]" by (simp add: short_storable)
  from replace_returns_old_value [OF un_plain.un_tree_axioms n this, of no_root "[1]" 1] show ?thesis by auto
qed

text \<open>
  \<^verbatim>\<open>set\<close> outside of a transaction publishes: when it succeeds, readers and writer both see the new
  value, and every later read returns it.
\<close>

theorem set_published:
  fixes tf :: "('e, 'es) unversioned_root tree_file"
  assumes "un_tree v eser edes esser esdes" and ready: "un_ready v crc32 edes esdes fuel nr kr nw kw tf"
    and "storable v b" and mode: "persistence_transaction_id mode = None"
    and run: "tf_set (un_ops fuel cbrt v crc32 eser esser edes esdes :: (_, _, _, unit) root_ops) mode k b tf = (Ok i, tf')"
    and fits: "length (mf_buffer (tf_file tf')) + 260 < 2 ^ 64"
  shows "(\<exists>n. un_file_ok v crc32 edes esdes n (upd_sorted k b kw) n (upd_sorted k b kw) tf') \<and>
    tf_get (un_ops fuel cbrt v crc32 eser esser edes esdes :: (_, _, _, unit) root_ops) k' tx tf' =
      Ok (if k' = k then Some b else map_of kw k')"
proof -
  let ?ops = "un_ops fuel cbrt v crc32 eser esser edes esdes :: (_, _, _, unit) root_ops"
  let ?op = "OpSet b :: (bytes, 'e unversioned_by_id, unit) operation"
  obtain r op' tf2 where tm: "tree_modifier ?ops (single mode k ?op) tf = (r, op', tf2)" by (metis prod_cases3)
  with run obtain results where r: "r = Ok results" and tf2: "tf2 = tf'" by (cases r) (auto simp: tf_set_def)
  from ready have pre: "un_file_ok v crc32 edes esdes nr kr nw kw tf" "has_room 1 tf" "length kw + 1 < 2 ^ 64" "(nw + 1) * 3 + 1 \<le> fuel"
    by (simp_all add: un_ready_def)
  have dec: "value_decision k j (map_of kw k) ?op = Some (KeySet b, ?op)" for j by simp
  obtain n where n: "n \<le> nw + 1" "un_file_ok v crc32 edes esdes n (upd_sorted k b kw) n (upd_sorted k b kw) tf'"
    using un_tree.un_modifier_one [OF assms(1) pre refl _ dec _ tm] assms(3) mode r fits tf2
    by (auto simp: reverse_operation_def)
  have "ksorted kw" using pre(1) un_holds_sorted by (auto simp: un_file_ok_def)
  moreover have "tf_get ?ops k' tx tf' = Ok (map_of (seen tx (upd_sorted k b kw) (upd_sorted k b kw)) k')"
    by (rule un_get [OF n(2)]) (use n(1) pre(4) in \<open>simp add: seen_def\<close>)
  ultimately show ?thesis using n(2) by (auto simp: seen_def map_of_upd_sorted)
qed

theorem set_published_witness:
  "\<exists>i. tf_set (sample_ops :: (_, _, _, unit) root_ops) Sync [1] [2] sample_file = (Ok i, sample_saved) \<and>
    tf_get (sample_ops :: (_, _, _, unit) root_ops) [1] False sample_saved = Ok (Some [2])"
proof -
  obtain i where run: "tf_set (sample_ops :: (_, _, _, unit) root_ops) Sync [1] [2] sample_file = (Ok i, sample_saved)"
    and len: "length (mf_buffer (tf_file sample_saved)) \<le> 400" by (rule sample_saved_run)
  have "length (mf_buffer (tf_file sample_saved)) + 260 < 2 ^ 64" using len by simp
  from set_published [OF un_plain.un_tree_axioms sample_ready short_storable _ run this, of "[1]" False] run
  show ?thesis by auto
qed

text \<open>
  C4. Readers are isolated from writers, and the file is append-only: whatever a modification does, if it
  is part of a transaction or if it fails, the bytes of the file stay in place and every read outside of
  the transaction returns what it returned before. Any keys, any operation, any error.
\<close>

theorem readers_isolated:
  fixes tf :: "('e, 'es) unversioned_root tree_file"
  assumes ok: "un_file_ok v crc32 edes esdes nr kr nw kw tf" "nr < fuel"
    and run: "tf_modify (un_ops fuel cbrt v crc32 eser esser edes esdes :: (_, _, _, 'cs) root_ops) m tf = (r, op', tf')"
    and "persistence_transaction_id (persistence_mode m) \<noteq> None \<or> \<not> is_ok r"
  shows "(\<exists>rest. mf_buffer (tf_file tf') = mf_buffer (tf_file tf) @ rest) \<and>
    tf_get (un_ops fuel cbrt v crc32 eser esser edes esdes :: (_, _, _, 'cs) root_ops) k False tf' = Ok (map_of kr k) \<and>
    tf_get_range (un_ops fuel cbrt v crc32 eser esser edes esdes :: (_, _, _, 'cs) root_ops) rng False tf' =
      Ok (filter (\<lambda>p. range_contains rng (fst p)) kr)"
proof -
  note grown = un_appending_root.modifier_appends [OF run [unfolded tf_modify_def]]
  from un_readers_keep [OF ok grown(1,2) grown(3) [OF assms(4)]] grown(1) show ?thesis by blast
qed

theorem readers_isolated_witness:
  "\<exists>r op' tf'. tf_modify (sample_ops :: (_, _, _, unit) root_ops)
     \<lparr>persistence_mode = Transactional 1, keys = [[3], [2]], operation = OpRemove\<rparr> sample_file = (r, op', tf') \<and>
     tf_get (sample_ops :: (_, _, _, unit) root_ops) [3] False tf' = Ok None"
proof -
  obtain r op' tf' where run: "tf_modify (sample_ops :: (_, _, _, unit) root_ops)
    \<lparr>persistence_mode = Transactional 1, keys = [[3], [2]], operation = OpRemove\<rparr> sample_file = (r, op', tf')" by (metis prod_cases3)
  from readers_isolated [OF sample_file_ok _ run, of "[3]" "(Unbounded, Unbounded)"] run show ?thesis by auto
qed

section \<open>A tree file across a restart\<close>

text \<open>
  C3. Durability: a published \<^verbatim>\<open>set\<close> ends the file with a header page, and when the file is opened again,
  also with bytes after it that an interrupted write has left, every read returns the published values.
  The bytes must not look like a header page, and the transaction of the header must be one that the
  transaction manager reports as successful.
\<close>

theorem published_set_survives_restart:
  fixes tf :: "('e, 'es) unversioned_root tree_file"
  assumes tree: "un_tree v eser edes esser esdes" and ready: "un_ready v crc32 edes esdes fuel nr kr nw kw tf"
    and "storable v b" and mode: "persistence_transaction_id mode = None"
    and run: "tf_set (un_ops fuel cbrt v crc32 eser esser edes esdes :: (_, _, _, unit) root_ops) mode k b tf = (Ok i, tf')"
    and fits: "length (mf_buffer (tf_file tf')) + 260 < 2 ^ 64"
    and st: "\<not> un_initialized (as_root (st_reader st))" "\<not> un_initialized (as_root (st_writer st))"
      "un_reducer (as_root (st_writer st)) = un_reducer (as_root (st_writer (tf_state tf')))"
      "\<forall>o'. as_max_order (st_writer st) = Some o' \<longrightarrow> 4 \<le> o'"
    and tx: "not_successful manager (un_get_transaction_id (as_root (st_writer (tf_state tf')))) = Ok False"
  shows "\<exists>page. saved_at (un_ops fuel cbrt v crc32 eser esser edes esdes :: (_, _, _, unit) root_ops) page
      (mf_buffer (tf_file tf')) (as_root (st_writer (tf_state tf'))) \<and>
    (\<forall>rest pos file_id. last_header page (mf_buffer (tf_file tf') @ rest) \<longrightarrow>
      (\<exists>tf2. fst (tree_open (un_ops fuel cbrt v crc32 eser esser edes esdes :: (_, _, _, unit) root_ops) manager
          \<lparr>mf_buffer = mf_buffer (tf_file tf') @ rest, mf_position = pos\<rparr> file_id st) = Ok tf2 \<and>
        (\<forall>k' tx. tf_get (un_ops fuel cbrt v crc32 eser esser edes esdes :: (_, _, _, unit) root_ops) k' tx tf2 =
          Ok (if k' = k then Some b else map_of kw k'))))"
proof -
  let ?ops = "un_ops fuel cbrt v crc32 eser esser edes esdes :: (_, _, _, unit) root_ops"
  let ?op = "OpSet b :: (bytes, 'e unversioned_by_id, unit) operation" and ?root = "as_root (st_writer (tf_state tf'))"
  obtain r op' tf2 where tm: "tree_modifier ?ops (single mode k ?op) tf = (r, op', tf2)" by (metis prod_cases3)
  with run obtain results where r: "r = Ok results" and tf2: "tf2 = tf'" by (cases r) (auto simp: tf_set_def)
  from ready have pre: "un_file_ok v crc32 edes esdes nr kr nw kw tf" "has_room 1 tf" "length kw + 1 < 2 ^ 64" "(nw + 1) * 3 + 1 \<le> fuel"
    by (simp_all add: un_ready_def)
  have dec: "value_decision k j (map_of kw k) ?op = Some (KeySet b, ?op)" for j by simp
  obtain n where n: "n \<le> nw + 1" "un_file_ok v crc32 edes esdes n (upd_sorted k b kw) n (upd_sorted k b kw) tf'"
    using un_tree.un_modifier_one [OF tree pre refl _ dec _ tm] assms(3) mode r fits tf2
    by (auto simp: reverse_operation_def)
  have "length (mf_buffer (tf_file tf)) < 2 ^ 64" using pre(2) by (simp add: has_room_def)
  then obtain page where page: "saved_at ?ops page (mf_buffer (tf_file tf')) ?root"
    using un_tree.un_modifier_saved [OF tree pre(1) _ tm [unfolded r tf2]] mode fits by (auto simp: single_def)
  have keys: "ksorted kw" using pre(1) un_holds_sorted by (auto simp: un_file_ok_def)
  have "\<exists>tf2. fst (tree_open ?ops manager \<lparr>mf_buffer = mf_buffer (tf_file tf') @ rest, mf_position = pos\<rparr> file_id st) = Ok tf2 \<and>
      (\<forall>k' tx. tf_get ?ops k' tx tf2 = Ok (if k' = k then Some b else map_of kw k'))"
    if tail: "last_header page (mf_buffer (tf_file tf') @ rest)" for rest pos file_id
  proof -
    have "un_holds v crc32 edes esdes n (mf_buffer (tf_file tf')) ?root (upd_sorted k b kw)"
      and red: "embedded_reducer (e_reducer (un_reducer ?root))" using n(2) by (simp_all add: un_file_ok_def)
    from un_tree.un_open_saved [OF tree page this(1) st(3) [symmetric] red st(4) fits tail tx st(1,2), of pos file_id]
    obtain tf3 where tf3: "fst (tree_open ?ops manager \<lparr>mf_buffer = mf_buffer (tf_file tf') @ rest, mf_position = pos\<rparr> file_id st) = Ok tf3"
      "un_file_ok v crc32 edes esdes n (upd_sorted k b kw) n (upd_sorted k b kw) tf3" by blast
    have "tf_get ?ops k' tx tf3 = Ok (map_of (seen tx (upd_sorted k b kw) (upd_sorted k b kw)) k')" for k' tx
      by (rule un_get [OF tf3(2)]) (use n(1) pre(4) in \<open>simp add: seen_def\<close>)
    with tf3(1) keys show ?thesis by (auto simp: seen_def map_of_upd_sorted)
  qed
  with page show ?thesis by blast
qed

theorem published_set_survives_restart_witness:
  "\<exists>tf2. fst (tree_open (sample_ops :: (_, _, _, unit) root_ops) None
      \<lparr>mf_buffer = mf_buffer (tf_file sample_saved) @ [1, 2, 3], mf_position = 0\<rparr> (Some 1) fresh_state) = Ok tf2 \<and>
     tf_get (sample_ops :: (_, _, _, unit) root_ops) [1] False tf2 = Ok (Some [2])"
proof -
  let ?buf = "mf_buffer (tf_file sample_saved)" and ?root = "as_root (st_writer (tf_state sample_saved))"
  obtain i where run: "tf_set (sample_ops :: (_, _, _, unit) root_ops) Sync [1] [2] sample_file = (Ok i, sample_saved)"
    and len: "length ?buf \<le> 400" and red: "un_reducer ?root = no_index" by (rule sample_saved_run)
  have "length ?buf + 260 < 2 ^ 64" using len by simp
  note survives = published_set_survives_restart [OF un_plain.un_tree_axioms sample_ready short_storable _ run this,
      of fresh_state None]
  have "un_reducer (as_root (st_writer fresh_state)) = un_reducer ?root"
    using red by (simp add: fresh_state_def state_new_def un_default_with_def Let_def)
  with survives obtain page where page: "saved_at (sample_ops :: (_, _, _, unit) root_ops) page ?buf ?root"
    and reopen: "\<forall>rest pos file_id. last_header page (?buf @ rest) \<longrightarrow>
      (\<exists>tf2. fst (tree_open (sample_ops :: (_, _, _, unit) root_ops) None
          \<lparr>mf_buffer = ?buf @ rest, mf_position = pos\<rparr> file_id fresh_state) = Ok tf2 \<and>
        (\<forall>k' tx. tf_get (sample_ops :: (_, _, _, unit) root_ops) k' tx tf2 = Ok (if k' = [1] then Some [2] else map_of [] k')))"
    by (auto simp: fresh_state_def state_new_def un_default_with_def un_initialized_def not_successful_def Let_def)
  have "page \<ge> 1" using page by (auto simp: saved_at_def header_block_def page_padding_def page_size_def)
  then have "last_header page (?buf @ [1, 2, 3])" using len by (auto simp: last_header_def page_size_def)
  with reopen show ?thesis by fastforce
qed

text \<open>
  C23. Recovery: a header of a transaction that the transaction manager does not report as successful is
  passed over, and the file opens with the root of the header before it.
\<close>

theorem unsuccessful_transaction_passed_over:
  fixes st :: "('e, 'es) unversioned_root state"
  assumes "un_tree v eser edes esser esdes"
    and first: "saved_at (un_ops fuel cbrt v crc32 eser esser edes esdes :: (_, _, _, unit) root_ops) n buf root1"
    and second: "saved_at (un_ops fuel cbrt v crc32 eser esser edes esdes :: (_, _, _, unit) root_ops) k (buf @ added) root2"
    and "n < k" and "un_reducer root1 = un_reducer (as_root (st_writer st))" and "un_reducer root2 = un_reducer (as_root (st_writer st))"
    and "length (buf @ added) + 260 < 2 ^ 64" and "last_header k (buf @ added)"
    and "\<forall>m. n < m \<longrightarrow> m < k \<longrightarrow> \<not> is_header (buf @ added) m"
    and "not_successful manager (un_get_transaction_id root1) = Ok False"
    and "not_successful manager (un_get_transaction_id root2) = Ok True"
    and "\<not> un_initialized (as_root (st_reader st))" and "\<not> un_initialized (as_root (st_writer st))"
  shows "\<exists>st'. initialize_state (un_ops fuel cbrt v crc32 eser esser edes esdes :: (_, _, _, unit) root_ops) manager file_id
      (buf @ added) st = (Ok (), st') \<and> as_root (st_reader st') = root1 \<and> as_root (st_writer st') = root1"
  using un_tree.un_open_passes_over [OF assms(1-9), of manager file_id] assms(10-) by (simp add: Let_def)

theorem unsuccessful_transaction_passed_over_witness:
  "\<exists>st'. initialize_state (sample_ops :: (_, _, _, unit) root_ops) (Some (\<lambda>i. Ok (i = 4))) None
      (([] @ replicate (page_padding 0) unversioned_header @ empty_header 4) @
        replicate (page_padding 281) unversioned_header @ empty_header 5) fresh_state = (Ok (), st') \<and>
     as_root (st_reader st') = empty_root 4 \<and> as_root (st_writer st') = empty_root 4"
proof -
  let ?ops = "sample_ops :: (_, _, _, unit) root_ops"
  let ?one = "[] @ replicate (page_padding 0) unversioned_header @ empty_header 4"
  let ?two = "replicate (page_padding 281) unversioned_header @ empty_header 5"
  have header: "length (empty_header i) = 25" for i by (simp add: empty_header_def nbr_def)
  then have len: "length ?one = 281" "length (?one @ ?two) = 537"
    by (simp_all add: page_padding_def page_size_def)
  have first: "saved_at ?ops 1 ?one (empty_root 4)"
    using empty_root_saved [of "[]" 4] by (simp add: header_block_def page_padding_def page_size_def)
  have second: "saved_at ?ops 2 (?one @ ?two) (empty_root 5)"
    using empty_root_saved [of ?one 5] header by (simp add: header_block_def page_padding_def page_size_def)
  have tail: "last_header 2 (?one @ ?two)" using len(2) by (auto simp: last_header_def page_size_def)
  show ?thesis
    by (rule unsuccessful_transaction_passed_over [OF un_plain.un_tree_axioms first second _ _ _ _ tail])
      (use len in \<open>simp_all add: empty_root_def fresh_state_def state_new_def un_default_with_def un_initialized_def
        not_successful_def un_get_transaction_id_def res_map_def Let_def\<close>)
qed

text \<open>
  A file of one to three bytes cannot be opened: looking for its last page underflows.
\<close>

theorem short_file_panics:
  assumes "\<not> ro_initialized ops (as_root (st_reader st))" and "\<not> ro_initialized ops (as_root (st_writer st))"
    and "0 < length buf" and "length buf < 4"
  shows "fst (tree_open ops manager \<lparr>mf_buffer = buf, mf_position = pos\<rparr> file_id st) = Panic"
proof -
  have "last_block (length buf) = None" using assms(3,4) by (simp add: last_block_def page_size_def)
  then show ?thesis using assms by (simp add: tree_open_def initialize_state_def Let_def)
qed

theorem short_file_panics_witness:
  "fst (tree_open (sample_ops :: (_, _, _, unit) root_ops) None \<lparr>mf_buffer = [0x4e, 0x62], mf_position = 0\<rparr> None fresh_state) = Panic"
  by (rule short_file_panics)
    (simp_all add: fresh_state_def state_new_def un_default_with_def un_initialized_def Let_def)

section \<open>Batches, errors, transactions\<close>



text \<open>
  \<^verbatim>\<open>modify\<close> refuses keys that are not strictly ascending, and nothing changes: not the file, not what
  readers or the writer see.
\<close>

theorem unordered_keys_refused:
  fixes tf :: "('e, 'es) unversioned_root tree_file"
  assumes ok: "un_file_ok v crc32 edes esdes nr kr nw kw tf" "length (mf_buffer (tf_file tf)) < 2 ^ 64"
    and "\<not> sorted_wrt (<) (keys m)"
  shows "\<exists>f. tf_modify (un_ops fuel cbrt v crc32 eser esser edes esdes :: (_, _, _, 'cs) root_ops) m tf =
      (Err KeysNotOrdered, operation m, tf\<lparr>tf_file := f\<rparr>) \<and> mf_buffer f = mf_buffer (tf_file tf)"
proof -
  obtain w where w: "pw_new None (tf_file tf) (of_nat (length (mf_buffer (tf_file tf)))) = (Ok (), w)"
    "mf_buffer (pw_file w) = mf_buffer (tf_file tf)" by (rule pw_new_plain [OF ok(2)])
  have "un_modify fuel cbrt v crc32 edes esdes max_order m t w = (Err KeysNotOrdered, operation m, t, w)" for max_order t
    using assms(3) by (simp add: un_modify_def un_modify_id_root_def reverse_def)
  then show ?thesis using w ok(1)
    by (intro exI [of _ "pw_file w"]) (simp add: tf_modify_def tree_modifier_def un_file_ok_def)
qed

theorem unordered_keys_refused_witness:
  "\<exists>f. tf_modify (sample_ops :: (_, _, _, unit) root_ops)
      \<lparr>persistence_mode = Sync, keys = [[3], [2]], operation = OpRemove\<rparr> sample_file =
      (Err KeysNotOrdered, OpRemove, sample_file\<lparr>tf_file := f\<rparr>)"
  using unordered_keys_refused [OF sample_file_ok, where m = "\<lparr>persistence_mode = Sync, keys = [[3], [2]], operation = OpRemove\<rparr>"
      and fuel = 100 and cbrt = no_root and eser = unit_ser and esser = unit_ser and 'cs = unit]
  by (force simp: sample_file_def tree_file_new_def)



text \<open>
  Rolling back: afterwards the transaction sees exactly what the readers see, and the file is in a
  state from which the next transaction can go on.
\<close>

theorem rollback_discards:
  fixes tf :: "('e, 'es) unversioned_root tree_file"
  assumes ok: "un_file_ok v crc32 edes esdes nr kr nw kw tf" and "nr < fuel"
    and "un_reducer (as_root (st_reader (tf_state tf))) = un_reducer (as_root (st_writer (tf_state tf)))"
  shows "un_file_ok v crc32 edes esdes nr kr nr kr (tf\<lparr>tf_state := rollback (tf_state tf)\<rparr>) \<and>
    tf_get (un_ops fuel cbrt v crc32 eser esser edes esdes :: (_, _, _, unit) root_ops) k tx
      (tf\<lparr>tf_state := rollback (tf_state tf)\<rparr>) = Ok (map_of kr k)"
proof -
  have ok': "un_file_ok v crc32 edes esdes nr kr nr kr (tf\<lparr>tf_state := rollback (tf_state tf)\<rparr>)"
    using ok assms(3) by (simp add: un_file_ok_def rollback_def)
  from un_get [OF this, of tx fuel cbrt eser esser k, where 'cs = unit] assms(2) ok' show ?thesis by (simp add: seen_def)
qed

theorem rollback_discards_witness:
  "tf_get (sample_ops :: (_, _, _, unit) root_ops) [1] True (sample_file\<lparr>tf_state := rollback (tf_state sample_file)\<rparr>) = Ok None"
  using rollback_discards [OF sample_file_ok, of 100 no_root unit_ser unit_ser "[1]" True]
  by (simp add: sample_file_def tree_file_new_def state_new_def Let_def)



section \<open>Queries\<close>

text \<open>
  \<^verbatim>\<open>get_multiple\<close> of ascending keys returns, for every key that is there, the key with its value, once,
  and nothing else (in the order in which the file holds the values).
\<close>

theorem get_multiple_complete:
  fixes tf :: "('e, 'es) unversioned_root tree_file"
  assumes "un_file_ok v crc32 edes esdes nr kr nw kw tf" and "seen tx nr nw < fuel" and "sorted_wrt (<) ks"
  shows "\<exists>out. tf_get_multiple (un_ops fuel cbrt v crc32 eser esser edes esdes :: (_, _, _, unit) root_ops) ks tx tf = Ok out \<and>
    mset out = mset (map (\<lambda>k. (k, the (map_of (seen tx kr kw) k))) (filter (\<lambda>k. map_of (seen tx kr kw) k \<noteq> None) ks))"
  by (rule un_get_multiple [OF assms, of cbrt eser esser]) blast

theorem get_multiple_complete_witness:
  "\<exists>out. tf_get_multiple (sample_ops :: (_, _, _, unit) root_ops) [[0], [1]] False sample_saved = Ok out \<and> mset out = {#([1], [2])#}"
proof -
  obtain n where "un_file_ok None no_crc unit_des unit_des n [([1], [2])] n [([1], [2])] sample_saved" "n \<le> 1" by (rule sample_saved_ok)
  from get_multiple_complete [OF this(1), of False 100 "[[0], [1]]" no_root unit_ser unit_ser] this(2)
  show ?thesis by (auto simp: seen_def)
qed

text \<open>C28. \<^verbatim>\<open>get_range\<close> returns the entries whose key lies in the range, in key order.\<close>

theorem get_range_filters:
  fixes tf :: "('e, 'es) unversioned_root tree_file"
  assumes "un_file_ok v crc32 edes esdes nr kr nw kw tf" and "seen tx nr nw < fuel"
  shows "tf_get_range (un_ops fuel cbrt v crc32 eser esser edes esdes :: (_, _, _, unit) root_ops) r tx tf =
      Ok (filter (\<lambda>p. range_contains r (fst p)) (seen tx kr kw)) \<and> ksorted (seen tx kr kw)"
  using un_get_range [OF assms, of cbrt eser esser r, where 'cs = unit] assms(1) un_holds_sorted
  by (auto simp: un_file_ok_def seen_def)

theorem get_range_filters_witness:
  "tf_get_range (sample_ops :: (_, _, _, unit) root_ops) (Included [1], Excluded [2]) False sample_saved = Ok [([1], [2])]"
proof -
  obtain n where "un_file_ok None no_crc unit_des unit_des n [([1], [2])] n [([1], [2])] sample_saved" "n \<le> 1" by (rule sample_saved_ok)
  from get_range_filters [OF this(1), of False 100 no_root unit_ser unit_ser "(Included [1], Excluded [2])"] this(2)
  show ?thesis by (auto simp: seen_def range_contains_def)
qed

text \<open>\<^verbatim>\<open>first\<close> and \<^verbatim>\<open>last\<close> return the entries with the least and the greatest key, or nothing.\<close>

theorem first_and_last:
  fixes tf :: "('e, 'es) unversioned_root tree_file"
  assumes "un_file_ok v crc32 edes esdes nr kr nw kw tf" and "seen tx nr nw < fuel"
  shows "tf_first (un_ops fuel cbrt v crc32 eser esser edes esdes :: (_, _, _, unit) root_ops) tx tf =
      Ok (if seen tx kr kw = [] then None else Some (hd (seen tx kr kw))) \<and>
    tf_last (un_ops fuel cbrt v crc32 eser esser edes esdes :: (_, _, _, unit) root_ops) tx tf =
      Ok (if seen tx kr kw = [] then None else Some (last (seen tx kr kw))) \<and> ksorted (seen tx kr kw)"
proof -
  have "(case xs of [] \<Rightarrow> None | p # _ \<Rightarrow> Some p) = (if xs = [] then None else Some (hd xs))" for xs :: "(bytes \<times> bytes) list"
    by (cases xs) simp_all
  then show ?thesis
    using un_first_last [OF assms, of cbrt eser esser, where 'cs = unit] assms(1) un_holds_sorted
    by (auto simp: un_file_ok_def seen_def hd_rev)
qed

theorem first_and_last_witness:
  "tf_first (sample_ops :: (_, _, _, unit) root_ops) False sample_saved = Ok (Some ([1], [2])) \<and>
   tf_last (sample_ops :: (_, _, _, unit) root_ops) False sample_file = Ok None"
proof -
  obtain n where "un_file_ok None no_crc unit_des unit_des n [([1], [2])] n [([1], [2])] sample_saved" "n \<le> 1" by (rule sample_saved_ok)
  with first_and_last [OF this(1), of False 100 no_root unit_ser unit_ser]
    first_and_last [OF sample_file_ok, of False 100 no_root unit_ser unit_ser]
  show ?thesis by (auto simp: seen_def)
qed

section \<open>Compaction\<close>

text \<open>
  C25. Compaction keeps the contents: when copying a tree to a new file succeeds, the copied root holds, in the
  new file, the same keys with the same values, in a well-formed tree of the same height. The nodes of the source
  are read with their checksums validated.
\<close>

theorem compaction_keeps_contents:
  fixes t :: "('e, 'es) unversioned_root"
  assumes tree: "un_tree v eser edes esser esdes" and w: "copies_ok v crc32 src ((), copied, w)"
    and root: "root_ok (nf_source (un_format v crc32 eser esser edes esdes src)) (un_id_reducer t) n (un_by_id_root t)"
    and stores: "un_stores v crc32 src (contents (nf_source (un_format v crc32 eser esser edes esdes src)) n (un_by_id_root t)) kv"
    and run: "un_copy_data_to fuel v crc32 eser esser edes esdes True src t copied w = (Ok (), t', copied', w')" and fits: "pw_fits w'"
  shows "un_holds v crc32 edes esdes n (pw_image w') t' kv"
proof -
  let ?xs = "contents (nf_source (un_format v crc32 eser esser edes esdes src)) n (un_by_id_root t)"
  let ?ys = "contents (un_node v crc32 edes esdes (pw_image w')) n (un_by_id_root t')"
  from un_tree.un_compaction_ok [OF tree w root run fits]
  have copy: "root_ok (un_node v crc32 edes esdes (pw_image w')) (un_id_reducer t') n (un_by_id_root t')"
    "list_all2 (\<lambda>p q. fst p = fst q \<and> un_moved v crc32 src w' (snd p) (snd q)) ?xs ?ys"
    by (simp_all add: un_image_eq)
  have moved: "un_stored v crc32 (pw_image w') y z"
    if xy: "fst x = fst y \<and> un_moved v crc32 src w' (snd x) (snd y)" and xz: "un_stored v crc32 src x z" for x y z
  proof -
    from xy xz obtain b where "chunk_at v crc32 True src (u_position (snd x)) = Ok b"
      "chunk_at v crc32 False (pw_image w') (u_position (snd y)) = Ok b" "u_position (snd y) \<noteq> 0"
      by (auto simp: un_moved_def same_chunk_def un_stored_def image_chunk_def)
    with xy xz chunk_at_unvalidated [OF this(1)] show ?thesis by (auto simp: un_stored_def un_moved_def)
  qed
  have flipped: "list_all2 (\<lambda>q p. fst p = fst q \<and> un_moved v crc32 src w' (snd p) (snd q)) ?ys ?xs"
    using copy(2) by (simp add: list_all2_conv_all_nth)
  have "list_all2 (un_stored v crc32 (pw_image w')) ?ys kv"
    by (rule list_all2_trans [OF _ flipped stores [unfolded un_stores_def]]) (rule moved)
  with copy(1) show ?thesis by (simp add: un_holds_def un_stores_def)
qed

definition compacted_source :: bytes where
  "compacted_source = [0] @ chunk_bytes no_crc [2] @ []"

definition compacted_root :: "(unit, unit) unversioned_root" where
  "compacted_root = \<lparr>un_transaction_id = Some 0, un_by_id_root = BTreeEntry False (Leaf [KeyEntry [1] \<lparr>u_value_length = 1, u_position = 1, u_embedded = ()\<rparr>]),
     un_reducer = no_index\<rparr>"

theorem compaction_keeps_contents_witness:
  "\<exists>t' copied' w'. un_copy_data_to 1 None no_crc unit_ser unit_ser unit_des unit_des True compacted_source compacted_root Map.empty
      empty_writer = (Ok (), t', copied', w') \<and> un_holds None no_crc unit_des unit_des 0 (pw_image w') t' [([1], [2])]"
proof -
  have w: "pw_inv empty_writer" "encrypt_with None [2] = Ok [2]" "length [2 :: u8] < 2 ^ 32"
    by (simp_all add: pw_inv_def encrypt_with_def empty_writer_def)
  then obtain w' where w': "write_chunk None no_crc [2] empty_writer = (Ok (of_nat (length (pw_image empty_writer))), w')"
    and app: "pw_appends (chunk_bytes no_crc [2]) empty_writer w'" by (rule write_chunk_ok)
  have at: "of_nat (length (pw_image empty_writer)) = (1 :: u64)" by (simp add: pw_image_def empty_writer_def)
  have chunk: "chunk_at None no_crc b compacted_source 1 = Ok [2]" for b
    using chunk_at_here [of "[2]" None "[2]" "[0]" no_crc b "[]"] by (simp add: compacted_source_def decrypt_with_def)
  obtain t' copied' where run: "un_copy_data_to 1 None no_crc unit_ser unit_ser unit_des unit_des True compacted_source compacted_root
      Map.empty empty_writer = (Ok (), t', copied', w')"
    using w' [unfolded at] chunk by (simp add: un_copy_data_to_def compacted_root_def copy_key_entry_def un_copy_callback_def copy_chunk_def res_map_def)
  have "copies_ok None no_crc compacted_source ((), Map.empty, empty_writer)"
    using w by (simp add: copies_ok_def copy_writer_def pw_started_def pw_image_def empty_writer_def)
  moreover have "root_ok (nf_source (un_format None no_crc unit_ser unit_ser unit_des unit_des compacted_source)) (un_id_reducer compacted_root)
      0 (un_by_id_root compacted_root)" by (simp add: root_ok_def compacted_root_def)
  moreover have "un_stores None no_crc compacted_source (contents (nf_source (un_format None no_crc unit_ser unit_ser unit_des unit_des
      compacted_source)) 0 (un_by_id_root compacted_root)) [([1], [2])]"
    using chunk by (simp add: un_stores_def un_stored_def contents_def compacted_root_def)
  moreover have "pw_fits w'" using app by (simp add: pw_appends_def pw_fits_def pw_image_def empty_writer_def)
  ultimately show ?thesis using compaction_keeps_contents [OF un_plain.un_tree_axioms _ _ _ run] run by blast
qed

end
